(* ===== verification/Prelude.thy ===== *)
theory Prelude
  imports Main "HOL-Library.Word"
begin

text \<open>
  Shared ground of the development: the machine types of the 32-bit targets, the error
  codes of \<^verbatim>\<open>include/dummyos/errno.h\<close>, the alignment macros of
  \<^verbatim>\<open>include/libk/utils.h\<close> with their page-sized instances, and the generic lemmas on
  words, modular arithmetic and lists that the component theories use.

  Conventions. A C function that returns 0 or a negated error code is modelled with the
  result type \<open>'a result = errno + 'a\<close> (\<open>Inl e\<close> is \<open>return -e\<close>). Addresses and sizes
  (\<^verbatim>\<open>p_addr_t\<close>, \<^verbatim>\<open>v_addr_t\<close>, \<^verbatim>\<open>size_t\<close>) are 32-bit words, so additions wrap as
  they do on the targets.
\<close>

unbundle bit_operations_syntax

section \<open>Machine types\<close>

type_synonym byte = "8 word"
type_synonym p_addr = "32 word"
type_synonym v_addr = "32 word"
type_synonym size_t = "32 word"

section \<open>Error codes\<close>

datatype errno =
    EPERM | ENOENT | ESRCH | EINTR | EIO | ENXIO | ENOEXEC | EBADF | ECHILD | EAGAIN
  | ENOMEM | EFAULT | ENOTBLK | EBUSY | EEXIST | ENODEV | ENOTDIR | EISDIR | EINVAL
  | EMFILE | ENOTTY | ENOSPC | ESPIPE | EROFS | EPIPE | ERANGE | ENAMETOOLONG | ELOOP
  | EADDRINUSE | EOVERFLOW

type_synonym 'a result = "errno + 'a"

section \<open>Collections of rewrite rules\<close>

named_theorems word_nat_simps
  \<open>conversions of word operations to natural numbers\<close>

section \<open>Words and natural numbers\<close>

lemma word_and_not_mask_eq: "v AND NOT (mask n) = v - take_bit n v" for v :: "'a::len word"
proof -
  have "(v AND NOT (mask n)) + (v AND mask n) = (v AND NOT (mask n)) OR (v AND mask n)"
    by (rule disjunctive_add) (simp add: bit_simps)
  also have "\<dots> = v"
    by (rule bit_word_eqI) (auto simp: bit_simps)
  finally show ?thesis by (simp add: take_bit_eq_mask algebra_simps)
qed

lemma unat_take_bit_word [word_nat_simps]: "unat (take_bit n v) = unat v mod 2 ^ n"
  for v :: "'a::len word"
  by (metis take_bit_eq_mod unsigned_take_bit_eq)

lemma unat_and_not_mask [word_nat_simps]:
  "unat (v AND NOT (mask n)) = unat v - unat v mod 2 ^ n" for v :: "'a::len word"
proof -
  have "take_bit n v \<le> v"
    by (simp add: word_le_nat_alt unat_take_bit_word)
  then show ?thesis by (simp add: word_and_not_mask_eq unat_sub unat_take_bit_word)
qed

lemma unat_and_mask [word_nat_simps]: "unat (v AND mask n) = unat v mod 2 ^ n"
  for v :: "'a::len word"
  by (simp add: unat_take_bit_word flip: take_bit_eq_mask)

section \<open>The alignment macros\<close>

definition align_down :: "32 word \<Rightarrow> 32 word \<Rightarrow> 32 word" where
  "align_down v alignment = v AND NOT (alignment - 1)"

definition align_up :: "32 word \<Rightarrow> 32 word \<Rightarrow> 32 word" where
  "align_up v alignment = align_down (v + alignment - 1) alignment"

definition is_aligned :: "32 word \<Rightarrow> 32 word \<Rightarrow> bool" where
  "is_aligned v alignment \<longleftrightarrow> (v AND (alignment - 1)) = 0"

lemma unat_align_down: "unat (align_down v (2 ^ n)) = unat v - unat v mod 2 ^ n"
  by (simp add: align_down_def unat_and_not_mask flip: mask_eq_decr_exp)

lemma is_aligned_iff_dvd: "is_aligned v (2 ^ n) \<longleftrightarrow> 2 ^ n dvd unat v"
proof -
  have "is_aligned v (2 ^ n) \<longleftrightarrow> unat (v AND mask n) = 0"
    by (simp add: is_aligned_def mask_eq_decr_exp unat_eq_0)
  then show ?thesis by (simp add: unat_and_mask mod_eq_0_iff_dvd)
qed

lemma unat_two_power: "n < 32 \<Longrightarrow> unat (2 ^ n :: 32 word) = 2 ^ n"
  using unat_of_nat [of "2 ^ n", where 'a = 32] power_strict_increasing [of n 32 "2 :: nat"]
  by simp

lemma unat_32_bound: "unat (w :: 32 word) < 4294967296"
  using unsigned_less [of w, where ?'a = nat] by simp

lemma unat_add_no_wrap: "unat (a :: 32 word) + unat b < 2 ^ 32 \<Longrightarrow> unat (a + b) = unat a + unat b"
  by (simp add: unat_word_ariths)

lemma unat_mult_no_wrap: "unat (a :: 32 word) * unat b < 2 ^ 32 \<Longrightarrow> unat (a * b) = unat a * unat b"
  by (simp add: unat_word_ariths)

lemma unat_align_up:
  assumes "unat v + 2 ^ n \<le> 2 ^ 32" and "n < 32"
  shows "unat (align_up v (2 ^ n)) = (unat v + 2 ^ n - 1) div 2 ^ n * 2 ^ n"
proof -
  have pow: "unat (2 ^ n :: 32 word) = 2 ^ n"
    using assms(2) by (rule unat_two_power)
  have "(1 :: 32 word) \<le> 2 ^ n"
    using pow by (simp add: word_le_nat_alt)
  then have "unat (2 ^ n - 1 :: 32 word) = 2 ^ n - 1"
    using pow by (simp add: unat_sub)
  moreover have "unat v + (2 ^ n - 1) < 2 ^ 32"
    using assms(1) by (simp add: less_le_trans [OF _ assms(1)])
  ultimately have "unat (v + (2 ^ n - 1)) = unat v + (2 ^ n - 1)"
    by (simp add: unat_add_no_wrap)
  then have "unat (v + 2 ^ n - 1) = unat v + 2 ^ n - 1"
    by (simp add: add_diff_eq)
  then show ?thesis
    by (simp add: align_up_def unat_align_down minus_mod_eq_div_mult)
qed

abbreviation PAGE_SIZE :: size_t where
  "PAGE_SIZE \<equiv> 0x1000"

definition page_align_down :: "p_addr \<Rightarrow> p_addr" where
  "page_align_down addr = align_down addr PAGE_SIZE"

definition page_align_up :: "p_addr \<Rightarrow> p_addr" where
  "page_align_up addr = align_up addr PAGE_SIZE"

definition page_is_aligned :: "p_addr \<Rightarrow> bool" where
  "page_is_aligned addr = is_aligned addr PAGE_SIZE"

lemma unat_page_align_down: "unat (page_align_down v) = unat v div 4096 * 4096"
  using unat_align_down [of v 12] by (simp add: page_align_down_def minus_mod_eq_div_mult)

lemma unat_page_align_up:
  "unat v + 4096 \<le> 2 ^ 32 \<Longrightarrow> unat (page_align_up v) = (unat v + 4095) div 4096 * 4096"
  using unat_align_up [of v 12] by (simp add: page_align_up_def)

lemma page_is_aligned_iff: "page_is_aligned v \<longleftrightarrow> 4096 dvd unat v"
  using is_aligned_iff_dvd [of v 12] by (simp add: page_is_aligned_def)

end
