(* ===== verification/Libk_List.thy ===== *)
theory Libk_List
  imports Prelude
begin

text \<open>
  The intrusive circular doubly linked list of \<^verbatim>\<open>include/libk/list.h\<close>.

  Every list of the kernel (frames, threads, wait queues, timers, mappings, files) is made of
  \<^verbatim>\<open>list_node_t\<close> members embedded in other structures, so the model is a heap: the two pointer
  fields of every node, indexed by the address of the node.  Address 0 is NULL.  The operations are
  the assignments of the source in their order.  \<open>is_list h l xs\<close> says that the sentinel \<open>l\<close> heads a
  well-formed circular list with the nodes \<open>xs\<close>; each operation is shown to act on \<open>xs\<close> as the
  corresponding operation of HOL lists and to leave every other list of the heap as it is.
\<close>

section \<open>Nodes and the heap\<close>

type_synonym node = nat

record list_heap =
  prev :: "node \<Rightarrow> node"
  nxt :: "node \<Rightarrow> node"

abbreviation (input) NULL :: node where
  "NULL \<equiv> 0"

abbreviation set_prev :: "node \<Rightarrow> node \<Rightarrow> list_heap \<Rightarrow> list_heap" where
  "set_prev n p h \<equiv> h\<lparr>prev := (prev h)(n := p)\<rparr>"

abbreviation set_next :: "node \<Rightarrow> node \<Rightarrow> list_heap \<Rightarrow> list_heap" where
  "set_next n p h \<equiv> h\<lparr>nxt := (nxt h)(n := p)\<rparr>"

section \<open>The operations\<close>

definition list_node_init :: "node \<Rightarrow> list_heap \<Rightarrow> list_heap" where
  "list_node_init n h =
     (let h = set_prev n NULL h
      in set_next n NULL h)"

definition list_init :: "node \<Rightarrow> list_heap \<Rightarrow> list_heap" where
  "list_init l h =
     (let h = set_prev l l h
      in set_next l l h)"

definition list_front :: "list_heap \<Rightarrow> node \<Rightarrow> node" where
  "list_front h l = nxt h l"

definition list_back :: "list_heap \<Rightarrow> node \<Rightarrow> node" where
  "list_back h l = prev h l"

definition list_begin :: "list_heap \<Rightarrow> node \<Rightarrow> node" where
  "list_begin h l = list_front h l"

definition list_end :: "node \<Rightarrow> node" where
  "list_end l = l"

definition list_it_next :: "list_heap \<Rightarrow> node \<Rightarrow> node" where
  "list_it_next h it = nxt h it"

fun list_get_loop :: "list_heap \<Rightarrow> node \<Rightarrow> node \<Rightarrow> nat \<Rightarrow> node" where
  "list_get_loop h l it 0 = it"
| "list_get_loop h l it (Suc n) =
     (if it \<noteq> list_end l then list_get_loop h l (list_it_next h it) n else it)"

definition list_get :: "list_heap \<Rightarrow> node \<Rightarrow> nat \<Rightarrow> node" where
  "list_get h l n = list_get_loop h l (list_begin h l) n"

definition list_node_chained :: "list_heap \<Rightarrow> node \<Rightarrow> bool" where
  "list_node_chained h n \<longleftrightarrow> prev h n \<noteq> NULL \<and> nxt h n \<noteq> NULL"

definition list_empty :: "list_heap \<Rightarrow> node \<Rightarrow> bool" where
  "list_empty h l \<longleftrightarrow> nxt h l = l"

definition list_insert_after :: "node \<Rightarrow> node \<Rightarrow> list_heap \<Rightarrow> list_heap" where
  "list_insert_after it v h =
     (let h = set_prev v it h;
          h = set_next v (nxt h it) h;
          h = set_prev (nxt h it) v h
      in set_next it v h)"

definition list_push_front :: "node \<Rightarrow> node \<Rightarrow> list_heap \<Rightarrow> list_heap" where
  "list_push_front l v h = list_insert_after l v h"

definition list_insert_before :: "node \<Rightarrow> node \<Rightarrow> list_heap \<Rightarrow> list_heap" where
  "list_insert_before it v h =
     (let h = set_prev v (prev h it) h;
          h = set_next v it h;
          h = set_next (prev h it) v h
      in set_prev it v h)"

definition list_push_back :: "node \<Rightarrow> node \<Rightarrow> list_heap \<Rightarrow> list_heap" where
  "list_push_back l v h = list_insert_before l v h"

definition list_pop_front :: "node \<Rightarrow> list_heap \<Rightarrow> list_heap" where
  "list_pop_front l h =
     (let del = nxt h l;
          h = set_next l (nxt h del) h;
          h = set_prev (nxt h l) l h;
          h = set_prev del NULL h
      in set_next del NULL h)"

definition list_pop_back :: "node \<Rightarrow> list_heap \<Rightarrow> list_heap" where
  "list_pop_back l h =
     (let del = prev h l;
          h = set_prev l (prev h del) h;
          h = set_next (prev h l) l h;
          h = set_prev del NULL h
      in set_next del NULL h)"

definition list_erase :: "node \<Rightarrow> list_heap \<Rightarrow> list_heap" where
  "list_erase del h =
     (let h = set_next (prev h del) (nxt h del) h;
          h = set_prev (nxt h del) (prev h del) h;
          h = set_prev del NULL h
      in set_next del NULL h)"

definition list_clear :: "node \<Rightarrow> list_heap \<Rightarrow> list_heap" where
  "list_clear l h = list_init l h"

text \<open>
  The iteration macros.  A traversal of a damaged list may not end, so the loops carry fuel and
  return \<open>None\<close> when it runs out; \<open>list_foreach_nodes\<close> below shows that one unit more than the
  length of the list is enough.
\<close>

fun list_foreach_loop :: "nat \<Rightarrow> (node \<Rightarrow> node) \<Rightarrow> node \<Rightarrow> node \<Rightarrow> node list option" where
  "list_foreach_loop 0 step l it = None"
| "list_foreach_loop (Suc fuel) step l it =
     (if it = l then Some [] else map_option ((#) it) (list_foreach_loop fuel step l (step it)))"

definition list_foreach :: "nat \<Rightarrow> list_heap \<Rightarrow> node \<Rightarrow> node list option" where
  "list_foreach fuel h l = list_foreach_loop fuel (nxt h) l (nxt h l)"

definition list_foreach_reverse :: "nat \<Rightarrow> list_heap \<Rightarrow> node \<Rightarrow> node list option" where
  "list_foreach_reverse fuel h l = list_foreach_loop fuel (prev h) l (prev h l)"

fun list_foreach_safe_loop ::
  "nat \<Rightarrow> (node \<Rightarrow> list_heap \<Rightarrow> list_heap) \<Rightarrow> node \<Rightarrow> node \<Rightarrow> node \<Rightarrow> list_heap \<Rightarrow> list_heap option" where
  "list_foreach_safe_loop 0 body l it next h = None"
| "list_foreach_safe_loop (Suc fuel) body l it next h =
     (if it = l then Some h
      else let h = body it h in list_foreach_safe_loop fuel body l next (nxt h next) h)"

definition list_foreach_safe ::
  "nat \<Rightarrow> (node \<Rightarrow> list_heap \<Rightarrow> list_heap) \<Rightarrow> node \<Rightarrow> list_heap \<Rightarrow> list_heap option" where
  "list_foreach_safe fuel body l h =
     (let it = nxt h l; next = nxt h it in list_foreach_safe_loop fuel body l it next h)"

section \<open>The shape invariant\<close>

text \<open>\<open>lseg h a xs b\<close>: following \<open>next\<close> from \<open>a\<close> visits \<open>xs\<close> and then \<open>b\<close>, and \<open>prev\<close> goes back.\<close>

fun lseg :: "list_heap \<Rightarrow> node \<Rightarrow> node list \<Rightarrow> node \<Rightarrow> bool" where
  "lseg h a [] b \<longleftrightarrow> nxt h a = b \<and> prev h b = a"
| "lseg h a (x # xs) b \<longleftrightarrow> nxt h a = x \<and> prev h x = a \<and> lseg h x xs b"

definition is_list :: "list_heap \<Rightarrow> node \<Rightarrow> node list \<Rightarrow> bool" where
  "is_list h l xs \<longleftrightarrow> distinct (l # xs) \<and> NULL \<notin> set (l # xs) \<and> lseg h l xs l"

lemma lseg_append: "lseg h a (xs @ x # ys) b \<longleftrightarrow> lseg h a xs x \<and> lseg h x ys b"
  by (induction xs arbitrary: a) auto

lemma lseg_first: "lseg h a xs b \<Longrightarrow> nxt h a = hd (xs @ [b])"
  by (cases xs) auto

lemma lseg_last: "lseg h a xs b \<Longrightarrow> prev h b = last (a # xs)"
  by (induction xs arbitrary: a) auto

lemma lseg_set_next [simp]: "n \<noteq> a \<Longrightarrow> n \<notin> set xs \<Longrightarrow> lseg (set_next n p h) a xs b = lseg h a xs b"
  by (induction xs arbitrary: a) auto

lemma lseg_set_prev [simp]: "n \<noteq> b \<Longrightarrow> n \<notin> set xs \<Longrightarrow> lseg (set_prev n p h) a xs b = lseg h a xs b"
  by (induction xs arbitrary: a) auto

lemma lseg_cong:
  "\<lbrakk> \<And>n. n \<in> set (a # xs) \<Longrightarrow> nxt h' n = nxt h n; \<And>n. n \<in> set (xs @ [b]) \<Longrightarrow> prev h' n = prev h n \<rbrakk>
    \<Longrightarrow> lseg h' a xs b = lseg h a xs b"
  by (induction xs arbitrary: a) auto

lemma is_list_cong:
  "\<lbrakk> \<And>n. n \<in> set (l # xs) \<Longrightarrow> nxt h' n = nxt h n \<and> prev h' n = prev h n \<rbrakk>
    \<Longrightarrow> is_list h' l xs = is_list h l xs"
  unfolding is_list_def using lseg_cong [of l xs h' h l] by auto

lemma lseg_frameI [intro]:
  "\<lbrakk> lseg h a xs b; \<And>n. n = a \<or> n \<in> set xs \<Longrightarrow> g n = nxt h n; \<And>n. n = b \<or> n \<in> set xs \<Longrightarrow> f n = prev h n \<rbrakk>
    \<Longrightarrow> lseg (h\<lparr>prev := f, nxt := g\<rparr>) a xs b"
  using lseg_cong [of a xs "h\<lparr>prev := f, nxt := g\<rparr>" h b] by auto

lemma is_list_iff_parts:
  "is_list h l (xs @ ys) \<longleftrightarrow>
     distinct (l # xs @ ys) \<and> NULL \<notin> set (l # xs @ ys) \<and>
     (\<exists>m. m = last (l # xs) \<and> (xs \<noteq> [] \<longrightarrow> lseg h l (butlast xs) m) \<and> lseg h m ys l)"
  by (cases xs rule: rev_cases) (auto simp: is_list_def lseg_append)

text \<open>The two pointer surgeries every modifier reduces to.\<close>

definition splice :: "node \<Rightarrow> node \<Rightarrow> node \<Rightarrow> list_heap \<Rightarrow> list_heap" where
  "splice a v b h = set_next a v (set_prev b v (set_next v b (set_prev v a h)))"

definition unsplice :: "node \<Rightarrow> node \<Rightarrow> node \<Rightarrow> list_heap \<Rightarrow> list_heap" where
  "unsplice a d b h = set_next d NULL (set_prev d NULL (set_prev b a (set_next a b h)))"

lemma insert_after_splice: "it \<noteq> v \<Longrightarrow> list_insert_after it v h = splice it v (nxt h it) h"
  by (simp add: list_insert_after_def splice_def)

lemma insert_before_splice: "it \<noteq> v \<Longrightarrow> list_insert_before it v h = splice (prev h it) v it h"
  by (simp add: list_insert_before_def splice_def)

lemma pop_front_unsplice:
  "nxt h l \<noteq> l \<Longrightarrow> list_pop_front l h = unsplice l (nxt h l) (nxt h (nxt h l)) h"
  by (simp add: list_pop_front_def unsplice_def Let_def)

lemma pop_back_unsplice:
  "prev h l \<noteq> l \<Longrightarrow> list_pop_back l h = unsplice (prev h (prev h l)) (prev h l) l h"
  by (simp add: list_pop_back_def unsplice_def Let_def)

lemma erase_unsplice:
  "prev h d \<noteq> d \<Longrightarrow> list_erase d h = unsplice (prev h d) d (nxt h d) h"
  by (simp add: list_erase_def unsplice_def Let_def)

lemma splice_is_list:
  assumes "is_list h l (xs @ ys)" "v \<notin> set (l # xs @ ys)" "v \<noteq> NULL"
  shows "is_list (splice (last (l # xs)) v (hd (ys @ [l])) h) l (xs @ v # ys)"
  using assms
  by (cases xs rule: rev_cases; cases ys)
    (auto simp: is_list_def splice_def lseg_append)

lemma unsplice_is_list:
  assumes "is_list h l (xs @ d # ys)"
  shows "is_list (unsplice (last (l # xs)) d (hd (ys @ [l])) h) l (xs @ ys)"
  using assms
  by (cases xs rule: rev_cases; cases ys)
    (auto simp: is_list_def unsplice_def lseg_append)

lemma is_list_neighbours:
  assumes "is_list h l (xs @ d # ys)"
  shows "prev h d = last (l # xs)" and "nxt h d = hd (ys @ [l])"
    and "d \<noteq> l" and "prev h d \<noteq> d"
  using assms lseg_first [of h d ys l] lseg_last [of h l xs d]
  by (auto simp: is_list_def lseg_append)

section \<open>Each operation acts on the represented list\<close>

lemma list_init_is_list: "l \<noteq> NULL \<Longrightarrow> is_list (list_init l h) l []"
  by (simp add: is_list_def list_init_def)

lemma list_empty_iff: "is_list h l xs \<Longrightarrow> list_empty h l \<longleftrightarrow> xs = []"
  by (cases xs) (auto simp: is_list_def list_empty_def)

lemma list_front_hd: "is_list h l xs \<Longrightarrow> list_front h l = hd (xs @ [l])"
  by (simp add: is_list_def list_front_def lseg_first)

lemma list_back_last: "is_list h l xs \<Longrightarrow> list_back h l = last (l # xs)"
  using lseg_last by (simp add: is_list_def list_back_def)

lemma list_insert_after_is_list:
  assumes "is_list h l (xs @ ys)" "v \<notin> set (l # xs @ ys)" "v \<noteq> NULL"
  shows "is_list (list_insert_after (last (l # xs)) v h) l (xs @ v # ys)"
proof -
  have "nxt h (last (l # xs)) = hd (ys @ [l])"
    using assms(1) by (auto simp: is_list_iff_parts dest: lseg_first)
  moreover have "last (l # xs) \<noteq> v"
    using assms(2) by auto
  ultimately show ?thesis
    using splice_is_list [OF assms] by (metis insert_after_splice)
qed

lemma list_insert_before_is_list:
  assumes "is_list h l (xs @ ys)" "v \<notin> set (l # xs @ ys)" "v \<noteq> NULL"
  shows "is_list (list_insert_before (hd (ys @ [l])) v h) l (xs @ v # ys)"
proof -
  have "prev h (hd (ys @ [l])) = last (l # xs)"
    using assms(1) by (cases ys) (auto simp: is_list_def lseg_append dest: lseg_last)
  moreover have "hd (ys @ [l]) \<noteq> v"
    using assms(2) by (cases ys) auto
  ultimately show ?thesis
    using splice_is_list [OF assms] by (metis insert_before_splice)
qed

lemma list_push_front_is_list:
  "\<lbrakk> is_list h l xs; v \<notin> set (l # xs); v \<noteq> NULL \<rbrakk> \<Longrightarrow> is_list (list_push_front l v h) l (v # xs)"
  using list_insert_after_is_list [of h l "[]" xs v] by (simp add: list_push_front_def)

lemma list_push_back_is_list:
  "\<lbrakk> is_list h l xs; v \<notin> set (l # xs); v \<noteq> NULL \<rbrakk> \<Longrightarrow> is_list (list_push_back l v h) l (xs @ [v])"
  using list_insert_before_is_list [of h l xs "[]" v] by (simp add: list_push_back_def)

lemma list_pop_front_is_list:
  assumes "is_list h l (x # xs)"
  shows "is_list (list_pop_front l h) l xs"
proof -
  have "nxt h l = x" "x \<noteq> l" "nxt h x = hd (xs @ [l])"
    using assms is_list_neighbours [of h l "[]" x xs] by (auto simp: is_list_def)
  then show ?thesis
    using unsplice_is_list [of h l "[]" x xs] assms by (simp add: pop_front_unsplice)
qed

lemma list_pop_back_is_list:
  assumes "is_list h l (xs @ [x])"
  shows "is_list (list_pop_back l h) l xs"
proof -
  have "prev h l = x" "x \<noteq> l" "prev h x = last (l # xs)"
    using assms is_list_neighbours [of h l xs x "[]"] lseg_last [of h l "xs @ [x]" l]
    by (auto simp: is_list_def)
  then show ?thesis
    using unsplice_is_list [of h l xs x "[]"] assms by (simp add: pop_back_unsplice)
qed

lemma list_erase_is_list:
  assumes "is_list h l (xs @ d # ys)"
  shows "is_list (list_erase d h) l (xs @ ys)"
  using unsplice_is_list [OF assms] is_list_neighbours [OF assms]
  by (metis erase_unsplice)

lemma list_erase_remove1:
  assumes "is_list h l xs" "d \<in> set xs"
  shows "is_list (list_erase d h) l (remove1 d xs)"
proof -
  obtain ys zs where "xs = ys @ d # zs" "d \<notin> set ys"
    using assms(2) by (meson split_list_first)
  then show ?thesis
    using list_erase_is_list [of h l ys d zs] assms(1) by (simp add: remove1_append)
qed

section \<open>Frame: the other lists of the heap\<close>

lemma splice_frame: "{a, v, b} \<inter> set (m # ys) = {} \<Longrightarrow> is_list (splice a v b h) m ys = is_list h m ys"
  by (rule is_list_cong) (auto simp: splice_def)

lemma unsplice_frame: "{a, d, b} \<inter> set (m # ys) = {} \<Longrightarrow> is_list (unsplice a d b h) m ys = is_list h m ys"
  by (rule is_list_cong) (auto simp: unsplice_def)

lemma is_list_closed:
  assumes "is_list h l xs" and "n \<in> set (l # xs)"
  shows "prev h n \<in> set (l # xs)" and "nxt h n \<in> set (l # xs)"
proof -
  have "prev h n \<in> set (l # xs) \<and> nxt h n \<in> set (l # xs)"
  proof (cases "n = l")
    case True
    then show ?thesis
      using assms(1) list_front_hd [OF assms(1)] list_back_last [OF assms(1)]
      by (cases xs) (auto simp: list_front_def list_back_def)
  next
    case False
    then obtain ys zs where "xs = ys @ n # zs"
      using assms(2) by (auto dest: split_list)
    then show ?thesis
      using is_list_neighbours [of h l ys n zs] assms(1)
      by (cases zs) (auto simp: last_in_set split: if_splits)
  qed
  then show "prev h n \<in> set (l # xs)" and "nxt h n \<in> set (l # xs)" by auto
qed

lemma list_push_back_frame:
  assumes "is_list h l xs" "v \<notin> set (l # xs)" "set (l # xs) \<inter> set (m # ys) = {}" "v \<notin> set (m # ys)"
  shows "is_list (list_push_back l v h) m ys = is_list h m ys"
  using assms is_list_closed [OF assms(1), of l] splice_frame [of "prev h l" v l m ys h]
  by (auto simp: list_push_back_def insert_before_splice)

lemma list_push_front_frame:
  assumes "is_list h l xs" "v \<notin> set (l # xs)" "set (l # xs) \<inter> set (m # ys) = {}" "v \<notin> set (m # ys)"
  shows "is_list (list_push_front l v h) m ys = is_list h m ys"
  using assms is_list_closed [OF assms(1), of l] splice_frame [of l v "nxt h l" m ys h]
  by (auto simp: list_push_front_def insert_after_splice)

lemma list_erase_frame:
  assumes "is_list h l xs" "d \<in> set xs" "set (l # xs) \<inter> set (m # ys) = {}"
  shows "is_list (list_erase d h) m ys = is_list h m ys"
proof -
  obtain us vs where "xs = us @ d # vs"
    using assms(2) by (meson split_list)
  then have "prev h d \<noteq> d"
    using assms(1) is_list_neighbours by blast
  moreover have "{prev h d, d, nxt h d} \<subseteq> set (l # xs)"
    using is_list_closed [OF assms(1), of d] assms(2) by simp
  ultimately show ?thesis
    using assms(3) unsplice_frame [of "prev h d" d "nxt h d" m ys h]
    by (metis erase_unsplice disjoint_iff subset_iff)
qed

lemma list_pop_front_erase:
  "is_list h l (x # xs) \<Longrightarrow> list_pop_front l h = list_erase x h"
  using is_list_neighbours [of h l "[]" x xs]
  by (auto simp: is_list_def pop_front_unsplice erase_unsplice)

lemma list_pop_front_frame:
  "\<lbrakk> is_list h l (x # xs); set (l # x # xs) \<inter> set (m # ys) = {} \<rbrakk>
    \<Longrightarrow> is_list (list_pop_front l h) m ys = is_list h m ys"
  using list_erase_frame [of h l "x # xs" x m ys] list_pop_front_erase [of h l x xs] by simp

section \<open>Traversals\<close>

lemma list_foreach_loop_lseg:
  "\<lbrakk> lseg h a xs l; l \<notin> set xs; length xs < fuel \<rbrakk> \<Longrightarrow> list_foreach_loop fuel (nxt h) l (nxt h a) = Some xs"
proof (induction xs arbitrary: a fuel)
  case Nil
  then show ?case by (cases fuel) auto
next
  case (Cons x xs)
  then show ?case by (cases fuel) auto
qed

lemma list_foreach_reverse_loop_lseg:
  "\<lbrakk> lseg h l xs b; l \<notin> set xs; length xs < fuel \<rbrakk>
    \<Longrightarrow> list_foreach_loop fuel (prev h) l (prev h b) = Some (rev xs)"
proof (induction xs arbitrary: b fuel rule: rev_induct)
  case Nil
  then show ?case by (cases fuel) auto
next
  case (snoc x xs)
  then show ?case by (cases fuel) (auto simp: lseg_append)
qed

lemma list_foreach_nodes: "\<lbrakk> is_list h l xs; length xs < fuel \<rbrakk> \<Longrightarrow> list_foreach fuel h l = Some xs"
  by (simp add: is_list_def list_foreach_def list_foreach_loop_lseg)

lemma list_foreach_reverse_nodes:
  "\<lbrakk> is_list h l xs; length xs < fuel \<rbrakk> \<Longrightarrow> list_foreach_reverse fuel h l = Some (rev xs)"
  by (simp add: is_list_def list_foreach_reverse_def list_foreach_reverse_loop_lseg)

lemma list_get_loop_lseg:
  "\<lbrakk> lseg h a xs l; l \<notin> set xs \<rbrakk> \<Longrightarrow> list_get_loop h l (nxt h a) n = (xs @ [l]) ! min n (length xs)"
proof (induction xs arbitrary: a n)
  case Nil
  then show ?case by (cases n) (auto simp: list_end_def)
next
  case (Cons x xs)
  then show ?case by (cases n) (auto simp: list_end_def list_it_next_def)
qed

lemma list_get_nth: "is_list h l xs \<Longrightarrow> list_get h l n = (xs @ [l]) ! min n (length xs)"
  by (simp add: is_list_def list_get_def list_begin_def list_front_def list_get_loop_lseg)

lemma list_member_chained: "\<lbrakk> is_list h l xs; n \<in> set xs \<rbrakk> \<Longrightarrow> list_node_chained h n"
  using is_list_closed [of h l xs n] unfolding is_list_def list_node_chained_def
  by (metis list.set_intros(2))

lemma list_erase_unchains: "\<not> list_node_chained (list_erase d h) d"
  by (simp add: list_erase_def list_node_chained_def Let_def)

text \<open>The safe traversal survives a body that unlinks the current node: it empties the list.\<close>

lemma list_foreach_safe_erase_loop:
  "\<lbrakk> is_list h l xs; length xs < fuel \<rbrakk> \<Longrightarrow>
     \<exists>h'. list_foreach_safe_loop fuel list_erase l (hd (xs @ [l])) (nxt h (hd (xs @ [l]))) h = Some h' \<and> is_list h' l []"
proof (induction xs arbitrary: h fuel)
  case Nil
  then show ?case by (cases fuel) auto
next
  case (Cons x xs)
  have nb: "nxt h x = hd (xs @ [l])" "x \<noteq> l"
    using is_list_neighbours [of h l "[]" x xs] Cons.prems(1) by auto
  have erased: "is_list (list_erase x h) l xs"
    using list_erase_is_list [of h l "[]" x xs] Cons.prems(1) by simp
  obtain f where f: "fuel = Suc f"
    using Cons.prems(2) by (cases fuel) auto
  show ?case
    using Cons.IH [OF erased, of f] Cons.prems(2) nb f by (simp add: Let_def)
qed

lemma list_foreach_safe_erase:
  assumes "is_list h l xs" "length xs < fuel"
  shows "\<exists>h'. list_foreach_safe fuel list_erase l h = Some h' \<and> is_list h' l []"
  using list_foreach_safe_erase_loop [OF assms] list_front_hd [OF assms(1)]
  by (simp add: list_foreach_safe_def list_front_def Let_def)

section \<open>The list interface\<close>

text \<open>
  What the rest of the kernel relies on: the lists of one heap behave as disjoint sequences of
  nodes.  The lemmas of the locale are the ways the clients use them: filling a list, taking its
  front to the back of another list, and rotating it.
\<close>

locale node_lists =
  fixes rep :: "'h \<Rightarrow> 'n \<Rightarrow> 'n list \<Rightarrow> bool"
    and null :: 'n
    and empty :: "'h \<Rightarrow> 'n \<Rightarrow> bool"
    and front :: "'h \<Rightarrow> 'n \<Rightarrow> 'n"
    and push_back :: "'n \<Rightarrow> 'n \<Rightarrow> 'h \<Rightarrow> 'h"
    and push_front :: "'n \<Rightarrow> 'n \<Rightarrow> 'h \<Rightarrow> 'h"
    and pop_front :: "'n \<Rightarrow> 'h \<Rightarrow> 'h"
    and erase :: "'n \<Rightarrow> 'h \<Rightarrow> 'h"
  assumes rep_distinct: "rep h l xs \<Longrightarrow> distinct (l # xs) \<and> null \<notin> set (l # xs)"
    and empty_law: "rep h l xs \<Longrightarrow> empty h l \<longleftrightarrow> xs = []"
    and front_law: "rep h l (x # xs) \<Longrightarrow> front h l = x"
    and push_back_law:
      "\<lbrakk> rep h l xs; v \<notin> set (l # xs); v \<noteq> null \<rbrakk> \<Longrightarrow> rep (push_back l v h) l (xs @ [v])"
    and push_front_law:
      "\<lbrakk> rep h l xs; v \<notin> set (l # xs); v \<noteq> null \<rbrakk> \<Longrightarrow> rep (push_front l v h) l (v # xs)"
    and pop_front_law: "rep h l (x # xs) \<Longrightarrow> rep (pop_front l h) l xs"
    and erase_law: "\<lbrakk> rep h l xs; d \<in> set xs \<rbrakk> \<Longrightarrow> rep (erase d h) l (remove1 d xs)"
    and push_back_other:
      "\<lbrakk> rep h l xs; rep h m ys; set (l # xs) \<inter> set (m # ys) = {}; v \<notin> set (l # xs); v \<notin> set (m # ys) \<rbrakk>
        \<Longrightarrow> rep (push_back l v h) m ys"
    and push_front_other:
      "\<lbrakk> rep h l xs; rep h m ys; set (l # xs) \<inter> set (m # ys) = {}; v \<notin> set (l # xs); v \<notin> set (m # ys) \<rbrakk>
        \<Longrightarrow> rep (push_front l v h) m ys"
    and pop_front_other:
      "\<lbrakk> rep h l (x # xs); rep h m ys; set (l # x # xs) \<inter> set (m # ys) = {} \<rbrakk> \<Longrightarrow> rep (pop_front l h) m ys"
    and erase_other:
      "\<lbrakk> rep h l xs; d \<in> set xs; rep h m ys; set (l # xs) \<inter> set (m # ys) = {} \<rbrakk> \<Longrightarrow> rep (erase d h) m ys"
begin

lemma push_back_all:
  "\<lbrakk> rep h l xs; distinct vs; set vs \<inter> set (l # xs) = {}; null \<notin> set vs \<rbrakk>
    \<Longrightarrow> rep (fold (push_back l) vs h) l (xs @ vs)"
proof (induction vs arbitrary: h xs)
  case (Cons v vs)
  have "rep (push_back l v h) l (xs @ [v])"
    using Cons.prems by (intro push_back_law) auto
  from Cons.IH [OF this] show ?case using Cons.prems by auto
qed simp

lemma pop_front_many: "rep h l (xs @ ys) \<Longrightarrow> rep ((pop_front l ^^ length xs) h) l ys"
proof (induction xs arbitrary: h)
  case (Cons x xs)
  then show ?case using pop_front_law [of h l x "xs @ ys"] by (simp add: funpow_swap1)
qed simp

lemma fifo:
  assumes "rep h l []" "distinct vs" "l \<notin> set vs" "null \<notin> set vs" "k < length vs"
  shows "front ((pop_front l ^^ k) (fold (push_back l) vs h)) l = vs ! k"
proof -
  have "rep (fold (push_back l) vs h) l (take k vs @ drop k vs)"
    using push_back_all [OF assms(1,2)] assms(3,4) by simp
  from pop_front_many [OF this] have "rep ((pop_front l ^^ k) (fold (push_back l) vs h)) l (vs ! k # drop (Suc k) vs)"
    using assms(5) by (simp add: Cons_nth_drop_Suc)
  then show ?thesis by (rule front_law)
qed

lemma move_front_to_back:
  assumes "rep h l (x # xs)" "rep h m ys" "set (l # x # xs) \<inter> set (m # ys) = {}"
  shows "rep (push_back m x (pop_front l h)) l xs" and "rep (push_back m x (pop_front l h)) m (ys @ [x])"
proof -
  have popped: "rep (pop_front l h) l xs" "rep (pop_front l h) m ys"
    using pop_front_law pop_front_other assms by blast+
  have fresh: "x \<notin> set (l # xs)" "x \<notin> set (m # ys)" "x \<noteq> null"
    using rep_distinct [OF assms(1)] assms(3) by auto
  show "rep (push_back m x (pop_front l h)) m (ys @ [x])"
    using push_back_law [OF popped(2)] fresh by simp
  show "rep (push_back m x (pop_front l h)) l xs"
    using push_back_other [OF popped(2,1), of x] fresh assms(3) by auto
qed

lemma move_to_front:
  assumes "rep h l xs" "d \<in> set xs" "rep h m ys" "set (l # xs) \<inter> set (m # ys) = {}"
  shows "rep (push_front m d (erase d h)) l (remove1 d xs)" and "rep (push_front m d (erase d h)) m (d # ys)"
proof -
  have erased: "rep (erase d h) l (remove1 d xs)" "rep (erase d h) m ys"
    using erase_law erase_other assms by blast+
  have fresh: "d \<notin> set (l # remove1 d xs)" "d \<notin> set (m # ys)" "d \<noteq> null"
    using rep_distinct [OF assms(1)] assms(2,4) by auto
  show "rep (push_front m d (erase d h)) m (d # ys)"
    using push_front_law [OF erased(2)] fresh by simp
  have "set (m # ys) \<inter> set (l # remove1 d xs) = {}"
    using assms(4) set_remove1_subset [of d xs] by auto
  then show "rep (push_front m d (erase d h)) l (remove1 d xs)"
    using push_front_other [OF erased(2,1), of d] fresh by auto
qed

lemma rotate_front:
  assumes "rep h l (x # xs)"
  shows "rep (push_back l (front h l) (pop_front l h)) l (xs @ [x])"
  using push_back_law [OF pop_front_law [OF assms], of x] front_law [OF assms] rep_distinct [OF assms]
  by auto

end

lemma is_list_distinct: "is_list h l xs \<Longrightarrow> distinct (l # xs) \<and> NULL \<notin> set (l # xs)"
  by (simp add: is_list_def)

lemma list_front_Cons: "is_list h l (x # xs) \<Longrightarrow> list_front h l = x"
  using list_front_hd by fastforce

interpretation nl: node_lists is_list NULL list_empty list_front list_push_back list_push_front
  list_pop_front list_erase
  by unfold_locales
    (fact is_list_distinct list_empty_iff list_front_Cons list_push_back_is_list
      list_push_front_is_list list_pop_front_is_list list_erase_remove1
      | blast intro: list_push_back_frame [THEN iffD2] list_push_front_frame [THEN iffD2]
      list_pop_front_frame [THEN iffD2] list_erase_frame [THEN iffD2])+

section \<open>Correctness\<close>

text \<open>
  C19: the pointer surgeries of the list implement insertion and removal of the sequence of nodes.
  In a well-formed list, inserting a node that is not in it after (before) a position puts it there,
  erasing a node removes exactly that node and leaves it unchained, popping the front or the back
  removes the first or last node, and the result is a well-formed circular list again.
\<close>

theorem list_modifiers_refine:
  assumes "is_list h l (xs @ ys)" and "v \<notin> set (l # xs @ ys)" and "v \<noteq> NULL"
  shows "is_list (list_insert_after (last (l # xs)) v h) l (xs @ v # ys)
    \<and> is_list (list_insert_before (hd (ys @ [l])) v h) l (xs @ v # ys)
    \<and> (\<forall>d zs. xs @ ys = d # zs \<longrightarrow> is_list (list_pop_front l h) l zs)
    \<and> (\<forall>d zs. xs @ ys = zs @ [d] \<longrightarrow> is_list (list_pop_back l h) l zs)
    \<and> (\<forall>d. d \<in> set (xs @ ys) \<longrightarrow>
         is_list (list_erase d h) l (remove1 d (xs @ ys)) \<and> \<not> list_node_chained (list_erase d h) d)"
  using list_insert_after_is_list [OF assms] list_insert_before_is_list [OF assms]
    list_pop_front_is_list [of h l] list_pop_back_is_list [of h l] list_erase_remove1 [OF assms(1)]
    list_erase_unchains assms(1)
  by metis

definition two_node_heap :: list_heap where
  "two_node_heap = list_push_back 1 3 (list_push_front 1 2 (list_init 1 \<lparr>prev = (\<lambda>_. 0), nxt = (\<lambda>_. 0)\<rparr>))"

theorem list_modifiers_refine_witness:
  "is_list two_node_heap 1 ([2] @ [3]) \<and> is_list (list_insert_after 2 4 two_node_heap) 1 [2, 4, 3]
     \<and> is_list (list_erase 2 two_node_heap) 1 [3]"
proof -
  have l: "is_list two_node_heap 1 ([2] @ [3])"
    by code_simp
  from l list_modifiers_refine [OF l, of 4] show ?thesis by simp
qed

text \<open>
  A list used with \<open>list_push_back\<close> and \<open>list_front\<close>/\<open>list_pop_front\<close> is a first-in first-out
  queue: after any distinct nodes are pushed to an empty list, the \<open>k\<close>-th front is the \<open>k\<close>-th node
  pushed, and a traversal with enough fuel visits exactly these nodes in this order and ends.
\<close>

theorem list_fifo:
  assumes "distinct vs" and "NULL \<notin> set vs" and "l \<noteq> NULL" and "l \<notin> set vs" and "k < length vs"
  shows "list_front ((list_pop_front l ^^ k) (fold (list_push_back l) vs (list_init l h))) l = vs ! k
    \<and> list_foreach (Suc (length vs)) (fold (list_push_back l) vs (list_init l h)) l = Some vs"
proof -
  have init: "is_list (list_init l h) l []"
    using assms(3) by (rule list_init_is_list)
  have "is_list (fold (list_push_back l) vs (list_init l h)) l vs"
    using nl.push_back_all [OF init assms(1)] assms(2,4) by simp
  then show ?thesis
    using nl.fifo [OF init assms(1,4,2,5)] list_foreach_nodes by blast
qed

theorem list_fifo_witness:
  "list_front ((list_pop_front 1 ^^ 1) (fold (list_push_back 1) [2, 3] (list_init 1 two_node_heap))) 1 = 3"
  using list_fifo [of "[2, 3]" 1 1 two_node_heap] by simp

end
