(* ===== verification/Libk_Deque.thy ===== *)
theory Libk_Deque
  imports Prelude
begin

text \<open>
  The byte ring buffer of \<^verbatim>\<open>include/libk/deque.h\<close>, used by the pipes and the terminals.

  The indices are natural numbers: \<open>dq_head\<close>, \<open>dq_tail\<close> and \<open>dq_tail + 1\<close> never exceed \<open>dq_size\<close>, which is a
  \<^verbatim>\<open>size_t\<close>, so no index computation wraps.  The abstraction \<open>deque_contents\<close> reads the bytes
  from \<open>dq_head\<close> up to \<open>dq_tail\<close>, modulo \<open>dq_size\<close>; one slot is always kept free, so the capacity is
  \<open>dq_size - 1\<close>.  An operation returns its result and the new buffer; popping returns the byte the C
  code stores through its pointer argument (a caller passing NULL ignores it).
\<close>

record deque =
  dq_buffer :: "byte list"
  dq_head :: nat
  dq_tail :: nat
  dq_size :: nat

definition deque_init :: "byte list \<Rightarrow> nat \<Rightarrow> deque" where
  "deque_init buf sz = \<lparr>dq_buffer = buf, dq_head = 0, dq_tail = 0, dq_size = sz\<rparr>"

definition deque_flush :: "deque \<Rightarrow> deque" where
  "deque_flush dq = deque_init (dq_buffer dq) (dq_size dq)"

definition deque_empty :: "deque \<Rightarrow> bool" where
  "deque_empty dq \<longleftrightarrow> dq_head dq = dq_tail dq"

definition deque_full :: "deque \<Rightarrow> bool" where
  "deque_full dq \<longleftrightarrow> (dq_tail dq + 1) mod dq_size dq = dq_head dq"

definition deque_push_front :: "byte \<Rightarrow> deque \<Rightarrow> unit result \<times> deque" where
  "deque_push_front data dq =
     (if deque_full dq then (Inl ENOSPC, dq)
      else let dq = dq\<lparr>dq_head := if dq_head dq = 0 then dq_size dq - 1 else dq_head dq - 1\<rparr>;
               dq = dq\<lparr>dq_buffer := (dq_buffer dq)[dq_head dq := data]\<rparr>
           in (Inr (), dq))"

definition deque_push_back :: "byte \<Rightarrow> deque \<Rightarrow> unit result \<times> deque" where
  "deque_push_back data dq =
     (if deque_full dq then (Inl ENOSPC, dq)
      else let dq = dq\<lparr>dq_buffer := (dq_buffer dq)[dq_tail dq := data]\<rparr>;
               dq = dq\<lparr>dq_tail := (dq_tail dq + 1) mod dq_size dq\<rparr>
           in (Inr (), dq))"

definition deque_pop_front :: "deque \<Rightarrow> byte result \<times> deque" where
  "deque_pop_front dq =
     (if deque_empty dq then (Inl ESPIPE, dq)
      else let data = dq_buffer dq ! dq_head dq;
               dq = dq\<lparr>dq_head := (dq_head dq + 1) mod dq_size dq\<rparr>
           in (Inr data, dq))"

definition deque_pop_back :: "deque \<Rightarrow> byte result \<times> deque" where
  "deque_pop_back dq =
     (if deque_empty dq then (Inl ESPIPE, dq)
      else let dq = dq\<lparr>dq_tail := if dq_tail dq = 0 then dq_size dq - 1 else dq_tail dq - 1\<rparr>
           in (Inr (dq_buffer dq ! dq_tail dq), dq))"

definition deque_front :: "deque \<Rightarrow> byte result" where
  "deque_front dq = (if deque_empty dq then Inl ESPIPE else Inr (dq_buffer dq ! dq_head dq))"

definition deque_back :: "deque \<Rightarrow> byte result" where
  "deque_back dq =
     (if deque_empty dq then Inl ESPIPE
      else let tl = if dq_tail dq = 0 then dq_size dq - 1 else dq_tail dq - 1
           in Inr (dq_buffer dq ! tl))"

section \<open>Invariant and abstraction\<close>

definition deque_inv :: "deque \<Rightarrow> bool" where
  "deque_inv dq \<longleftrightarrow>
     0 < dq_size dq \<and> length (dq_buffer dq) = dq_size dq \<and> dq_head dq < dq_size dq \<and> dq_tail dq < dq_size dq"

definition deque_count :: "deque \<Rightarrow> nat" where
  "deque_count dq = (if dq_head dq \<le> dq_tail dq then dq_tail dq - dq_head dq else dq_tail dq + dq_size dq - dq_head dq)"

definition deque_contents :: "deque \<Rightarrow> byte list" where
  "deque_contents dq = map (\<lambda>i. dq_buffer dq ! ((dq_head dq + i) mod dq_size dq)) [0..<deque_count dq]"

definition deque_capacity :: "deque \<Rightarrow> nat" where
  "deque_capacity dq = dq_size dq - 1"

lemma length_deque_contents [simp]: "length (deque_contents dq) = deque_count dq"
  by (simp add: deque_contents_def)

lemma deque_contents_nth:
  "i < deque_count dq \<Longrightarrow> deque_contents dq ! i = dq_buffer dq ! ((dq_head dq + i) mod dq_size dq)"
  by (simp add: deque_contents_def)

lemma add_mod_cases: "a < n \<Longrightarrow> b \<le> n \<Longrightarrow> (a + b) mod n = (if a + b < n then a + b else a + b - n)" for n :: nat
  by (auto simp: mod_if)

lemma Suc_mod_cases: "a < n \<Longrightarrow> Suc a mod n = (if Suc a = n then 0 else Suc a)" for n :: nat
  by auto

lemma deque_count_less: "deque_inv dq \<Longrightarrow> deque_count dq < dq_size dq"
  by (auto simp: deque_inv_def deque_count_def)

lemma deque_empty_iff: "deque_inv dq \<Longrightarrow> deque_empty dq \<longleftrightarrow> deque_contents dq = []"
  by (auto simp: deque_inv_def deque_empty_def deque_count_def simp flip: length_0_conv)

lemma deque_full_iff: "deque_inv dq \<Longrightarrow> deque_full dq \<longleftrightarrow> length (deque_contents dq) = deque_capacity dq"
  by (auto simp: deque_inv_def deque_full_def deque_count_def deque_capacity_def Suc_mod_cases)

lemma deque_init_spec:
  "0 < length buf \<Longrightarrow>
     deque_inv (deque_init buf (length buf)) \<and> deque_contents (deque_init buf (length buf)) = []"
  by (simp add: deque_inv_def deque_init_def deque_contents_def deque_count_def)

lemma deque_flush_spec:
  "deque_inv dq \<Longrightarrow> deque_inv (deque_flush dq) \<and> deque_contents (deque_flush dq) = []
     \<and> deque_capacity (deque_flush dq) = deque_capacity dq"
  by (simp add: deque_inv_def deque_flush_def deque_init_def deque_contents_def deque_count_def
      deque_capacity_def)

section \<open>Each operation refines the operation on byte sequences\<close>

lemma deque_push_back_ok:
  assumes "deque_inv dq" "\<not> deque_full dq" "deque_push_back c dq = (r, dq')"
  shows "r = Inr ()" and "deque_inv dq'" and "deque_contents dq' = deque_contents dq @ [c]"
    and "dq_size dq' = dq_size dq"
proof -
  have dq': "dq' = dq\<lparr>dq_buffer := (dq_buffer dq)[dq_tail dq := c], dq_tail := (dq_tail dq + 1) mod dq_size dq\<rparr>" and "r = Inr ()"
    using assms(2,3) by (auto simp: deque_push_back_def Let_def)
  then show "r = Inr ()" "deque_inv dq'" "dq_size dq' = dq_size dq"
    using assms(1) by (auto simp: deque_inv_def)
  have cnt: "deque_count dq' = deque_count dq + 1"
    using assms(1,2) dq' by (auto simp: deque_inv_def deque_count_def deque_full_def Suc_mod_cases)
  show "deque_contents dq' = deque_contents dq @ [c]"
  proof (rule nth_equalityI)
    fix i assume i: "i < length (deque_contents dq')"
    have "deque_contents dq' ! i = dq_buffer dq' ! ((dq_head dq + i) mod dq_size dq)"
      using i dq' by (simp add: deque_contents_nth)
    also have "\<dots> = (deque_contents dq @ [c]) ! i"
      using assms(1,2) i cnt dq' unfolding nth_append
      by (auto simp: deque_contents_nth deque_inv_def deque_count_def deque_full_def
          nth_list_update add_mod_cases split: if_splits)
    finally show "deque_contents dq' ! i = (deque_contents dq @ [c]) ! i" .
  qed (use cnt in simp)
qed


lemma deque_push_front_ok:
  assumes "deque_inv dq" "\<not> deque_full dq" "deque_push_front c dq = (r, dq')"
  shows "r = Inr ()" and "deque_inv dq'" and "deque_contents dq' = c # deque_contents dq"
    and "dq_size dq' = dq_size dq"
proof -
  define hd' where "hd' = (if dq_head dq = 0 then dq_size dq - 1 else dq_head dq - 1)"
  have dq': "dq' = dq\<lparr>dq_head := hd', dq_buffer := (dq_buffer dq)[hd' := c]\<rparr>" and "r = Inr ()"
    using assms(2,3) by (auto simp: deque_push_front_def Let_def hd'_def)
  then show "r = Inr ()" "deque_inv dq'" "dq_size dq' = dq_size dq"
    using assms(1) by (auto simp: deque_inv_def hd'_def)
  have cnt: "deque_count dq' = deque_count dq + 1"
    using assms(1,2) dq' by (auto simp: deque_inv_def deque_count_def deque_full_def Suc_mod_cases hd'_def
        split: if_splits)
  show "deque_contents dq' = c # deque_contents dq"
  proof (rule nth_equalityI)
    fix i assume i: "i < length (deque_contents dq')"
    have "deque_contents dq' ! i = dq_buffer dq' ! ((hd' + i) mod dq_size dq)"
      using i dq' by (simp add: deque_contents_nth)
    also have "\<dots> = (c # deque_contents dq) ! i"
    proof (cases i)
      case 0
      then show ?thesis using assms(1) dq' by (auto simp: deque_inv_def hd'_def)
    next
      case (Suc j)
      have idx: "(hd' + Suc j) mod dq_size dq = (dq_head dq + j) mod dq_size dq"
        using assms(1) by (auto simp: hd'_def deque_inv_def)
      have "j + 1 < dq_size dq"
        using deque_count_less [OF assms(1)] assms i cnt Suc
        by (simp add: deque_full_iff deque_capacity_def)
      then have "(dq_head dq + j) mod dq_size dq \<noteq> hd'"
        using assms(1) by (simp add: deque_inv_def hd'_def add_mod_cases) linarith
      then show ?thesis
        using Suc idx i cnt dq' by (simp add: deque_contents_nth)
    qed
    finally show "deque_contents dq' ! i = (c # deque_contents dq) ! i" .
  qed (use cnt in simp)
qed

lemma deque_pop_front_ok:
  assumes "deque_inv dq" "\<not> deque_empty dq" "deque_pop_front dq = (r, dq')"
  shows "\<exists>c. r = Inr c \<and> deque_contents dq = c # deque_contents dq'" and "deque_inv dq'"
    and "dq_size dq' = dq_size dq"
proof -
  have dq': "dq' = dq\<lparr>dq_head := (dq_head dq + 1) mod dq_size dq\<rparr>" and r: "r = Inr (dq_buffer dq ! dq_head dq)"
    using assms(2,3) by (auto simp: deque_pop_front_def Let_def)
  then show "deque_inv dq'" "dq_size dq' = dq_size dq"
    using assms(1) by (auto simp: deque_inv_def)
  have cnt: "deque_count dq = deque_count dq' + 1"
    using assms(1,2) dq' by (auto simp: deque_inv_def deque_count_def deque_empty_def Suc_mod_cases)
  have "deque_contents dq = dq_buffer dq ! dq_head dq # deque_contents dq'"
    using assms(1) dq' cnt
    by (auto simp: deque_contents_def deque_inv_def map_upt_Suc mod_add_left_eq simp del: upt_Suc)
  with r show "\<exists>c. r = Inr c \<and> deque_contents dq = c # deque_contents dq'" by blast
qed

lemma deque_pop_back_ok:
  assumes "deque_inv dq" "\<not> deque_empty dq" "deque_pop_back dq = (r, dq')"
  shows "\<exists>c. r = Inr c \<and> deque_contents dq = deque_contents dq' @ [c]" and "deque_inv dq'"
    and "dq_size dq' = dq_size dq"
proof -
  define tl' where "tl' = (if dq_tail dq = 0 then dq_size dq - 1 else dq_tail dq - 1)"
  have dq': "dq' = dq\<lparr>dq_tail := tl'\<rparr>" and r: "r = Inr (dq_buffer dq ! tl')"
    using assms(2,3) by (auto simp: deque_pop_back_def Let_def tl'_def)
  then show "deque_inv dq'" "dq_size dq' = dq_size dq"
    using assms(1) by (auto simp: deque_inv_def tl'_def)
  have cnt: "deque_count dq = deque_count dq' + 1"
    using assms(1,2) dq' by (auto simp: deque_inv_def deque_count_def deque_empty_def tl'_def)
  have "(dq_head dq + deque_count dq') mod dq_size dq = tl'"
    using assms(1,2) dq' by (auto simp: deque_inv_def deque_count_def deque_empty_def tl'_def mod_if)
  then have "deque_contents dq = deque_contents dq' @ [dq_buffer dq ! tl']"
    using dq' cnt by (simp add: deque_contents_def)
  with r show "\<exists>c. r = Inr c \<and> deque_contents dq = deque_contents dq' @ [c]" by blast
qed

lemma deque_front_hd: "\<lbrakk> deque_inv dq; \<not> deque_empty dq \<rbrakk> \<Longrightarrow> deque_front dq = Inr (hd (deque_contents dq))"
  using deque_pop_front_ok(1) [of dq "fst (deque_pop_front dq)" "snd (deque_pop_front dq)"]
  by (auto simp: deque_front_def deque_pop_front_def Let_def)

lemma deque_back_last: "\<lbrakk> deque_inv dq; \<not> deque_empty dq \<rbrakk> \<Longrightarrow> deque_back dq = Inr (last (deque_contents dq))"
  using deque_pop_back_ok(1) [of dq "fst (deque_pop_back dq)" "snd (deque_pop_back dq)"]
  by (auto simp: deque_back_def deque_pop_back_def Let_def)

section \<open>The interface of a bounded byte queue\<close>

text \<open>
  What the pipe and the terminal rely on, with the two facts their transfers need: bytes that fit
  are all queued in order, and reading takes them from the front.
\<close>

locale byte_queue =
  fixes inv :: "'d \<Rightarrow> bool"
    and contents :: "'d \<Rightarrow> byte list"
    and capacity :: "'d \<Rightarrow> nat"
    and empty :: "'d \<Rightarrow> bool"
    and full :: "'d \<Rightarrow> bool"
    and push_back :: "byte \<Rightarrow> 'd \<Rightarrow> unit result \<times> 'd"
    and pop_front :: "'d \<Rightarrow> byte result \<times> 'd"
  assumes bounded: "inv d \<Longrightarrow> length (contents d) \<le> capacity d"
    and empty_law: "inv d \<Longrightarrow> empty d \<longleftrightarrow> contents d = []"
    and full_law: "inv d \<Longrightarrow> full d \<longleftrightarrow> length (contents d) = capacity d"
    and push_full: "full d \<Longrightarrow> push_back c d = (Inl ENOSPC, d)"
    and push_ok: "\<lbrakk> inv d; \<not> full d \<rbrakk> \<Longrightarrow>
      \<exists>d'. push_back c d = (Inr (), d') \<and> inv d' \<and> contents d' = contents d @ [c] \<and> capacity d' = capacity d"
    and pop_empty: "empty d \<Longrightarrow> pop_front d = (Inl ESPIPE, d)"
    and pop_ok: "\<lbrakk> inv d; contents d = c # cs \<rbrakk> \<Longrightarrow>
      \<exists>d'. pop_front d = (Inr c, d') \<and> inv d' \<and> contents d' = cs \<and> capacity d' = capacity d"
begin

lemma push_all:
  "\<lbrakk> inv d; length (contents d) + length cs \<le> capacity d \<rbrakk> \<Longrightarrow>
     inv (fold (\<lambda>c d. snd (push_back c d)) cs d)
     \<and> contents (fold (\<lambda>c d. snd (push_back c d)) cs d) = contents d @ cs
     \<and> capacity (fold (\<lambda>c d. snd (push_back c d)) cs d) = capacity d"
proof (induction cs arbitrary: d)
  case (Cons c cs)
  have "\<not> full d"
    using Cons.prems full_law by auto
  then obtain d' where "push_back c d = (Inr (), d')" "inv d'" "contents d' = contents d @ [c]"
    "capacity d' = capacity d"
    using push_ok Cons.prems(1) by blast
  then show ?case using Cons.IH [of d'] Cons.prems(2) by simp
qed simp

lemma pop_all:
  "\<lbrakk> inv d; contents d = cs @ ds \<rbrakk> \<Longrightarrow>
     inv (((\<lambda>d. snd (pop_front d)) ^^ length cs) d)
     \<and> contents (((\<lambda>d. snd (pop_front d)) ^^ length cs) d) = ds
     \<and> capacity (((\<lambda>d. snd (pop_front d)) ^^ length cs) d) = capacity d"
proof (induction cs arbitrary: d)
  case (Cons c cs)
  then obtain d' where "pop_front d = (Inr c, d')" "inv d'" "contents d' = cs @ ds" "capacity d' = capacity d"
    using pop_ok [of d c "cs @ ds"] by auto
  then show ?case using Cons.IH [of d'] by (simp add: funpow_Suc_right del: funpow.simps(2))
qed simp

lemma nth_out:
  assumes "inv d" "contents d = []" "length cs \<le> capacity d" "k < length cs"
  shows "fst (pop_front (((\<lambda>d. snd (pop_front d)) ^^ k) (fold (\<lambda>c d. snd (push_back c d)) cs d))) = Inr (cs ! k)"
proof -
  let ?d = "fold (\<lambda>c d. snd (push_back c d)) cs d"
  have "inv ?d" "contents ?d = take k cs @ drop k cs"
    using push_all [of d cs] assms by auto
  then have "inv (((\<lambda>d. snd (pop_front d)) ^^ k) ?d)"
    and "contents (((\<lambda>d. snd (pop_front d)) ^^ k) ?d) = cs ! k # drop (Suc k) cs"
    using pop_all [of ?d "take k cs" "drop k cs"] assms(4) by (simp_all add: Cons_nth_drop_Suc)
  from pop_ok [OF this] show ?thesis by auto
qed

end

lemma deque_capacity_bound: "deque_inv dq \<Longrightarrow> length (deque_contents dq) \<le> deque_capacity dq"
  using deque_count_less [of dq] by (simp add: deque_capacity_def)

lemma deque_push_back_law:
  assumes "deque_inv dq" "\<not> deque_full dq"
  shows "\<exists>dq'. deque_push_back c dq = (Inr (), dq') \<and> deque_inv dq' \<and>
    deque_contents dq' = deque_contents dq @ [c] \<and> deque_capacity dq' = deque_capacity dq"
  using deque_push_back_ok [OF assms, of c "fst (deque_push_back c dq)" "snd (deque_push_back c dq)"]
  by (metis deque_capacity_def prod.collapse)

lemma deque_pop_front_law:
  assumes "deque_inv dq" "deque_contents dq = c # cs"
  shows "\<exists>dq'. deque_pop_front dq = (Inr c, dq') \<and> deque_inv dq' \<and>
    deque_contents dq' = cs \<and> deque_capacity dq' = deque_capacity dq"
proof -
  have "\<not> deque_empty dq"
    using assms by (simp add: deque_empty_iff)
  from deque_pop_front_ok [OF assms(1) this, of "fst (deque_pop_front dq)" "snd (deque_pop_front dq)"]
  show ?thesis using assms(2) by (metis deque_capacity_def list.inject prod.collapse)
qed

lemma deque_push_back_full: "deque_full dq \<Longrightarrow> deque_push_back c dq = (Inl ENOSPC, dq)"
  by (simp add: deque_push_back_def)

lemma deque_pop_front_empty: "deque_empty dq \<Longrightarrow> deque_pop_front dq = (Inl ESPIPE, dq)"
  by (simp add: deque_pop_front_def)

interpretation dq: byte_queue deque_inv deque_contents deque_capacity deque_empty deque_full
  deque_push_back deque_pop_front
  by unfold_locales
    (fact deque_capacity_bound deque_empty_iff deque_full_iff deque_push_back_full
      deque_push_back_law deque_pop_front_empty deque_pop_front_law)+

section \<open>Correctness\<close>

text \<open>The abstract queue of at most \<open>cap\<close> bytes.\<close>

definition bq_push_back :: "nat \<Rightarrow> byte \<Rightarrow> byte list \<Rightarrow> unit result \<times> byte list" where
  "bq_push_back cap c cs = (if length cs = cap then (Inl ENOSPC, cs) else (Inr (), cs @ [c]))"

definition bq_push_front :: "nat \<Rightarrow> byte \<Rightarrow> byte list \<Rightarrow> unit result \<times> byte list" where
  "bq_push_front cap c cs = (if length cs = cap then (Inl ENOSPC, cs) else (Inr (), c # cs))"

definition bq_pop_front :: "byte list \<Rightarrow> byte result \<times> byte list" where
  "bq_pop_front cs = (if cs = [] then (Inl ESPIPE, cs) else (Inr (hd cs), tl cs))"

definition bq_pop_back :: "byte list \<Rightarrow> byte result \<times> byte list" where
  "bq_pop_back cs = (if cs = [] then (Inl ESPIPE, cs) else (Inr (last cs), butlast cs))"

lemma deque_push_front_law:
  assumes "deque_inv dq" "\<not> deque_full dq"
  shows "\<exists>dq'. deque_push_front c dq = (Inr (), dq') \<and> deque_inv dq' \<and> deque_contents dq' = c # deque_contents dq"
  using deque_push_front_ok [OF assms, of c "fst (deque_push_front c dq)" "snd (deque_push_front c dq)"]
  by (metis prod.collapse)

lemma deque_pop_back_law:
  assumes "deque_inv dq" "deque_contents dq = cs @ [c]"
  shows "\<exists>dq'. deque_pop_back dq = (Inr c, dq') \<and> deque_inv dq' \<and> deque_contents dq' = cs"
proof -
  have "\<not> deque_empty dq"
    using assms by (simp add: deque_empty_iff)
  from deque_pop_back_ok [OF assms(1) this, of "fst (deque_pop_back dq)" "snd (deque_pop_back dq)"]
  show ?thesis using assms(2) by (metis append1_eq_conv prod.collapse)
qed

text \<open>
  C18: every operation of the ring buffer implements the operation of a byte sequence bounded by
  \<open>size - 1\<close>: pushing fails with ENOSPC exactly when the sequence is full and otherwise adds the
  byte at its end (front), popping fails with ESPIPE exactly when it is empty and otherwise returns
  and removes the first (last) byte, and all four keep the index invariant.
\<close>

theorem deque_refines_byte_sequence:
  assumes "deque_inv dq"
  shows "map_prod id deque_contents (deque_push_back c dq) = bq_push_back (deque_capacity dq) c (deque_contents dq)
      \<and> map_prod id deque_contents (deque_push_front c dq) = bq_push_front (deque_capacity dq) c (deque_contents dq)
      \<and> map_prod id deque_contents (deque_pop_front dq) = bq_pop_front (deque_contents dq)
      \<and> map_prod id deque_contents (deque_pop_back dq) = bq_pop_back (deque_contents dq)
      \<and> deque_inv (snd (deque_push_back c dq)) \<and> deque_inv (snd (deque_push_front c dq))
      \<and> deque_inv (snd (deque_pop_front dq)) \<and> deque_inv (snd (deque_pop_back dq))"
proof (intro conjI)
  show "map_prod id deque_contents (deque_push_back c dq) = bq_push_back (deque_capacity dq) c (deque_contents dq)"
    "deque_inv (snd (deque_push_back c dq))"
    using dq.push_full [of dq c] dq.push_ok [OF assms, of c] assms
    by (cases "deque_full dq"; auto simp: bq_push_back_def deque_full_iff)+
  show "map_prod id deque_contents (deque_push_front c dq) = bq_push_front (deque_capacity dq) c (deque_contents dq)"
    "deque_inv (snd (deque_push_front c dq))"
    using deque_push_front_law [OF assms, of c] assms
    by (cases "deque_full dq"; auto simp: bq_push_front_def deque_full_iff deque_push_front_def)+
  show "map_prod id deque_contents (deque_pop_front dq) = bq_pop_front (deque_contents dq)"
    "deque_inv (snd (deque_pop_front dq))"
    using dq.pop_empty [of dq] dq.pop_ok [OF assms] assms
    by (cases "deque_contents dq"; auto simp: bq_pop_front_def deque_empty_iff)+
  show "map_prod id deque_contents (deque_pop_back dq) = bq_pop_back (deque_contents dq)"
    "deque_inv (snd (deque_pop_back dq))"
    using deque_pop_back_law [OF assms] assms
    by (cases "deque_contents dq" rule: rev_cases; auto simp: bq_pop_back_def deque_empty_iff deque_pop_back_def)+
qed

definition wrapped_deque :: deque where
  "wrapped_deque = \<lparr>dq_buffer = [7, 8, 9], dq_head = 2, dq_tail = 1, dq_size = 3\<rparr>"

theorem deque_refines_byte_sequence_witness:
  "deque_inv wrapped_deque
     \<and> map_prod id deque_contents (deque_push_back 5 wrapped_deque) = (Inl ENOSPC, [9, 7])
     \<and> map_prod id deque_contents (deque_pop_front wrapped_deque) = (Inr 9, [7])"
proof -
  have inv: "deque_inv wrapped_deque"
    by code_simp
  have "bq_push_back (deque_capacity wrapped_deque) 5 (deque_contents wrapped_deque) = (Inl ENOSPC, [9, 7])"
    "bq_pop_front (deque_contents wrapped_deque) = (Inr 9, [7])"
    by code_simp+
  with inv deque_refines_byte_sequence [OF inv, of 5] show ?thesis by argo
qed

end
