(* ===== verification/Libk_String.thy ===== *)
theory Libk_String
  imports Prelude "HOL-Library.Monad_Syntax"
begin

text \<open>
  The string and memory routines of \<^verbatim>\<open>libk/\<close>, \<^verbatim>\<open>vsnprintf\<close> and the reference counter.

  A pointer is the list of the bytes from it to the end of its object.  A routine returns \<open>None\<close> when it
  reads or writes outside that object, or when a signed computation overflows (both undefined in C).
  \<^verbatim>\<open>char\<close> is a byte; every comparison of the sources has the same outcome for signed characters.
\<close>

section \<open>Memory\<close>

fun memcpy :: "byte list \<Rightarrow> byte list \<Rightarrow> nat \<Rightarrow> byte list option" where
  "memcpy dest src 0 = Some dest"
| "memcpy (d # dest) (s # src) (Suc n) = map_option ((#) s) (memcpy dest src n)"
| "memcpy _ _ (Suc n) = None"

fun memset :: "byte list \<Rightarrow> byte \<Rightarrow> nat \<Rightarrow> byte list option" where
  "memset s c 0 = Some s"
| "memset (d # s) c (Suc n) = map_option ((#) c) (memset s c n)"
| "memset [] c (Suc n) = None"

fun memcmp :: "byte list \<Rightarrow> byte list \<Rightarrow> nat \<Rightarrow> int option" where
  "memcmp s1 s2 0 = Some 0"
| "memcmp (a # s1) (b # s2) (Suc n) =
     (if a = b then memcmp s1 s2 n else Some (uint a - uint b))"
| "memcmp _ _ (Suc n) = None"

section \<open>Strings\<close>

fun strlen :: "byte list \<Rightarrow> nat option" where
  "strlen [] = None"
| "strlen (c # s) = (if c = 0 then Some 0 else map_option Suc (strlen s))"

fun strnlen :: "byte list \<Rightarrow> nat \<Rightarrow> nat option" where
  "strnlen s 0 = Some 0"
| "strnlen [] (Suc n) = None"
| "strnlen (c # s) (Suc n) = (if c = 0 then Some 0 else map_option Suc (strnlen s n))"

fun strcmp :: "byte list \<Rightarrow> byte list \<Rightarrow> int option" where
  "strcmp (a # s1) (b # s2) =
     (if a = b then if a = 0 then Some 0 else strcmp s1 s2
      else Some (uint a - uint b))"
| "strcmp _ _ = None"

fun strncmp :: "byte list \<Rightarrow> byte list \<Rightarrow> nat \<Rightarrow> int option" where
  "strncmp s1 s2 0 = Some 0"
| "strncmp (a # s1) (b # s2) (Suc n) =
     (if a \<noteq> b then Some (uint a - uint b)
      else if a = 0 then Some 0 else strncmp s1 s2 n)"
| "strncmp _ _ (Suc n) = None"

fun strcpy :: "byte list \<Rightarrow> byte list \<Rightarrow> byte list option" where
  "strcpy dest [] = None"
| "strcpy dest (c # src) =
     (if c = 0 then Some dest
      else case dest of [] \<Rightarrow> None | d # dest \<Rightarrow> map_option ((#) c) (strcpy dest src))"

fun strncpy :: "byte list \<Rightarrow> byte list \<Rightarrow> nat \<Rightarrow> byte list option" where
  "strncpy dest [] n = None"
| "strncpy dest (c # src) n =
     (if c \<noteq> 0 \<and> n > 0
      then case dest of [] \<Rightarrow> None | d # dest \<Rightarrow> map_option ((#) c) (strncpy dest src (n - 1))
      else memset dest 0 n)"

text \<open>The first loop of \<^verbatim>\<open>strlcpy\<close>: the new destination, the rest of the source, and the last \<^verbatim>\<open>size\<close>.\<close>

fun strlcpy_loop :: "byte list \<Rightarrow> byte list \<Rightarrow> size_t \<Rightarrow> (byte list \<times> byte list \<times> byte list \<times> size_t) option" where
  "strlcpy_loop dest src n =
     (let n = n - 1
      in if n > 0 then
           case (dest, src) of
             (d # dest, c # src) \<Rightarrow>
               if c \<noteq> 0 then map_option (\<lambda>(w, r). (c # w, r)) (strlcpy_loop dest src n)
               else Some ([c], dest, src, n)
           | _ \<Rightarrow> None
         else Some ([], dest, src, n))"

declare strlcpy_loop.simps [simp del]

definition strlcpy :: "byte list \<Rightarrow> byte list \<Rightarrow> size_t \<Rightarrow> (byte list \<times> nat) option" where
  "strlcpy dest src n = do {
     (written, dest', src', m) \<leftarrow> strlcpy_loop dest src n;
     if m = 0 then do {
       dest'' \<leftarrow> (if n \<noteq> 0 then case dest' of [] \<Rightarrow> None | d # rest \<Rightarrow> Some (0 # rest) else Some dest');
       rest \<leftarrow> strlen src';
       Some (written @ dest'', length src - length src' + rest)
     } else Some (written @ dest', length src - length src')
   }"

fun strcat_loop :: "byte list \<Rightarrow> byte list \<Rightarrow> byte list option" where
  "strcat_loop str [] = None"
| "strcat_loop [] (c # app) = None"
| "strcat_loop (d # str) (c # app) =
     (if c \<noteq> 0 then map_option ((#) c) (strcat_loop str app) else Some (0 # str))"

definition strcat :: "byte list \<Rightarrow> byte list \<Rightarrow> byte list option" where
  "strcat str app = do {
     len \<leftarrow> strlen str;
     tl \<leftarrow> strcat_loop (drop len str) app;
     Some (take len str @ tl)
   }"

fun strncat_loop :: "byte list \<Rightarrow> byte list \<Rightarrow> nat \<Rightarrow> byte list option" where
  "strncat_loop [] app n = None"
| "strncat_loop (d # str) app n =
     (if n > 0 then
        case app of [] \<Rightarrow> None
        | c # app \<Rightarrow> if c \<noteq> 0 then map_option ((#) c) (strncat_loop str app (n - 1)) else Some (0 # str)
      else Some (0 # str))"

definition strncat :: "byte list \<Rightarrow> byte list \<Rightarrow> nat \<Rightarrow> byte list option" where
  "strncat str app n = do {
     len \<leftarrow> strlen str;
     tl \<leftarrow> strncat_loop (drop len str) app n;
     Some (take len str @ tl)
   }"

text \<open>\<open>alloc\<close> gives the contents of a fresh block of the requested size, or \<open>None\<close> when \<^verbatim>\<open>kmalloc\<close> fails;
  the result \<open>Some None\<close> is the NULL pointer.\<close>

definition strdup :: "(nat \<Rightarrow> byte list option) \<Rightarrow> byte list \<Rightarrow> byte list option option" where
  "strdup alloc str = do {
     len \<leftarrow> strlen str;
     case alloc len of
       None \<Rightarrow> Some None
     | Some dup \<Rightarrow> map_option Some (strncpy dup str len)
   }"

section \<open>Character classes\<close>

definition isdigit :: "byte \<Rightarrow> bool" where
  "isdigit c \<longleftrightarrow> c \<ge> 48 \<and> c \<le> 57"

definition isupper :: "byte \<Rightarrow> bool" where
  "isupper c \<longleftrightarrow> c \<ge> 65 \<and> c \<le> 90"

definition islower :: "byte \<Rightarrow> bool" where
  "islower c \<longleftrightarrow> c \<ge> 97 \<and> c \<le> 122"

definition isalpha :: "byte \<Rightarrow> bool" where
  "isalpha c \<longleftrightarrow> isupper c \<or> islower c"

definition isalnum :: "byte \<Rightarrow> bool" where
  "isalnum c \<longleftrightarrow> isalpha c \<or> isdigit c"

definition isblank :: "byte \<Rightarrow> bool" where
  "isblank c \<longleftrightarrow> c = 32 \<or> c = 9"

definition isspace :: "byte \<Rightarrow> bool" where
  "isspace c \<longleftrightarrow> isblank c \<or> c = 12 \<or> c = 10 \<or> c = 13 \<or> c = 11"

section \<open>Numbers\<close>

abbreviation LONG_MAX :: int where
  "LONG_MAX \<equiv> 2147483647"

definition digit_value :: "byte \<Rightarrow> int option" where
  "digit_value d =
     (if isdigit d then Some (uint d - 48)
      else if isupper d then Some (uint d - (65 - 10))
      else if islower d then Some (uint d - (97 - 10))
      else None)"

text \<open>The digit loop: \<open>n\<close> is \<^verbatim>\<open>size - i\<close>; the result is the value and the number of bytes consumed.\<close>

fun strntol_digits :: "byte list \<Rightarrow> nat \<Rightarrow> int \<Rightarrow> int \<Rightarrow> (int \<times> nat) option" where
  "strntol_digits s 0 base value = Some (value, 0)"
| "strntol_digits [] (Suc n) base value = None"
| "strntol_digits (d # s) (Suc n) base value =
     (case digit_value d of
        None \<Rightarrow> Some (value, 0)
      | Some dval \<Rightarrow>
          if dval \<ge> base then Some (value, 0)
          else if value * base + dval > LONG_MAX then None
          else map_option (\<lambda>(v, k). (v, Suc k)) (strntol_digits s n base (value * base + dval)))"

declare strntol_digits.simps(3) [simp del]

fun skip_spaces :: "byte list \<Rightarrow> nat \<Rightarrow> nat option" where
  "skip_spaces s 0 = Some 0"
| "skip_spaces [] (Suc n) = None"
| "skip_spaces (c # s) (Suc n) = (if isspace c then map_option Suc (skip_spaces s n) else Some 0)"

abbreviation read_at :: "byte list \<Rightarrow> nat \<Rightarrow> byte option" where
  "read_at s i \<equiv> if i < length s then Some (s ! i) else None"

text \<open>The value and the index stored through \<^verbatim>\<open>endptr\<close>.\<close>

definition strntol :: "byte list \<Rightarrow> nat \<Rightarrow> int \<Rightarrow> (int \<times> nat) option" where
  "strntol nptr n base =
     (if base > 36 then Some (0, 0)
      else do {
        i \<leftarrow> skip_spaces nptr n;
        if i \<ge> n then Some (0, 0)
        else do {
          c \<leftarrow> read_at nptr i;
          let negative = (c = 45);
          let i = (if negative \<or> c = 43 then i + 1 else i);
          i \<leftarrow> (if base = 16 then do {
                   c0 \<leftarrow> read_at nptr i;
                   if c0 = 48 then do {
                     c1 \<leftarrow> read_at nptr (i + 1);
                     Some (if c1 = 120 then i + 2 else i)
                   } else Some i
                 } else Some i);
          (value, k) \<leftarrow> strntol_digits (drop i nptr) (n - i) base 0;
          Some (if negative then - value else value, i + k)
        }
      })"

definition strtol :: "byte list \<Rightarrow> int \<Rightarrow> (int \<times> nat) option" where
  "strtol nptr base = do {
     n \<leftarrow> strlen nptr;
     strntol nptr n base
   }"

section \<open>Formatted output\<close>

text \<open>The variadic arguments; an argument of another kind than the conversion reads is undefined.\<close>

datatype vararg = VInt int | VUInt nat | VStr "byte list option"

text \<open>The output buffer and the position \<^verbatim>\<open>pos\<close>; \<^verbatim>\<open>size - 1\<close> wraps for size 0.\<close>

type_synonym outbuf = "byte list \<times> nat"

definition putchar :: "size_t \<Rightarrow> byte \<Rightarrow> outbuf \<Rightarrow> outbuf option" where
  "putchar sz c out =
     (case out of (str, pos) \<Rightarrow>
        if pos < unat (sz - 1)
        then if pos < length str then Some (str[pos := c], pos + 1) else None
        else Some (str, pos))"

fun putchars :: "size_t \<Rightarrow> byte list \<Rightarrow> outbuf \<Rightarrow> outbuf option" where
  "putchars sz [] out = Some out"
| "putchars sz (c # cs) out = Option.bind (putchar sz c out) (putchars sz cs)"

definition charset :: "byte list" where
  "charset = [48, 49, 50, 51, 52, 53, 54, 55, 56, 57, 97, 98, 99, 100, 101, 102]"

text \<open>The digits of \<open>value\<close>, least significant first, as \<^verbatim>\<open>buffer\<close> receives them.\<close>

function digits_rev :: "nat \<Rightarrow> nat \<Rightarrow> byte list" where
  "digits_rev value base =
     charset ! (value mod base) # (if value div base = 0 \<or> base < 2 then [] else digits_rev (value div base) base)"
  by pat_completeness auto
termination
  by (relation "measure fst") (auto simp: div_greater_zero_iff)

declare digits_rev.simps [simp del]

definition print_unsigned_integer :: "size_t \<Rightarrow> nat \<Rightarrow> nat \<Rightarrow> outbuf \<Rightarrow> outbuf option" where
  "print_unsigned_integer sz value base out =
     (let buffer = digits_rev value base
      in if length buffer > 20 then None else putchars sz (rev buffer) out)"

abbreviation LLONG_MIN :: int where
  "LLONG_MIN \<equiv> - 9223372036854775808"

definition print_integer :: "size_t \<Rightarrow> int \<Rightarrow> outbuf \<Rightarrow> outbuf option" where
  "print_integer sz value out =
     (if value < 0 then
        if value = LLONG_MIN then None
        else do {
          out \<leftarrow> putchar sz 45 out;
          print_unsigned_integer sz (nat (- value)) 10 out
        }
      else print_unsigned_integer sz (nat value) 10 out)"

definition print_vint :: "size_t \<Rightarrow> vararg list \<Rightarrow> outbuf \<Rightarrow> (vararg list \<times> outbuf) option" where
  "print_vint sz ap out =
     (case ap of VInt v # ap \<Rightarrow> map_option (Pair ap) (print_integer sz v out) | _ \<Rightarrow> None)"

definition print_vuint :: "size_t \<Rightarrow> nat \<Rightarrow> vararg list \<Rightarrow> outbuf \<Rightarrow> (vararg list \<times> outbuf) option" where
  "print_vuint sz base ap out =
     (case ap of VUInt v # ap \<Rightarrow> map_option (Pair ap) (print_unsigned_integer sz v base out) | _ \<Rightarrow> None)"

text \<open>The integer conversions that \<^verbatim>\<open>%\<close>, \<^verbatim>\<open>%l\<close> and \<^verbatim>\<open>%ll\<close> share; any other character prints nothing.\<close>

definition print_long :: "size_t \<Rightarrow> byte \<Rightarrow> vararg list \<Rightarrow> outbuf \<Rightarrow> (vararg list \<times> outbuf) option" where
  "print_long sz c ap out =
     (if c = 105 \<or> c = 100 then print_vint sz ap out
      else if c = 117 then print_vuint sz 10 ap out
      else if c = 120 \<or> c = 88 then print_vuint sz 16 ap out
      else Some (ap, out))"

fun put_cstring :: "size_t \<Rightarrow> byte list \<Rightarrow> outbuf \<Rightarrow> outbuf option" where
  "put_cstring sz [] out = None"
| "put_cstring sz (c # s) out = (if c = 0 then Some out else Option.bind (putchar sz c out) (put_cstring sz s))"

definition null_string :: "byte list" where
  "null_string = [40, 110, 117, 108, 108, 41, 0]"

definition print_conversion :: "size_t \<Rightarrow> byte \<Rightarrow> vararg list \<Rightarrow> outbuf \<Rightarrow> (vararg list \<times> outbuf) option" where
  "print_conversion sz c ap out =
     (if c = 37 then map_option (Pair ap) (putchar sz c out)
      else if c = 99 then
        (case ap of VInt v # ap \<Rightarrow> map_option (Pair ap) (putchar sz (word_of_int v) out) | _ \<Rightarrow> None)
      else if c = 105 \<or> c = 100 then print_vint sz ap out
      else if c = 117 then print_vuint sz 10 ap out
      else if c = 112 then do {
        out \<leftarrow> putchar sz 48 out;
        out \<leftarrow> putchar sz 120 out;
        print_vuint sz 16 ap out
      }
      else if c = 120 \<or> c = 88 then print_vuint sz 16 ap out
      else if c = 115 then
        (case ap of
           VStr s # ap \<Rightarrow> map_option (Pair ap) (put_cstring sz (case s of None \<Rightarrow> null_string | Some s \<Rightarrow> s) out)
         | _ \<Rightarrow> None)
      else do {
        out \<leftarrow> putchar sz 37 out;
        out \<leftarrow> putchar sz c out;
        Some (ap, out)
      })"

fun vsnprintf_loop :: "size_t \<Rightarrow> byte list \<Rightarrow> vararg list \<Rightarrow> outbuf \<Rightarrow> outbuf option" where
  "vsnprintf_loop sz [] ap out = None"
| "vsnprintf_loop sz (c # format) ap out =
     (if c = 0 then Some out
      else if c = 37 then
        (case format of
           [] \<Rightarrow> None
         | c # format \<Rightarrow>
             if c = 108 then
               (case format of
                  [] \<Rightarrow> None
                | c1 # format' \<Rightarrow>
                    if c1 = 0 then vsnprintf_loop sz format ap out
                    else if c1 = 108 then
                      (case format' of
                         [] \<Rightarrow> None
                       | c2 # format'' \<Rightarrow>
                           Option.bind (if c2 = 0 then Some (ap, out) else print_long sz c2 ap out)
                             (\<lambda>(ap, out). vsnprintf_loop sz format'' ap out))
                    else Option.bind (print_long sz c1 ap out)
                           (\<lambda>(ap, out). vsnprintf_loop sz format' ap out))
             else Option.bind (print_conversion sz c ap out)
                    (\<lambda>(ap, out). vsnprintf_loop sz format ap out))
      else Option.bind (putchar sz c out) (\<lambda>out. vsnprintf_loop sz format ap out))"

definition vsnprintf :: "byte list \<Rightarrow> size_t \<Rightarrow> byte list \<Rightarrow> vararg list \<Rightarrow> (byte list \<times> nat) option" where
  "vsnprintf str sz format ap = do {
     (str, pos) \<leftarrow> vsnprintf_loop sz format ap (str, 0);
     if pos < length str then Some (str[pos := 0], pos) else None
   }"

section \<open>The reference counter\<close>

text \<open>A signed 32-bit counter; each operation is one atomic read-modify-write.\<close>

type_synonym refcount = "32 word"

definition refcount_init :: refcount where
  "refcount_init = 1"

definition refcount_init_zero :: refcount where
  "refcount_init_zero = 0"

definition refcount_inc :: "refcount \<Rightarrow> int \<times> refcount" where
  "refcount_inc r = (sint (r + 1), r + 1)"

definition refcount_dec :: "refcount \<Rightarrow> int \<times> refcount" where
  "refcount_dec r = (sint (r - 1), r - 1)"

definition refcount_get :: "refcount \<Rightarrow> int" where
  "refcount_get r = sint r"


section \<open>The C string in a buffer\<close>

definition cstr :: "byte list \<Rightarrow> byte list" where
  "cstr s = takeWhile (\<lambda>c. c \<noteq> 0) s"

abbreviation terminated :: "byte list \<Rightarrow> bool" where
  "terminated s \<equiv> 0 \<in> set s"

lemma cstr_simps [simp]: "cstr [] = []" "cstr (c # s) = (if c = 0 then [] else c # cstr s)"
  by (simp_all add: cstr_def)

lemma cstr_nonzero: "0 \<notin> set (cstr s)"
  by (auto simp: cstr_def dest: set_takeWhileD)

lemma cstr_append_nul: "0 \<notin> set a \<Longrightarrow> cstr (a @ 0 # t) = a"
  by (induction a) auto

lemma length_cstr_less: "terminated s \<Longrightarrow> length (cstr s) < length s"
  by (induction s) auto

lemma take_length_cstr [simp]: "take (length (cstr s)) s = cstr s"
  by (simp add: cstr_def takeWhile_eq_take [symmetric])

lemma strlen_eq: "strlen s = (if terminated s then Some (length (cstr s)) else None)"
  by (induction s) auto

lemma strnlen_eq: "n \<le> length s \<Longrightarrow> strnlen s n = Some (min n (length (cstr s)))"
proof (induction s arbitrary: n)
  case (Cons c s)
  then show ?case by (cases n) auto
qed simp

lemma memcpy_eq: "n \<le> length src \<Longrightarrow> n \<le> length dest \<Longrightarrow> memcpy dest src n = Some (take n src @ drop n dest)"
proof (induction n arbitrary: dest src)
  case (Suc n)
  then show ?case by (cases dest; cases src) auto
qed simp

lemma memset_eq: "n \<le> length s \<Longrightarrow> memset s c n = Some (replicate n c @ drop n s)"
proof (induction n arbitrary: s)
  case (Suc n)
  then show ?case by (cases s) auto
qed simp

lemma uint_eq_iff: "uint a = uint b \<longleftrightarrow> a = b"
  by (rule word_uint_eq_iff [symmetric])

lemma memcmp_zero_iff:
  "\<lbrakk> n \<le> length s1; n \<le> length s2 \<rbrakk> \<Longrightarrow> \<exists>r. memcmp s1 s2 n = Some r \<and> (r = 0 \<longleftrightarrow> take n s1 = take n s2)"
proof (induction n arbitrary: s1 s2)
  case (Suc n)
  then obtain a t1 b t2 where "s1 = a # t1" "s2 = b # t2" by (cases s1; cases s2) auto
  then show ?case using Suc by (auto simp: uint_eq_iff)
qed simp

lemma strcmp_zero_iff:
  "\<lbrakk> terminated s1; terminated s2 \<rbrakk> \<Longrightarrow> \<exists>r. strcmp s1 s2 = Some r \<and> (r = 0 \<longleftrightarrow> cstr s1 = cstr s2)"
proof (induction s1 s2 rule: strcmp.induct)
  case (1 a s1 b s2)
  then show ?case by (cases "a = b") (auto simp: uint_eq_iff unsigned_eq_0_iff)
qed auto

lemma strncmp_zero_iff:
  "\<lbrakk> terminated s1 \<or> n \<le> length s1; terminated s2 \<or> n \<le> length s2 \<rbrakk> \<Longrightarrow>
     \<exists>r. strncmp s1 s2 n = Some r \<and> (r = 0 \<longleftrightarrow> take n (cstr s1) = take n (cstr s2))"
proof (induction s1 s2 n rule: strncmp.induct)
  case (2 a s1 b s2 n)
  then show ?case by (cases "a = b") (auto simp: uint_eq_iff unsigned_eq_0_iff)
qed auto

lemma strncpy_eq:
  "\<lbrakk> terminated src; n \<le> length dest \<rbrakk> \<Longrightarrow>
     strncpy dest src n = Some (take n (cstr src) @ replicate (n - length (cstr src)) 0 @ drop n dest)"
proof (induction src arbitrary: dest n)
  case (Cons c src)
  show ?case
  proof (cases "c \<noteq> 0 \<and> n > 0")
    case True
    then obtain d dest' m where "dest = d # dest'" "n = Suc m"
      using Cons.prems(2) by (cases dest; cases n) auto
    then show ?thesis using Cons True by auto
  qed (use Cons.prems in \<open>auto simp: memset_eq\<close>)
qed simp

lemma strcat_loop_eq:
  "\<lbrakk> terminated app; length (cstr app) < length str \<rbrakk> \<Longrightarrow>
     strcat_loop str app = Some (cstr app @ 0 # drop (Suc (length (cstr app))) str)"
  by (induction str app rule: strcat_loop.induct) auto

lemma strcat_eq:
  assumes "terminated str" "terminated app" "length (cstr str) + length (cstr app) < length str"
  shows "\<exists>r. strcat str app = Some r \<and> cstr r = cstr str @ cstr app \<and> length r = length str"
proof -
  have "strcat_loop (drop (length (cstr str)) str) app
      = Some (cstr app @ 0 # drop (Suc (length (cstr app))) (drop (length (cstr str)) str))"
    using assms by (intro strcat_loop_eq) auto
  moreover have "cstr ((cstr str @ cstr app) @ 0 # t) = cstr str @ cstr app" for t
    by (rule cstr_append_nul) (simp add: cstr_nonzero)
  ultimately show ?thesis
    using assms by (simp add: strcat_def strlen_eq)
qed


lemma strlcpy_loop_fits:
  "\<lbrakk> terminated src; length (cstr src) + 1 < unat n; length (cstr src) < length dest \<rbrakk> \<Longrightarrow>
     \<exists>m. m \<noteq> 0 \<and> strlcpy_loop dest src n
       = Some (cstr src @ [0], drop (length (cstr src) + 1) dest, drop (length (cstr src) + 1) src, m)"
proof (induction src arbitrary: dest n)
  case (Cons c src)
  obtain d dest' where dest: "dest = d # dest'" using Cons.prems(3) by (cases dest) auto
  have "n \<noteq> 0" using Cons.prems(2) by auto
  then have "unat (n - 1) = unat n - 1" by (rule unat_minus_one)
  then have n: "unat (n - 1) = unat n - 1" "n - 1 > 0"
    using Cons.prems(2) by (simp_all add: word_less_nat_alt)
  show ?case
  proof (cases "c = 0")
    case True
    then show ?thesis using dest n(2) by (auto simp: Let_def strlcpy_loop.simps [of "d # dest'"])
  next
    case False
    then show ?thesis
      using Cons.IH [of "n - 1" dest'] Cons.prems dest n by (auto simp: Let_def strlcpy_loop.simps [of "d # dest'"])
  qed
qed simp

lemma strlcpy_loop_truncates:
  "\<lbrakk> n \<noteq> 0; unat n \<le> length (cstr src) + 1; unat n \<le> length dest \<rbrakk> \<Longrightarrow>
     strlcpy_loop dest src n
       = Some (take (unat n - 1) src, drop (unat n - 1) dest, drop (unat n - 1) src, 0)"
proof (induction src arbitrary: dest n)
  case Nil
  then have "unat n = unat (1 :: 32 word)" using unat_eq_0 [of n] by auto
  then have "n = 1" by (simp only: word_unat_eq_iff)
  then show ?case by (simp add: Let_def strlcpy_loop.simps)
next
  case (Cons c src)
  have "0 < unat n" using Cons.prems(1) by (simp add: unat_gt_0)
  then obtain d dest' where dest: "dest = d # dest'" using Cons.prems(3) by (cases dest) auto
  have n: "unat (n - 1) = unat n - 1" using Cons.prems(1) by (rule unat_minus_one)
  show ?case
  proof (cases "n = 1")
    case False
    then have "n - 1 \<noteq> 0" by simp
    then have gt: "0 < n - 1" by (simp only: word_neq_0_conv)
    moreover have "unat n \<noteq> 1" using False by (metis unat_1 word_unat_eq_iff)
    then have "c \<noteq> 0" using Cons.prems(2) \<open>0 < unat n\<close> by auto
    moreover have "strlcpy_loop dest' src (n - 1)
        = Some (take (unat n - 2) src, drop (unat n - 2) dest', drop (unat n - 2) src, 0)"
      using Cons.IH [of "n - 1" dest'] Cons.prems n dest calculation False by (auto simp: numeral_2_eq_2)
    moreover have "strlcpy_loop dest (c # src) n = map_option (\<lambda>(w, r). (c # w, r)) (strlcpy_loop dest' src (n - 1))"
      using \<open>c \<noteq> 0\<close> gt dest by (simp add: strlcpy_loop.simps [of "d # dest'"] Let_def)
    moreover obtain k where "unat n = Suc (Suc k)"
      using \<open>unat n \<noteq> 1\<close> \<open>0 < unat n\<close> by (cases "unat n"; cases "unat n - 1") auto
    ultimately show ?thesis using dest by simp
  qed (simp add: Let_def strlcpy_loop.simps)
qed

lemma strlcpy_fits:
  assumes "terminated src" "length (cstr src) + 1 < unat n" "unat n \<le> length dest"
  shows "strlcpy dest src n
    = Some (cstr src @ 0 # drop (length (cstr src) + 1) dest, length (cstr src) + 1)"
proof -
  obtain m where "m \<noteq> 0" "strlcpy_loop dest src n
       = Some (cstr src @ [0], drop (length (cstr src) + 1) dest, drop (length (cstr src) + 1) src, m)"
    using strlcpy_loop_fits [OF assms(1,2), of dest] assms(2,3) by auto
  moreover have "length (cstr src) < length src" using assms(1) by (rule length_cstr_less)
  ultimately show ?thesis by (simp add: strlcpy_def)
qed

lemma terminated_drop: "terminated s \<Longrightarrow> k \<le> length (cstr s) \<Longrightarrow> terminated (drop k s) \<and> cstr (drop k s) = drop k (cstr s)"
proof (induction k arbitrary: s)
  case (Suc k)
  then show ?case by (cases s) (auto split: if_splits)
qed simp

lemma strlcpy_truncates:
  assumes "terminated src" "n \<noteq> 0" "unat n \<le> length (cstr src) + 1" "unat n \<le> length dest"
  shows "strlcpy dest src n
    = Some (take (unat n - 1) (cstr src) @ 0 # drop (unat n) dest, length (cstr src))"
proof -
  let ?k = "unat n - 1"
  have pos: "0 < unat n" using assms(2) by (simp add: unat_gt_0)
  have k: "?k \<le> length (cstr src)" "?k < length dest" using assms(3,4) pos by auto
  have len: "length (cstr src) < length src" using assms(1) by (rule length_cstr_less)
  obtain d rest where rest: "drop ?k dest = d # rest" "rest = drop (unat n) dest"
    using k(2) pos by (metis Cons_nth_drop_Suc Suc_diff_1)
  have "strlen (drop ?k src) = Some (length (cstr src) - ?k)"
    using terminated_drop [OF assms(1) k(1)] by (simp add: strlen_eq)
  moreover have "take ?k src = take ?k (cstr src)"
    using take_length_cstr [of src] k(1) by (metis min.absorb1 take_take)
  ultimately show ?thesis
    using strlcpy_loop_truncates [OF assms(2-4)] rest assms(2) k len by (simp add: strlcpy_def)
qed


section \<open>Printing and parsing numbers\<close>

lemma charset_facts:
  assumes "d < 16"
  shows "digit_value (charset ! d) = Some (int d)" and "\<not> isspace (charset ! d)"
    and "charset ! d \<notin> {0, 43, 45, 120}" and "charset ! d = 48 \<longleftrightarrow> d = 0"
proof -
  have "list_all (\<lambda>d. digit_value (charset ! d) = Some (int d) \<and> \<not> isspace (charset ! d)
      \<and> charset ! d \<notin> {0, 43, 45, 120} \<and> (charset ! d = 48 \<longleftrightarrow> d = 0)) [0..<16]"
    by code_simp
  then show "digit_value (charset ! d) = Some (int d)" and "\<not> isspace (charset ! d)"
    and "charset ! d \<notin> {0, 43, 45, 120}" and "charset ! d = 48 \<longleftrightarrow> d = 0"
    using assms by (simp_all only: list_all_iff set_upt) auto
qed

lemma digits_rev_length: "\<lbrakk> v < b ^ k; 2 \<le> b; 0 < k \<rbrakk> \<Longrightarrow> length (digits_rev v b) \<le> k"
proof (induction k arbitrary: v)
  case (Suc k)
  show ?case
  proof (cases "v div b = 0")
    case False
    then have "0 < k" using Suc.prems by (cases k) auto
    moreover have "v div b < b ^ k" using Suc.prems(1) by (simp add: less_mult_imp_div_less mult.commute)
    ultimately show ?thesis using Suc.IH [of "v div b"] Suc.prems False by (simp add: digits_rev.simps [of v])
  qed (simp add: digits_rev.simps [of v])
qed simp

lemma strntol_digits_print:
  "\<lbrakk> 2 \<le> b; b \<le> 16; int v \<le> LONG_MAX \<rbrakk> \<Longrightarrow>
     strntol_digits (rev (digits_rev v b) @ rest) (length (digits_rev v b) + m) (int b) 0
       = map_option (\<lambda>(x, k). (x, length (digits_rev v b) + k)) (strntol_digits rest m (int b) (int v))"
proof (induction v b arbitrary: rest m rule: digits_rev.induct)
  case (1 v b)
  have d: "v mod b < 16" using "1.prems"(1,2) mod_less_divisor [of b v] by linarith
  have step: "strntol_digits (charset ! (v mod b) # rest) (Suc m) (int b) (int (v div b))
      = map_option (\<lambda>(x, k). (x, Suc k)) (strntol_digits rest m (int b) (int v))"
  proof -
    have "int (v div b) * int b + int (v mod b) = int v"
      by (metis div_mult_mod_eq of_nat_add of_nat_mult)
    moreover have "\<not> b \<le> v mod b" using "1.prems"(1) by (simp add: not_le)
    ultimately show ?thesis using charset_facts(1) [OF d] "1.prems" by (simp add: strntol_digits.simps(3))
  qed
  show ?case
  proof (cases "v div b = 0")
    case True
    then show ?thesis using step by (simp add: digits_rev.simps [of v])
  next
    case False
    have "int (v div b) \<le> LONG_MAX" using "1.prems"(3) div_le_dividend [of v b] by linarith
    then have "strntol_digits (rev (digits_rev (v div b) b) @ charset ! (v mod b) # rest)
        (length (digits_rev (v div b) b) + Suc m) (int b) 0
      = map_option (\<lambda>(x, k). (x, length (digits_rev (v div b) b) + k))
          (strntol_digits (charset ! (v mod b) # rest) (Suc m) (int b) (int (v div b)))"
      using "1.IH" [of "charset ! (v mod b) # rest" "Suc m"] False "1.prems"(1,2) by simp
    then show ?thesis
      using step False "1.prems"(1) by (simp add: digits_rev.simps [of v] option.map_comp o_def case_prod_beta)
  qed
qed


lemma digits_rev_set: "\<lbrakk> 2 \<le> b; b \<le> 16 \<rbrakk> \<Longrightarrow> set (digits_rev v b) \<subseteq> (!) charset ` {0..<16}"
proof (induction v b rule: digits_rev.induct)
  case (1 v b)
  have "v mod b < 16" using "1.prems" mod_less_divisor [of b v] by linarith
  then show ?case using "1.IH" "1.prems" by (subst digits_rev.simps) auto
qed

lemma digits_rev_last: "\<lbrakk> 2 \<le> b; b \<le> 16; v \<noteq> 0 \<rbrakk> \<Longrightarrow> last (digits_rev v b) \<noteq> 48"
proof (induction v b rule: digits_rev.induct)
  case (1 v b)
  have d: "v mod b < 16" using "1.prems" mod_less_divisor [of b v] by linarith
  show ?case
  proof (cases "v div b = 0")
    case True
    then have "v mod b = v" using "1.prems" by (simp add: div_eq_0_iff)
    then show ?thesis using charset_facts(4) [OF d] True "1.prems"(3) by (simp add: digits_rev.simps [of v])
  next
    case False
    moreover have "digits_rev (v div b) b \<noteq> []" by (simp add: digits_rev.simps [of "v div b"])
    ultimately show ?thesis using "1.IH" "1.prems" by (simp add: digits_rev.simps [of v])
  qed
qed




section \<open>Formatted output stays in its buffer\<close>

text \<open>The argument a conversion reads: \<open>None\<close> when the list does not start with one of its kind and range.\<close>

definition take_int :: "vararg list \<Rightarrow> vararg list option" where
  "take_int ap = (case ap of VInt v # ap \<Rightarrow> if \<bar>v\<bar> < 2 ^ 63 then Some ap else None | _ \<Rightarrow> None)"

definition take_uint :: "vararg list \<Rightarrow> vararg list option" where
  "take_uint ap = (case ap of VUInt v # ap \<Rightarrow> if v < 2 ^ 64 then Some ap else None | _ \<Rightarrow> None)"

definition take_str :: "vararg list \<Rightarrow> vararg list option" where
  "take_str ap =
     (case ap of VStr s # ap \<Rightarrow> if (case s of None \<Rightarrow> True | Some s \<Rightarrow> terminated s) then Some ap else None | _ \<Rightarrow> None)"

definition take_long :: "byte \<Rightarrow> vararg list \<Rightarrow> vararg list option" where
  "take_long c ap =
     (if c \<in> {105, 100} then take_int ap else if c \<in> {117, 120, 88} then take_uint ap else Some ap)"

definition take_conversion :: "byte \<Rightarrow> vararg list \<Rightarrow> vararg list option" where
  "take_conversion c ap =
     (if c \<in> {99, 105, 100} then take_int ap else if c \<in> {117, 112, 120, 88} then take_uint ap
      else if c = 115 then take_str ap else Some ap)"

text \<open>A format that ends with its terminator, not inside a conversion, with matching arguments.\<close>

fun format_ok :: "byte list \<Rightarrow> vararg list \<Rightarrow> bool" where
  "format_ok [] ap = False"
| "format_ok (c # format) ap =
     (if c = 0 then True
      else if c = 37 then
        (case format of
           [] \<Rightarrow> False
         | c # format \<Rightarrow>
             if c = 0 then False
             else if c = 108 then
               (case format of
                  [] \<Rightarrow> False
                | c1 # format' \<Rightarrow>
                    if c1 = 0 then True
                    else if c1 = 108 then
                      (case format' of
                         [] \<Rightarrow> False
                       | c2 # format'' \<Rightarrow> c2 \<noteq> 0 \<and>
                           (case take_long c2 ap of None \<Rightarrow> False | Some ap \<Rightarrow> format_ok format'' ap))
                    else (case take_long c1 ap of None \<Rightarrow> False | Some ap \<Rightarrow> format_ok format' ap))
             else (case take_conversion c ap of None \<Rightarrow> False | Some ap \<Rightarrow> format_ok format ap))
      else format_ok format ap)"

definition out_inv :: "size_t \<Rightarrow> byte list \<Rightarrow> outbuf \<Rightarrow> bool" where
  "out_inv sz str0 out \<longleftrightarrow>
     (case out of (str, pos) \<Rightarrow> length str = length str0 \<and> unat sz \<le> length str0 \<and> pos < unat sz
        \<and> drop (unat sz) str = drop (unat sz) str0)"

named_theorems out_intros

lemma putchar_ok [out_intros]:
  assumes "out_inv sz s0 out" shows "\<exists>out'. putchar sz c out = Some out' \<and> out_inv sz s0 out'"
proof -
  obtain str pos where out: "out = (str, pos)" by (cases out)
  have "sz \<noteq> 0" using assms out by (auto simp: out_inv_def)
  then have "unat (sz - 1) = unat sz - 1" by (rule unat_minus_one)
  then show ?thesis using assms out by (auto simp: putchar_def out_inv_def)
qed

lemma putchars_ok [out_intros]: "out_inv sz s0 out \<Longrightarrow> \<exists>out'. putchars sz cs out = Some out' \<and> out_inv sz s0 out'"
proof (induction cs arbitrary: out)
  case (Cons c cs)
  then show ?case using putchar_ok [OF Cons.prems, of c] by auto
qed simp

lemma put_cstring_ok [out_intros]:
  "\<lbrakk> out_inv sz s0 out; terminated s \<rbrakk> \<Longrightarrow> \<exists>out'. put_cstring sz s out = Some out' \<and> out_inv sz s0 out'"
proof (induction s arbitrary: out)
  case (Cons c s)
  then show ?case using putchar_ok [OF Cons.prems(1), of c] by (auto simp del: split_paired_Ex)
qed simp

lemma print_unsigned_integer_ok [out_intros]:
  assumes "out_inv sz s0 out" "v < 2 ^ 64" "10 \<le> b"
  shows "\<exists>out'. print_unsigned_integer sz v b out = Some out' \<and> out_inv sz s0 out'"
proof -
  have "(10 :: nat) ^ 20 \<le> b ^ 20" using assms(3) by (rule power_mono) simp
  then have "v < b ^ 20" using assms(2) by simp
  then have "length (digits_rev v b) \<le> 20" using digits_rev_length [of v b 20] assms(3) by simp
  then show ?thesis using putchars_ok [OF assms(1)] by (simp add: print_unsigned_integer_def Let_def)
qed

lemma print_integer_ok [out_intros]:
  assumes "out_inv sz s0 out" "\<bar>v\<bar> < 2 ^ 63"
  shows "\<exists>out'. print_integer sz v out = Some out' \<and> out_inv sz s0 out'"
proof (cases "v < 0")
  case True
  obtain o1 where "putchar sz 45 out = Some o1" "out_inv sz s0 o1" using putchar_ok [OF assms(1)] by blast
  moreover have "nat (- v) < 2 ^ 64" "v \<noteq> LLONG_MIN" using assms(2) True by auto
  ultimately show ?thesis
    using True print_unsigned_integer_ok [of sz s0 o1 "nat (- v)" 10] by (simp add: print_integer_def)
next
  case False
  then have "nat v < 2 ^ 64" using assms(2) by auto
  then show ?thesis using False print_unsigned_integer_ok [OF assms(1)] by (simp add: print_integer_def)
qed

lemma print_vint_ok:
  assumes "out_inv sz s0 out" "take_int ap = Some ap'"
  shows "\<exists>out'. print_vint sz ap out = Some (ap', out') \<and> out_inv sz s0 out'"
proof -
  obtain v where "ap = VInt v # ap'" "\<bar>v\<bar> < 2 ^ 63"
    using assms(2) by (auto simp: take_int_def split: list.splits vararg.splits if_splits)
  then show ?thesis using print_integer_ok [OF assms(1)] by (auto simp: print_vint_def)
qed

lemma print_vuint_ok:
  assumes "out_inv sz s0 out" "take_uint ap = Some ap'" "10 \<le> b"
  shows "\<exists>out'. print_vuint sz b ap out = Some (ap', out') \<and> out_inv sz s0 out'"
proof -
  obtain v where "ap = VUInt v # ap'" "v < 2 ^ 64"
    using assms(2) by (auto simp: take_uint_def split: list.splits vararg.splits if_splits)
  then show ?thesis using print_unsigned_integer_ok [OF assms(1) _ assms(3)] by (auto simp: print_vuint_def)
qed

lemma print_long_ok:
  assumes "out_inv sz s0 out" "take_long c ap = Some ap'"
  shows "\<exists>out'. print_long sz c ap out = Some (ap', out') \<and> out_inv sz s0 out'"
  using assms(2) print_vint_ok [OF assms(1), of ap ap'] print_vuint_ok [OF assms(1), of ap ap'] assms(1)
  by (auto simp: print_long_def take_long_def simp del: split_paired_Ex split: if_splits)

lemma print_string_ok:
  assumes "out_inv sz s0 out" "take_str ap = Some ap'"
  shows "\<exists>s out'. ap = VStr s # ap' \<and> put_cstring sz (case s of None \<Rightarrow> null_string | Some s \<Rightarrow> s) out = Some out'
    \<and> out_inv sz s0 out'"
proof -
  obtain s where s: "ap = VStr s # ap'" "case s of None \<Rightarrow> True | Some s \<Rightarrow> terminated s"
    using assms(2) by (auto simp: take_str_def split: list.splits vararg.splits if_splits)
  then have "terminated (case s of None \<Rightarrow> null_string | Some s \<Rightarrow> s)"
    by (auto simp: null_string_def split: option.splits)
  then show ?thesis using put_cstring_ok [OF assms(1)] s(1) by blast
qed

lemma print_char_ok:
  assumes "out_inv sz s0 out" "take_int ap = Some ap'"
  shows "\<exists>v out'. ap = VInt v # ap' \<and> putchar sz (word_of_int v) out = Some out' \<and> out_inv sz s0 out'"
proof -
  obtain v where "ap = VInt v # ap'"
    using assms(2) by (auto simp: take_int_def split: list.splits vararg.splits if_splits)
  then show ?thesis using putchar_ok [OF assms(1)] by blast
qed

lemma put_two_ok:
  assumes "out_inv sz s0 out"
  shows "\<exists>o1 o2. putchar sz c out = Some o1 \<and> putchar sz d o1 = Some o2 \<and> out_inv sz s0 o2"
  using putchar_ok [OF assms, of c] putchar_ok by blast

lemma print_conversion_ok:
  assumes "out_inv sz s0 out" "take_conversion c ap = Some ap'"
  shows "\<exists>out'. print_conversion sz c ap out = Some (ap', out') \<and> out_inv sz s0 out'"
proof -
  consider "c = 99" | "c \<in> {105, 100}" | "c \<in> {117, 120, 88}" | "c = 112" | "c = 115" | "c = 37"
    | "c \<notin> {99, 105, 100, 117, 112, 120, 88, 115, 37}" by auto
  then show ?thesis
  proof cases
    case 1
    then show ?thesis using print_char_ok [OF assms(1)] assms(2)
      by (fastforce simp: print_conversion_def take_conversion_def)
  next
    case 2
    then show ?thesis using print_vint_ok [OF assms(1)] assms(2)
      by (auto simp: print_conversion_def take_conversion_def)
  next
    case 3
    then show ?thesis using print_vuint_ok [OF assms(1)] assms(2)
      by (auto simp: print_conversion_def take_conversion_def)
  next
    case 4
    obtain o1 o2 where "putchar sz 48 out = Some o1" "putchar sz 120 o1 = Some o2" "out_inv sz s0 o2"
      using put_two_ok [OF assms(1)] by blast
    then show ?thesis using print_vuint_ok [of sz s0 o2 ap ap' 16] assms(2) 4
      by (simp add: print_conversion_def take_conversion_def)
  next
    case 5
    then show ?thesis using print_string_ok [OF assms(1)] assms(2)
      by (fastforce simp: print_conversion_def take_conversion_def)
  next
    case 6
    then show ?thesis using putchar_ok [OF assms(1)] assms(2)
      by (fastforce simp: print_conversion_def take_conversion_def)
  next
    case 7
    obtain o1 o2 where "putchar sz 37 out = Some o1" "putchar sz c o1 = Some o2" "out_inv sz s0 o2"
      using put_two_ok [OF assms(1)] by blast
    then show ?thesis using 7 assms(2) by (simp add: print_conversion_def take_conversion_def)
  qed
qed


lemma vsnprintf_loop_ok:
  "\<lbrakk> out_inv sz s0 out; format_ok format ap \<rbrakk> \<Longrightarrow> \<exists>out'. vsnprintf_loop sz format ap out = Some out' \<and> out_inv sz s0 out'"
proof (induction sz format ap out rule: vsnprintf_loop.induct)
  case (2 sz c format ap out)
  show ?case
  proof (cases "c = 37")
    case False
    show ?thesis
    proof (cases "c = 0")
      case nz: False
      obtain o1 where "putchar sz c out = Some o1" "out_inv sz s0 o1" using putchar_ok [OF "2.prems"(1)] by blast
      then show ?thesis using "2.IH" "2.prems"(2) False nz by simp
    qed (use "2.prems"(1) in \<open>simp del: split_paired_Ex\<close>)
  next
    case True
    then obtain d f where f: "format = d # f" "d \<noteq> 0"
      using "2.prems"(2) by (auto split: list.splits if_splits)
    show ?thesis
    proof (cases "d = 108")
      case False
      then obtain ap' where ap': "take_conversion d ap = Some ap'" "format_ok f ap'"
        using "2.prems"(2) True f by (auto split: option.splits)
      then obtain o1 where "print_conversion sz d ap out = Some (ap', o1)" "out_inv sz s0 o1"
        using print_conversion_ok [OF "2.prems"(1)] by blast
      then show ?thesis using "2.IH" True f False ap'(2) by simp
    next
      case l: True
      then obtain c1 f1 where f1: "f = c1 # f1"
        using "2.prems"(2) True f by (auto split: list.splits)
      consider "c1 = 0" | "c1 \<noteq> 0" "c1 \<noteq> 108" | "c1 = 108" by blast
      then show ?thesis
      proof cases
        case 1
        then show ?thesis using "2.prems"(1) True f l f1 by (simp del: split_paired_Ex)
      next
        case 2
        then obtain ap' where ap': "take_long c1 ap = Some ap'" "format_ok f1 ap'"
          using "2.prems"(2) True f l f1 by (auto split: option.splits)
        then obtain o1 where "print_long sz c1 ap out = Some (ap', o1)" "out_inv sz s0 o1"
          using print_long_ok [OF "2.prems"(1)] by blast
        then show ?thesis using "2.IH" True f l f1 2 ap'(2) by simp
      next
        case 3
        then obtain c2 f2 ap' where f2: "f1 = c2 # f2" "c2 \<noteq> 0" "take_long c2 ap = Some ap'" "format_ok f2 ap'"
          using "2.prems"(2) True f l f1 by (auto split: list.splits option.splits)
        then obtain o1 where "print_long sz c2 ap out = Some (ap', o1)" "out_inv sz s0 o1"
          using print_long_ok [OF "2.prems"(1)] by blast
        then show ?thesis using "2.IH" True f l f1 3 f2 by simp
      qed
    qed
  qed
qed simp

text \<open>
  C30: \<open>vsnprintf\<close> with a positive size that its buffer really has, and a well-formed format with matching
  arguments, always returns; it writes only in the first \<open>size\<close> bytes, the returned position is below
  \<open>size\<close>, and the byte there is the terminator.
\<close>

theorem vsnprintf_in_bounds:
  assumes "0 < sz" and "unat sz \<le> length str" and "format_ok format ap"
  shows "\<exists>str' pos. vsnprintf str sz format ap = Some (str', pos)
    \<and> pos < unat sz \<and> str' ! pos = 0 \<and> length str' = length str \<and> drop (unat sz) str' = drop (unat sz) str"
proof -
  have "out_inv sz str (str, 0)"
    using assms(1,2) by (simp add: out_inv_def word_less_nat_alt)
  then obtain str1 pos where "vsnprintf_loop sz format ap (str, 0) = Some (str1, pos)" "out_inv sz str (str1, pos)"
    using vsnprintf_loop_ok [OF _ assms(3), of sz str "(str, 0)"] by auto
  then show ?thesis by (auto simp: vsnprintf_def out_inv_def)
qed

text \<open>The format \<^verbatim>\<open>"v=%d%s"\<close>.\<close>

definition sample_format :: "byte list" where
  "sample_format = [118, 61, 37, 100, 37, 115, 0]"

theorem vsnprintf_in_bounds_witness:
  "\<exists>str' pos. vsnprintf (replicate 8 1) 6 sample_format [VInt (- 42), VStr (Some [97, 98, 99, 0])] = Some (str', pos)
     \<and> pos < unat (6 :: size_t) \<and> str' ! pos = 0 \<and> length str' = length (replicate 8 (1 :: byte))
     \<and> drop (unat (6 :: size_t)) str' = drop (unat (6 :: size_t)) (replicate 8 1)"
proof (rule vsnprintf_in_bounds)
  show "format_ok sample_format [VInt (- 42), VStr (Some [97, 98, 99, 0])]"
    by (simp add: sample_format_def take_conversion_def take_int_def take_str_def)
qed simp_all

text \<open>
  What \<open>strlcpy\<close> does for a positive size that the destination has: the destination receives the
  longest prefix of the source that fits, with a terminator.  The returned length is the length of the
  source when it is truncated or just fits, and one more otherwise, because the loop steps over the
  terminator it has copied.
\<close>

theorem strlcpy_copies:
  assumes "terminated src" and "n \<noteq> 0" and "unat n \<le> length dest"
  shows "\<exists>dest'. strlcpy dest src n
      = Some (dest', if length (cstr src) + 1 < unat n then length (cstr src) + 1 else length (cstr src))
    \<and> cstr dest' = take (unat n - 1) (cstr src) \<and> length dest' = length dest
    \<and> drop (unat n) dest' = drop (unat n) dest"
proof (cases "length (cstr src) + 1 < unat n")
  case True
  have "cstr (cstr src @ 0 # t) = cstr src" for t by (rule cstr_append_nul) (rule cstr_nonzero)
  moreover obtain k where "unat n = Suc (length (cstr src) + k)"
    using True less_imp_Suc_add [of "length (cstr src)" "unat n"] by auto
  ultimately show ?thesis using strlcpy_fits [OF assms(1) True assms(3)] True assms(3) by (auto simp: add.commute)
next
  case False
  have "0 < unat n" using assms(2) by (simp add: unat_gt_0)
  moreover have "cstr (take (unat n - 1) (cstr src) @ 0 # t) = take (unat n - 1) (cstr src)" for t
    by (rule cstr_append_nul) (meson cstr_nonzero in_set_takeD)
  ultimately show ?thesis using strlcpy_truncates [OF assms(1,2) _ assms(3)] False assms(3) by auto
qed

theorem strlcpy_copies_witness:
  "\<exists>dest'. strlcpy [9, 9, 9, 9, 9] [97, 98, 0] 5 = Some (dest', 3) \<and> cstr dest' = [97, 98]"
  using strlcpy_copies [of "[97, 98, 0]" 5 "[9, 9, 9, 9, 9]"] by auto

end
