(* ===== verification/Mm_Memory.thy ===== *)
theory Mm_Memory
  imports Libk_List
begin

text \<open>
  Physical page frames: \<^verbatim>\<open>kernel/mm/memory.c\<close> and the bounds of the kernel image in
  \<^verbatim>\<open>kernel/kernel_image.c\<close>.

  The frame descriptors are nodes of the list heap of \<^verbatim>\<open>Libk_List\<close> (a \<^verbatim>\<open>struct page_frame\<close> is
  identified with its embedded \<^verbatim>\<open>pf_list\<close>, so \<^verbatim>\<open>list_entry\<close> is the identity), \<open>fr_addr\<close> is their
  \<^verbatim>\<open>addr\<close> field.  A failed \<^verbatim>\<open>kassert\<close> is the outcome \<open>None\<close>.  The loops of \<^verbatim>\<open>init_frames\<close> need
  not end for every memory layout, so they carry fuel and an exhausted fuel is \<open>None\<close> too.
\<close>

section \<open>The kernel image\<close>

text \<open>The addresses of the linker symbols, and the space taken after the image by early allocations.\<close>

record kernel_image =
  kernel_p_start :: p_addr
  kernel_p_end :: p_addr
  kernel_v_start :: v_addr
  kernel_v_end :: v_addr
  kernel_end_shift :: size_t

definition kernel_image_shift_kernel_end :: "size_t \<Rightarrow> kernel_image \<Rightarrow> kernel_image option" where
  "kernel_image_shift_kernel_end bytes img =
     (let img = img\<lparr>kernel_end_shift := kernel_end_shift img + bytes\<rparr>
      in if kernel_end_shift img \<ge> bytes then Some img else None)"

definition kernel_image_get_phys_begin :: "kernel_image \<Rightarrow> p_addr" where
  "kernel_image_get_phys_begin img = kernel_p_start img"

definition kernel_image_get_phys_end :: "kernel_image \<Rightarrow> p_addr" where
  "kernel_image_get_phys_end img = kernel_p_end img + kernel_end_shift img"

definition kernel_image_get_base_page_frame :: "kernel_image \<Rightarrow> p_addr" where
  "kernel_image_get_base_page_frame img = page_align_down (kernel_p_start img)"

definition kernel_image_get_top_page_frame :: "kernel_image \<Rightarrow> p_addr" where
  "kernel_image_get_top_page_frame img = page_align_up (kernel_image_get_phys_end img)"

definition kernel_image_get_virt_begin :: "kernel_image \<Rightarrow> v_addr" where
  "kernel_image_get_virt_begin img = kernel_v_start img"

definition kernel_image_get_virt_end :: "kernel_image \<Rightarrow> v_addr" where
  "kernel_image_get_virt_end img = kernel_v_end img + kernel_end_shift img"

definition kernel_image_get_base_page :: "kernel_image \<Rightarrow> v_addr" where
  "kernel_image_get_base_page img = page_align_down (kernel_v_start img)"

definition kernel_image_get_top_page :: "kernel_image \<Rightarrow> v_addr" where
  "kernel_image_get_top_page img = page_align_up (kernel_image_get_virt_end img)"

definition kernel_image_get_size :: "kernel_image \<Rightarrow> size_t" where
  "kernel_image_get_size img = kernel_image_get_top_page img - kernel_image_get_base_page img"

section \<open>Memory areas\<close>

record mem_area =
  ma_start :: p_addr
  ma_size :: size_t
  ma_vaddr :: v_addr

definition MEMORY_AREA :: "p_addr \<Rightarrow> size_t \<Rightarrow> v_addr \<Rightarrow> mem_area" where
  "MEMORY_AREA s sz va = \<lparr>ma_start = s, ma_size = sz, ma_vaddr = va\<rparr>"

text \<open>The binary search over the layout, with \<open>lo\<close> and \<open>hi\<close> as in the source.\<close>

function find_area_loop :: "p_addr \<Rightarrow> mem_area list \<Rightarrow> int \<Rightarrow> int \<Rightarrow> mem_area option" where
  "find_area_loop addr layout lo hi =
     (if lo \<le> hi then
        let mid = (lo + hi) div 2;
            m = layout ! nat mid;
            start = ma_start m
        in if addr > start + ma_size m then find_area_loop addr layout (mid + 1) hi
           else if addr < start then find_area_loop addr layout lo (mid - 1)
           else Some m
      else None)"
  by pat_completeness auto
termination
  by (relation "measure (\<lambda>(addr, layout, lo, hi). nat (hi - lo + 1))") auto

declare find_area_loop.simps [simp del]

definition memory_layout_find_area :: "p_addr \<Rightarrow> mem_area list \<Rightarrow> mem_area \<Rightarrow> mem_area option" where
  "memory_layout_find_area addr layout kernel_area =
     (if addr < PAGE_SIZE then Some (MEMORY_AREA 0 PAGE_SIZE 0)
      else if addr \<ge> ma_start kernel_area \<and> addr < ma_start kernel_area + ma_size kernel_area
        then Some kernel_area
      else find_area_loop addr layout 0 (int (length layout) - 1))"

section \<open>Frame descriptors and the two frame lists\<close>

datatype pf_list = free_page_frames | used_page_frames

fun pf_sentinel :: "pf_list \<Rightarrow> node" where
  "pf_sentinel free_page_frames = 1"
| "pf_sentinel used_page_frames = 2"

definition MEMORY_EARLY_FRAMES :: nat where
  "MEMORY_EARLY_FRAMES = 4 * 1024 * 1024 div 4096"

definition early_free_frame :: "nat \<Rightarrow> node" where
  "early_free_frame i = 3 + i"

definition page_frame_descriptor :: "nat \<Rightarrow> node" where
  "page_frame_descriptor i = 3 + MEMORY_EARLY_FRAMES + i"

record frames =
  fr_heap :: list_heap
  fr_addr :: "node \<Rightarrow> p_addr"
  fr_n :: "pf_list \<Rightarrow> size_t"
  memory_base :: p_addr
  memory_top :: p_addr
  early_free_frames_size :: nat

definition memory_pf_list_init :: "pf_list \<Rightarrow> frames \<Rightarrow> frames" where
  "memory_pf_list_init l s =
     s\<lparr>fr_heap := list_init (pf_sentinel l) (fr_heap s), fr_n := (fr_n s)(l := 0)\<rparr>"

definition memory_pf_list_insert :: "pf_list \<Rightarrow> node \<Rightarrow> frames \<Rightarrow> frames" where
  "memory_pf_list_insert l pf s =
     s\<lparr>fr_heap := list_push_back (pf_sentinel l) pf (fr_heap s), fr_n := (fr_n s)(l := fr_n s l + 1)\<rparr>"

abbreviation set_pf_addr :: "node \<Rightarrow> p_addr \<Rightarrow> frames \<Rightarrow> frames" where
  "set_pf_addr pf a s \<equiv> s\<lparr>fr_addr := (fr_addr s)(pf := a)\<rparr>"

fun memory_early_init_loop :: "nat \<Rightarrow> nat \<Rightarrow> p_addr \<Rightarrow> frames \<Rightarrow> frames" where
  "memory_early_init_loop 0 i paddr s = s\<lparr>early_free_frames_size := i\<rparr>"
| "memory_early_init_loop (Suc n) i paddr s =
     memory_early_init_loop n (Suc i) (paddr + PAGE_SIZE)
       (memory_pf_list_insert free_page_frames (early_free_frame i) (set_pf_addr (early_free_frame i) paddr s))"

definition memory_early_init :: "kernel_image \<Rightarrow> frames \<Rightarrow> frames" where
  "memory_early_init img s =
     (let s = memory_pf_list_init free_page_frames s;
          s = memory_pf_list_init used_page_frames s
      in memory_early_init_loop MEMORY_EARLY_FRAMES 0 (kernel_image_get_top_page_frame img) s)"

text \<open>The body shared by both branches of \<^verbatim>\<open>init_frames\<close>: describe one page and append it to a list.\<close>

definition init_frame :: "pf_list \<Rightarrow> node \<Rightarrow> p_addr \<Rightarrow> frames \<Rightarrow> frames" where
  "init_frame l pf paddr s = memory_pf_list_insert l pf (set_pf_addr pf paddr s)"

fun init_frames_area ::
  "nat \<Rightarrow> mem_area \<Rightarrow> p_addr \<Rightarrow> node \<Rightarrow> p_addr \<Rightarrow> nat \<Rightarrow> frames \<Rightarrow> (p_addr \<times> nat \<times> frames) option" where
  "init_frames_area 0 m mtop descriptors paddr i s = None"
| "init_frames_area (Suc fuel) m mtop descriptors paddr i s =
     (if paddr < ma_start m + ma_size m \<and> paddr < mtop
      then init_frames_area fuel m mtop descriptors (paddr + PAGE_SIZE) (Suc i)
             (init_frame used_page_frames (descriptors + i) paddr s)
      else Some (paddr, i, s))"

fun init_frames_loop ::
  "nat \<Rightarrow> p_addr \<Rightarrow> node \<Rightarrow> mem_area list \<Rightarrow> mem_area \<Rightarrow> p_addr \<Rightarrow> nat \<Rightarrow> frames \<Rightarrow> (nat \<times> frames) option" where
  "init_frames_loop 0 mtop descriptors layout ka paddr i s = None"
| "init_frames_loop (Suc fuel) mtop descriptors layout ka paddr i s =
     (if paddr < mtop then
        case memory_layout_find_area paddr layout ka of
          Some m \<Rightarrow>
            (case init_frames_area fuel m mtop descriptors paddr i s of
               None \<Rightarrow> None
             | Some (paddr, i, s) \<Rightarrow> init_frames_loop fuel mtop descriptors layout ka paddr i s)
        | None \<Rightarrow>
            init_frames_loop fuel mtop descriptors layout ka (paddr + PAGE_SIZE) (Suc i)
              (init_frame free_page_frames (descriptors + i) paddr s)
      else Some (i, s))"

definition init_frames ::
  "nat \<Rightarrow> p_addr \<Rightarrow> p_addr \<Rightarrow> node \<Rightarrow> mem_area list \<Rightarrow> mem_area \<Rightarrow> frames \<Rightarrow> (nat \<times> frames) option" where
  "init_frames fuel base mtop descriptors layout ka s =
     init_frames_loop fuel mtop descriptors layout ka base 0 s"

text \<open>
  \<open>descs\<close> says whether the \<^verbatim>\<open>kcalloc\<close> of the descriptor array succeeded; the array is the nodes
  \<open>page_frame_descriptor i\<close>.
\<close>

definition memory_init ::
  "nat \<Rightarrow> size_t \<Rightarrow> mem_area list \<Rightarrow> kernel_image \<Rightarrow> bool \<Rightarrow> frames \<Rightarrow> frames option" where
  "memory_init fuel ram_size_bytes layout img descs s =
     (if \<not> 4 * 1024 * 1024 \<le> ram_size_bytes then None
      else
        let kernel_area = MEMORY_AREA (kernel_image_get_base_page_frame img) (kernel_image_get_size img) 0;
            s = s\<lparr>memory_base := PAGE_SIZE, memory_top := page_align_down ram_size_bytes\<rparr>
        in if \<not> descs then None
           else case init_frames fuel 0 (kernel_image_get_top_page_frame img) (page_frame_descriptor 0)
                       layout kernel_area s of
               None \<Rightarrow> None
             | Some (n, s) \<Rightarrow>
                 let s = fold (\<lambda>i. set_pf_addr (page_frame_descriptor (n + i)) (- 1))
                           [0..<early_free_frames_size s] s
                 in map_option snd
                      (init_frames fuel (fr_addr s (early_free_frame (early_free_frames_size s - 1)) + PAGE_SIZE)
                         (memory_top s) (page_frame_descriptor (n + early_free_frames_size s)) layout kernel_area s))"

section \<open>Allocation\<close>

definition get_page_frame_at :: "frames \<Rightarrow> p_addr \<Rightarrow> node option" where
  "get_page_frame_at s addr =
     (if \<not> is_aligned addr PAGE_SIZE \<or> addr < memory_base s \<or> addr \<ge> memory_top s then None
      else let pf = page_frame_descriptor (unat (addr div PAGE_SIZE))
           in if fr_addr s pf = - 1
              then let start = fr_addr s (early_free_frame 0)
                   in Some (early_free_frame (unat ((addr - start) div PAGE_SIZE)))
              else Some pf)"

definition memory_page_frame_alloc :: "frames \<Rightarrow> p_addr \<times> frames" where
  "memory_page_frame_alloc s =
     (if list_empty (fr_heap s) (pf_sentinel free_page_frames) then (0, s)
      else let pf = list_front (fr_heap s) (pf_sentinel free_page_frames);
               s = s\<lparr>fr_heap := list_pop_front (pf_sentinel free_page_frames) (fr_heap s)\<rparr>;
               s = s\<lparr>fr_n := (fr_n s)(free_page_frames := fr_n s free_page_frames - 1)\<rparr>;
               s = s\<lparr>fr_heap := list_push_back (pf_sentinel used_page_frames) pf (fr_heap s)\<rparr>;
               s = s\<lparr>fr_n := (fr_n s)(used_page_frames := fr_n s used_page_frames + 1)\<rparr>
           in (fr_addr s pf, s))"

definition memory_page_frame_free :: "p_addr \<Rightarrow> frames \<Rightarrow> (unit result \<times> frames) option" where
  "memory_page_frame_free addr s =
     (case get_page_frame_at s addr of
        None \<Rightarrow> Some (Inl EINVAL, s)
      | Some pf \<Rightarrow>
          if fr_addr s pf \<noteq> addr then None
          else let s = s\<lparr>fr_heap := list_erase pf (fr_heap s)\<rparr>;
                   s = s\<lparr>fr_n := (fr_n s)(used_page_frames := fr_n s used_page_frames - 1)\<rparr>;
                   s = s\<lparr>fr_heap := list_push_front (pf_sentinel free_page_frames) pf (fr_heap s)\<rparr>;
                   s = s\<lparr>fr_n := (fr_n s)(free_page_frames := fr_n s free_page_frames + 1)\<rparr>
               in Some (Inr (), s))"

definition memory_statistics :: "frames \<Rightarrow> size_t \<times> size_t" where
  "memory_statistics s = (fr_n s used_page_frames, fr_n s free_page_frames)"

definition memory_get_memory_base :: "frames \<Rightarrow> p_addr" where
  "memory_get_memory_base s = memory_base s"

definition memory_get_memory_top :: "frames \<Rightarrow> p_addr" where
  "memory_get_memory_top s = memory_top s"

section \<open>The area lookup\<close>

abbreviation area_end :: "mem_area \<Rightarrow> nat" where
  "area_end m \<equiv> unat (ma_start m) + unat (ma_size m)"

text \<open>A layout as the architectures declare it: no area wraps, and they are sorted and disjoint.\<close>

definition layout_ok :: "mem_area list \<Rightarrow> bool" where
  "layout_ok layout \<longleftrightarrow>
     (\<forall>m \<in> set layout. area_end m < 2 ^ 32) \<and>
     sorted_wrt (\<lambda>m m'. area_end m \<le> unat (ma_start m')) layout"

lemma layout_ok_nth:
  assumes "layout_ok layout" "i < length layout"
  shows "unat (ma_start (layout ! i) + ma_size (layout ! i)) = area_end (layout ! i)"
  using assms by (simp add: layout_ok_def unat_add_no_wrap)

lemma layout_ok_less:
  "\<lbrakk> layout_ok layout; i < j; j < length layout \<rbrakk> \<Longrightarrow> area_end (layout ! i) \<le> unat (ma_start (layout ! j))"
  by (simp add: layout_ok_def sorted_wrt_iff_nth_less)

lemma find_area_loop_sound:
  "\<lbrakk> find_area_loop addr layout lo hi = Some m; 0 \<le> lo; hi < int (length layout) \<rbrakk>
    \<Longrightarrow> m \<in> set layout \<and> ma_start m \<le> addr \<and> addr \<le> ma_start m + ma_size m"
proof (induction addr layout lo hi rule: find_area_loop.induct)
  case (1 addr layout lo hi)
  have le: "lo \<le> hi"
    using 1(3) by (rule contrapos_pp) (simp add: find_area_loop.simps)
  define mid where "mid = (lo + hi) div 2"
  let ?m = "layout ! nat mid"
  have mid: "0 \<le> mid" "nat mid < length layout" "mid - 1 < int (length layout)"
    using le 1(4,5) by (simp_all add: mid_def; linarith)+
  have step: "find_area_loop addr layout lo hi =
      (if addr > ma_start ?m + ma_size ?m then find_area_loop addr layout (mid + 1) hi
       else if addr < ma_start ?m then find_area_loop addr layout lo (mid - 1) else Some ?m)"
    using le by (subst find_area_loop.simps) (simp add: Let_def mid_def)
  consider "addr > ma_start ?m + ma_size ?m"
    | "\<not> addr > ma_start ?m + ma_size ?m" "addr < ma_start ?m"
    | "\<not> addr > ma_start ?m + ma_size ?m" "\<not> addr < ma_start ?m" by blast
  then show ?case
  proof cases
    case 1
    then show ?thesis using "1.IH"(1) [OF le mid_def refl refl] step "1.prems" mid by simp
  next
    case 2
    then show ?thesis using "1.IH"(2) [OF le mid_def refl refl] step "1.prems" mid by simp
  next
    case 3
    then show ?thesis using step "1.prems"(1) mid by auto
  qed
qed

lemma find_area_loop_complete:
  "\<lbrakk> layout_ok layout; lo \<le> int k; int k \<le> hi; 0 \<le> lo; hi < int (length layout);
     unat (ma_start (layout ! k)) \<le> unat addr; unat addr < area_end (layout ! k) \<rbrakk>
    \<Longrightarrow> find_area_loop addr layout lo hi \<noteq> None"
proof (induction addr layout lo hi rule: find_area_loop.induct)
  case (1 addr layout lo hi)
  have le: "lo \<le> hi" using 1(4,5) by simp
  define mid where "mid = (lo + hi) div 2"
  have mid: "0 \<le> mid" "nat mid < length layout" "mid < int (length layout)" "lo \<le> mid" "mid \<le> hi"
    using le 1(6,7) by (simp_all add: mid_def; linarith)+
  let ?m = "layout ! nat mid"
  have e: "unat (ma_start ?m + ma_size ?m) = area_end ?m"
    using layout_ok_nth [OF 1(3) mid(2)] .
  have right: "mid < int k" if "ma_start ?m + ma_size ?m < addr"
  proof (rule ccontr)
    assume "\<not> mid < int k"
    then have "k \<le> nat mid" by linarith
    then have "area_end (layout ! k) \<le> area_end ?m"
      using layout_ok_less [OF 1(3), of k "nat mid"] mid by (cases "k = nat mid") auto
    then show False using that 1(9) e by (simp add: word_less_nat_alt)
  qed
  have left: "int k < mid" if "addr < ma_start ?m"
  proof (rule ccontr)
    assume "\<not> int k < mid"
    then have "nat mid \<le> k" "k < length layout" using 1(5,7) by linarith+
    then have "unat (ma_start ?m) \<le> unat (ma_start (layout ! k))"
      using layout_ok_less [OF 1(3), of "nat mid" k] by (cases "k = nat mid") auto
    then show False using that 1(8) by (simp add: word_less_nat_alt)
  qed
  show ?case
    using 1(1) [OF le mid_def refl refl] 1(2) [OF le mid_def refl refl] 1(3-) right left mid le
    by (subst find_area_loop.simps) (auto simp: Let_def simp flip: mid_def)
qed

lemma find_area_complete:
  assumes "layout_ok layout" "m \<in> set layout" "unat (ma_start m) \<le> unat addr" "unat addr < area_end m"
  shows "memory_layout_find_area addr layout ka \<noteq> None"
proof -
  obtain k where "k < length layout" "layout ! k = m"
    using assms(2) by (auto simp: in_set_conv_nth)
  then show ?thesis
    using find_area_loop_complete [OF assms(1), of 0 k "int (length layout) - 1" addr] assms(3,4)
    by (auto simp: memory_layout_find_area_def)
qed

section \<open>Allocation and release on the two lists\<close>

declare pf_sentinel.simps [simp del]

lemma pf_sentinel_neq [simp]: "pf_sentinel free_page_frames \<noteq> pf_sentinel used_page_frames"
  by (simp add: pf_sentinel.simps)

abbreviation free_sentinel :: node where
  "free_sentinel \<equiv> pf_sentinel free_page_frames"

abbreviation used_sentinel :: node where
  "used_sentinel \<equiv> pf_sentinel used_page_frames"

definition frames_rep :: "frames \<Rightarrow> node list \<Rightarrow> node list \<Rightarrow> bool" where
  "frames_rep s F U \<longleftrightarrow>
     is_list (fr_heap s) free_sentinel F \<and> is_list (fr_heap s) used_sentinel U
     \<and> set (free_sentinel # F) \<inter> set (used_sentinel # U) = {}
     \<and> fr_n s free_page_frames = of_nat (length F) \<and> fr_n s used_page_frames = of_nat (length U)"

text \<open>A frame is managed when its address leads back to its descriptor, so that it can be freed.\<close>

definition managed :: "frames \<Rightarrow> node \<Rightarrow> bool" where
  "managed s n \<longleftrightarrow> get_page_frame_at s (fr_addr s n) = Some n"

lemma alloc_empty: "frames_rep s [] U \<Longrightarrow> memory_page_frame_alloc s = (0, s)"
  using nl.empty_law [of "fr_heap s" free_sentinel "[]"]
  by (simp add: frames_rep_def memory_page_frame_alloc_def)

lemma alloc_front:
  assumes "frames_rep s (n # F) U"
  shows "fst (memory_page_frame_alloc s) = fr_addr s n"
    and "frames_rep (snd (memory_page_frame_alloc s)) F (U @ [n])"
    and "fr_addr (snd (memory_page_frame_alloc s)) = fr_addr s"
    and "get_page_frame_at (snd (memory_page_frame_alloc s)) = get_page_frame_at s"
proof -
  have lists: "is_list (fr_heap s) free_sentinel (n # F)" "is_list (fr_heap s) used_sentinel U"
    "set (free_sentinel # n # F) \<inter> set (used_sentinel # U) = {}"
    using assms by (auto simp: frames_rep_def)
  have front: "list_front (fr_heap s) free_sentinel = n" "\<not> list_empty (fr_heap s) free_sentinel"
    using nl.front_law [OF lists(1)] nl.empty_law [OF lists(1)] by simp_all
  show "fst (memory_page_frame_alloc s) = fr_addr s n"
    and "fr_addr (snd (memory_page_frame_alloc s)) = fr_addr s"
    and "get_page_frame_at (snd (memory_page_frame_alloc s)) = get_page_frame_at s"
    using front by (simp_all add: memory_page_frame_alloc_def Let_def get_page_frame_at_def fun_eq_iff)
  show "frames_rep (snd (memory_page_frame_alloc s)) F (U @ [n])"
    using nl.move_front_to_back [OF lists] front lists(3) nl.rep_distinct [OF lists(1)] assms
    by (auto simp: frames_rep_def memory_page_frame_alloc_def Let_def)
qed

lemma free_used:
  assumes "frames_rep s F U" "n \<in> set U" "managed s n"
  shows "\<exists>s'. memory_page_frame_free (fr_addr s n) s = Some (Inr (), s')
    \<and> frames_rep s' (n # F) (remove1 n U) \<and> fr_addr s' = fr_addr s \<and> get_page_frame_at s' = get_page_frame_at s"
proof -
  have lists: "is_list (fr_heap s) used_sentinel U" "is_list (fr_heap s) free_sentinel F"
    "set (used_sentinel # U) \<inter> set (free_sentinel # F) = {}"
    using assms(1) by (auto simp: frames_rep_def)
  have "0 < length U" using assms(2) by (cases U) auto
  then have "of_nat (length U) - 1 = (of_nat (length (remove1 n U)) :: 32 word)"
    using assms(2) by (simp add: length_remove1 of_nat_diff Suc_leI)
  then show ?thesis
    using nl.move_to_front [OF lists(1) assms(2) lists(2,3)] lists(3) assms nl.rep_distinct [OF lists(1)]
      set_remove1_subset [of n U]
    by (auto simp: frames_rep_def memory_page_frame_free_def Let_def managed_def get_page_frame_at_def
        fun_eq_iff)
qed

section \<open>Building the frame lists\<close>

text \<open>
  \<open>described L s s' D paddr k F U\<close>: going from \<open>s\<close> to \<open>s'\<close>, the \<open>k\<close> descriptors from \<open>D\<close> on were
  given the \<open>k\<close> pages from \<open>paddr\<close> on and appended, \<open>F\<close> to the free list and \<open>U\<close> to the used list;
  nothing else changed, and no page for which the lookup \<open>L\<close> finds an area is in \<open>F\<close>.
\<close>

definition described ::
  "(p_addr \<Rightarrow> mem_area option) \<Rightarrow> frames \<Rightarrow> frames \<Rightarrow> node \<Rightarrow> p_addr \<Rightarrow> nat \<Rightarrow> node list \<Rightarrow> node list \<Rightarrow> bool" where
  "described L s s' D paddr k F U \<longleftrightarrow>
     (\<forall>F0 U0. frames_rep s F0 U0 \<longrightarrow> 2 < D \<longrightarrow> {D..<D + k} \<inter> (set F0 \<union> set U0) = {} \<longrightarrow> frames_rep s' (F0 @ F) (U0 @ U))
     \<and> set F \<union> set U = {D..<D + k}
     \<and> (\<forall>j < k. fr_addr s' (D + j) = paddr + of_nat j * PAGE_SIZE)
     \<and> (\<forall>n. n \<notin> {D..<D + k} \<longrightarrow> fr_addr s' n = fr_addr s n)
     \<and> (\<forall>n \<in> set F. L (fr_addr s' n) = None)
     \<and> memory_base s' = memory_base s \<and> memory_top s' = memory_top s
     \<and> early_free_frames_size s' = early_free_frames_size s"

lemma described_rep:
  "\<lbrakk> described L s s' D paddr k F U; frames_rep s F0 U0; 2 < D; {D..<D + k} \<inter> (set F0 \<union> set U0) = {} \<rbrakk>
    \<Longrightarrow> frames_rep s' (F0 @ F) (U0 @ U)"
  by (simp add: described_def)

lemma insert_frames_rep:
  assumes "frames_rep s F U" "pf \<notin> set F \<union> set U" "2 < pf"
  shows "frames_rep (memory_pf_list_insert free_page_frames pf s) (F @ [pf]) U"
    and "frames_rep (memory_pf_list_insert used_page_frames pf s) F (U @ [pf])"
proof -
  have lists: "is_list (fr_heap s) free_sentinel F" "is_list (fr_heap s) used_sentinel U"
    "set (free_sentinel # F) \<inter> set (used_sentinel # U) = {}"
    using assms(1) by (auto simp: frames_rep_def)
  have pf: "pf \<notin> set (free_sentinel # F)" "pf \<notin> set (used_sentinel # U)" "pf \<noteq> NULL"
    using assms(2,3) by (auto simp: pf_sentinel.simps)
  show "frames_rep (memory_pf_list_insert free_page_frames pf s) (F @ [pf]) U"
    using nl.push_back_law [OF lists(1) pf(1,3)] nl.push_back_other [OF lists pf(1,2)] assms(1) pf
    by (auto simp: frames_rep_def memory_pf_list_insert_def)
  have "is_list (list_push_back used_sentinel pf (fr_heap s)) free_sentinel F"
    using nl.push_back_other [OF lists(2,1) _ pf(2,1)] lists(3) by blast
  then show "frames_rep (memory_pf_list_insert used_page_frames pf s) F (U @ [pf])"
    using nl.push_back_law [OF lists(2) pf(2,3)] assms(1) pf
    by (auto simp: frames_rep_def memory_pf_list_insert_def)
qed

lemma described_refl: "described L s s D paddr 0 [] []"
  by (simp add: described_def)

lemma frames_rep_set_pf_addr [simp]: "frames_rep (set_pf_addr n a s) F U = frames_rep s F U"
  by (simp add: frames_rep_def)

lemma init_frame_described:
  "described L s (init_frame used_page_frames D paddr s) D paddr 1 [] [D]"
  "L paddr = None \<Longrightarrow> described L s (init_frame free_page_frames D paddr s) D paddr 1 [D] []"
  using insert_frames_rep [of "set_pf_addr D paddr s" _ _ D]
  by (auto simp: described_def init_frame_def memory_pf_list_insert_def)

lemma described_trans:
  assumes "described L s t D paddr k F U" "described L t u (D + k) (paddr + of_nat k * PAGE_SIZE) k' F' U'"
  shows "described L s u D paddr (k + k') (F @ F') (U @ U')"
  unfolding described_def
proof (intro conjI allI impI ballI)
  have sets: "set F \<union> set U = {D..<D + k}" "set F' \<union> set U' = {D + k..<D + k + k'}"
    using assms by (simp_all add: described_def)
  have "set (F @ F') \<union> set (U @ U') = (set F \<union> set U) \<union> (set F' \<union> set U')"
    by auto
  also have "\<dots> = {D..<D + (k + k')}"
    unfolding sets by auto
  finally show "set (F @ F') \<union> set (U @ U') = {D..<D + (k + k')}" .
  show "frames_rep u (F0 @ F @ F') (U0 @ U @ U')"
    if "frames_rep s F0 U0" "2 < D" "{D..<D + (k + k')} \<inter> (set F0 \<union> set U0) = {}" for F0 U0
  proof -
    have "{D..<D + k} \<subseteq> {D..<D + (k + k')}" "{D + k..<D + k + k'} \<subseteq> {D..<D + (k + k')}"
      "{D + k..<D + k + k'} \<inter> {D..<D + k} = {}"
      by auto
    note sub = this
    have "{D..<D + k} \<inter> (set F0 \<union> set U0) = {}"
      using that(3) sub by blast
    then have "frames_rep t (F0 @ F) (U0 @ U)"
      using described_rep [OF assms(1) that(1,2)] by blast
    moreover have "set (F0 @ F) \<union> set (U0 @ U) = (set F0 \<union> set U0) \<union> {D..<D + k}"
      unfolding sets(1) [symmetric] by auto
    then have "{D + k..<D + k + k'} \<inter> (set (F0 @ F) \<union> set (U0 @ U)) = {}"
      using that(3) sub by blast
    ultimately show ?thesis
      using described_rep [OF assms(2), of "F0 @ F" "U0 @ U"] that(2) by simp
  qed
  show "fr_addr u (D + j) = paddr + of_nat j * PAGE_SIZE" if "j < k + k'" for j
  proof (cases "j < k")
    case True
    then show ?thesis using assms by (auto simp: described_def)
  next
    case False
    define i where "i = j - k"
    have "j = k + i" "i < k'" using that False by (auto simp: i_def)
    then show ?thesis using assms(2) by (auto simp: described_def algebra_simps)
  qed
  show "fr_addr u n = fr_addr s n" if "n \<notin> {D..<D + (k + k')}" for n
    using assms that by (auto simp: described_def)
  show "L (fr_addr u n) = None" if "n \<in> set (F @ F')" for n
  proof (cases "n \<in> set F'")
    case True
    then show ?thesis using assms(2) by (auto simp: described_def)
  next
    case False
    then have "n \<in> set F" "n \<in> {D..<D + k}"
      using that sets(1) by auto
    then have n: "n \<in> set F" "n \<notin> {D + k..<D + k + k'}" by auto
    then show ?thesis using assms by (auto simp: described_def)
  qed
qed (use assms in \<open>auto simp: described_def\<close>)


lemma unat_next_page:
  "unat mtop = unat paddr + Suc k * 4096 \<Longrightarrow> unat (paddr + PAGE_SIZE) = unat paddr + 4096" for mtop :: p_addr
  using unat_32_bound [of mtop] by (simp add: unat_add_no_wrap)

lemma page_step_mult: "paddr + PAGE_SIZE + of_nat j * PAGE_SIZE = paddr + of_nat (Suc j) * (PAGE_SIZE :: 32 word)"
  by (simp add: algebra_simps)

lemma init_frames_area_described:
  "\<lbrakk> unat mtop = unat paddr + k * 4096; k < fuel \<rbrakk> \<Longrightarrow>
     \<exists>j s' U. init_frames_area fuel m mtop D paddr i s = Some (paddr + of_nat j * PAGE_SIZE, i + j, s')
       \<and> j \<le> k \<and> described L s s' (D + i) paddr j [] U
       \<and> (paddr < ma_start m + ma_size m \<longrightarrow> 0 < k \<longrightarrow> 0 < j)"
proof (induction k arbitrary: fuel paddr i s)
  case 0
  then have "paddr = mtop" by (simp add: word_unat_eq_iff)
  then show ?case using 0 by (cases fuel) (auto intro: described_refl)
next
  case (Suc k)
  obtain f where f: "fuel = Suc f" "k < f" using Suc.prems(2) by (cases fuel) auto
  have lt: "paddr < mtop" using Suc.prems(1) by (simp add: word_less_nat_alt)
  show ?case
  proof (cases "paddr < ma_start m + ma_size m")
    case True
    let ?t = "init_frame used_page_frames (D + i) paddr s"
    obtain j s' U where j: "init_frames_area f m mtop D (paddr + PAGE_SIZE) (Suc i) ?t
        = Some (paddr + PAGE_SIZE + of_nat j * PAGE_SIZE, Suc i + j, s')" "j \<le> k"
      "described L ?t s' (D + Suc i) (paddr + PAGE_SIZE) j [] U"
      using Suc.IH [of "paddr + PAGE_SIZE" f "Suc i" ?t] unat_next_page [OF Suc.prems(1)] Suc.prems(1) f(2)
      by auto
    have "described L s s' (D + i) paddr (Suc j) [] ((D + i) # U)"
      using described_trans [OF init_frame_described(1) [of L s "D + i" paddr], of s' j "[]" U] j(3) by simp
    then show ?thesis
      using j True lt f(1) page_step_mult [of paddr j]
      by (intro exI [of _ "Suc j"] exI [of _ s'] exI [of _ "(D + i) # U"]) simp
  next
    case False
    then show ?thesis using f lt by (intro exI [of _ 0]) (auto intro: described_refl)
  qed
qed

text \<open>
  A layout on which the initialisation of the pages from \<open>base\<close> to \<open>mtop\<close> makes progress: none of them
  lies exactly at the end of the area the lookup returns for it.
\<close>

definition layout_progress :: "mem_area list \<Rightarrow> mem_area \<Rightarrow> p_addr \<Rightarrow> p_addr \<Rightarrow> bool" where
  "layout_progress layout ka base mtop \<longleftrightarrow>
     (\<forall>p m. base \<le> p \<longrightarrow> p < mtop \<longrightarrow> 4096 dvd unat p \<longrightarrow> memory_layout_find_area p layout ka = Some m
        \<longrightarrow> p < ma_start m + ma_size m)"

lemma init_frames_loop_described:
  assumes "layout_progress layout ka base mtop" "4096 dvd unat mtop"
    and "base \<le> paddr" "unat mtop = unat paddr + k * 4096" "Suc k < fuel"
  shows "\<exists>s' F U. init_frames_loop fuel mtop D layout ka paddr i s = Some (i + k, s')
    \<and> described (\<lambda>p. memory_layout_find_area p layout ka) s s' (D + i) paddr k F U"
  using assms(3-5)
proof (induction k arbitrary: fuel paddr i s rule: less_induct)
  case (less k)
  obtain f where f: "fuel = Suc f" "k < f" using less.prems(3) by (cases fuel) auto
  let ?L = "\<lambda>p. memory_layout_find_area p layout ka"
  have al: "4096 dvd unat paddr"
    using assms(2) less.prems(2) by (metis dvd_add_left_iff dvd_triv_right)
  consider "k = 0" | k' where "k = Suc k'" "?L paddr = None" | m k' where "k = Suc k'" "?L paddr = Some m"
    by (cases k; cases "?L paddr") auto
  then show ?case
  proof cases
    case 1
    then have "paddr = mtop" using less.prems(2) by (simp add: word_unat_eq_iff)
    then show ?thesis using 1 f by (auto intro: described_refl)
  next
    case 2
    have lt: "paddr < mtop" using less.prems(2) 2 by (simp add: word_less_nat_alt)
    let ?t = "init_frame free_page_frames (D + i) paddr s"
    obtain s' F U where "init_frames_loop f mtop D layout ka (paddr + PAGE_SIZE) (Suc i) ?t = Some (Suc i + k', s')"
      "described ?L ?t s' (D + Suc i) (paddr + PAGE_SIZE) k' F U"
      using less.IH [of k' "paddr + PAGE_SIZE" f "Suc i" ?t] less.prems(2) 2 f(2) unat_next_page [of mtop paddr k']
        less.prems(1) by (auto simp: word_le_nat_alt)
    then show ?thesis
      using described_trans [OF init_frame_described(2) [of ?L paddr s "D + i"], of s' k' F U] 2 lt f(1)
      by auto
  next
    case 3
    have lt: "paddr < mtop" using less.prems(2) 3 by (simp add: word_less_nat_alt)
    then have "paddr < ma_start m + ma_size m" using assms(1) less.prems(1) al 3(2) by (auto simp: layout_progress_def)
    then obtain j t V where j: "init_frames_area f m mtop D paddr i s = Some (paddr + of_nat j * PAGE_SIZE, i + j, t)"
      "0 < j" "j \<le> k" "described ?L s t (D + i) paddr j [] V"
      using init_frames_area_described [OF less.prems(2) f(2), of m D i s ?L] 3(1) by auto
    have "j * 4096 + unat paddr \<le> unat mtop" using less.prems(2) j(3) by simp
    then have step: "unat (paddr + of_nat j * PAGE_SIZE) = unat paddr + j * 4096"
      using unat_32_bound [of mtop] by (simp add: unat_word_ariths unat_of_nat)
    then have "unat mtop = unat (paddr + of_nat j * PAGE_SIZE) + (k - j) * 4096"
      using less.prems(2) j(3) by (simp add: diff_mult_distrib)
    moreover have "Suc (k - j) < f" "k - j < k" using f(2) j(2) 3(1) by linarith+
    moreover have "base \<le> paddr + of_nat j * PAGE_SIZE"
      using less.prems(1) step by (simp add: word_le_nat_alt)
    ultimately obtain s' F U where "init_frames_loop f mtop D layout ka (paddr + of_nat j * PAGE_SIZE) (i + j) t
        = Some (i + j + (k - j), s')"
      "described ?L t s' (D + (i + j)) (paddr + of_nat j * PAGE_SIZE) (k - j) F U"
      using less.IH [of "k - j" "paddr + of_nat j * PAGE_SIZE" f "i + j" t] by (auto simp: add.assoc)
    then show ?thesis
      using described_trans [OF j(4), of s' "k - j" F U] j(1,3) 3(2) lt f(1) by (auto simp: add.assoc)
  qed
qed


lemma init_frames_area_stuck:
  "\<not> paddr < ma_start m + ma_size m \<Longrightarrow> init_frames_area fuel m mtop D paddr i s \<in> {None, Some (paddr, i, s)}"
  by (cases fuel) auto

lemma init_frames_loop_stuck:
  "\<lbrakk> paddr < mtop; memory_layout_find_area paddr layout ka = Some m; \<not> paddr < ma_start m + ma_size m \<rbrakk>
    \<Longrightarrow> init_frames_loop fuel mtop D layout ka paddr i s = None"
proof (induction fuel)
  case (Suc fuel)
  then show ?case using init_frames_area_stuck [of paddr m fuel mtop D i s] by auto
qed simp

section \<open>The invariant of the allocator after initialisation\<close>

definition frames_inv :: "frames \<Rightarrow> node list \<Rightarrow> node list \<Rightarrow> bool" where
  "frames_inv s F U \<longleftrightarrow>
     frames_rep s F U \<and> memory_base s = PAGE_SIZE
     \<and> (\<forall>n \<in> set F \<union> set U. PAGE_SIZE \<le> fr_addr s n \<longrightarrow> managed s n)
     \<and> (\<forall>n \<in> set F. PAGE_SIZE \<le> fr_addr s n)"

abbreviation page_addr :: "nat \<Rightarrow> p_addr" where
  "page_addr j \<equiv> of_nat j * PAGE_SIZE"

lemma unat_page_addr: "j < 2 ^ 20 \<Longrightarrow> unat (page_addr j) = j * 4096"
  by (simp add: unat_word_ariths unat_of_nat)

lemma page_addr_of_aligned: "4096 dvd unat a \<Longrightarrow> a = page_addr (unat a div 4096)"
proof -
  assume "4096 dvd unat a"
  moreover have "unat a div 4096 < 2 ^ 20"
    using unat_32_bound [of a] by simp
  ultimately show ?thesis
    using unat_page_addr [of "unat a div 4096"] by (simp add: word_unat_eq_iff)
qed

lemma page_addr_div: "j < 2 ^ 20 \<Longrightarrow> unat (page_addr j div PAGE_SIZE) = j"
  using unat_page_addr [of j] by (simp add: unat_div)

lemma page_addr_aligned: "j < 2 ^ 20 \<Longrightarrow> is_aligned (page_addr j) PAGE_SIZE"
  using unat_page_addr [of j] page_is_aligned_iff [of "page_addr j"] by (simp add: page_is_aligned_def)

lemma page_addr_not_minus_one: "j < 2 ^ 20 \<Longrightarrow> page_addr j \<noteq> - 1"
proof
  assume "j < 2 ^ 20" "page_addr j = - 1"
  moreover have "unat (- 1 :: 32 word) = 4294967295"
    by (simp add: unsigned_minus_1_eq_mask mask_eq_exp_minus_1)
  ultimately have "j * 4096 = 4294967295"
    using unat_page_addr [of j] by simp
  then have "even (j * 4096) = even (4294967295 :: nat)" by (simp only:)
  then show False by simp
qed

lemma fold_set_pf_addr:
  "fr_addr (fold (\<lambda>i. set_pf_addr (f i) v) ks s) n = (if n \<in> f ` set ks then v else fr_addr s n)"
  "fr_heap (fold (\<lambda>i. set_pf_addr (f i) v) ks s) = fr_heap s"
  "fr_n (fold (\<lambda>i. set_pf_addr (f i) v) ks s) = fr_n s"
  "memory_base (fold (\<lambda>i. set_pf_addr (f i) v) ks s) = memory_base s"
  "memory_top (fold (\<lambda>i. set_pf_addr (f i) v) ks s) = memory_top s"
  "early_free_frames_size (fold (\<lambda>i. set_pf_addr (f i) v) ks s) = early_free_frames_size s"
  by (induction ks arbitrary: s) auto

text \<open>The addresses the descriptors have once the memory is initialised with the kernel ending at page \<open>n0\<close>.\<close>

definition described_memory :: "frames \<Rightarrow> nat \<Rightarrow> nat \<Rightarrow> bool" where
  "described_memory s n0 N \<longleftrightarrow>
     (\<forall>i < MEMORY_EARLY_FRAMES. fr_addr s (early_free_frame i) = page_addr (n0 + i))
     \<and> (\<forall>j < N. fr_addr s (page_frame_descriptor j) =
         (if j \<in> {n0..<n0 + MEMORY_EARLY_FRAMES} then - 1 else page_addr j))"

lemma described_memory_managed:
  assumes "described_memory s n0 N" "n0 + MEMORY_EARLY_FRAMES \<le> N" "N < 2 ^ 20"
    "memory_base s = PAGE_SIZE" "memory_top s = page_addr N"
  shows "i < MEMORY_EARLY_FRAMES \<Longrightarrow> 0 < n0 + i \<Longrightarrow> managed s (early_free_frame i)"
    and "\<lbrakk> j < N; 0 < j; j \<notin> {n0..<n0 + MEMORY_EARLY_FRAMES} \<rbrakk> \<Longrightarrow> managed s (page_frame_descriptor j)"
proof -
  have range: "memory_base s \<le> page_addr k" "page_addr k < memory_top s" if "0 < k" "k < N" for k
    using that assms(3-5) by (simp_all add: word_le_nat_alt word_less_nat_alt unat_page_addr)
  show "managed s (early_free_frame i)" if i: "i < MEMORY_EARLY_FRAMES" "0 < n0 + i"
  proof -
    have k: "n0 + i < N" "n0 + i < 2 ^ 20" using i assms(2,3) by auto
    have "0 < MEMORY_EARLY_FRAMES" by (simp add: MEMORY_EARLY_FRAMES_def)
    then have early0: "fr_addr s (early_free_frame 0) = page_addr n0"
      "fr_addr s (early_free_frame i) = page_addr (n0 + i)"
      using assms(1) i(1) unfolding described_memory_def by fastforce+
    have "page_addr (n0 + i) - page_addr n0 = page_addr i"
      by (simp add: algebra_simps)
    then have "unat ((page_addr (n0 + i) - page_addr n0) div PAGE_SIZE) = i"
      using k(2) by (simp only: page_addr_div)
    moreover have "fr_addr s (page_frame_descriptor (n0 + i)) = - 1"
      using assms(1) i(1) k(1) by (simp add: described_memory_def)
    ultimately show ?thesis
      using range [OF i(2) k(1)] page_addr_aligned [OF k(2)] page_addr_div [OF k(2)] early0
      unfolding managed_def get_page_frame_at_def by (simp add: Let_def not_less not_le)
  qed
  show "managed s (page_frame_descriptor j)" if j: "j < N" "0 < j" "j \<notin> {n0..<n0 + MEMORY_EARLY_FRAMES}"
  proof -
    have "j < 2 ^ 20" using j assms(3) by simp
    moreover have "fr_addr s (page_frame_descriptor j) = page_addr j"
      using assms(1) j unfolding described_memory_def by metis
    ultimately show ?thesis
      using range [OF j(2,1)] page_addr_aligned page_addr_div page_addr_not_minus_one
      unfolding managed_def get_page_frame_at_def by (simp add: Let_def not_less not_le)
  qed
qed


lemma kernel_top_aligned: "4096 dvd unat (kernel_image_get_top_page_frame img)"
  unfolding kernel_image_get_top_page_frame_def page_align_up_def align_up_def
  using unat_page_align_down [of "kernel_image_get_phys_end img + PAGE_SIZE - 1"]
  by (simp add: page_align_down_def)

text \<open>The state in which \<open>memory_init\<close> runs: the early frames are on the two lists, some of them already used.\<close>

definition early_state :: "frames \<Rightarrow> kernel_image \<Rightarrow> node list \<Rightarrow> node list \<Rightarrow> bool" where
  "early_state s img F U \<longleftrightarrow>
     frames_rep s F U \<and> early_free_frames_size s = MEMORY_EARLY_FRAMES
     \<and> set F \<union> set U = early_free_frame ` {0..<MEMORY_EARLY_FRAMES}
     \<and> (\<forall>i < MEMORY_EARLY_FRAMES. fr_addr s (early_free_frame i) =
          kernel_image_get_top_page_frame img + page_addr i)"

lemma early_init_loop_spec:
  assumes "frames_rep s F U" "set F \<subseteq> early_free_frame ` {0..<i}" "U = []"
  shows "\<exists>F'. frames_rep (memory_early_init_loop k i paddr s) (F @ F') U
    \<and> F' = map early_free_frame [i..<i + k]
    \<and> (\<forall>j < k. fr_addr (memory_early_init_loop k i paddr s) (early_free_frame (i + j)) = paddr + page_addr j)
    \<and> (\<forall>n. n \<notin> early_free_frame ` {i..<i + k} \<longrightarrow> fr_addr (memory_early_init_loop k i paddr s) n = fr_addr s n)
    \<and> early_free_frames_size (memory_early_init_loop k i paddr s) = i + k"
  using assms
proof (induction k arbitrary: i paddr s F)
  case 0
  then show ?case by (simp add: frames_rep_def)
next
  case (Suc k)
  let ?e = early_free_frame
  let ?t = "memory_pf_list_insert free_page_frames (?e i) (set_pf_addr (?e i) paddr s)"
  have inj: "?e a = ?e b \<longleftrightarrow> a = b" for a b by (simp add: early_free_frame_def)
  have t: "frames_rep ?t (F @ [?e i]) U"
  proof (rule insert_frames_rep(1))
    show "?e i \<notin> set F \<union> set U" using Suc.prems(2,3) inj by auto
  qed (use Suc.prems(1) in \<open>simp_all add: early_free_frame_def\<close>)
  have addr_t: "fr_addr ?t = (fr_addr s)(?e i := paddr)"
    by (simp add: memory_pf_list_insert_def)
  let ?s' = "memory_early_init_loop k (Suc i) (paddr + PAGE_SIZE) ?t"
  have sub: "set (F @ [?e i]) \<subseteq> ?e ` {0..<Suc i}" using Suc.prems(2) by auto
  from Suc.IH [OF t sub Suc.prems(3), of "paddr + PAGE_SIZE"]
  have ih: "frames_rep ?s' ((F @ [?e i]) @ map ?e [Suc i..<Suc i + k]) U"
    "\<And>j. j < k \<Longrightarrow> fr_addr ?s' (?e (Suc i + j)) = paddr + PAGE_SIZE + page_addr j"
    "\<And>n. n \<notin> ?e ` {Suc i..<Suc i + k} \<Longrightarrow> fr_addr ?s' n = ((fr_addr s)(?e i := paddr)) n"
    "early_free_frames_size ?s' = Suc i + k"
    by (auto simp: addr_t)
  have "fr_addr ?s' (?e (i + j)) = paddr + page_addr j" if "j < Suc k" for j
  proof (cases j)
    case 0
    have "?e i \<notin> ?e ` {Suc i..<Suc i + k}" by (auto simp: inj)
    then show ?thesis using ih(3) [of "?e i"] 0 by simp
  next
    case (Suc j')
    then show ?thesis using ih(2) [of j'] that page_step_mult [of paddr j'] by simp
  qed
  moreover have "fr_addr ?s' n = fr_addr s n" if "n \<notin> ?e ` {i..<i + Suc k}" for n
  proof -
    have "n \<notin> ?e ` {Suc i..<Suc i + k}" "n \<noteq> ?e i" using that by auto
    then show ?thesis using ih(3) by simp
  qed
  moreover have "map ?e [i..<i + Suc k] = ?e i # map ?e [Suc i..<Suc i + k]"
    using upt_conv_Cons [of i "i + Suc k"] by (simp del: upt_Suc)
  ultimately show ?case using ih(1,4) by simp
qed


lemma memory_pf_list_init_rep:
  "frames_rep (memory_pf_list_init used_page_frames (memory_pf_list_init free_page_frames s)) [] []"
proof -
  let ?t = "memory_pf_list_init used_page_frames (memory_pf_list_init free_page_frames s)"
  have l: "is_list (list_init free_sentinel (fr_heap s)) free_sentinel []"
    by (rule list_init_is_list) (simp add: pf_sentinel.simps)
  then have "is_list (fr_heap ?t) free_sentinel []"
    by (subst is_list_cong [of free_sentinel "[]"]) (auto simp: memory_pf_list_init_def list_init_def)
  moreover have "is_list (fr_heap ?t) used_sentinel []"
    unfolding memory_pf_list_init_def by (simp add: list_init_is_list pf_sentinel.simps)
  ultimately show ?thesis
    by (simp add: frames_rep_def memory_pf_list_init_def)
qed

lemma memory_early_init_state:
  "early_state (memory_early_init img s) img (map early_free_frame [0..<MEMORY_EARLY_FRAMES]) []"
  using early_init_loop_spec [OF memory_pf_list_init_rep [of s], of 0 MEMORY_EARLY_FRAMES "kernel_image_get_top_page_frame img"]
  by (auto simp: early_state_def memory_early_init_def Let_def)

lemma early_state_alloc:
  assumes "early_state s img (n # F) U"
  shows "early_state (snd (memory_page_frame_alloc s)) img F (U @ [n])"
proof -
  have rep: "frames_rep s (n # F) U" using assms by (simp add: early_state_def)
  have "early_free_frames_size (snd (memory_page_frame_alloc s)) = early_free_frames_size s"
    by (simp add: memory_page_frame_alloc_def Let_def)
  then show ?thesis
    using alloc_front(2,3) [OF rep] assms by (auto simp: early_state_def)
qed

lemma init_frames_described:
  assumes "layout_progress layout ka base mtop" "4096 dvd unat mtop" "unat mtop = unat base + k * 4096" "Suc k < fuel"
  shows "\<exists>s' F U. init_frames fuel base mtop D layout ka s = Some (k, s')
    \<and> described (\<lambda>p. memory_layout_find_area p layout ka) s s' D base k F U"
  using init_frames_loop_described [OF assms(1,2) order_refl assms(3,4), of D 0 s]
  by (simp add: init_frames_def)

definition kernel_area_of :: "kernel_image \<Rightarrow> mem_area" where
  "kernel_area_of img = MEMORY_AREA (kernel_image_get_base_page_frame img) (kernel_image_get_size img) 0"

lemma memory_init_steps:
  assumes early: "early_state s img F U"
    and progress: "layout_progress layout (kernel_area_of img) 0 (kernel_image_get_top_page_frame img)"
      "layout_progress layout (kernel_area_of img)
         (kernel_image_get_top_page_frame img + page_addr MEMORY_EARLY_FRAMES) (page_align_down ram)"
    and fits: "unat (kernel_image_get_top_page_frame img) + 4 * 1024 * 1024 \<le> unat (page_align_down ram)"
    and fuel: "Suc (unat ram div 4096) < fuel"
    and n0: "n0 = unat (kernel_image_get_top_page_frame img) div 4096" and N: "N = unat ram div 4096"
  obtains t F1 U1 u F2 U2 where
    "described (\<lambda>p. memory_layout_find_area p layout (kernel_area_of img))
       (s\<lparr>memory_base := PAGE_SIZE, memory_top := page_align_down ram\<rparr>) t (page_frame_descriptor 0) 0 n0 F1 U1"
    "described (\<lambda>p. memory_layout_find_area p layout (kernel_area_of img))
       (fold (\<lambda>i. set_pf_addr (page_frame_descriptor (n0 + i)) (- 1)) [0..<MEMORY_EARLY_FRAMES] t) u
       (page_frame_descriptor (n0 + MEMORY_EARLY_FRAMES)) (page_addr (n0 + MEMORY_EARLY_FRAMES))
       (N - (n0 + MEMORY_EARLY_FRAMES)) F2 U2"
    "memory_init fuel ram layout img True s = Some u"
proof -
  let ?ka = "kernel_area_of img" and ?kt = "kernel_image_get_top_page_frame img"
  let ?L = "\<lambda>p. memory_layout_find_area p layout ?ka"
  let ?mt = "page_align_down ram"
  let ?s0 = "s\<lparr>memory_base := PAGE_SIZE, memory_top := ?mt\<rparr>"
  have mt: "unat ?mt = N * 4096" by (simp add: unat_page_align_down N)
  have kt: "unat ?kt = n0 * 4096" using kernel_top_aligned [of img] n0 by simp
  have N20: "N < 2 ^ 20" using unat_32_bound [of ram] by (simp add: N)
  have le: "n0 + MEMORY_EARLY_FRAMES \<le> N" using fits mt kt by (simp add: MEMORY_EARLY_FRAMES_def)
  have base: "page_addr (n0 + MEMORY_EARLY_FRAMES) = ?kt + page_addr MEMORY_EARLY_FRAMES"
    using page_addr_of_aligned [of ?kt] kt by (simp add: algebra_simps)
  obtain t F1 U1 where t: "init_frames fuel 0 ?kt (page_frame_descriptor 0) layout ?ka ?s0 = Some (n0, t)"
    "described ?L ?s0 t (page_frame_descriptor 0) 0 n0 F1 U1"
    using init_frames_described [OF progress(1), of n0 fuel "page_frame_descriptor 0" ?s0] kt fuel le N by auto
  let ?t' = "fold (\<lambda>i. set_pf_addr (page_frame_descriptor (n0 + i)) (- 1)) [0..<MEMORY_EARLY_FRAMES] t"
  have size: "early_free_frames_size t = MEMORY_EARLY_FRAMES" "memory_top t = ?mt"
    using t(2) early by (simp_all add: described_def early_state_def)
  have last: "fr_addr ?t' (early_free_frame (MEMORY_EARLY_FRAMES - 1)) + PAGE_SIZE = page_addr (n0 + MEMORY_EARLY_FRAMES)"
  proof -
    have ne: "early_free_frame (MEMORY_EARLY_FRAMES - 1) < page_frame_descriptor 0"
      by (simp add: early_free_frame_def page_frame_descriptor_def MEMORY_EARLY_FRAMES_def)
    have "fr_addr ?t' (early_free_frame (MEMORY_EARLY_FRAMES - 1)) = fr_addr t (early_free_frame (MEMORY_EARLY_FRAMES - 1))"
      using ne by (auto simp: fold_set_pf_addr page_frame_descriptor_def)
    also have "\<dots> = fr_addr s (early_free_frame (MEMORY_EARLY_FRAMES - 1))"
      using t(2) ne by (auto simp: described_def)
    also have "\<dots> = ?kt + page_addr (MEMORY_EARLY_FRAMES - 1)"
      using early unfolding early_state_def by (simp add: MEMORY_EARLY_FRAMES_def)
    finally show ?thesis
      using page_addr_of_aligned [of ?kt] kt by (simp add: MEMORY_EARLY_FRAMES_def algebra_simps)
  qed
  have "unat ?mt = unat (page_addr (n0 + MEMORY_EARLY_FRAMES)) + (N - (n0 + MEMORY_EARLY_FRAMES)) * 4096"
  proof (cases "n0 + MEMORY_EARLY_FRAMES < 2 ^ 20")
    case True
    then show ?thesis using unat_page_addr [OF True] mt le by (simp add: diff_mult_distrib)
  qed (use le N20 in simp)
  moreover have "4096 dvd unat ?mt" "Suc (N - (n0 + MEMORY_EARLY_FRAMES)) < fuel"
    using mt fuel N by simp_all
  ultimately obtain u F2 U2 where u: "init_frames fuel (page_addr (n0 + MEMORY_EARLY_FRAMES)) ?mt
      (page_frame_descriptor (n0 + MEMORY_EARLY_FRAMES)) layout ?ka ?t' = Some (N - (n0 + MEMORY_EARLY_FRAMES), u)"
    "described ?L ?t' u (page_frame_descriptor (n0 + MEMORY_EARLY_FRAMES)) (page_addr (n0 + MEMORY_EARLY_FRAMES))
      (N - (n0 + MEMORY_EARLY_FRAMES)) F2 U2"
    using init_frames_described [OF progress(2) [folded base]] by blast
  have "4 * 1024 * 1024 \<le> ram"
    using fits unat_page_align_down [of ram] by (simp add: word_le_nat_alt)
  then have "memory_init fuel ram layout img True s = Some u"
    using t(1) u(1) size last
    by (simp add: memory_init_def Let_def kernel_area_of_def [symmetric] fold_set_pf_addr(5,6))
  then show ?thesis using that t(2) u(2) by blast
qed


lemma memory_init_described_memory:
  assumes "described L s0 t (page_frame_descriptor 0) 0 n0 F1 U1"
    and "described L (fold (\<lambda>i. set_pf_addr (page_frame_descriptor (n0 + i)) (- 1)) [0..<MEMORY_EARLY_FRAMES] t) u
       (page_frame_descriptor (n0 + MEMORY_EARLY_FRAMES)) (page_addr (n0 + MEMORY_EARLY_FRAMES))
       (N - (n0 + MEMORY_EARLY_FRAMES)) F2 U2"
    and early: "\<And>i. i < MEMORY_EARLY_FRAMES \<Longrightarrow> fr_addr s0 (early_free_frame i) = page_addr (n0 + i)"
  shows "described_memory u n0 N"
proof -
  let ?E = MEMORY_EARLY_FRAMES and ?d = page_frame_descriptor
  let ?t' = "fold (\<lambda>i. set_pf_addr (?d (n0 + i)) (- 1)) [0..<?E] t"
  have d: "?d (a + b) = ?d a + b" for a b by (simp add: page_frame_descriptor_def)
  have t': "fr_addr ?t' n = (if n \<in> {?d n0..<?d (n0 + ?E)} then - 1 else fr_addr t n)" for n
  proof -
    have "(\<lambda>i. ?d (n0 + i)) ` set [0..<?E] = {?d n0..<?d (n0 + ?E)}"
      by (simp add: d) (simp only: image_add_atLeastLessThan add.commute add_0)
    then show ?thesis by (simp add: fold_set_pf_addr(1))
  qed
  have t: "fr_addr t (?d j) = page_addr j" if "j < n0" for j
    using assms(1) that d [of 0 j] by (simp add: described_def)
  have t_other: "fr_addr t n = fr_addr s0 n" if "n < ?d 0" for n
    using assms(1) that by (simp add: described_def)
  have u: "fr_addr u (?d j) = page_addr j" if "n0 + ?E \<le> j" "j < N" for j
  proof -
    have "\<forall>i < N - (n0 + ?E). fr_addr u (?d (n0 + ?E) + i) = page_addr (n0 + ?E) + page_addr i"
      using assms(2) unfolding described_def by blast
    then have "fr_addr u (?d (n0 + ?E) + (j - (n0 + ?E))) = page_addr (n0 + ?E) + page_addr (j - (n0 + ?E))"
      using diff_less_mono [OF that(2,1)] by blast
    moreover have "?d (n0 + ?E) + (j - (n0 + ?E)) = ?d j" using that d [of "n0 + ?E" "j - (n0 + ?E)"] by simp
    moreover have "page_addr (n0 + ?E) + page_addr (j - (n0 + ?E)) = page_addr j"
      using that by (simp flip: distrib_right of_nat_add)
    ultimately show ?thesis by simp
  qed
  have u_other: "fr_addr u n = fr_addr ?t' n" if "n < ?d (n0 + ?E)" for n
    using assms(2) that unfolding described_def by auto
  have e: "early_free_frame i < ?d 0" if "i < ?E" for i
    using that by (simp add: early_free_frame_def page_frame_descriptor_def)
  have d_less: "?d a < ?d b \<longleftrightarrow> a < b" for a b by (simp add: page_frame_descriptor_def)
  show ?thesis
    unfolding described_memory_def
  proof (intro conjI allI impI)
    fix i assume i: "i < ?E"
    have "early_free_frame i < ?d n0" "early_free_frame i < ?d (n0 + ?E)"
      using e [OF i] d [of 0 n0] d [of 0 "n0 + ?E"] by simp_all
    then show "fr_addr u (early_free_frame i) = page_addr (n0 + i)"
      using u_other t' t_other [OF e [OF i]] early [OF i] by simp
  next
    fix j assume "j < N"
    then show "fr_addr u (?d j) = (if j \<in> {n0..<n0 + ?E} then - 1 else page_addr j)"
      using u [of j] u_other [of "?d j"] t' [of "?d j"] t [of j] d_less d_less [of _ n0]
      by (cases "n0 + ?E \<le> j") (auto simp: not_le not_less page_frame_descriptor_def)
  qed
qed


lemma descriptor_range:
  "n \<in> {page_frame_descriptor a..<page_frame_descriptor a + k} \<Longrightarrow> \<exists>j. n = page_frame_descriptor j \<and> a \<le> j \<and> j < a + k"
  by (rule exI [of _ "n - page_frame_descriptor 0"]) (auto simp: page_frame_descriptor_def)

lemma find_area_none_above: "memory_layout_find_area p layout ka = None \<Longrightarrow> PAGE_SIZE \<le> p"
  by (auto simp: memory_layout_find_area_def split: if_splits)

lemma memory_init_rep:
  assumes "frames_rep s0 F U" "set F \<union> set U = early_free_frame ` {0..<MEMORY_EARLY_FRAMES}"
    and d1: "described L s0 t (page_frame_descriptor 0) 0 n0 F1 U1"
    and d2: "described L (fold (\<lambda>i. set_pf_addr (page_frame_descriptor (n0 + i)) (- 1)) [0..<MEMORY_EARLY_FRAMES] t) u
       (page_frame_descriptor (n0 + MEMORY_EARLY_FRAMES)) paddr k F2 U2"
  shows "frames_rep u (F @ F1 @ F2) (U @ U1 @ U2)"
proof -
  let ?d = page_frame_descriptor
  let ?t' = "fold (\<lambda>i. set_pf_addr (?d (n0 + i)) (- 1)) [0..<MEMORY_EARLY_FRAMES] t"
  have early: "n < ?d 0" if "n \<in> set F \<union> set U" for n
    using that assms(2) by (auto simp: early_free_frame_def page_frame_descriptor_def)
  have D: "2 < ?d j" for j by (simp add: page_frame_descriptor_def)
  have "{?d 0..<?d 0 + n0} \<inter> (set F \<union> set U) = {}"
    using early by fastforce
  from described_rep [OF d1 assms(1) D this] have "frames_rep t (F @ F1) (U @ U1)" .
  then have t': "frames_rep ?t' (F @ F1) (U @ U1)"
    by (simp add: frames_rep_def fold_set_pf_addr)
  have new: "n < ?d n0" if "n \<in> set F1 \<union> set U1" for n
    using d1 that by (auto simp: described_def page_frame_descriptor_def)
  have mono: "?d 0 \<le> ?d (n0 + MEMORY_EARLY_FRAMES)" "?d n0 \<le> ?d (n0 + MEMORY_EARLY_FRAMES)"
    by (simp_all add: page_frame_descriptor_def)
  have "{?d (n0 + MEMORY_EARLY_FRAMES)..<?d (n0 + MEMORY_EARLY_FRAMES) + k}
      \<inter> (set (F @ F1) \<union> set (U @ U1)) = {}"
    using early new mono by fastforce
  from described_rep [OF d2 t' D this] show ?thesis by simp
qed

lemma memory_init_inv:
  assumes early: "early_state s img F U"
    and progress: "layout_progress layout (kernel_area_of img) 0 (kernel_image_get_top_page_frame img)"
      "layout_progress layout (kernel_area_of img)
         (kernel_image_get_top_page_frame img + page_addr MEMORY_EARLY_FRAMES) (page_align_down ram)"
    and above: "kernel_image_get_top_page_frame img \<noteq> 0"
    and fits: "unat (kernel_image_get_top_page_frame img) + 4 * 1024 * 1024 \<le> unat (page_align_down ram)"
    and fuel: "Suc (unat ram div 4096) < fuel"
  shows "\<exists>s' F' U'. memory_init fuel ram layout img True s = Some s' \<and> frames_inv s' (F @ F') (U @ U')
    \<and> (\<forall>n \<in> set F'. memory_layout_find_area (fr_addr s' n) layout (kernel_area_of img) = None)"
proof -
  define n0 where "n0 = unat (kernel_image_get_top_page_frame img) div 4096"
  define N where "N = unat ram div 4096"
  let ?L = "\<lambda>p. memory_layout_find_area p layout (kernel_area_of img)"
  let ?s0 = "s\<lparr>memory_base := PAGE_SIZE, memory_top := page_align_down ram\<rparr>"
  let ?d = page_frame_descriptor and ?E = MEMORY_EARLY_FRAMES
  let ?fold = "fold (\<lambda>i. set_pf_addr (?d (n0 + i)) (- 1)) [0..<?E]"
  obtain t F1 U1 u F2 U2 where
    d1: "described ?L ?s0 t (?d 0) 0 n0 F1 U1" and
    d2: "described ?L (?fold t) u (?d (n0 + ?E)) (page_addr (n0 + ?E)) (N - (n0 + ?E)) F2 U2" and
    run: "memory_init fuel ram layout img True s = Some u"
    using memory_init_steps [OF early progress fits fuel n0_def N_def] by blast
  have kt: "unat (kernel_image_get_top_page_frame img) = n0 * 4096"
    using kernel_top_aligned [of img] by (simp add: n0_def)
  then have n0: "0 < n0" using above by (cases n0) (simp_all add: unat_eq_0)
  have N: "n0 + ?E \<le> N" "N < 2 ^ 20" "page_align_down ram = page_addr N"
    using fits kt unat_32_bound [of ram] page_addr_of_aligned [of "page_align_down ram"]
    by (auto simp: unat_page_align_down N_def MEMORY_EARLY_FRAMES_def)
  have "fr_addr ?s0 (early_free_frame i) = page_addr (n0 + i)" if "i < ?E" for i
    using early that page_addr_of_aligned [of "kernel_image_get_top_page_frame img"] kt
    by (simp add: early_state_def algebra_simps)
  from memory_init_described_memory [OF d1 d2 this] have desc: "described_memory u n0 N" .
  have glob: "memory_base u = PAGE_SIZE" "memory_top u = page_addr N"
    using d1 d2 N(3) by (simp_all add: described_def fold_set_pf_addr)
  note mgd = described_memory_managed [OF desc N(1,2) glob]
  have rep: "frames_rep u (F @ F1 @ F2) (U @ U1 @ U2)"
    using memory_init_rep [OF _ _ d1 d2] early by (auto simp: early_state_def frames_rep_def)
  have lookup: "?L (fr_addr u n) = None" if "n \<in> set (F1 @ F2)" for n
  proof (cases "n \<in> set F2")
    case False
    then have n: "n \<in> set F1" "n < ?d n0" using that d1 by (auto simp: described_def page_frame_descriptor_def)
    then have "fr_addr u n = fr_addr t n"
      using d2 by (auto simp: described_def fold_set_pf_addr page_frame_descriptor_def)
    then show ?thesis using d1 n(1) by (simp add: described_def)
  qed (use d2 in \<open>simp add: described_def\<close>)
  have sets: "set F \<union> set U = early_free_frame ` {0..<?E}" "set F1 \<union> set U1 = {?d 0..<?d 0 + n0}"
    "set F2 \<union> set U2 = {?d (n0 + ?E)..<?d (n0 + ?E) + (N - (n0 + ?E))}"
    using early d1 d2 by (simp_all add: early_state_def described_def)
  have early_m: "managed u n \<and> PAGE_SIZE \<le> fr_addr u n" if "n \<in> set F \<union> set U" for n
  proof -
    obtain i where i: "n = early_free_frame i" "i < ?E" using \<open>n \<in> set F \<union> set U\<close> sets(1) by auto
    have "fr_addr u n = page_addr (n0 + i)" using desc i by (simp add: described_memory_def)
    then show ?thesis
      using mgd(1) [OF i(2)] i n0 N(1,2) by (simp add: word_le_nat_alt unat_page_addr del: of_nat_add)
  qed
  have desc_m: "managed u n" if n: "n \<in> (set F1 \<union> set U1) \<union> (set F2 \<union> set U2)" "PAGE_SIZE \<le> fr_addr u n" for n
  proof -
    obtain j where j: "n = ?d j" "j < N" "j \<notin> {n0..<n0 + ?E}"
      using n(1) N(1) descriptor_range [of n 0 n0] descriptor_range [of n "n0 + ?E" "N - (n0 + ?E)"]
      unfolding sets by fastforce
    then have "fr_addr u n = page_addr j" using desc by (auto simp: described_memory_def)
    then have "0 < j" using n(2) by (cases j) (auto simp: word_le_nat_alt)
    then show ?thesis using mgd(2) j by blast
  qed
  have "frames_inv u (F @ F1 @ F2) (U @ U1 @ U2)"
    unfolding frames_inv_def
    using rep glob(1) early_m desc_m find_area_none_above [OF lookup] by auto
  then show ?thesis using run lookup by blast
qed

lemma frames_inv_alloc:
  assumes "frames_inv s (n # F) U"
  shows "frames_inv (snd (memory_page_frame_alloc s)) F (U @ [n])"
proof -
  have rep: "frames_rep s (n # F) U" using assms by (simp add: frames_inv_def)
  have "memory_base (snd (memory_page_frame_alloc s)) = memory_base s"
    by (simp add: memory_page_frame_alloc_def Let_def)
  then show ?thesis
    using alloc_front [OF rep] assms by (auto simp: frames_inv_def managed_def)
qed

lemma frames_inv_free:
  assumes "frames_inv s F U" "n \<in> set U" "PAGE_SIZE \<le> fr_addr s n"
  obtains s' where "memory_page_frame_free (fr_addr s n) s = Some (Inr (), s')"
    and "frames_inv s' (n # F) (remove1 n U)" and "fr_addr s' = fr_addr s"
proof -
  have "frames_rep s F U" "managed s n" using assms by (simp_all add: frames_inv_def)
  from free_used [OF this(1) assms(2) this(2)] obtain s' where
    s': "memory_page_frame_free (fr_addr s n) s = Some (Inr (), s')" "frames_rep s' (n # F) (remove1 n U)"
    "fr_addr s' = fr_addr s" "get_page_frame_at s' = get_page_frame_at s" by blast
  moreover have "memory_base s' = memory_base s"
    using s'(1) by (auto simp: memory_page_frame_free_def Let_def split: option.splits if_splits)
  ultimately show ?thesis
    using that assms set_remove1_subset [of n U] by (auto simp: frames_inv_def managed_def)
qed

lemma frames_inv_aligned:
  "\<lbrakk> frames_inv s F U; n \<in> set F \<union> set U; PAGE_SIZE \<le> fr_addr s n \<rbrakk> \<Longrightarrow> page_is_aligned (fr_addr s n)"
  by (auto simp: frames_inv_def managed_def get_page_frame_at_def page_is_aligned_def split: if_splits)

lemma frames_inv_inj:
  "\<lbrakk> frames_inv s F U; m \<in> set F \<union> set U; n \<in> set F \<union> set U; PAGE_SIZE \<le> fr_addr s n; fr_addr s m = fr_addr s n \<rbrakk>
    \<Longrightarrow> m = n"
  unfolding frames_inv_def managed_def by (metis option.inject)

lemma frames_inv_distinct: "frames_inv s F U \<Longrightarrow> distinct F \<and> distinct U \<and> set F \<inter> set U = {}"
  using nl.rep_distinct [of "fr_heap s" free_sentinel F] nl.rep_distinct [of "fr_heap s" used_sentinel U]
  by (simp add: frames_inv_def frames_rep_def)

section \<open>The interface of the frame allocator\<close>

text \<open>
  What the users of frames (the kernel heap, regions, page tables) rely on.  \<open>rep s fs us\<close>: the
  frames \<open>fs\<close> are available, in the order in which they will be handed out, and \<open>us\<close> are in use.
\<close>

locale frame_allocator =
  fixes rep :: "'s \<Rightarrow> p_addr list \<Rightarrow> p_addr set \<Rightarrow> bool"
    and alloc :: "'s \<Rightarrow> p_addr \<times> 's"
    and free :: "p_addr \<Rightarrow> 's \<Rightarrow> (unit result \<times> 's) option"
  assumes rep_frames: "rep s fs us \<Longrightarrow>
      distinct fs \<and> set fs \<inter> us = {} \<and> 0 \<notin> set fs \<union> us \<and> (\<forall>p \<in> set fs \<union> us. page_is_aligned p)"
    and alloc_none: "rep s [] us \<Longrightarrow> alloc s = (0, s)"
    and alloc_some: "rep s (p # fs) us \<Longrightarrow> \<exists>s'. alloc s = (p, s') \<and> rep s' fs (insert p us)"
    and free_law: "\<lbrakk> rep s fs us; p \<in> us \<rbrakk> \<Longrightarrow> \<exists>s'. free p s = Some (Inr (), s') \<and> rep s' (p # fs) (us - {p})"
begin

lemma alloc_fresh:
  assumes "rep s fs us" "alloc s = (p, s')" "p \<noteq> 0"
  shows "p \<notin> us" and "page_is_aligned p" and "\<exists>fs'. rep s' fs' (insert p us)"
proof -
  obtain fs' where fs: "fs = p # fs'" "rep s' fs' (insert p us)"
    using assms alloc_none [of s us] alloc_some [of s "hd fs" "tl fs" us] by (cases fs) auto
  then show "p \<notin> us" "page_is_aligned p" "\<exists>fs'. rep s' fs' (insert p us)"
    using rep_frames [OF assms(1)] by auto
qed

lemma alloc_free_cancel:
  assumes "rep s (p # fs) us" "alloc s = (q, s')"
  shows "\<exists>s''. free q s' = Some (Inr (), s'') \<and> rep s'' (p # fs) us"
proof -
  have "q = p" "rep s' fs (insert p us)"
    using alloc_some [OF assms(1)] assms(2) by auto
  moreover have "insert p us - {p} = us"
    using rep_frames [OF assms(1)] by auto
  ultimately show ?thesis
    using free_law [of s' fs "insert p us" p] by auto
qed

lemma free_many:
  "\<lbrakk> rep s fs us; distinct ps; set ps \<subseteq> us \<rbrakk> \<Longrightarrow>
     \<exists>s'. fold (\<lambda>p r. Option.bind r (\<lambda>s. map_option snd (free p s))) ps (Some s) = Some s'
       \<and> rep s' (rev ps @ fs) (us - set ps)"
proof (induction ps arbitrary: s fs us)
  case (Cons p ps)
  obtain s' where s': "free p s = Some (Inr (), s')" "rep s' (p # fs) (us - {p})"
    using free_law [OF Cons.prems(1), of p] Cons.prems(3) by auto
  have "set ps \<subseteq> us - {p}" using Cons.prems(2,3) by auto
  from Cons.IH [OF s'(2) _ this] Cons.prems(2) obtain s'' where
    "fold (\<lambda>p r. Option.bind r (\<lambda>s. map_option snd (free p s))) ps (Some s') = Some s''"
    "rep s'' (rev ps @ p # fs) (us - {p} - set ps)" by auto
  moreover have "us - {p} - set ps = us - set (p # ps)" by auto
  ultimately show ?case using s'(1) by simp
qed simp

end

definition frame_rep :: "frames \<Rightarrow> p_addr list \<Rightarrow> p_addr set \<Rightarrow> bool" where
  "frame_rep s fs us \<longleftrightarrow> (\<exists>F U. frames_inv s F U \<and> fs = map (fr_addr s) F
     \<and> us = fr_addr s ` {n \<in> set U. PAGE_SIZE \<le> fr_addr s n})"

lemma frame_rep_frames:
  assumes "frame_rep s fs us"
  shows "distinct fs \<and> set fs \<inter> us = {} \<and> 0 \<notin> set fs \<union> us \<and> (\<forall>p \<in> set fs \<union> us. page_is_aligned p)"
proof -
  obtain F U where FU: "frames_inv s F U" "fs = map (fr_addr s) F"
    "us = fr_addr s ` {n \<in> set U. PAGE_SIZE \<le> fr_addr s n}"
    using assms by (auto simp: frame_rep_def)
  have dist: "distinct F" "set F \<inter> set U = {}"
    using frames_inv_distinct [OF FU(1)] by simp_all
  have "inj_on (fr_addr s) (set F)"
    using frames_inv_inj [OF FU(1)] FU(1) by (auto simp: inj_on_def frames_inv_def)
  then have "distinct fs" using dist(1) FU(2) by (simp add: distinct_map)
  moreover have "fr_addr s m \<noteq> fr_addr s n" if "m \<in> set F" "n \<in> set U" "PAGE_SIZE \<le> fr_addr s n" for m n
    using frames_inv_inj [OF FU(1), of m n] that dist(2) by blast
  then have "set fs \<inter> us = {}" unfolding FU(2,3) by fastforce
  moreover have "\<forall>p \<in> set fs \<union> us. PAGE_SIZE \<le> p \<and> page_is_aligned p"
    using frames_inv_aligned [OF FU(1)] FU by (auto simp: frames_inv_def)
  moreover have "\<not> PAGE_SIZE \<le> (0 :: p_addr)" by (simp add: word_le_nat_alt)
  ultimately show ?thesis by blast
qed

lemma frame_rep_alloc_some:
  assumes "frame_rep s (p # fs) us"
  shows "\<exists>s'. memory_page_frame_alloc s = (p, s') \<and> frame_rep s' fs (insert p us)"
proof -
  obtain n F U where FU: "frames_inv s (n # F) U" "p = fr_addr s n" "fs = map (fr_addr s) F"
    "us = fr_addr s ` {n \<in> set U. PAGE_SIZE \<le> fr_addr s n}"
    using assms unfolding frame_rep_def by (auto simp: Cons_eq_map_conv)
  have rep: "frames_rep s (n # F) U" "PAGE_SIZE \<le> p" using FU(1,2) by (auto simp: frames_inv_def)
  let ?s' = "snd (memory_page_frame_alloc s)"
  have "{k \<in> set (U @ [n]). PAGE_SIZE \<le> fr_addr s k} = insert n {k \<in> set U. PAGE_SIZE \<le> fr_addr s k}"
    using rep(2) FU(2) by auto
  then have "frame_rep ?s' fs (insert p us)"
    using frames_inv_alloc [OF FU(1)] alloc_front(3) [OF rep(1)] FU(2-) unfolding frame_rep_def
    by (intro exI [of _ F] exI [of _ "U @ [n]"]) auto
  then show ?thesis using alloc_front(1) [OF rep(1)] FU(2) by (metis prod.collapse)
qed

lemma frame_rep_alloc_none: "frame_rep s [] us \<Longrightarrow> memory_page_frame_alloc s = (0, s)"
  by (auto simp: frame_rep_def frames_inv_def alloc_empty)

lemma frame_rep_free:
  assumes "frame_rep s fs us" "p \<in> us"
  shows "\<exists>s'. memory_page_frame_free p s = Some (Inr (), s') \<and> frame_rep s' (p # fs) (us - {p})"
proof -
  obtain F U where FU: "frames_inv s F U" "fs = map (fr_addr s) F"
    "us = fr_addr s ` {n \<in> set U. PAGE_SIZE \<le> fr_addr s n}"
    using assms(1) by (auto simp: frame_rep_def)
  then obtain n where n: "n \<in> set U" "PAGE_SIZE \<le> fr_addr s n" "p = fr_addr s n" using assms(2) by auto
  obtain s' where s': "memory_page_frame_free p s = Some (Inr (), s')" "frames_inv s' (n # F) (remove1 n U)"
    "fr_addr s' = fr_addr s"
    using frames_inv_free [OF FU(1) n(1,2)] n(3) by metis
  have dist: "distinct U"
    using frames_inv_distinct [OF FU(1)] by simp
  have "fr_addr s k \<noteq> p" if "k \<in> set U" "k \<noteq> n" for k
    using frames_inv_inj [OF FU(1) _ _ n(2), of k] n(1,3) that by blast
  then have "us - {p} = fr_addr s ` {k \<in> set (remove1 n U). PAGE_SIZE \<le> fr_addr s k}"
    unfolding FU(3) set_remove1_eq [OF dist] using n(3) by blast
  then have "frame_rep s' (p # fs) (us - {p})"
    unfolding frame_rep_def using s'(2,3) FU(2) n(3)
    by (intro exI [of _ "n # F"] exI [of _ "remove1 n U"]) simp
  then show ?thesis using s'(1) by blast
qed

interpretation fa: frame_allocator frame_rep memory_page_frame_alloc memory_page_frame_free
  by unfold_locales (fact frame_rep_frames frame_rep_alloc_none frame_rep_alloc_some frame_rep_free)+


section \<open>Correctness\<close>


definition blank_frames :: frames where
  "blank_frames = \<lparr>fr_heap = \<lparr>prev = (\<lambda>_. 0), nxt = (\<lambda>_. 0)\<rparr>, fr_addr = (\<lambda>_. 0), fr_n = (\<lambda>_. 0),
     memory_base = 0, memory_top = 0, early_free_frames_size = 0\<rparr>"

text \<open>The layout of x86 and a kernel loaded at 1 MB in 32 MB of memory.\<close>

definition x86_layout :: "mem_area list" where
  "x86_layout = [MEMORY_AREA 0xa0000 0x100000 0]"

definition sample_image :: kernel_image where
  "sample_image = \<lparr>kernel_p_start = 0x100000, kernel_p_end = 0x14f123, kernel_v_start = 0xc0100000,
     kernel_v_end = 0xc014f123, kernel_end_shift = 0\<rparr>"

lemma sample_image_pages:
  "kernel_image_get_top_page_frame sample_image = 0x150000"
  "kernel_area_of sample_image = MEMORY_AREA 0x100000 0x50000 0"
  by (simp_all add: sample_image_def kernel_image_get_top_page_frame_def kernel_image_get_phys_end_def
      kernel_area_of_def kernel_image_get_base_page_frame_def kernel_image_get_size_def
      kernel_image_get_top_page_def kernel_image_get_virt_end_def kernel_image_get_base_page_def
      page_align_up_def page_align_down_def align_up_def align_down_def)

lemma x86_layout_find:
  "memory_layout_find_area p x86_layout ka = Some m \<Longrightarrow>
     p < PAGE_SIZE \<and> m = MEMORY_AREA 0 PAGE_SIZE 0 \<or> m = ka \<and> p < ma_start ka + ma_size ka
     \<or> m = MEMORY_AREA 0xa0000 0x100000 0 \<and> p \<le> 0x1a0000"
  by (auto simp: memory_layout_find_area_def x86_layout_def find_area_loop.simps MEMORY_AREA_def Let_def
      split: if_splits)


lemma x86_layout_progress:
  assumes "memory_layout_find_area p x86_layout ka = Some m" "p \<noteq> 0x1a0000"
  shows "p < ma_start m + ma_size m"
proof -
  have "(MEMORY_AREA 0xa0000 0x100000 0 :: mem_area) = m \<and> p < 0x1a0000
      \<or> p < PAGE_SIZE \<and> m = MEMORY_AREA 0 PAGE_SIZE 0 \<or> m = ka \<and> p < ma_start ka + ma_size ka"
    using x86_layout_find [OF assms(1)] assms(2) by (auto simp: order_less_le)
  then show ?thesis by (auto simp: MEMORY_AREA_def)
qed


text \<open>
  C13: the frame allocator hands out each frame at most once.  When no frame is free the allocation
  returns 0 and changes nothing; otherwise it returns the address of the first free frame, which is
  page aligned, not 0 and different from every frame in use, and moves that frame to the used list.
  Freeing a frame in use puts it at the front of the free list, so the next allocation returns it.
\<close>

theorem frame_allocation_correct:
  assumes "frames_inv s F U"
  shows "(case F of
      [] \<Rightarrow> memory_page_frame_alloc s = (0, s)
    | n # F' \<Rightarrow> (\<exists>s'. memory_page_frame_alloc s = (fr_addr s n, s') \<and> frames_inv s' F' (U @ [n])
        \<and> fr_addr s n \<noteq> 0 \<and> page_is_aligned (fr_addr s n) \<and> fr_addr s n \<notin> fr_addr s ` set U))
    \<and> (\<forall>n \<in> set U. PAGE_SIZE \<le> fr_addr s n \<longrightarrow>
      (\<exists>s'. memory_page_frame_free (fr_addr s n) s = Some (Inr (), s') \<and> frames_inv s' (n # F) (remove1 n U)
        \<and> fst (memory_page_frame_alloc s') = fr_addr s n))"
proof (intro conjI ballI impI)
  show "case F of [] \<Rightarrow> memory_page_frame_alloc s = (0, s)
    | n # F' \<Rightarrow> (\<exists>s'. memory_page_frame_alloc s = (fr_addr s n, s') \<and> frames_inv s' F' (U @ [n])
        \<and> fr_addr s n \<noteq> 0 \<and> page_is_aligned (fr_addr s n) \<and> fr_addr s n \<notin> fr_addr s ` set U)"
  proof (cases F)
    case Nil
    then show ?thesis using assms alloc_empty [of s U] by (simp add: frames_inv_def)
  next
    case (Cons n F')
    have n: "PAGE_SIZE \<le> fr_addr s n" "frames_rep s (n # F') U" "n \<notin> set U"
      using assms Cons frames_inv_distinct [OF assms] by (auto simp: frames_inv_def)
    have "fr_addr s n \<noteq> 0" using n(1) by (auto simp: word_le_nat_alt)
    moreover have "page_is_aligned (fr_addr s n)"
      using frames_inv_aligned [OF assms _ n(1)] Cons by simp
    moreover have "fr_addr s m \<noteq> fr_addr s n" if "m \<in> set U" for m
      using frames_inv_inj [OF assms _ _ n(1), of m] that n(3) Cons by auto
    moreover have "memory_page_frame_alloc s = (fr_addr s n, snd (memory_page_frame_alloc s))"
      using alloc_front(1) [OF n(2)] by (simp add: prod_eq_iff)
    ultimately show ?thesis
      using frames_inv_alloc [of s n F' U] assms Cons by fastforce
  qed
  fix n assume "n \<in> set U" "PAGE_SIZE \<le> fr_addr s n"
  then obtain s' where s': "memory_page_frame_free (fr_addr s n) s = Some (Inr (), s')"
    "frames_inv s' (n # F) (remove1 n U)" "fr_addr s' = fr_addr s"
    using frames_inv_free [OF assms] by blast
  then show "\<exists>s'. memory_page_frame_free (fr_addr s n) s = Some (Inr (), s') \<and> frames_inv s' (n # F) (remove1 n U)
      \<and> fst (memory_page_frame_alloc s') = fr_addr s n"
    using alloc_front(1) [of s' n F] by (auto simp: frames_inv_def)
qed

definition two_frames :: frames where
  "two_frames =
     init_frame used_page_frames (page_frame_descriptor 3) 0x3000
       (init_frame free_page_frames (page_frame_descriptor 2) 0x2000
         (memory_pf_list_init used_page_frames (memory_pf_list_init free_page_frames
           (blank_frames\<lparr>memory_base := 0x1000, memory_top := 0x4000\<rparr>))))"

theorem frame_allocation_correct_witness:
  "frames_inv two_frames [page_frame_descriptor 2] [page_frame_descriptor 3]
     \<and> fst (memory_page_frame_alloc two_frames) = 0x2000
     \<and> map_option fst (memory_page_frame_free 0x3000 two_frames) = Some (Inr ())"
proof -
  let ?d = page_frame_descriptor
  have d: "?d 2 \<noteq> ?d 3" "2 < ?d 2" "2 < ?d 3" by (simp_all add: page_frame_descriptor_def)
  have "frames_rep two_frames ([] @ [?d 2]) ([] @ [?d 3])"
    unfolding two_frames_def init_frame_def
    by (intro insert_frames_rep frames_rep_set_pf_addr [THEN iffD2] memory_pf_list_init_rep) (use d in auto)
  moreover have addr: "fr_addr two_frames (?d 2) = 0x2000" "fr_addr two_frames (?d 3) = 0x3000"
    "memory_base two_frames = 0x1000" "memory_top two_frames = 0x4000"
    using d by (simp_all add: two_frames_def init_frame_def memory_pf_list_insert_def memory_pf_list_init_def)
  ultimately have inv: "frames_inv two_frames [?d 2] [?d 3]"
    by (simp add: frames_inv_def managed_def get_page_frame_at_def is_aligned_def)
  show ?thesis using inv frame_allocation_correct [OF inv] by (auto simp: addr)
qed



end
