(* ===== verification/Fs_Path.thy ===== *)
theory Fs_Path
  imports Libk_String
begin

text \<open>
  File system paths: \<^verbatim>\<open>fs/path.c\<close>.

  A path is a window (offset and size, both \<^verbatim>\<open>unsigned short\<close>) on a reference counted base string.  The
  strings live in a store indexed by their address (0 is NULL); an operation that allocates takes the
  address of the new string and the outcomes of its calls to \<^verbatim>\<open>kmalloc\<close>.  Reading outside a string is
  \<open>None\<close>.  Bytes are compared with 47, the slash.
\<close>

type_synonym path_size = "16 word"

record pstring =
  ps_str :: "byte list"
  ps_size :: path_size
  ps_refcnt :: refcount

type_synonym pstore = "nat \<Rightarrow> pstring option"

record vpath =
  base_str :: nat
  p_offset :: path_size
  p_size :: path_size

abbreviation VFS_PATH_MAX_LEN :: nat where
  "VFS_PATH_MAX_LEN \<equiv> 2048"

section \<open>Searching\<close>

fun first_x :: "(byte \<Rightarrow> bool) \<Rightarrow> byte list \<Rightarrow> nat \<Rightarrow> nat option" where
  "first_x predicate str 0 = Some 0"
| "first_x predicate [] (Suc n) = None"
| "first_x predicate (c # str) (Suc n) =
     (if \<not> predicate c then map_option Suc (first_x predicate str n) else Some 0)"

definition slash_predicate :: "byte \<Rightarrow> bool" where
  "slash_predicate c \<longleftrightarrow> c = 47"

definition non_slash_predicate :: "byte \<Rightarrow> bool" where
  "non_slash_predicate c \<longleftrightarrow> \<not> slash_predicate c"

definition first_slash :: "byte list \<Rightarrow> nat \<Rightarrow> nat option" where
  "first_slash = first_x slash_predicate"

definition first_non_slash :: "byte list \<Rightarrow> nat \<Rightarrow> nat option" where
  "first_non_slash = first_x non_slash_predicate"

section \<open>Strings and paths\<close>

definition copy_path_str :: "bool \<Rightarrow> byte list \<Rightarrow> path_size \<Rightarrow> byte list option option" where
  "copy_path_str m path sz =
     (if \<not> m then Some None
      else map_option Some (strncpy (replicate (unat sz) 0) path (unat sz)))"

text \<open>\<open>m1\<close> and \<open>m2\<close>: the allocations of the \<^verbatim>\<open>string_t\<close> and of its characters succeed.\<close>

definition vfs_path_string_create ::
  "nat \<Rightarrow> bool \<Rightarrow> bool \<Rightarrow> byte list \<Rightarrow> path_size \<Rightarrow> pstore \<Rightarrow> (nat result \<times> pstore) option" where
  "vfs_path_string_create new m1 m2 path sz st =
     (if \<not> m1 then Some (Inl ENOMEM, st)
      else do {
        cpy \<leftarrow> copy_path_str m2 path sz;
        case cpy of
          None \<Rightarrow> Some (Inl ENOMEM, st)
        | Some cpy \<Rightarrow> Some (Inr new, st(new \<mapsto> \<lparr>ps_str = cpy, ps_size = sz, ps_refcnt = refcount_init\<rparr>))
      })"

definition vfs_path_string_destroy :: "nat \<Rightarrow> pstore \<Rightarrow> pstore option" where
  "vfs_path_string_destroy s st = do {
     str \<leftarrow> st s;
     let (n, rc) = refcount_dec (ps_refcnt str);
     Some (if n = 0 then st(s := None) else st(s \<mapsto> str\<lparr>ps_refcnt := rc\<rparr>))
   }"

definition vfs_path_init ::
  "nat \<Rightarrow> bool \<Rightarrow> bool \<Rightarrow> byte list \<Rightarrow> path_size \<Rightarrow> pstore \<Rightarrow> (vpath result \<times> pstore) option" where
  "vfs_path_init new m1 m2 path_str sz st =
     (if unat sz > VFS_PATH_MAX_LEN then Some (Inl ENAMETOOLONG, st)
      else do {
        (r, st) \<leftarrow> vfs_path_string_create new m1 m2 path_str sz st;
        case r of
          Inl e \<Rightarrow> Some (Inl e, st)
        | Inr s \<Rightarrow> Some (Inr \<lparr>base_str = s, p_offset = 0, p_size = sz\<rparr>, st)
      })"

definition vfs_path_create ::
  "nat \<Rightarrow> bool \<Rightarrow> bool \<Rightarrow> bool \<Rightarrow> byte list \<Rightarrow> path_size \<Rightarrow> pstore \<Rightarrow> (vpath result \<times> pstore) option" where
  "vfs_path_create new m0 m1 m2 path sz st =
     (if \<not> m0 then Some (Inl ENOMEM, st) else vfs_path_init new m1 m2 path sz st)"

definition vfs_path_copy_init :: "vpath \<Rightarrow> pstore \<Rightarrow> (vpath \<times> pstore) option" where
  "vfs_path_copy_init path st = do {
     str \<leftarrow> st (base_str path);
     let (n, rc) = refcount_inc (ps_refcnt str);
     Some (path, st(base_str path \<mapsto> str\<lparr>ps_refcnt := rc\<rparr>))
   }"

definition vfs_path_copy_create :: "bool \<Rightarrow> vpath \<Rightarrow> pstore \<Rightarrow> (vpath result \<times> pstore) option" where
  "vfs_path_copy_create m path st =
     (if \<not> m then Some (Inl ENOMEM, st)
      else map_option (\<lambda>(copy, st). (Inr copy, st)) (vfs_path_copy_init path st))"

definition vfs_path_create_from ::
  "bool \<Rightarrow> vpath \<Rightarrow> path_size \<Rightarrow> path_size \<Rightarrow> pstore \<Rightarrow> (vpath result \<times> pstore) option" where
  "vfs_path_create_from m path relative_offset sz st =
     (if unat sz > VFS_PATH_MAX_LEN then Some (Inl ENAMETOOLONG, st)
      else do {
        (r, st) \<leftarrow> vfs_path_copy_create m path st;
        case r of
          Inl e \<Rightarrow> Some (Inl e, st)
        | Inr p \<Rightarrow> Some (Inr (p\<lparr>p_offset := p_offset p + relative_offset, p_size := sz\<rparr>), st)
      })"

definition null_path :: vpath where
  "null_path = \<lparr>base_str = 0, p_offset = 0, p_size = 0\<rparr>"

definition vfs_path_reset :: "vpath \<Rightarrow> pstore \<Rightarrow> (vpath \<times> pstore) option" where
  "vfs_path_reset path st =
     (if base_str path \<noteq> 0 then map_option (Pair null_path) (vfs_path_string_destroy (base_str path) st)
      else Some (null_path, st))"

definition vfs_path_destroy :: "vpath \<Rightarrow> pstore \<Rightarrow> pstore option" where
  "vfs_path_destroy path st = map_option snd (vfs_path_reset path st)"

definition vfs_path_get_size :: "vpath \<Rightarrow> path_size" where
  "vfs_path_get_size path = p_size path"

definition vfs_path_get_str :: "pstore \<Rightarrow> vpath \<Rightarrow> byte list option" where
  "vfs_path_get_str st path = do {
     str \<leftarrow> st (base_str path);
     if unat (p_offset path) \<le> length (ps_str str) then Some (drop (unat (p_offset path)) (ps_str str)) else None
   }"

definition vfs_path_absolute :: "pstore \<Rightarrow> vpath \<Rightarrow> bool option" where
  "vfs_path_absolute st path =
     (if p_size path > 0 then do {
        str \<leftarrow> vfs_path_get_str st path;
        case str of [] \<Rightarrow> None | c # _ \<Rightarrow> Some (c = 47)
      } else Some False)"

definition vfs_path_empty :: "vpath \<Rightarrow> bool" where
  "vfs_path_empty path \<longleftrightarrow> p_size path = 0 \<or> base_str path = 0"

section \<open>Components\<close>

definition vfs_path_component_init :: "vpath \<Rightarrow> pstore \<Rightarrow> (vpath \<times> pstore) option" where
  "vfs_path_component_init path st = vfs_path_copy_init path st"

definition vfs_path_component_reset :: "vpath \<Rightarrow> pstore \<Rightarrow> (vpath \<times> pstore) option" where
  "vfs_path_component_reset component st = vfs_path_reset component st"

definition build_component_path :: "pstore \<Rightarrow> vpath \<Rightarrow> vpath option" where
  "build_component_path st path = do {
     str \<leftarrow> vfs_path_get_str st path;
     start \<leftarrow> first_non_slash str (unat (p_size path));
     len \<leftarrow> first_slash (drop start str) (unat (p_size path) - start);
     let end = start + len;
     Some (path\<lparr>p_offset := p_offset path + of_nat start, p_size := of_nat (end - start)\<rparr>)
   }"

definition vfs_path_first_component :: "vpath \<Rightarrow> pstore \<Rightarrow> (vpath \<times> pstore) option" where
  "vfs_path_first_component path st = do {
     (c, st) \<leftarrow> vfs_path_component_init path st;
     c \<leftarrow> build_component_path st c;
     Some (c, st)
   }"

definition vfs_path_component_next :: "pstore \<Rightarrow> vpath \<Rightarrow> vpath option" where
  "vfs_path_component_next st path = do {
     str \<leftarrow> st (base_str path);
     let path = path\<lparr>p_offset := p_offset path + p_size path\<rparr>;
     let path = path\<lparr>p_size := ps_size str - p_offset path\<rparr>;
     build_component_path st path
   }"

section \<open>Base name and directory name\<close>

text \<open>\<open>ignore_trailing str n\<close> and \<open>basename_pos str n\<close> move the end pointer back from \<^verbatim>\<open>str + n\<close>.\<close>

fun ignore_trailing :: "byte list \<Rightarrow> nat \<Rightarrow> nat option" where
  "ignore_trailing str 0 = Some 0"
| "ignore_trailing str (Suc n) =
     (if 0 < n then if n < length str then if str ! n = 47 then ignore_trailing str n else Some (Suc n) else None
      else Some (Suc n))"

fun basename_pos :: "byte list \<Rightarrow> nat \<Rightarrow> nat option" where
  "basename_pos str 0 = Some 0"
| "basename_pos str (Suc n) =
     (if n < length str then if str ! n \<noteq> 47 then basename_pos str n else Some (Suc n) else None)"

definition vfs_path_ignore_trailing_slashes :: "pstore \<Rightarrow> vpath \<Rightarrow> vpath option" where
  "vfs_path_ignore_trailing_slashes st path = do {
     str \<leftarrow> vfs_path_get_str st path;
     n \<leftarrow> ignore_trailing str (unat (p_size path));
     Some (path\<lparr>p_size := of_nat n\<rparr>)
   }"

definition basename_start :: "pstore \<Rightarrow> vpath \<Rightarrow> nat option" where
  "basename_start st path = do {
     str \<leftarrow> vfs_path_get_str st path;
     basename_pos str (unat (p_size path))
   }"

definition vfs_path_basename :: "vpath \<Rightarrow> pstore \<Rightarrow> (vpath \<times> pstore) option" where
  "vfs_path_basename path st = do {
     (b, st) \<leftarrow> vfs_path_copy_init path st;
     b \<leftarrow> vfs_path_ignore_trailing_slashes st b;
     start \<leftarrow> basename_start st b;
     Some (b\<lparr>p_offset := p_offset b + of_nat start, p_size := of_nat (unat (p_size b) - start)\<rparr>, st)
   }"

definition vfs_path_dirname ::
  "nat \<Rightarrow> bool \<Rightarrow> bool \<Rightarrow> vpath \<Rightarrow> pstore \<Rightarrow> (vpath result \<times> pstore) option" where
  "vfs_path_dirname new m1 m2 path st = do {
     (d, st) \<leftarrow> vfs_path_copy_init path st;
     d \<leftarrow> vfs_path_ignore_trailing_slashes st d;
     start \<leftarrow> basename_start st d;
     let d = d\<lparr>p_size := of_nat start\<rparr>;
     if p_size d = 0 then do {
       (_, st) \<leftarrow> vfs_path_reset d st;
       vfs_path_init new m1 m2 [46, 0] 1 st
     } else do {
       d \<leftarrow> vfs_path_ignore_trailing_slashes st d;
       Some (Inr (if p_size d = 0 then d\<lparr>p_size := p_size d + 1\<rparr> else d), st)
     }
   }"

section \<open>Comparison\<close>

definition path_string_equals :: "pstore \<Rightarrow> vpath \<Rightarrow> vpath \<Rightarrow> bool option" where
  "path_string_equals st p1 p2 =
     (if p1 = p2 then Some True
      else if p_size p1 \<noteq> p_size p2 then Some False
      else do {
        s1 \<leftarrow> vfs_path_get_str st p1;
        s2 \<leftarrow> vfs_path_get_str st p2;
        r \<leftarrow> strncmp s1 s2 (unat (p_size p1));
        Some (r = 0)
      })"

definition vfs_path_component_equals :: "pstore \<Rightarrow> vpath \<Rightarrow> vpath \<Rightarrow> bool option" where
  "vfs_path_component_equals st c1 c2 = path_string_equals st c1 c2"

definition vfs_path_component_empty :: "vpath \<Rightarrow> bool" where
  "vfs_path_component_empty c = vfs_path_empty c"

fun path_same_loop :: "nat \<Rightarrow> pstore \<Rightarrow> vpath \<Rightarrow> vpath \<Rightarrow> bool option" where
  "path_same_loop 0 st c1 c2 = None"
| "path_same_loop (Suc fuel) st c1 c2 =
     (if \<not> vfs_path_component_empty c1 \<and> \<not> vfs_path_component_empty c2 then do {
        eq \<leftarrow> vfs_path_component_equals st c1 c2;
        if eq then do {
          c1 \<leftarrow> vfs_path_component_next st c1;
          c2 \<leftarrow> vfs_path_component_next st c2;
          path_same_loop fuel st c1 c2
        } else Some (vfs_path_component_empty c1 \<and> vfs_path_component_empty c2)
      } else Some (vfs_path_component_empty c1 \<and> vfs_path_component_empty c2))"

definition path_same :: "nat \<Rightarrow> vpath \<Rightarrow> vpath \<Rightarrow> pstore \<Rightarrow> (bool \<times> pstore) option" where
  "path_same fuel p1 p2 st = do {
     (c1, st) \<leftarrow> vfs_path_first_component p1 st;
     (c2, st) \<leftarrow> vfs_path_first_component p2 st;
     ret \<leftarrow> path_same_loop fuel st c1 c2;
     (_, st) \<leftarrow> vfs_path_component_reset c2 st;
     (_, st) \<leftarrow> vfs_path_component_reset c1 st;
     Some (ret, st)
   }"

definition vfs_path_same :: "nat \<Rightarrow> vpath \<Rightarrow> vpath \<Rightarrow> pstore \<Rightarrow> (bool \<times> pstore) option" where
  "vfs_path_same fuel p1 p2 st = do {
     eq \<leftarrow> path_string_equals st p1 p2;
     if eq then Some (True, st) else path_same fuel p1 p2 st
   }"

definition vfs_path_str_same ::
  "nat \<Rightarrow> nat \<Rightarrow> bool \<Rightarrow> bool \<Rightarrow> vpath \<Rightarrow> byte list \<Rightarrow> path_size \<Rightarrow> pstore \<Rightarrow> (bool \<times> pstore) option" where
  "vfs_path_str_same fuel new m1 m2 p s sz st = do {
     (r, st) \<leftarrow> vfs_path_init new m1 m2 s sz st;
     case r of
       Inl e \<Rightarrow> Some (False, st)
     | Inr sp \<Rightarrow> do {
         (ret, st) \<leftarrow> vfs_path_same fuel p sp st;
         (_, st) \<leftarrow> vfs_path_reset sp st;
         Some (ret, st)
       }
   }"


section \<open>The bytes of a path and its components\<close>

abbreviation is_slash :: "byte \<Rightarrow> bool" where
  "is_slash c \<equiv> c = 47"

abbreviation not_slash :: "byte \<Rightarrow> bool" where
  "not_slash c \<equiv> c \<noteq> 47"

text \<open>The specification: the maximal slash-free pieces of a byte string.\<close>

function comps :: "byte list \<Rightarrow> byte list list" where
  "comps s = (let t = dropWhile is_slash s
     in if t = [] then [] else takeWhile not_slash t # comps (dropWhile not_slash t))"
  by pat_completeness auto
termination
proof (relation "measure length")
  fix s t :: "byte list"
  assume t: "t = dropWhile is_slash s" "t \<noteq> []"
  then have "not_slash (hd t)" using hd_dropWhile [of is_slash s] by simp
  then have "length (dropWhile not_slash t) < length t" using t(2) by (cases t) (auto simp: length_dropWhile_le le_imp_less_Suc)
  also have "length t \<le> length s" using t(1) by (simp add: length_dropWhile_le)
  finally show "(dropWhile not_slash t, s) \<in> measure length" by simp
qed simp

declare comps.simps [simp del]

definition base_bytes :: "pstore \<Rightarrow> vpath \<Rightarrow> byte list" where
  "base_bytes st p = (case st (base_str p) of None \<Rightarrow> [] | Some s \<Rightarrow> ps_str s)"

definition path_bytes :: "pstore \<Rightarrow> vpath \<Rightarrow> byte list" where
  "path_bytes st p = take (unat (p_size p)) (drop (unat (p_offset p)) (base_bytes st p))"

text \<open>What follows the path in its base string.\<close>

definition rest_bytes :: "pstore \<Rightarrow> vpath \<Rightarrow> byte list" where
  "rest_bytes st p = drop (unat (p_offset p) + unat (p_size p)) (base_bytes st p)"

definition path_wf :: "pstore \<Rightarrow> vpath \<Rightarrow> bool" where
  "path_wf st p \<longleftrightarrow>
     (case st (base_str p) of
        None \<Rightarrow> False
      | Some s \<Rightarrow> base_str p \<noteq> 0 \<and> length (ps_str s) = unat (ps_size s)
          \<and> unat (p_offset p) + unat (p_size p) \<le> length (ps_str s))"

lemma unat_16_bound: "unat (w :: 16 word) < 65536"
  using unsigned_less [of w, where ?'a = nat] by simp

lemma unat_16_add: "unat (a :: 16 word) + n < 65536 \<Longrightarrow> unat (a + of_nat n) = unat a + n"
  by (simp add: unat_word_ariths unat_of_nat)

lemma unat_16_of_nat: "n < 65536 \<Longrightarrow> unat (of_nat n :: 16 word) = n"
  by (simp add: unat_of_nat)

lemma path_wfE:
  assumes "path_wf st p"
  obtains s where "st (base_str p) = Some s" "base_str p \<noteq> 0" "length (ps_str s) = unat (ps_size s)"
    "unat (p_offset p) + unat (p_size p) \<le> length (ps_str s)" "base_bytes st p = ps_str s"
    "length (base_bytes st p) < 65536"
  using assms unat_16_bound by (fastforce simp: path_wf_def base_bytes_def split: option.splits)

lemma length_path_bytes: "path_wf st p \<Longrightarrow> length (path_bytes st p) = unat (p_size p)"
  by (erule path_wfE) (simp add: path_bytes_def)

lemma get_str_wf:
  assumes "path_wf st p"
  shows "vfs_path_get_str st p = Some (drop (unat (p_offset p)) (base_bytes st p))"
    and "drop (unat (p_offset p)) (base_bytes st p) = path_bytes st p @ rest_bytes st p"
proof -
  show "vfs_path_get_str st p = Some (drop (unat (p_offset p)) (base_bytes st p))"
    using assms by (auto elim!: path_wfE simp: vfs_path_get_str_def)
  have "rest_bytes st p = drop (unat (p_size p)) (drop (unat (p_offset p)) (base_bytes st p))"
    by (simp add: rest_bytes_def add.commute)
  then show "drop (unat (p_offset p)) (base_bytes st p) = path_bytes st p @ rest_bytes st p"
    by (simp only: path_bytes_def append_take_drop_id)
qed

lemma first_x_eq:
  "n \<le> length str \<Longrightarrow> first_x P str n = Some (length (takeWhile (\<lambda>c. \<not> P c) (take n str)))"
proof (induction n arbitrary: str)
  case (Suc n)
  then show ?case by (cases str) auto
qed simp

lemma path_empty_iff: "path_wf st p \<Longrightarrow> vfs_path_empty p \<longleftrightarrow> path_bytes st p = []"
  using length_path_bytes [of st p] by (auto elim!: path_wfE simp: vfs_path_empty_def unat_eq_0 simp flip: length_0_conv)

lemma build_component_path_spec:
  assumes "path_wf st p"
  defines "t \<equiv> dropWhile is_slash (path_bytes st p)"
  obtains c where "build_component_path st p = Some c" "path_wf st c" "base_str c = base_str p"
    "path_bytes st c = takeWhile not_slash t" "rest_bytes st c = dropWhile not_slash t @ rest_bytes st p"
proof -
  let ?b = "path_bytes st p" and ?s = "drop (unat (p_offset p)) (base_bytes st p)"
  let ?start = "length (takeWhile is_slash ?b)" and ?len = "length (takeWhile not_slash t)"
  obtain s where s: "st (base_str p) = Some s" "base_str p \<noteq> 0" "length (ps_str s) = unat (ps_size s)"
    "unat (p_offset p) + unat (p_size p) \<le> length (ps_str s)" "base_bytes st p = ps_str s"
    "length (base_bytes st p) < 65536"
    using assms(1) by (rule path_wfE)
  have b: "length ?b = unat (p_size p)" "?s = ?b @ rest_bytes st p" "vfs_path_get_str st p = Some ?s"
    using length_path_bytes get_str_wf assms(1) by blast+
  have split: "?b = takeWhile is_slash ?b @ t" unfolding t_def by simp
  have t: "t = drop ?start ?b" using split by (metis append_eq_conv_conj)
  have le: "?start + ?len \<le> unat (p_size p)"
    using arg_cong [OF split, of length] length_takeWhile_le [of not_slash t] b(1) by simp
  have f1: "first_non_slash ?s (unat (p_size p)) = Some ?start"
    using b by (simp add: first_non_slash_def first_x_eq non_slash_predicate_def slash_predicate_def)
  have f2: "first_slash (drop ?start ?s) (unat (p_size p) - ?start) = Some ?len"
    using b t le by (simp add: first_slash_def first_x_eq slash_predicate_def)
  let ?c = "p\<lparr>p_offset := p_offset p + of_nat ?start, p_size := of_nat ?len\<rparr>"
  have run: "build_component_path st p = Some ?c"
    using b(3) f1 f2 by (simp add: build_component_path_def)
  have off: "unat (p_offset p + of_nat ?start) = unat (p_offset p) + ?start"
    using s(4,5,6) le by (intro unat_16_add) simp
  have sz: "unat (of_nat ?len :: path_size) = ?len"
    using s(4,5,6) le by (intro unat_16_of_nat) simp
  have wf: "path_wf st ?c" using s off sz le by (simp add: path_wf_def)
  have "drop (unat (p_offset ?c)) (base_bytes st ?c) = t @ rest_bytes st p"
  proof -
    have "base_bytes st ?c = base_bytes st p" by (simp add: base_bytes_def)
    then have "drop (unat (p_offset ?c)) (base_bytes st ?c) = drop ?start ?s"
      using off by (simp add: add.commute)
    then show ?thesis using b(1,2) t le by simp
  qed
  then have "path_bytes st ?c @ rest_bytes st ?c = takeWhile not_slash t @ dropWhile not_slash t @ rest_bytes st p"
    using get_str_wf(2) [OF wf] takeWhile_dropWhile_id [of not_slash t] by (metis append_assoc)
  moreover have "length (path_bytes st ?c) = ?len" using length_path_bytes [OF wf] sz by simp
  ultimately have "path_bytes st ?c = takeWhile not_slash t" "rest_bytes st ?c = dropWhile not_slash t @ rest_bytes st p"
    by (simp_all add: append_eq_append_conv)
  then show ?thesis using that [OF run wf] by simp
qed


section \<open>Iterating over components\<close>

text \<open>The components a loop over \<open>vfs_path_component_next\<close> sees from component \<open>c\<close> on.\<close>

fun component_names :: "nat \<Rightarrow> pstore \<Rightarrow> vpath \<Rightarrow> byte list list option" where
  "component_names 0 st c = None"
| "component_names (Suc fuel) st c =
     (if vfs_path_component_empty c then Some []
      else do {
        c' \<leftarrow> vfs_path_component_next st c;
        map_option ((#) (path_bytes st c)) (component_names fuel st c')
      })"

definition names_from :: "pstore \<Rightarrow> vpath \<Rightarrow> byte list list" where
  "names_from st c = (if path_bytes st c = [] then [] else path_bytes st c # comps (rest_bytes st c))"

lemma takeWhile_dropWhile_Nil: "takeWhile not_slash (dropWhile is_slash s) = [] \<longleftrightarrow> dropWhile is_slash s = []"
  by (induction s) auto

lemma build_component_names:
  assumes "path_wf st p"
  obtains c where "build_component_path st p = Some c" "path_wf st c" "base_str c = base_str p"
    "rest_bytes st p = [] \<Longrightarrow> names_from st c = comps (path_bytes st p)"
    "path_bytes st c = takeWhile not_slash (dropWhile is_slash (path_bytes st p))"
    "rest_bytes st c = dropWhile not_slash (dropWhile is_slash (path_bytes st p)) @ rest_bytes st p"
proof -
  obtain c where c: "build_component_path st p = Some c" "path_wf st c" "base_str c = base_str p"
    "path_bytes st c = takeWhile not_slash (dropWhile is_slash (path_bytes st p))"
    "rest_bytes st c = dropWhile not_slash (dropWhile is_slash (path_bytes st p)) @ rest_bytes st p"
    using build_component_path_spec [OF assms] by blast
  moreover have "names_from st c = comps (path_bytes st p)" if "rest_bytes st p = []"
    using c(4,5) that by (simp add: names_from_def comps.simps [of "path_bytes st p"] Let_def takeWhile_dropWhile_Nil)
  ultimately show ?thesis using that by blast
qed

lemma component_next_spec:
  assumes "path_wf st c"
  obtains c' where "vfs_path_component_next st c = Some c'" "path_wf st c'" "base_str c' = base_str c"
    "names_from st c' = comps (rest_bytes st c)"
proof -
  obtain s where s: "st (base_str c) = Some s" "base_str c \<noteq> 0" "length (ps_str s) = unat (ps_size s)"
    "unat (p_offset c) + unat (p_size c) \<le> length (ps_str s)" "base_bytes st c = ps_str s"
    "length (base_bytes st c) < 65536"
    using assms by (rule path_wfE)
  let ?p = "c\<lparr>p_offset := p_offset c + p_size c, p_size := ps_size s - (p_offset c + p_size c)\<rparr>"
  have off: "unat (p_offset c + p_size c) = unat (p_offset c) + unat (p_size c)"
    using unat_16_add [of "p_offset c" "unat (p_size c)"] s(4-6) by simp
  have sz: "unat (ps_size s - (p_offset c + p_size c)) = unat (ps_size s) - (unat (p_offset c) + unat (p_size c))"
    using off s(3,4) by (simp add: unat_sub word_le_nat_alt)
  have base: "base_bytes st ?p = base_bytes st c" by (simp add: base_bytes_def)
  have wf: "path_wf st ?p" using s off sz by (simp add: path_wf_def)
  have rest: "rest_bytes st ?p = []" "path_bytes st ?p = rest_bytes st c"
    using s(3-5) off sz base by (simp_all add: rest_bytes_def path_bytes_def)
  have "vfs_path_component_next st c = build_component_path st ?p"
    using s(1) by (simp add: vfs_path_component_next_def)
  moreover obtain c' where "build_component_path st ?p = Some c'" "path_wf st c'" "base_str c' = base_str ?p"
    "rest_bytes st ?p = [] \<Longrightarrow> names_from st c' = comps (path_bytes st ?p)"
    using build_component_names [OF wf] by blast
  ultimately show ?thesis using rest that [of c'] by simp
qed

lemma component_names_eq:
  "\<lbrakk> path_wf st c; length (names_from st c) < fuel \<rbrakk> \<Longrightarrow> component_names fuel st c = Some (names_from st c)"
proof (induction fuel arbitrary: c)
  case (Suc fuel)
  show ?case
  proof (cases "path_bytes st c = []")
    case True
    then show ?thesis using path_empty_iff [OF Suc.prems(1)] by (simp add: vfs_path_component_empty_def names_from_def)
  next
    case False
    obtain c' where c': "vfs_path_component_next st c = Some c'" "path_wf st c'" "names_from st c' = comps (rest_bytes st c)"
      using component_next_spec [OF Suc.prems(1)] by blast
    have "names_from st c = path_bytes st c # names_from st c'" using False c'(3) by (simp add: names_from_def)
    then show ?thesis
      using Suc.IH [OF c'(2)] Suc.prems False c'(1) path_empty_iff [OF Suc.prems(1)]
      by (simp add: vfs_path_component_empty_def)
  qed
qed simp

lemma length_comps: "length (comps s) \<le> length s"
proof (induction s rule: comps.induct)
  case (1 s)
  define t where "t = dropWhile is_slash s"
  show ?case
  proof (cases "t = []")
    case False
    then have "takeWhile not_slash t \<noteq> []" using takeWhile_dropWhile_Nil by (simp add: t_def)
    then have "length (dropWhile not_slash t) < length t"
      using arg_cong [OF takeWhile_dropWhile_id, of length not_slash t] by (cases "takeWhile not_slash t") auto
    moreover have "length t \<le> length s" by (simp add: t_def length_dropWhile_le)
    ultimately show ?thesis using 1 [OF t_def False] False by (simp add: comps.simps [of s] Let_def flip: t_def)
  qed (simp add: comps.simps [of s] flip: t_def)
qed

lemma length_names_from: "length (names_from st c) \<le> length (base_bytes st c)"
proof (cases "path_bytes st c = []")
  case False
  have "length (path_bytes st c) + length (rest_bytes st c) \<le> length (base_bytes st c)"
    by (auto simp: path_bytes_def rest_bytes_def min_def)
  moreover have "0 < length (path_bytes st c)" using False by simp
  ultimately show ?thesis using length_comps [of "rest_bytes st c"] False unfolding names_from_def
    by (simp del: length_greater_0_conv)
qed (simp add: names_from_def)

section \<open>Comparing paths\<close>

lemma take_cstr: "0 \<notin> set (take n s) \<Longrightarrow> take n (cstr s) = take n s"
proof (induction n arbitrary: s)
  case (Suc n)
  then show ?case by (cases s) auto
qed simp

lemma path_string_equals_eq:
  assumes "path_wf st p1" "path_wf st p2" "0 \<notin> set (path_bytes st p1)" "0 \<notin> set (path_bytes st p2)"
  shows "path_string_equals st p1 p2 = Some (path_bytes st p1 = path_bytes st p2)"
proof (cases "p1 = p2 \<or> p_size p1 \<noteq> p_size p2")
  case True
  then show ?thesis
    using length_path_bytes [OF assms(1)] length_path_bytes [OF assms(2)]
    by (auto simp: path_string_equals_def word_unat_eq_iff)
next
  case False
  let ?s1 = "path_bytes st p1 @ rest_bytes st p1" and ?s2 = "path_bytes st p2 @ rest_bytes st p2"
  let ?n = "unat (p_size p1)"
  have len: "?n = length (path_bytes st p1)" "?n = length (path_bytes st p2)"
    using length_path_bytes assms(1,2) False by simp_all
  obtain r where r: "strncmp ?s1 ?s2 ?n = Some r" "(r = 0) = (take ?n (cstr ?s1) = take ?n (cstr ?s2))"
    using strncmp_zero_iff [of ?s1 ?n ?s2] len by auto
  have "take ?n (cstr ?s1) = path_bytes st p1" "take ?n (cstr ?s2) = path_bytes st p2"
    using take_cstr [of ?n ?s1] take_cstr [of ?n ?s2] assms(3,4) len by simp_all
  then show ?thesis
    using False r get_str_wf [OF assms(1)] get_str_wf [OF assms(2)] by (simp add: path_string_equals_def)
qed

abbreviation no_nul :: "pstore \<Rightarrow> vpath \<Rightarrow> bool" where
  "no_nul st p \<equiv> 0 \<notin> set (base_bytes st p)"

lemma no_nul_path_bytes: "no_nul st p \<Longrightarrow> 0 \<notin> set (path_bytes st p)"
  by (auto simp: path_bytes_def dest: in_set_takeD in_set_dropD)

lemma path_same_loop_eq:
  "\<lbrakk> path_wf st c1; path_wf st c2; no_nul st c1; no_nul st c2; length (names_from st c1) < fuel \<rbrakk>
    \<Longrightarrow> path_same_loop fuel st c1 c2 = Some (names_from st c1 = names_from st c2)"
proof (induction fuel arbitrary: c1 c2)
  case (Suc fuel)
  note empty = path_empty_iff [OF Suc.prems(1)] path_empty_iff [OF Suc.prems(2)]
  note eq = path_string_equals_eq [OF Suc.prems(1,2) no_nul_path_bytes [OF Suc.prems(3)] no_nul_path_bytes [OF Suc.prems(4)]]
  show ?case
  proof (cases "path_bytes st c1 = [] \<or> path_bytes st c2 = [] \<or> path_bytes st c1 \<noteq> path_bytes st c2")
    case True
    then show ?thesis using empty eq
      by (auto simp: vfs_path_component_empty_def vfs_path_component_equals_def names_from_def)
  next
    case False
    obtain d1 where d1: "vfs_path_component_next st c1 = Some d1" "path_wf st d1" "base_str d1 = base_str c1"
      "names_from st d1 = comps (rest_bytes st c1)" using component_next_spec [OF Suc.prems(1)] by blast
    obtain d2 where d2: "vfs_path_component_next st c2 = Some d2" "path_wf st d2" "base_str d2 = base_str c2"
      "names_from st d2 = comps (rest_bytes st c2)" using component_next_spec [OF Suc.prems(2)] by blast
    have "no_nul st d1" "no_nul st d2" using Suc.prems(3,4) d1(3) d2(3) by (simp_all add: base_bytes_def)
    moreover have "names_from st c1 = path_bytes st c1 # names_from st d1"
      "names_from st c2 = path_bytes st c2 # names_from st d2"
      using False d1(4) d2(4) by (simp_all add: names_from_def)
    ultimately show ?thesis
      using Suc.IH [OF d1(2) d2(2)] Suc.prems(5) False empty eq d1(1) d2(1)
      by (simp add: vfs_path_component_empty_def vfs_path_component_equals_def)
  qed
qed simp


text \<open>Copying a path and resetting the copy leaves the reference counts as they were.\<close>

definition bump :: "nat \<Rightarrow> pstore \<Rightarrow> pstore" where
  "bump b st = (case st b of None \<Rightarrow> st | Some s \<Rightarrow> st(b \<mapsto> s\<lparr>ps_refcnt := ps_refcnt s + 1\<rparr>))"

definition live :: "pstore \<Rightarrow> bool" where
  "live st \<longleftrightarrow> (\<forall>i s. st i = Some s \<longrightarrow> ps_refcnt s \<noteq> 0 \<and> ps_refcnt s \<noteq> - 1)"

lemma bump_bytes [simp]:
  "base_bytes (bump b st) p = base_bytes st p" "path_bytes (bump b st) p = path_bytes st p"
  "rest_bytes (bump b st) p = rest_bytes st p" "names_from (bump b st) p = names_from st p"
  "path_wf (bump b st) p = path_wf st p"
proof -
  show base: "base_bytes (bump b st) p = base_bytes st p"
    by (auto simp: bump_def base_bytes_def split: option.splits)
  then show "path_bytes (bump b st) p = path_bytes st p" "rest_bytes (bump b st) p = rest_bytes st p"
    by (simp_all add: path_bytes_def rest_bytes_def)
  then show "names_from (bump b st) p = names_from st p" by (simp add: names_from_def)
  show "path_wf (bump b st) p = path_wf st p"
    by (auto simp: bump_def path_wf_def split: option.splits)
qed

lemma copy_init_bump: "path_wf st p \<Longrightarrow> vfs_path_copy_init p st = Some (p, bump (base_str p) st)"
  by (auto elim!: path_wfE simp: vfs_path_copy_init_def refcount_inc_def bump_def)

lemma reset_bump:
  assumes "st b = Some s" "ps_refcnt s \<noteq> 0" "base_str p = b" "b \<noteq> 0"
  shows "vfs_path_reset p (bump b st) = Some (null_path, st)"
  using assms
  by (auto simp: vfs_path_reset_def vfs_path_string_destroy_def bump_def refcount_dec_def signed_eq_0_iff)

lemma first_component_spec:
  assumes "path_wf st p"
  obtains c where "vfs_path_first_component p st = Some (c, bump (base_str p) st)" "path_wf st c"
    "base_str c = base_str p" "rest_bytes st p = [] \<Longrightarrow> names_from st c = comps (path_bytes st p)"
    "path_bytes st c = takeWhile not_slash (dropWhile is_slash (path_bytes st p))"
    "rest_bytes st c = dropWhile not_slash (dropWhile is_slash (path_bytes st p)) @ rest_bytes st p"
proof -
  have "path_wf (bump (base_str p) st) p" using assms by simp
  then obtain c where c: "build_component_path (bump (base_str p) st) p = Some c" "path_wf st c"
    "base_str c = base_str p" "rest_bytes st p = [] \<Longrightarrow> names_from st c = comps (path_bytes st p)"
    "path_bytes st c = takeWhile not_slash (dropWhile is_slash (path_bytes st p))"
    "rest_bytes st c = dropWhile not_slash (dropWhile is_slash (path_bytes st p)) @ rest_bytes st p"
    by (rule build_component_names) (unfold bump_bytes, blast)
  then show ?thesis
    using that [of c] copy_init_bump [OF assms]
    by (simp add: vfs_path_first_component_def vfs_path_component_init_def)
qed

text \<open>What the comparison of components returns is what \<open>path_same\<close> returns, with the store as it was.\<close>

lemma path_same_via:
  assumes "path_wf st p1" "path_wf st p2" "live st"
  obtains c1 c2 where "path_wf st c1" "path_wf st c2" "base_str c1 = base_str p1" "base_str c2 = base_str p2"
    "rest_bytes st p1 = [] \<Longrightarrow> names_from st c1 = comps (path_bytes st p1)"
    "rest_bytes st p2 = [] \<Longrightarrow> names_from st c2 = comps (path_bytes st p2)"
    "path_bytes st c1 = takeWhile not_slash (dropWhile is_slash (path_bytes st p1))"
    "path_bytes st c2 = takeWhile not_slash (dropWhile is_slash (path_bytes st p2))"
    "\<And>fuel r. path_same_loop fuel (bump (base_str p2) (bump (base_str p1) st)) c1 c2 = Some r
       \<Longrightarrow> path_same fuel p1 p2 st = Some (r, st)"
proof -
  let ?b1 = "base_str p1" and ?b2 = "base_str p2"
  obtain s1 where s1: "st ?b1 = Some s1" "?b1 \<noteq> 0" using assms(1) by (rule path_wfE)
  obtain s2 where s2: "st ?b2 = Some s2" "?b2 \<noteq> 0" using assms(2) by (rule path_wfE)
  obtain c1 where c1: "vfs_path_first_component p1 st = Some (c1, bump ?b1 st)" "path_wf st c1" "base_str c1 = ?b1"
    "rest_bytes st p1 = [] \<Longrightarrow> names_from st c1 = comps (path_bytes st p1)"
    "path_bytes st c1 = takeWhile not_slash (dropWhile is_slash (path_bytes st p1))"
    by (rule first_component_spec [OF assms(1)]) blast
  have wf2: "path_wf (bump ?b1 st) p2" using assms(2) by simp
  obtain c2 where c2: "vfs_path_first_component p2 (bump ?b1 st) = Some (c2, bump ?b2 (bump ?b1 st))" "path_wf st c2"
    "base_str c2 = ?b2" "rest_bytes st p2 = [] \<Longrightarrow> names_from st c2 = comps (path_bytes st p2)"
    "path_bytes st c2 = takeWhile not_slash (dropWhile is_slash (path_bytes st p2))"
    by (rule first_component_spec [OF wf2]) (unfold bump_bytes, blast)
  have inc: "r + 1 \<noteq> 0" if "r \<noteq> - 1" for r :: refcount
    using that by (simp add: eq_neg_iff_add_eq_0)
  obtain s2' where s2': "bump ?b1 st ?b2 = Some s2'" "ps_refcnt s2' \<noteq> 0"
  proof (cases "?b1 = ?b2")
    case True
    then show ?thesis using that [of "s1\<lparr>ps_refcnt := ps_refcnt s1 + 1\<rparr>"] s1 assms(3) inc
      by (simp add: bump_def live_def)
  next
    case False
    then show ?thesis using that [of s2] s1 s2 assms(3) by (simp add: bump_def live_def)
  qed
  have "vfs_path_component_reset c2 (bump ?b2 (bump ?b1 st)) = Some (null_path, bump ?b1 st)"
    using reset_bump [of "bump ?b1 st" ?b2 s2' c2] s2' c2(3) s2(2) by (simp add: vfs_path_component_reset_def)
  moreover have "vfs_path_component_reset c1 (bump ?b1 st) = Some (null_path, st)"
    using reset_bump [of st ?b1 s1 c1] c1(3) s1 assms(3) by (simp add: vfs_path_component_reset_def live_def)
  ultimately have "path_same fuel p1 p2 st = Some (r, st)"
    if "path_same_loop fuel (bump ?b2 (bump ?b1 st)) c1 c2 = Some r" for fuel r
    using that c1(1) c2(1) by (simp add: path_same_def)
  then show thesis
    using that [OF c1(2) c2(2) c1(3) c2(3) c1(4) c2(4) c1(5) c2(5)] by blast
qed

lemma path_same_eq:
  assumes "path_wf st p1" "path_wf st p2" "no_nul st p1" "no_nul st p2" "live st"
    "rest_bytes st p1 = []" "rest_bytes st p2 = []" "length (comps (path_bytes st p1)) < fuel"
  shows "path_same fuel p1 p2 st = Some (comps (path_bytes st p1) = comps (path_bytes st p2), st)"
proof (rule path_same_via [OF assms(1,2,5)])
  fix c1 c2
  assume c: "path_wf st c1" "path_wf st c2" "base_str c1 = base_str p1" "base_str c2 = base_str p2"
    "rest_bytes st p1 = [] \<Longrightarrow> names_from st c1 = comps (path_bytes st p1)"
    "rest_bytes st p2 = [] \<Longrightarrow> names_from st c2 = comps (path_bytes st p2)"
  assume same: "\<And>fuel r. path_same_loop fuel (bump (base_str p2) (bump (base_str p1) st)) c1 c2 = Some r
       \<Longrightarrow> path_same fuel p1 p2 st = Some (r, st)"
  have "no_nul st c1" "no_nul st c2" using assms(3,4) c(3,4) by (simp_all add: base_bytes_def)
  then show ?thesis
    using path_same_loop_eq [of "bump (base_str p2) (bump (base_str p1) st)" c1 c2 fuel] c(1,2) c(5) [OF assms(6)]
      c(6) [OF assms(7)] assms(8) by (intro same) simp
qed

text \<open>Two names of one component each are the same exactly when their bytes are.\<close>

definition is_component :: "pstore \<Rightarrow> vpath \<Rightarrow> bool" where
  "is_component st p \<longleftrightarrow> path_wf st p \<and> path_bytes st p \<noteq> [] \<and> 47 \<notin> set (path_bytes st p) \<and> 0 \<notin> set (path_bytes st p)"

lemma component_same:
  assumes p: "is_component st p1" "is_component st p2" and "live st" "0 < fuel"
  shows "vfs_path_same fuel p1 p2 st = Some (path_bytes st p1 = path_bytes st p2, st)"
proof -
  have wf: "path_wf st p1" "path_wf st p2" and nul: "0 \<notin> set (path_bytes st p1)" "0 \<notin> set (path_bytes st p2)"
    using p by (simp_all add: is_component_def)
  note eq = path_string_equals_eq [OF wf nul]
  have "path_same fuel p1 p2 st = Some (False, st)" if ne: "path_bytes st p1 \<noteq> path_bytes st p2"
  proof (rule path_same_via [OF wf \<open>live st\<close>])
    fix c1 c2
    assume c: "path_wf st c1" "path_wf st c2"
      "path_bytes st c1 = takeWhile not_slash (dropWhile is_slash (path_bytes st p1))"
      "path_bytes st c2 = takeWhile not_slash (dropWhile is_slash (path_bytes st p2))"
    assume same: "\<And>fuel r. path_same_loop fuel (bump (base_str p2) (bump (base_str p1) st)) c1 c2 = Some r
         \<Longrightarrow> path_same fuel p1 p2 st = Some (r, st)"
    have whole: "takeWhile not_slash (dropWhile is_slash b) = b" if "47 \<notin> set b" for b
      using that by (cases b) (auto simp: takeWhile_eq_all_conv)
    have b: "path_bytes st c1 = path_bytes st p1" "path_bytes st c2 = path_bytes st p2"
      using c(3,4) p whole by (simp_all add: is_component_def)
    let ?st = "bump (base_str p2) (bump (base_str p1) st)"
    have "path_string_equals ?st c1 c2 = Some False"
      using path_string_equals_eq [of ?st c1 c2] c(1,2) b ne nul by simp
    moreover have "\<not> vfs_path_empty c1" "\<not> vfs_path_empty c2"
      using path_empty_iff [OF c(1)] path_empty_iff [OF c(2)] b p by (simp_all add: is_component_def)
    ultimately show ?thesis
      using \<open>0 < fuel\<close> by (intro same) (cases fuel, simp_all add: vfs_path_component_empty_def vfs_path_component_equals_def)
  qed
  then show ?thesis
    using eq by (simp add: vfs_path_same_def)
qed

lemma path_same_spec:
  assumes "path_wf st p1" and "path_wf st p2" and "no_nul st p1" and "no_nul st p2" and "live st"
    and "rest_bytes st p1 = []" and "rest_bytes st p2 = []" and "length (comps (path_bytes st p1)) < fuel"
  shows "vfs_path_same fuel p1 p2 st = Some (comps (path_bytes st p1) = comps (path_bytes st p2), st)"
  using path_string_equals_eq [OF assms(1,2) no_nul_path_bytes [OF assms(3)] no_nul_path_bytes [OF assms(4)]]
    path_same_eq [OF assms]
  by (cases "path_bytes st p1 = path_bytes st p2") (simp_all add: vfs_path_same_def)


text \<open>The strings \<^verbatim>\<open>//a/b\<close> and \<^verbatim>\<open>/a//b/\<close>.\<close>

definition sample_store :: pstore where
  "sample_store = [1 \<mapsto> \<lparr>ps_str = [47, 47, 97, 47, 98], ps_size = 5, ps_refcnt = 1\<rparr>,
                   2 \<mapsto> \<lparr>ps_str = [47, 97, 47, 47, 98, 47], ps_size = 6, ps_refcnt = 1\<rparr>]"



section \<open>Base name and directory name\<close>

lemma comps_dropWhile: "comps (dropWhile is_slash s) = comps s"
  by (simp add: comps.simps [of s] comps.simps [of "dropWhile is_slash s"])

lemma comps_Cons_slash [simp]: "comps (47 # s) = comps s"
  by (subst (1 2) comps_dropWhile [symmetric]) simp

lemma comps_Nil [simp]: "comps [] = []"
  by (simp add: comps.simps)

lemma comps_append_slash: "comps (a @ 47 # b) = comps a @ comps b"
proof (induction a rule: comps.induct)
  case (1 a)
  define t where "t = dropWhile is_slash a"
  show ?case
  proof (cases "t = []")
    case True
    then have "dropWhile is_slash (a @ 47 # b) = dropWhile is_slash b" by (auto simp: t_def dropWhile_append)
    moreover have "comps a = []" using True by (simp add: comps.simps [of a] t_def)
    ultimately show ?thesis by (metis append_Nil comps_dropWhile)
  next
    case False
    have "dropWhile is_slash (a @ 47 # b) = t @ 47 # b" using False by (auto simp: t_def dropWhile_append)
    moreover have "takeWhile not_slash (t @ 47 # b) = takeWhile not_slash t"
      "dropWhile not_slash (t @ 47 # b) = dropWhile not_slash t @ 47 # b"
      by (induction t) auto
    ultimately show ?thesis
      using False 1 [OF t_def False] by (simp add: comps.simps [of "a @ 47 # b"] comps.simps [of a] Let_def flip: t_def)
  qed
qed

lemma comps_slash_free: "\<lbrakk> 47 \<notin> set w; w \<noteq> [] \<rbrakk> \<Longrightarrow> comps w = [w]"
proof -
  assume w: "47 \<notin> set w" "w \<noteq> []"
  then have "dropWhile is_slash w = w" "takeWhile not_slash w = w" "dropWhile not_slash w = []"
    by (cases w; auto simp: takeWhile_eq_all_conv)+
  then show ?thesis using w(2) by (simp add: comps.simps [of w] del: dropWhile_eq_Nil_conv)
qed

text \<open>A path without its trailing slashes, except that a first slash stays.\<close>

definition strip_trailing :: "byte list \<Rightarrow> byte list" where
  "strip_trailing b = (case b of [] \<Rightarrow> [] | c # cs \<Rightarrow> c # rev (dropWhile is_slash (rev cs)))"

definition dir_part :: "byte list \<Rightarrow> byte list" where
  "dir_part t = rev (dropWhile not_slash (rev t))"

definition base_part :: "byte list \<Rightarrow> byte list" where
  "base_part t = rev (takeWhile not_slash (rev t))"

lemma dir_base_part: "dir_part t @ base_part t = t"
  by (simp add: dir_part_def base_part_def flip: rev_append)

lemma strip_trailing_split: "\<exists>k. b = strip_trailing b @ replicate k 47"
proof (cases b)
  case (Cons c cs)
  have "cs = rev (dropWhile is_slash (rev cs)) @ rev (takeWhile is_slash (rev cs))"
    by (simp flip: rev_append)
  moreover have "rev (takeWhile is_slash (rev cs)) = replicate (length (takeWhile is_slash (rev cs))) 47"
    by (metis (mono_tags, lifting) replicate_length_same rev_replicate set_takeWhileD)
  ultimately show ?thesis using Cons by (auto simp: strip_trailing_def)
qed (simp add: strip_trailing_def)

lemma comps_append_slashes: "comps (a @ replicate k 47) = comps a"
proof (induction k arbitrary: a)
  case (Suc k)
  have "comps (a @ replicate (Suc k) 47) = comps ((a @ [47]) @ replicate k 47)" by simp
  also have "\<dots> = comps (a @ [47])" by (rule Suc.IH)
  finally show ?case using comps_append_slash [of a "[]"] by simp
qed simp

lemma comps_strip_trailing: "comps (strip_trailing b) = comps b"
  using strip_trailing_split [of b] by (metis comps_append_slashes)

lemma base_part_last:
  assumes "comps b \<noteq> []"
  defines "t \<equiv> strip_trailing b"
  shows "base_part t = last (comps b)" and "comps (dir_part t) = butlast (comps b)"
proof -
  have free: "47 \<notin> set (base_part t)" by (auto simp: base_part_def dest: set_takeWhileD)
  have "base_part t \<noteq> []"
  proof
    assume "base_part t = []"
    then have last: "t = [] \<or> last t = 47"
      by (auto simp: base_part_def takeWhile_eq_Nil_iff hd_rev)
    show False
    proof (cases b)
      case Nil
      then show False using assms(1) by simp
    next
      case (Cons c cs)
      let ?u = "dropWhile is_slash (rev cs)"
      have "?u = []"
      proof (rule ccontr)
        assume u: "?u \<noteq> []"
        then have "last t = hd ?u" using Cons by (simp add: t_def strip_trailing_def last_rev del: dropWhile_eq_Nil_conv)
        then show False using hd_dropWhile [OF u] last Cons by (simp add: t_def strip_trailing_def)
      qed
      then have "t = [47]" using last Cons by (simp add: t_def strip_trailing_def)
      then show False using assms(1) comps_strip_trailing [of b] by (simp add: t_def)
    qed
  qed
  then have base: "comps (base_part t) = [base_part t]" using comps_slash_free [OF free] by blast
  have "comps b = comps (dir_part t) @ [base_part t]"
  proof (cases "dir_part t" rule: rev_cases)
    case Nil
    then show ?thesis using dir_base_part [of t] base comps_strip_trailing [of b] by (simp add: t_def)
  next
    case (snoc d c)
    have "dropWhile not_slash (rev t) = c # rev d"
      using arg_cong [OF snoc, of rev] by (simp add: dir_part_def)
    then have "c = 47" using hd_dropWhile [of not_slash "rev t"] by simp
    then have "comps t = comps d @ [base_part t]"
      using dir_base_part [of t] snoc base comps_append_slash [of d "base_part t"] by simp
    moreover have "comps (dir_part t) = comps d"
      using snoc \<open>c = 47\<close> comps_append_slash [of d "[]"] by simp
    ultimately show ?thesis using comps_strip_trailing [of b] by (simp add: t_def)
  qed
  then show "base_part t = last (comps b)" and "comps (dir_part t) = butlast (comps b)" by simp_all
qed


lemma strip_trailing_snoc:
  "x \<noteq> [] \<Longrightarrow> strip_trailing (x @ [47]) = strip_trailing x" "c \<noteq> 47 \<Longrightarrow> strip_trailing (x @ [c]) = x @ [c]"
  by (cases x; simp add: strip_trailing_def)+

lemma ignore_trailing_eq: "n \<le> length str \<Longrightarrow> ignore_trailing str n = Some (length (strip_trailing (take n str)))"
proof (induction n)
  case (Suc n)
  then have tk: "take (Suc n) str = take n str @ [str ! n]" by (simp add: take_Suc_conv_app_nth)
  show ?case
  proof (cases "n = 0 \<or> str ! n \<noteq> 47")
    case True
    then show ?thesis using Suc.prems tk strip_trailing_snoc(2) [of "str ! n" "take n str"]
      by (cases str) (auto simp: strip_trailing_def)
  next
    case False
    then show ?thesis using Suc tk strip_trailing_snoc(1) [of "take n str"] by (cases str) auto
  qed
qed (simp add: strip_trailing_def)

lemma basename_pos_eq: "n \<le> length str \<Longrightarrow> basename_pos str n = Some (length (dir_part (take n str)))"
proof (induction n)
  case (Suc n)
  then have "take (Suc n) str = take n str @ [str ! n]" by (simp add: take_Suc_conv_app_nth)
  then show ?case using Suc by (simp add: dir_part_def)
qed (simp add: dir_part_def)

lemma strip_trailing_prefix: "strip_trailing b = take (length (strip_trailing b)) b"
  using strip_trailing_split [of b] by (metis append_eq_conv_conj)

lemma length_strip_trailing: "length (strip_trailing b) \<le> length b"
  using arg_cong [OF strip_trailing_prefix, of length b] by simp

lemma strip_trailing_Nil [simp]: "strip_trailing b = [] \<longleftrightarrow> b = []"
  by (cases b) (simp_all add: strip_trailing_def)

lemma dir_part_prefix: "dir_part t = take (length (dir_part t)) t" "base_part t = drop (length (dir_part t)) t"
  using dir_base_part [of t] by (metis append_eq_conv_conj)+

lemma length_dir_part: "length (dir_part t) \<le> length t"
  using arg_cong [OF dir_part_prefix(1), of length t] by simp

lemma subwindow:
  assumes "path_wf st p" "k + n \<le> unat (p_size p)"
  shows "path_wf st (p\<lparr>p_offset := p_offset p + of_nat k, p_size := of_nat n\<rparr>)"
    and "path_bytes st (p\<lparr>p_offset := p_offset p + of_nat k, p_size := of_nat n\<rparr>) = take n (drop k (path_bytes st p))"
proof -
  let ?c = "p\<lparr>p_offset := p_offset p + of_nat k, p_size := of_nat n\<rparr>"
  obtain s where s: "st (base_str p) = Some s" "base_str p \<noteq> 0" "length (ps_str s) = unat (ps_size s)"
    "unat (p_offset p) + unat (p_size p) \<le> length (ps_str s)" "base_bytes st p = ps_str s"
    "length (base_bytes st p) < 65536"
    using assms(1) by (rule path_wfE)
  have off: "unat (p_offset p + of_nat k) = unat (p_offset p) + k"
    using s(4-6) assms(2) by (intro unat_16_add) simp
  have sz: "unat (of_nat n :: path_size) = n" using s(4-6) assms(2) by (intro unat_16_of_nat) simp
  show "path_wf st ?c" using s off sz assms(2) by (simp add: path_wf_def)
  show "path_bytes st ?c = take n (drop k (path_bytes st p))"
    using off sz assms(2) by (simp add: path_bytes_def base_bytes_def drop_take min_def add.commute)
qed

lemma shrink_window:
  assumes "path_wf st p" "n \<le> unat (p_size p)"
  shows "path_wf st (p\<lparr>p_size := of_nat n\<rparr>)" and "path_bytes st (p\<lparr>p_size := of_nat n\<rparr>) = take n (path_bytes st p)"
  using subwindow [OF assms(1), of 0 n] assms(2) by simp_all

lemma ignore_trailing_slashes_spec:
  assumes "path_wf st p"
  obtains q where "vfs_path_ignore_trailing_slashes st p = Some q" "path_wf st q" "base_str q = base_str p"
    "p_offset q = p_offset p" "path_bytes st q = strip_trailing (path_bytes st p)"
proof -
  let ?n = "length (strip_trailing (path_bytes st p))"
  have le: "?n \<le> unat (p_size p)" using length_strip_trailing [of "path_bytes st p"] length_path_bytes [OF assms] by simp
  have "vfs_path_ignore_trailing_slashes st p = Some (p\<lparr>p_size := of_nat ?n\<rparr>)"
    using get_str_wf [OF assms] length_path_bytes [OF assms]
    by (simp add: vfs_path_ignore_trailing_slashes_def ignore_trailing_eq)
  then show ?thesis using that shrink_window [OF assms le] strip_trailing_prefix by simp
qed

lemma basename_start_spec:
  "path_wf st p \<Longrightarrow> basename_start st p = Some (length (dir_part (path_bytes st p)))"
  using get_str_wf [of st p] length_path_bytes [of st p] by (simp add: basename_start_def basename_pos_eq)

lemma basename_spec:
  assumes "path_wf st p"
  obtains b where "vfs_path_basename p st = Some (b, bump (base_str p) st)" "path_wf st b" "base_str b = base_str p"
    "path_bytes st b = base_part (strip_trailing (path_bytes st p))"
proof -
  let ?st = "bump (base_str p) st" and ?t = "strip_trailing (path_bytes st p)"
  have wf: "path_wf ?st p" using assms by simp
  obtain q where q: "vfs_path_ignore_trailing_slashes ?st p = Some q" "path_wf st q" "base_str q = base_str p"
    "path_bytes st q = ?t"
    by (rule ignore_trailing_slashes_spec [OF wf]) (unfold bump_bytes, blast)
  let ?k = "length (dir_part ?t)"
  have "basename_start ?st q = Some ?k" using basename_start_spec [of ?st q] q(2,4) by simp
  moreover have le: "?k + (unat (p_size q) - ?k) \<le> unat (p_size q)" "unat (p_size q) = length ?t"
    using length_path_bytes [OF q(2)] length_dir_part [of ?t] q(4) by simp_all
  ultimately show ?thesis
    using that [of "q\<lparr>p_offset := p_offset q + of_nat ?k, p_size := of_nat (unat (p_size q) - ?k)\<rparr>"]
      copy_init_bump [OF assms] q subwindow [OF q(2) le(1)] dir_part_prefix(2) [of ?t]
    by (simp add: vfs_path_basename_def)
qed

lemma dirname_spec:
  assumes "path_wf st p" "dir_part (strip_trailing (path_bytes st p)) \<noteq> []"
  obtains d where "vfs_path_dirname new m1 m2 p st = Some (Inr d, bump (base_str p) st)" "path_wf st d"
    "base_str d = base_str p" "path_bytes st d = strip_trailing (dir_part (strip_trailing (path_bytes st p)))"
proof -
  let ?st = "bump (base_str p) st" and ?t = "strip_trailing (path_bytes st p)"
  have wf: "path_wf ?st p" using assms(1) by simp
  obtain q where q: "vfs_path_ignore_trailing_slashes ?st p = Some q" "path_wf st q" "base_str q = base_str p"
    "path_bytes st q = ?t"
    by (rule ignore_trailing_slashes_spec [OF wf]) (unfold bump_bytes, blast)
  let ?k = "length (dir_part ?t)" and ?d = "q\<lparr>p_size := of_nat (length (dir_part ?t))\<rparr>"
  have k: "basename_start ?st q = Some ?k" using basename_start_spec [of ?st q] q(2,4) by simp
  have le: "?k \<le> unat (p_size q)" using length_path_bytes [OF q(2)] length_dir_part [of ?t] q(4) by simp
  have d: "path_wf st ?d" "path_bytes st ?d = dir_part ?t"
    using shrink_window [OF q(2) le] q(4) dir_part_prefix(1) [of ?t] by simp_all
  have wf_d: "path_wf ?st ?d" using d(1) by simp
  obtain e where e: "vfs_path_ignore_trailing_slashes ?st ?d = Some e" "path_wf st e" "base_str e = base_str ?d"
    "path_bytes st e = strip_trailing (dir_part ?t)"
    by (rule ignore_trailing_slashes_spec [OF wf_d]) (unfold bump_bytes d(2), blast)
  have ne: "p_size ?d \<noteq> 0" "p_size e \<noteq> 0"
    using length_path_bytes [OF d(1)] length_path_bytes [OF e(2)] d(2) e(4) assms(2) by (auto simp: unat_eq_0)
  show ?thesis
    using that [of e] copy_init_bump [OF assms(1)] q(1,3) k e ne by (simp add: vfs_path_dirname_def Let_def)
qed


lemma dirname_dot:
  assumes "path_wf st p" "live st" "dir_part (strip_trailing (path_bytes st p)) = []"
  shows "vfs_path_dirname new True True p st
    = Some (Inr \<lparr>base_str = new, p_offset = 0, p_size = 1\<rparr>,
            st(new \<mapsto> \<lparr>ps_str = [46], ps_size = 1, ps_refcnt = refcount_init\<rparr>))"
proof -
  let ?st = "bump (base_str p) st" and ?t = "strip_trailing (path_bytes st p)"
  have wf: "path_wf ?st p" using assms(1) by simp
  obtain q where q: "vfs_path_ignore_trailing_slashes ?st p = Some q" "path_wf st q" "base_str q = base_str p"
    "path_bytes st q = ?t"
    by (rule ignore_trailing_slashes_spec [OF wf]) (unfold bump_bytes, blast)
  have k: "basename_start ?st q = Some 0" using basename_start_spec [of ?st q] q(2,4) assms(3) by simp
  obtain s where s: "st (base_str p) = Some s" "base_str p \<noteq> 0" using assms(1) by (rule path_wfE)
  have "vfs_path_reset (q\<lparr>p_size := 0\<rparr>) ?st = Some (null_path, st)"
    using reset_bump [of st "base_str p" s "q\<lparr>p_size := 0\<rparr>"] s q(3) assms(2) by (simp add: live_def)
  moreover have "vfs_path_init new True True [46, 0] 1 st
      = Some (Inr \<lparr>base_str = new, p_offset = 0, p_size = 1\<rparr>,
          st(new \<mapsto> \<lparr>ps_str = [46], ps_size = 1, ps_refcnt = refcount_init\<rparr>))"
    by (simp add: vfs_path_init_def vfs_path_string_create_def copy_path_str_def)
  ultimately show ?thesis
    using copy_init_bump [OF assms(1)] q(1) k by (simp add: vfs_path_dirname_def Let_def)
qed

lemma dir_part_Nil_iff: "dir_part t = [] \<longleftrightarrow> 47 \<notin> set t"
  by (auto simp: dir_part_def)

text \<open>
  The base name of a path that has components is its last component; its directory name has the
  components before it, and is the path \<^verbatim>\<open>.\<close> when the last component is the whole path up to trailing
  slashes.
\<close>

theorem dirname_basename_split:
  assumes "path_wf st p" and "live st" and "comps (path_bytes st p) \<noteq> []"
  shows "\<exists>b st1 d st2. vfs_path_basename p st = Some (b, st1) \<and> path_bytes st1 b = last (comps (path_bytes st p))
    \<and> vfs_path_dirname new True True p st = Some (Inr d, st2)
    \<and> (if 47 \<in> set (strip_trailing (path_bytes st p))
       then comps (path_bytes st2 d) = butlast (comps (path_bytes st p))
       else path_bytes st2 d = [46] \<and> butlast (comps (path_bytes st p)) = [])"
proof -
  let ?t = "strip_trailing (path_bytes st p)"
  obtain b where b: "vfs_path_basename p st = Some (b, bump (base_str p) st)" "path_bytes st b = base_part ?t"
    using basename_spec [OF assms(1)] by blast
  note parts = base_part_last [OF assms(3)]
  show ?thesis
  proof (cases "47 \<in> set ?t")
    case True
    then obtain d where d: "vfs_path_dirname new True True p st = Some (Inr d, bump (base_str p) st)"
      "path_bytes st d = strip_trailing (dir_part ?t)"
      using dirname_spec [OF assms(1)] dir_part_Nil_iff by blast
    then show ?thesis using b True parts by (simp add: comps_strip_trailing)
  next
    case False
    then have "dir_part ?t = []" by (simp add: dir_part_Nil_iff)
    moreover have "path_bytes (st(new \<mapsto> \<lparr>ps_str = [46], ps_size = 1, ps_refcnt = refcount_init\<rparr>))
        \<lparr>base_str = new, p_offset = 0, p_size = 1\<rparr> = [46]"
      by (simp add: path_bytes_def base_bytes_def)
    ultimately show ?thesis using dirname_dot [OF assms(1,2)] b False parts by simp
  qed
qed

theorem dirname_basename_split_witness:
  "\<exists>b st1 d st2. vfs_path_basename \<lparr>base_str = 2, p_offset = 0, p_size = 6\<rparr> sample_store = Some (b, st1)
     \<and> path_bytes st1 b = [98]
     \<and> vfs_path_dirname 7 True True \<lparr>base_str = 2, p_offset = 0, p_size = 6\<rparr> sample_store = Some (Inr d, st2)
     \<and> comps (path_bytes st2 d) = [[97]]"
proof -
  let ?p = "\<lparr>base_str = 2, p_offset = 0, p_size = 6\<rparr>"
  have bytes: "path_bytes sample_store ?p = [47, 97, 47, 47, 98, 47]"
    by (simp add: path_bytes_def base_bytes_def sample_store_def)
  have c: "comps [47, 97, 47, 47, 98, 47] = [[97], [98]]" by (simp add: comps.simps Let_def)
  have "path_wf sample_store ?p" "live sample_store" "47 \<in> set (strip_trailing [47, 97, 47, 47, 98, 47])"
    by (simp_all add: sample_store_def path_wf_def live_def strip_trailing_def)
  then show ?thesis using dirname_basename_split [of sample_store ?p 7] bytes c by simp
qed



end
