(* ===== verification/Kernel_Time.thy ===== *)
theory Kernel_Time
  imports Prelude "HOL-Library.Signed_Division"
begin

text \<open>
  The time arithmetic of \<^verbatim>\<open>include/kernel/time/time.h\<close> and \<^verbatim>\<open>kernel/time/time.c\<close>: \<^verbatim>\<open>struct timespec\<close>
  with a 64-bit count of seconds and a 32-bit count of nanoseconds.  Signed values are integers; a
  result that is stored in a field of \<open>w\<close> bits is reduced to that width with \<open>signed_take_bit\<close>, and the
  divisions truncate towards zero as in C.  The lemmas say on which values no reduction happens: the
  arithmetic is then that of the number of nanoseconds a value stands for.
\<close>

section \<open>The model\<close>

record timespec =
  tv_sec :: int
  tv_nsec :: int

definition TIME_SEC_IN_MS :: int where "TIME_SEC_IN_MS = 1000"
definition TIME_SEC_IN_NS :: int where "TIME_SEC_IN_NS = 1000000000"
definition TIME_MS_IN_NS :: int where "TIME_MS_IN_NS = 1000000"

abbreviation (input) as_long :: "int \<Rightarrow> int" where "as_long \<equiv> signed_take_bit 31"
abbreviation (input) as_int64 :: "int \<Rightarrow> int" where "as_int64 \<equiv> signed_take_bit 63"

text \<open>The product in \<^verbatim>\<open>timespec_init\<close> is one of unsigned 32-bit values.\<close>

definition timespec_init :: "32 word \<Rightarrow> timespec" where
  "timespec_init millis =
     (let nsec = sint (millis * word_of_int TIME_MS_IN_NS)
      in \<lparr>tv_sec = nsec sdiv TIME_SEC_IN_NS, tv_nsec = nsec smod TIME_SEC_IN_NS\<rparr>)"

definition timespec_add :: "timespec \<Rightarrow> timespec \<Rightarrow> timespec" where
  "timespec_add a b =
     (let sum = as_long (tv_nsec a + tv_nsec b)
      in \<lparr>tv_sec = as_int64 (tv_sec a + (tv_sec b + sum sdiv TIME_SEC_IN_NS)), tv_nsec = sum smod TIME_SEC_IN_NS\<rparr>)"

definition timespec_add_millis :: "timespec \<Rightarrow> 32 word \<Rightarrow> timespec" where
  "timespec_add_millis time millis = timespec_add time (timespec_init millis)"

definition timespec_diff :: "timespec \<Rightarrow> timespec \<Rightarrow> timespec" where
  "timespec_diff a b =
     (let diff = as_long (tv_nsec a - tv_nsec b);
          sec = as_int64 (tv_sec a - tv_sec b)
      in if diff < 0 then \<lparr>tv_sec = as_int64 (sec - 1), tv_nsec = as_long (TIME_SEC_IN_NS + diff)\<rparr>
         else \<lparr>tv_sec = sec, tv_nsec = diff\<rparr>)"

definition timespec_diff_ms :: "timespec \<Rightarrow> timespec \<Rightarrow> int" where
  "timespec_diff_ms t1 t2 =
     (let sec_in_ms = as_int64 ((tv_sec t1 - tv_sec t2) * TIME_SEC_IN_MS);
          ns_in_ms = (tv_nsec t1 - tv_nsec t2) sdiv TIME_MS_IN_NS
      in as_int64 (sec_in_ms + ns_in_ms))"

definition time_cmp :: "timespec \<Rightarrow> timespec \<Rightarrow> int" where
  "time_cmp t1 t2 =
     (let sec_cmp = as_int64 (tv_sec t1 - tv_sec t2)
      in if sec_cmp = 0 then as_long (tv_nsec t1 - tv_nsec t2) else sec_cmp)"

section \<open>Correctness\<close>

text \<open>
  A value is normal when its nanoseconds are a fraction of a second.  The seconds are kept below
  \<open>2 ^ 61\<close> in absolute value, so that sums and differences of two values stay in 64 bits; \<open>ns_of\<close> is the
  number of nanoseconds a value stands for.
\<close>

definition normal :: "timespec \<Rightarrow> bool" where
  "normal t \<longleftrightarrow> 0 \<le> tv_nsec t \<and> tv_nsec t < TIME_SEC_IN_NS"

definition in_range :: "timespec \<Rightarrow> bool" where
  "in_range t \<longleftrightarrow> - (2 ^ 61) < tv_sec t \<and> tv_sec t < 2 ^ 61"

definition ns_of :: "timespec \<Rightarrow> int" where
  "ns_of t = tv_sec t * TIME_SEC_IN_NS + tv_nsec t"

lemmas time_units = TIME_SEC_IN_MS_def TIME_SEC_IN_NS_def TIME_MS_IN_NS_def

lemma signed_take_bit_id:
  assumes "- (2 ^ n) \<le> x" and "x < 2 ^ n"
  shows "signed_take_bit n x = (x :: int)"
  using assms by (simp add: signed_take_bit_int_eq_self)

lemma as_long_id: "- (2 ^ 31) \<le> x \<Longrightarrow> x < 2 ^ 31 \<Longrightarrow> as_long x = x"
  by (rule signed_take_bit_id)

lemma as_int64_id: "- (2 ^ 63) \<le> x \<Longrightarrow> x < 2 ^ 63 \<Longrightarrow> as_int64 x = x"
  by (rule signed_take_bit_id)

lemma sdiv_nonneg: "0 \<le> (x :: int) \<Longrightarrow> 0 < y \<Longrightarrow> x sdiv y = x div y"
  by (cases "x = 0") (auto simp: signed_divide_int_def)

lemma smod_nonneg: "0 \<le> (x :: int) \<Longrightarrow> 0 < y \<Longrightarrow> x smod y = x mod y"
  by (cases "x = 0") (auto simp: signed_modulo_int_def minus_div_mult_eq_mod)

lemma sint_mult_small:
  assumes "uint a * uint b < 2 ^ 31"
  shows "sint (a * b :: 32 word) = uint a * uint b"
proof -
  have u: "uint (a * b) = uint a * uint b"
    using assms by (simp add: uint_word_arith_bintrs(3) take_bit_int_eq_self)
  show ?thesis unfolding sint_uint u
    using assms by (intro signed_take_bit_int_eq_self) (simp_all add: order_trans [of _ 0])
qed

lemma timespec_add_spec:
  assumes "normal a" and "normal b" and "in_range a" and "in_range b"
  shows "normal (timespec_add a b)" and "ns_of (timespec_add a b) = ns_of a + ns_of b"
    and "tv_sec (timespec_add a b) = tv_sec a + tv_sec b + (tv_nsec a + tv_nsec b) div TIME_SEC_IN_NS"
proof -
  let ?s = "tv_nsec a + tv_nsec b"
  have b: "0 \<le> ?s" "?s < 2000000000" using assms(1,2) by (auto simp: normal_def time_units)
  then have s: "as_long ?s = ?s" by (intro as_long_id) simp_all
  have q: "0 \<le> ?s div 1000000000" "?s div 1000000000 \<le> 1" using b by linarith+
  then have sec: "as_int64 (tv_sec a + (tv_sec b + ?s div 1000000000)) = tv_sec a + (tv_sec b + ?s div 1000000000)"
    using assms(3,4) by (intro as_int64_id) (auto simp: in_range_def)
  have eq: "timespec_add a b = \<lparr>tv_sec = tv_sec a + (tv_sec b + ?s div 1000000000), tv_nsec = ?s mod 1000000000\<rparr>"
    using b s sec by (simp add: timespec_add_def time_units sdiv_nonneg smod_nonneg Let_def)
  show "normal (timespec_add a b)" by (simp add: eq normal_def time_units)
  show "ns_of (timespec_add a b) = ns_of a + ns_of b"
    using mult_div_mod_eq [of 1000000000 ?s] by (simp add: eq ns_of_def time_units algebra_simps)
  show "tv_sec (timespec_add a b) = tv_sec a + tv_sec b + ?s div TIME_SEC_IN_NS"
    by (simp add: eq time_units)
qed

lemma timespec_diff_spec:
  assumes "normal a" and "normal b" and "in_range a" and "in_range b"
  shows "normal (timespec_diff a b)" and "ns_of (timespec_diff a b) = ns_of a - ns_of b"
proof -
  let ?d = "tv_nsec a - tv_nsec b"
  have b: "-1000000000 < ?d" "?d < 1000000000" using assms(1,2) by (auto simp: normal_def time_units)
  then have d: "as_long ?d = ?d" "as_long (1000000000 + ?d) = 1000000000 + ?d \<or> 0 \<le> ?d"
    by (auto intro!: as_long_id simp: not_le)
  have sec: "as_int64 (tv_sec a - tv_sec b) = tv_sec a - tv_sec b"
    "as_int64 (tv_sec a - tv_sec b - 1) = tv_sec a - tv_sec b - 1"
    using assms(3,4) by (intro as_int64_id; simp add: in_range_def)+
  have eq: "timespec_diff a b = (if ?d < 0 then \<lparr>tv_sec = tv_sec a - tv_sec b - 1, tv_nsec = 1000000000 + ?d\<rparr>
      else \<lparr>tv_sec = tv_sec a - tv_sec b, tv_nsec = ?d\<rparr>)"
    using d sec by (auto simp: timespec_diff_def time_units Let_def)
  show "normal (timespec_diff a b)" using b by (auto simp: eq normal_def time_units)
  show "ns_of (timespec_diff a b) = ns_of a - ns_of b" by (auto simp: eq ns_of_def time_units algebra_simps)
qed

lemma time_cmp_spec:
  assumes "normal a" and "normal b" and "in_range a" and "in_range b"
  shows "0 \<le> time_cmp a b \<longleftrightarrow> ns_of b \<le> ns_of a"
proof -
  have sec: "as_int64 (tv_sec a - tv_sec b) = tv_sec a - tv_sec b"
    using assms(3,4) by (intro as_int64_id) (auto simp: in_range_def)
  have d: "as_long (tv_nsec a - tv_nsec b) = tv_nsec a - tv_nsec b"
    using assms(1,2) by (intro as_long_id) (auto simp: normal_def time_units)
  show ?thesis using assms(1,2)
    by (auto simp: time_cmp_def sec d ns_of_def normal_def time_units)
qed

text \<open>The millisecond counts for which \<open>timespec_init\<close> is exact: the product fits in 31 bits.\<close>

lemma timespec_init_spec:
  assumes "unat millis \<le> 2147"
  shows "normal (timespec_init millis)" and "in_range (timespec_init millis)"
    and "ns_of (timespec_init millis) = int (unat millis) * TIME_MS_IN_NS"
proof -
  have u: "uint millis \<le> 2147" using assms uint_nat [of millis] by linarith
  then have s: "sint (millis * 1000000) = uint millis * 1000000"
    using sint_mult_small [of millis 1000000] by simp
  have n: "0 \<le> uint millis * 1000000" by simp
  have eq: "timespec_init millis
      = \<lparr>tv_sec = (uint millis * 1000000) div 1000000000, tv_nsec = (uint millis * 1000000) mod 1000000000\<rparr>"
    by (simp add: timespec_init_def time_units s sdiv_nonneg smod_nonneg)
  show "normal (timespec_init millis)" by (simp add: eq normal_def time_units)
  have "0 \<le> uint millis * 1000000 div 1000000000" "uint millis * 1000000 div 1000000000 \<le> 2147"
    using u uint_nonnegative [of millis] by linarith+
  then show "in_range (timespec_init millis)" by (simp add: eq in_range_def)
  show "ns_of (timespec_init millis) = int (unat millis) * TIME_MS_IN_NS"
    unfolding eq ns_of_def time_units uint_nat [symmetric] timespec.simps by (rule div_mult_mod_eq)
qed

text \<open>
  C33: the clock arithmetic is exact on normal values whose seconds are far from the ends of 64 bits:
  addition and subtraction give the sum and the difference of the nanoseconds, again in normal form, and
  the sign of \<open>time_cmp\<close> is the order of the nanoseconds.
\<close>

theorem timespec_arithmetic_exact:
  assumes "normal a" and "normal b" and "in_range a" and "in_range b"
  shows "ns_of (timespec_add a b) = ns_of a + ns_of b \<and> normal (timespec_add a b)
    \<and> ns_of (timespec_diff a b) = ns_of a - ns_of b \<and> normal (timespec_diff a b)
    \<and> (0 \<le> time_cmp a b \<longleftrightarrow> ns_of b \<le> ns_of a)"
  using timespec_add_spec [OF assms] timespec_diff_spec [OF assms] time_cmp_spec [OF assms] by blast

theorem timespec_arithmetic_exact_witness:
  "ns_of (timespec_add \<lparr>tv_sec = 1, tv_nsec = 600000000\<rparr> \<lparr>tv_sec = 2, tv_nsec = 700000000\<rparr>) = 4300000000"
  using timespec_arithmetic_exact [of "\<lparr>tv_sec = 1, tv_nsec = 600000000\<rparr>" "\<lparr>tv_sec = 2, tv_nsec = 700000000\<rparr>"]
  by (simp add: normal_def in_range_def ns_of_def time_units)

text \<open>
  \<open>timespec_init\<close> gives the duration it is asked for only up to 2147 milliseconds: from 2148 on the
  32-bit product wraps, and for 2148 milliseconds the value is negative.
\<close>

theorem timespec_init_limit:
  "(unat millis \<le> 2147 \<longrightarrow> ns_of (timespec_init millis) = int (unat millis) * TIME_MS_IN_NS)
    \<and> ns_of (timespec_init 2148) < 0"
proof -
  have "timespec_init 2148 = \<lparr>tv_sec = -2, tv_nsec = -146967296\<rparr>" by code_simp
  then show ?thesis using timespec_init_spec by (simp add: ns_of_def time_units)
qed

theorem timespec_init_limit_witness:
  "ns_of (timespec_init 100) = 100000000"
  using timespec_init_limit [of 100] by (simp add: time_units)

end
