(* ===== verification/Kernel_Sched.thy ===== *)
theory Kernel_Sched
  imports Kernel_Time Libk_String "HOL-Library.Monad_Syntax"
begin

text \<open>
  Threads, the scheduler, wait queues, semaphores, mutexes, the reaper and the sleep timers
  (\<^verbatim>\<open>kernel/thread.c\<close>, \<^verbatim>\<open>kernel/sched/*.c\<close>, \<^verbatim>\<open>kernel/locking/semaphore.c\<close>, \<^verbatim>\<open>kernel/time/*.c\<close>).

  The state is one record.  Threads are found by number; the queues, whose nodes are embedded in the
  threads, are lists of thread numbers (the lists themselves are verified in \<^verbatim>\<open>Libk_List\<close>).  Failing
  assertions, null or freed threads and out-of-range priorities are the value \<open>None\<close>.

  \<^verbatim>\<open>cpu_context_preempt\<close> is assembly code that enters \<open>sched_schedule_yield\<close> with the saved context;
  an operation that gives up the processor is modelled up to the point where the next thread runs.
  Signal delivery, which the scheduler calls for the thread it has chosen, is an argument.
\<close>

section \<open>The model\<close>

subsection \<open>State\<close>

type_synonym tid = nat

datatype thread_state = THREAD_RUNNING | THREAD_READY | THREAD_SLEEPING | THREAD_SLEEP_UNINTR | THREAD_DEAD

datatype thread_type = KTHREAD | UTHREAD

record thread =
  th_process :: nat
  th_cpu_context :: "32 word"
  th_state :: thread_state
  th_type :: thread_type
  th_priority :: nat
  th_refcnt :: refcount
  th_timer :: timespec

definition SCHED_PRIORITY_LEVELS :: nat where "SCHED_PRIORITY_LEVELS = 5"
definition SCHED_PRIORITY_LEVEL_MIN :: nat where "SCHED_PRIORITY_LEVEL_MIN = 0"
definition SCHED_PRIORITY_LEVEL_MAX :: nat where "SCHED_PRIORITY_LEVEL_MAX = 4"
definition SCHED_PRIORITY_LEVEL_DEFAULT :: nat where "SCHED_PRIORITY_LEVEL_DEFAULT = 3"

text \<open>
  Wait queues and semaphores are found by number; a semaphore and its own wait queue have the same
  number.  \<open>locked p\<close> says that process \<open>p\<close> is in state \<^verbatim>\<open>PROC_LOCKED\<close>, and \<open>proc_threads p\<close> are the
  threads of process \<open>p\<close>.
\<close>

record sched =
  threads :: "tid \<Rightarrow> thread option"
  current_thread :: "tid option"
  current_thread_start :: timespec
  ready_queues :: "nat \<Rightarrow> tid list"
  wait_queues :: "nat \<Rightarrow> tid list"
  sem_value :: "nat \<Rightarrow> int"
  reaper_list :: "tid list"
  timer_list :: "tid list"
  current_time :: timespec
  tick_value :: timespec
  locked :: "nat \<Rightarrow> bool"
  proc_threads :: "nat \<Rightarrow> tid list"

definition REAPER_SEM :: nat where "REAPER_SEM = 0"

definition set_thread :: "tid \<Rightarrow> thread \<Rightarrow> 'a sched_scheme \<Rightarrow> 'a sched_scheme" where
  "set_thread t th s = s\<lparr>threads := (threads s)(t \<mapsto> th)\<rparr>"

subsection \<open>Threads\<close>

definition zero_time :: timespec where "zero_time = \<lparr>tv_sec = 0, tv_nsec = 0\<rparr>"

text \<open>
  Creating a thread: \<open>new\<close> is the number of the thread that \<^verbatim>\<open>kmalloc\<close> returns, the two flags say whether
  the allocations of the thread and of its kernel stack succeed, and \<open>ctx\<close> is the address of the context
  that is set up at the top of the stack.
\<close>

definition init_thread :: "thread_type \<Rightarrow> nat \<Rightarrow> 32 word \<Rightarrow> thread" where
  "init_thread ty priority ctx =
     \<lparr>th_process = 0, th_cpu_context = ctx, th_state = THREAD_READY, th_type = ty, th_priority = priority,
      th_refcnt = refcount_init, th_timer = zero_time\<rparr>"

definition thread_create_with ::
  "tid \<Rightarrow> bool \<Rightarrow> bool \<Rightarrow> thread_type \<Rightarrow> nat \<Rightarrow> 32 word \<Rightarrow> 'a sched_scheme \<Rightarrow> tid result \<times> 'a sched_scheme" where
  "thread_create_with new alloc_ok stack_ok ty priority ctx s =
     (if alloc_ok \<and> stack_ok then (Inr new, set_thread new (init_thread ty priority ctx) s) else (Inl ENOMEM, s))"

definition kthread_create :: "tid \<Rightarrow> bool \<Rightarrow> bool \<Rightarrow> 32 word \<Rightarrow> 'a sched_scheme \<Rightarrow> tid result \<times> 'a sched_scheme" where
  "kthread_create new alloc_ok stack_ok =
     thread_create_with new alloc_ok stack_ok KTHREAD SCHED_PRIORITY_LEVEL_DEFAULT"

definition thread_create :: "tid \<Rightarrow> bool \<Rightarrow> bool \<Rightarrow> 32 word \<Rightarrow> 'a sched_scheme \<Rightarrow> tid result \<times> 'a sched_scheme" where
  "thread_create new alloc_ok stack_ok =
     thread_create_with new alloc_ok stack_ok UTHREAD SCHED_PRIORITY_LEVEL_DEFAULT"

definition thread_clone ::
  "tid \<Rightarrow> bool \<Rightarrow> bool \<Rightarrow> 32 word \<Rightarrow> tid \<Rightarrow> 'a sched_scheme \<Rightarrow> (tid result \<times> 'a sched_scheme) option" where
  "thread_clone new alloc_ok stack_ok ctx t s = do {
     th \<leftarrow> threads s t;
     Some (thread_create_with new alloc_ok stack_ok (th_type th) (th_priority th) ctx s) }"

definition thread_ref :: "tid \<Rightarrow> 'a sched_scheme \<Rightarrow> 'a sched_scheme option" where
  "thread_ref t s = do {
     th \<leftarrow> threads s t;
     Some (set_thread t (th\<lparr>th_refcnt := snd (refcount_inc (th_refcnt th))\<rparr>) s) }"

definition thread_get_ref :: "tid \<Rightarrow> 'a sched_scheme \<Rightarrow> int option" where
  "thread_get_ref t s = map_option (\<lambda>th. refcount_get (th_refcnt th)) (threads s t)"

definition thread_set_state :: "tid \<Rightarrow> thread_state \<Rightarrow> 'a sched_scheme \<Rightarrow> 'a sched_scheme option" where
  "thread_set_state t st s = do {
     th \<leftarrow> threads s t;
     Some (set_thread t (th\<lparr>th_state := st\<rparr>) s) }"

definition sched_add_thread :: "tid \<Rightarrow> 'a sched_scheme \<Rightarrow> 'a sched_scheme option" where
  "sched_add_thread t s = do {
     th \<leftarrow> threads s t;
     if th_state th = THREAD_DEAD then Some s
     else do {
       s \<leftarrow> thread_set_state t THREAD_READY s;
       if th_type th = UTHREAD \<and> locked s (th_process th) then Some s
       else if th_priority th < SCHED_PRIORITY_LEVELS
       then thread_ref t (s\<lparr>ready_queues := (ready_queues s)
              (th_priority th := ready_queues s (th_priority th) @ [t])\<rparr>)
       else None } }"

text \<open>
  Dropping the last reference of a thread hands it to the reaper and raises the reaper's semaphore,
  which wakes the reaper and drops the reference of its wait queue.  The recursion is bounded by the
  number of threads that wait on that semaphore; the functions up to \<open>reaper_reap_with\<close> take the
  operation that drops a reference as an argument.
\<close>

fun wait_wake_loop ::
  "(tid \<Rightarrow> 'a sched_scheme \<Rightarrow> 'a sched_scheme option) \<Rightarrow> nat \<Rightarrow> nat \<Rightarrow> nat \<Rightarrow> nat \<Rightarrow> 'a sched_scheme
     \<Rightarrow> (nat \<times> 'a sched_scheme) option" where
  "wait_wake_loop unref 0 wq nb n s = None"
| "wait_wake_loop unref (Suc fuel) wq nb n s =
     (case wait_queues s wq of
        [] \<Rightarrow> Some (n, s)
      | t # ts \<Rightarrow>
          if n < nb then do {
            s \<leftarrow> sched_add_thread t (s\<lparr>wait_queues := (wait_queues s)(wq := ts)\<rparr>);
            s \<leftarrow> unref t s;
            wait_wake_loop unref fuel wq nb (n + 1) s }
          else Some (n, s))"

definition wait_wake_with ::
  "(tid \<Rightarrow> 'a sched_scheme \<Rightarrow> 'a sched_scheme option) \<Rightarrow> nat \<Rightarrow> nat \<Rightarrow> 'a sched_scheme \<Rightarrow> (nat \<times> 'a sched_scheme) option" where
  "wait_wake_with unref wq nb s = wait_wake_loop unref (Suc (length (wait_queues s wq))) wq nb 0 s"

definition semaphore_up_with ::
  "(tid \<Rightarrow> 'a sched_scheme \<Rightarrow> 'a sched_scheme option) \<Rightarrow> nat \<Rightarrow> 'a sched_scheme \<Rightarrow> (nat \<times> 'a sched_scheme) option" where
  "semaphore_up_with unref sem s =
     (let v = signed_take_bit 31 (sem_value s sem + 1);
          s = s\<lparr>sem_value := (sem_value s)(sem := v)\<rparr>
      in if v \<ge> 0 then wait_wake_with unref sem 1 s else Some (0, s))"

definition reaper_reap_with ::
  "(tid \<Rightarrow> 'a sched_scheme \<Rightarrow> 'a sched_scheme option) \<Rightarrow> tid \<Rightarrow> 'a sched_scheme \<Rightarrow> 'a sched_scheme option" where
  "reaper_reap_with unref t s = do {
     r \<leftarrow> thread_get_ref t s;
     if r = 0
     then map_option snd (semaphore_up_with unref REAPER_SEM (s\<lparr>reaper_list := reaper_list s @ [t]\<rparr>))
     else None }"

primrec thread_unref_fuel :: "nat \<Rightarrow> tid \<Rightarrow> 'a sched_scheme \<Rightarrow> 'a sched_scheme option" where
  "thread_unref_fuel 0 = (\<lambda>t s. None)"
| "thread_unref_fuel (Suc fuel) = (\<lambda>t s. do {
     th \<leftarrow> threads s t;
     let (cnt, r) = refcount_dec (th_refcnt th);
     let s = set_thread t (th\<lparr>th_refcnt := r\<rparr>) s;
     if cnt = 0 then reaper_reap_with (thread_unref_fuel fuel) t s else Some s })"

definition thread_unref :: "tid \<Rightarrow> 'a sched_scheme \<Rightarrow> 'a sched_scheme option" where
  "thread_unref t s = thread_unref_fuel (Suc (length (wait_queues s REAPER_SEM))) t s"

definition wait_wake :: "nat \<Rightarrow> nat \<Rightarrow> 'a sched_scheme \<Rightarrow> (nat \<times> 'a sched_scheme) option" where
  "wait_wake = wait_wake_with thread_unref"

definition wait_wake_all :: "nat \<Rightarrow> 'a sched_scheme \<Rightarrow> (nat \<times> 'a sched_scheme) option" where
  "wait_wake_all wq = wait_wake wq (2 ^ 32 - 1)"

definition semaphore_up :: "nat \<Rightarrow> 'a sched_scheme \<Rightarrow> (nat \<times> 'a sched_scheme) option" where
  "semaphore_up = semaphore_up_with thread_unref"

definition reaper_reap :: "tid \<Rightarrow> 'a sched_scheme \<Rightarrow> 'a sched_scheme option" where
  "reaper_reap = reaper_reap_with thread_unref"

subsection \<open>The scheduler\<close>

fun first_non_empty_queue :: "(nat \<Rightarrow> tid list) \<Rightarrow> nat \<Rightarrow> nat" where
  "first_non_empty_queue q 0 = 0"
| "first_non_empty_queue q (Suc i) = (if q (Suc i) = [] then first_non_empty_queue q i else Suc i)"

definition first_non_empty_queue_priority :: "'a sched_scheme \<Rightarrow> nat" where
  "first_non_empty_queue_priority s = first_non_empty_queue (ready_queues s) SCHED_PRIORITY_LEVEL_MAX"

definition idling :: "'a sched_scheme \<Rightarrow> bool" where
  "idling s \<longleftrightarrow> first_non_empty_queue_priority s = SCHED_PRIORITY_LEVEL_MIN"

definition quantums :: "int list" where
  "quantums = [1000, 1000, 1000, 1000, 1000]"

definition quatum_expired :: "thread \<Rightarrow> timespec \<Rightarrow> 'a sched_scheme \<Rightarrow> bool option" where
  "quatum_expired th start s =
     (if th_priority th < length quantums
      then Some (timespec_diff_ms (current_time s) start > quantums ! th_priority th) else None)"

definition next_thread :: "'a sched_scheme \<Rightarrow> (tid \<times> 'a sched_scheme) option" where
  "next_thread s =
     (let p = first_non_empty_queue_priority s
      in case ready_queues s p of
           [] \<Rightarrow> None
         | t # ts \<Rightarrow> Some (t, s\<lparr>ready_queues := (ready_queues s)(p := ts)\<rparr>))"

definition set_current_thread :: "tid \<Rightarrow> 'a sched_scheme \<Rightarrow> 'a sched_scheme option" where
  "set_current_thread t s =
     thread_set_state t THREAD_RUNNING (s\<lparr>current_thread := Some t, current_thread_start := current_time s\<rparr>)"

text \<open>
  \<open>deliver\<close> stands for the delivery of a pending signal to the chosen thread: \<open>None\<close> when no signal is
  pending for its process, otherwise whether \<^verbatim>\<open>signal_handle\<close> returned 0, and the new state.
\<close>

type_synonym 'a delivery = "tid \<Rightarrow> 'a sched_scheme \<Rightarrow> (bool \<times> 'a sched_scheme) option"

fun choose_next :: "'a delivery \<Rightarrow> nat \<Rightarrow> 'a sched_scheme \<Rightarrow> (tid \<times> 'a sched_scheme) option" where
  "choose_next deliver 0 s = None"
| "choose_next deliver (Suc fuel) s = do {
     (t, s) \<leftarrow> next_thread s;
     s \<leftarrow> set_current_thread t s;
     th \<leftarrow> threads s t;
     (case (if th_type th = UTHREAD then deliver t s else None) of
        None \<Rightarrow> Some (t, s)
      | Some (handled, s) \<Rightarrow> if handled then Some (t, s) else choose_next deliver fuel s) }"

definition save_context :: "32 word \<Rightarrow> 'a sched_scheme \<Rightarrow> 'a sched_scheme option" where
  "save_context cpu_ctx s =
     (case current_thread s of
        None \<Rightarrow> Some s
      | Some p \<Rightarrow> do { th \<leftarrow> threads s p; Some (set_thread p (th\<lparr>th_cpu_context := cpu_ctx\<rparr>) s) })"

definition requeue_prev :: "tid option \<Rightarrow> 'a sched_scheme \<Rightarrow> 'a sched_scheme option" where
  "requeue_prev prev s =
     (case prev of
        None \<Rightarrow> Some s
      | Some p \<Rightarrow> do {
          th \<leftarrow> threads s p;
          if th_state th = THREAD_RUNNING then do { s \<leftarrow> sched_add_thread p s; thread_unref p s } else Some s })"

definition sched_schedule_yield ::
  "'a delivery \<Rightarrow> nat \<Rightarrow> 32 word \<Rightarrow> 'a sched_scheme \<Rightarrow> (32 word \<times> 'a sched_scheme) option" where
  "sched_schedule_yield deliver fuel cpu_ctx s = do {
     let prev = current_thread s;
     s \<leftarrow> save_context cpu_ctx s;
     (t, s) \<leftarrow> choose_next deliver fuel s;
     s \<leftarrow> requeue_prev prev s;
     th \<leftarrow> threads s t;
     Some (th_cpu_context th, s) }"

text \<open>\<open>usermode\<close> is \<^verbatim>\<open>cpu_context_is_usermode\<close> of the interrupted context.\<close>

definition sched_schedule ::
  "'a delivery \<Rightarrow> nat \<Rightarrow> bool \<Rightarrow> 32 word \<Rightarrow> 'a sched_scheme \<Rightarrow> (32 word \<times> 'a sched_scheme) option" where
  "sched_schedule deliver fuel usermode cpu_ctx s =
     (case current_thread s of
        None \<Rightarrow> sched_schedule_yield deliver fuel cpu_ctx s
      | Some c \<Rightarrow> do {
          th \<leftarrow> threads s c;
          expired \<leftarrow> (if usermode then quatum_expired th (current_thread_start s) s else Some False);
          if expired then sched_schedule_yield deliver fuel cpu_ctx s else Some (cpu_ctx, s) })"

fun sched_add_threads :: "tid list \<Rightarrow> int \<Rightarrow> 'a sched_scheme \<Rightarrow> (int \<times> 'a sched_scheme) option" where
  "sched_add_threads [] n s = Some (n, s)"
| "sched_add_threads (t # ts) n s = do { s \<leftarrow> sched_add_thread t s; sched_add_threads ts (n + 1) s }"

definition sched_add_process :: "nat \<Rightarrow> 'a sched_scheme \<Rightarrow> (int \<times> 'a sched_scheme) option" where
  "sched_add_process p s = sched_add_threads (proc_threads s p) 0 s"

definition in_ready_queue :: "tid \<Rightarrow> 'a sched_scheme \<Rightarrow> bool" where
  "in_ready_queue t s \<longleftrightarrow> list_ex (\<lambda>p. t \<in> set (ready_queues s p)) [0..<SCHED_PRIORITY_LEVELS]"

definition sched_remove_thread :: "tid \<Rightarrow> 'a sched_scheme \<Rightarrow> (unit result \<times> 'a sched_scheme) option" where
  "sched_remove_thread t s = do {
     th \<leftarrow> threads s t;
     if in_ready_queue t s then do {
       s \<leftarrow> thread_unref t (s\<lparr>ready_queues := (\<lambda>p. remove1 t (ready_queues s p))\<rparr>);
       Some (Inr (), s) }
     else Some (Inl EINVAL, s) }"

fun sched_remove_threads :: "tid list \<Rightarrow> int \<Rightarrow> 'a sched_scheme \<Rightarrow> (int \<times> 'a sched_scheme) option" where
  "sched_remove_threads [] n s = Some (n, s)"
| "sched_remove_threads (t # ts) n s = do {
     (r, s) \<leftarrow> sched_remove_thread t s;
     sched_remove_threads ts (if r = Inr () then n + 1 else n) s }"

definition sched_remove_process :: "nat \<Rightarrow> 'a sched_scheme \<Rightarrow> (int \<times> 'a sched_scheme) option" where
  "sched_remove_process p s = sched_remove_threads (proc_threads s p) 0 s"

definition sched_get_current_process :: "'a sched_scheme \<Rightarrow> nat option option" where
  "sched_get_current_process s = do {
     c \<leftarrow> current_thread s;
     th \<leftarrow> threads s c;
     Some (if th_type th = UTHREAD then Some (th_process th) else None) }"

text \<open>
  The operations of the running thread.  \<open>cpu_ctx\<close> is the context that \<^verbatim>\<open>cpu_context_preempt\<close> saves.
\<close>

definition sched_yield :: "'a delivery \<Rightarrow> nat \<Rightarrow> 32 word \<Rightarrow> 'a sched_scheme \<Rightarrow> (32 word \<times> 'a sched_scheme) option" where
  "sched_yield deliver fuel cpu_ctx s =
     (if idling s then Some (cpu_ctx, s) else sched_schedule_yield deliver fuel cpu_ctx s)"

definition sched_exit :: "'a delivery \<Rightarrow> nat \<Rightarrow> 32 word \<Rightarrow> 'a sched_scheme \<Rightarrow> (32 word \<times> 'a sched_scheme) option" where
  "sched_exit deliver fuel cpu_ctx s = do {
     c \<leftarrow> current_thread s;
     s \<leftarrow> thread_set_state c THREAD_DEAD s;
     s \<leftarrow> thread_unref c s;
     sched_schedule_yield deliver fuel cpu_ctx s }"

definition sched_sleep_prepare :: "'a sched_scheme \<Rightarrow> 'a sched_scheme option" where
  "sched_sleep_prepare s = do {
     c \<leftarrow> current_thread s;
     s \<leftarrow> thread_set_state c THREAD_SLEEPING s;
     r \<leftarrow> thread_get_ref c s;
     if r > 1 then thread_unref c s else None }"

definition sched_sleep_event :: "'a delivery \<Rightarrow> nat \<Rightarrow> 32 word \<Rightarrow> 'a sched_scheme \<Rightarrow> (32 word \<times> 'a sched_scheme) option" where
  "sched_sleep_event deliver fuel cpu_ctx s = do {
     s \<leftarrow> sched_sleep_prepare s;
     sched_schedule_yield deliver fuel cpu_ctx s }"

definition sched_start :: "'a delivery \<Rightarrow> nat \<Rightarrow> 32 word \<Rightarrow> 'a sched_scheme \<Rightarrow> (32 word \<times> 'a sched_scheme) option" where
  "sched_start deliver fuel cpu_ctx s =
     (if current_thread s = None then sched_schedule_yield deliver fuel cpu_ctx s else None)"

definition sched_init :: "'a sched_scheme \<Rightarrow> 'a sched_scheme" where
  "sched_init s = s\<lparr>ready_queues := (\<lambda>p. if p < SCHED_PRIORITY_LEVELS then [] else ready_queues s p)\<rparr>"

subsection \<open>Sleep timers\<close>

definition timer_init :: "timespec \<Rightarrow> 'a sched_scheme \<Rightarrow> timespec" where
  "timer_init delay s = timespec_add (current_time s) delay"

definition time_add_timer :: "tid \<Rightarrow> 'a sched_scheme \<Rightarrow> 'a sched_scheme" where
  "time_add_timer t s = s\<lparr>timer_list := timer_list s @ [t]\<rparr>"

definition sched_nanosleep ::
  "'a delivery \<Rightarrow> nat \<Rightarrow> 32 word \<Rightarrow> timespec \<Rightarrow> 'a sched_scheme \<Rightarrow> (32 word \<times> 'a sched_scheme) option" where
  "sched_nanosleep deliver fuel cpu_ctx timeout s = do {
     c \<leftarrow> current_thread s;
     th \<leftarrow> threads s c;
     let s = time_add_timer c (set_thread c (th\<lparr>th_timer := timer_init timeout s\<rparr>) s);
     s \<leftarrow> thread_ref c s;
     s \<leftarrow> sched_sleep_prepare s;
     sched_schedule_yield deliver fuel cpu_ctx s }"

definition sched_timer_callback :: "tid \<Rightarrow> 'a sched_scheme \<Rightarrow> 'a sched_scheme option" where
  "sched_timer_callback t s = do {
     s \<leftarrow> sched_add_thread t s;
     s \<leftarrow> thread_unref t s;
     th \<leftarrow> threads s t;
     Some (set_thread t (th\<lparr>th_timer := zero_time\<rparr>) s) }"

fun update_timers :: "tid list \<Rightarrow> 'a sched_scheme \<Rightarrow> 'a sched_scheme option" where
  "update_timers [] s = Some s"
| "update_timers (t # ts) s = do {
     th \<leftarrow> threads s t;
     s \<leftarrow> (if time_cmp (current_time s) (th_timer th) \<ge> 0
          then sched_timer_callback t (s\<lparr>timer_list := remove1 t (timer_list s)\<rparr>) else Some s);
     update_timers ts s }"

definition time_update_timer_list :: "'a sched_scheme \<Rightarrow> 'a sched_scheme option" where
  "time_update_timer_list s = update_timers (timer_list s) s"

definition time_init :: "timespec \<Rightarrow> 'a sched_scheme \<Rightarrow> 'a sched_scheme option" where
  "time_init tick_val s = (if tv_nsec tick_val < TIME_SEC_IN_NS then Some (s\<lparr>tick_value := tick_val\<rparr>) else None)"

definition time_tick :: "'a sched_scheme \<Rightarrow> 'a sched_scheme option" where
  "time_tick s = time_update_timer_list (s\<lparr>current_time := timespec_add (current_time s) (tick_value s)\<rparr>)"

subsection \<open>Wait queues, semaphores and mutexes\<close>

definition wait_init :: "nat \<Rightarrow> 'a sched_scheme \<Rightarrow> 'a sched_scheme" where
  "wait_init wq s = s\<lparr>wait_queues := (wait_queues s)(wq := [])\<rparr>"

fun unref_all :: "tid list \<Rightarrow> 'a sched_scheme \<Rightarrow> 'a sched_scheme option" where
  "unref_all [] s = Some s"
| "unref_all (t # ts) s = do { s \<leftarrow> thread_unref t s; unref_all ts s }"

definition wait_reset :: "nat \<Rightarrow> 'a sched_scheme \<Rightarrow> 'a sched_scheme option" where
  "wait_reset wq s = map_option (wait_init wq) (unref_all (wait_queues s wq) s)"

definition wait_empty :: "nat \<Rightarrow> 'a sched_scheme \<Rightarrow> bool" where
  "wait_empty wq s \<longleftrightarrow> wait_queues s wq = []"

definition wait_wait :: "'a delivery \<Rightarrow> nat \<Rightarrow> 32 word \<Rightarrow> nat \<Rightarrow> 'a sched_scheme \<Rightarrow> (32 word \<times> 'a sched_scheme) option" where
  "wait_wait deliver fuel cpu_ctx wq s = do {
     c \<leftarrow> current_thread s;
     s \<leftarrow> thread_ref c (s\<lparr>wait_queues := (wait_queues s)(wq := wait_queues s wq @ [c])\<rparr>);
     sched_sleep_event deliver fuel cpu_ctx s }"

definition semaphore_init :: "nat \<Rightarrow> int \<Rightarrow> 'a sched_scheme \<Rightarrow> 'a sched_scheme" where
  "semaphore_init sem n s = wait_init sem (s\<lparr>sem_value := (sem_value s)(sem := n)\<rparr>)"

definition semaphore_destroy :: "nat \<Rightarrow> 'a sched_scheme \<Rightarrow> (nat \<times> 'a sched_scheme) option" where
  "semaphore_destroy sem s = do {
     (n, s) \<leftarrow> wait_wake_all sem s;
     s \<leftarrow> wait_reset sem s;
     Some (n, s\<lparr>sem_value := (sem_value s)(sem := 0)\<rparr>) }"

definition semaphore_down ::
  "'a delivery \<Rightarrow> nat \<Rightarrow> 32 word \<Rightarrow> nat \<Rightarrow> 'a sched_scheme \<Rightarrow> (32 word \<times> 'a sched_scheme) option" where
  "semaphore_down deliver fuel cpu_ctx sem s =
     (let v = signed_take_bit 31 (sem_value s sem - 1);
          s = s\<lparr>sem_value := (sem_value s)(sem := v)\<rparr>
      in if v < 0 then wait_wait deliver fuel cpu_ctx sem s else Some (cpu_ctx, s))"

definition mutex_init :: "nat \<Rightarrow> 'a sched_scheme \<Rightarrow> 'a sched_scheme" where
  "mutex_init m = semaphore_init m 1"

definition mutex_destroy :: "nat \<Rightarrow> 'a sched_scheme \<Rightarrow> (nat \<times> 'a sched_scheme) option" where
  "mutex_destroy = semaphore_destroy"

definition mutex_lock :: "'a delivery \<Rightarrow> nat \<Rightarrow> 32 word \<Rightarrow> nat \<Rightarrow> 'a sched_scheme \<Rightarrow> (32 word \<times> 'a sched_scheme) option" where
  "mutex_lock = semaphore_down"

definition mutex_trylock :: "'a delivery \<Rightarrow> nat \<Rightarrow> 32 word \<Rightarrow> nat \<Rightarrow> 'a sched_scheme \<Rightarrow> (32 word \<times> 'a sched_scheme) option" where
  "mutex_trylock deliver fuel cpu_ctx m s =
     (if sem_value s m = 1 then mutex_lock deliver fuel cpu_ctx m s else Some (cpu_ctx, s))"

definition mutex_unlock :: "nat \<Rightarrow> 'a sched_scheme \<Rightarrow> (nat \<times> 'a sched_scheme) option" where
  "mutex_unlock = semaphore_up"

text \<open>
  The reaper: its loop takes the semaphore down (which may block), and then destroys the first thread
  of its list; \<open>reaper_step\<close> is the part after \<^verbatim>\<open>semaphore_down\<close>.
\<close>

definition thread_destroy :: "tid \<Rightarrow> 'a sched_scheme \<Rightarrow> 'a sched_scheme" where
  "thread_destroy t s = s\<lparr>threads := (threads s)(t := None)\<rparr>"

definition reaper_step :: "'a sched_scheme \<Rightarrow> 'a sched_scheme option" where
  "reaper_step s =
     (case reaper_list s of
        [] \<Rightarrow> None
      | t # ts \<Rightarrow> Some (thread_destroy t (s\<lparr>reaper_list := ts\<rparr>)))"

subsection \<open>The idle thread and the reaper\<close>

text \<open>Both are kernel threads made at boot; a failing creation is a failing assertion.\<close>

definition start_kthread :: "tid \<Rightarrow> bool \<Rightarrow> bool \<Rightarrow> 32 word \<Rightarrow> nat \<Rightarrow> 'a sched_scheme \<Rightarrow> 'a sched_scheme option" where
  "start_kthread new alloc_ok stack_ok ctx priority s =
     (case kthread_create new alloc_ok stack_ok ctx s of
        (Inl _, s) \<Rightarrow> None
      | (Inr t, s) \<Rightarrow> do {
          th \<leftarrow> threads s t;
          sched_add_thread t (set_thread t (th\<lparr>th_priority := priority\<rparr>) s) })"

definition idle_init :: "tid \<Rightarrow> bool \<Rightarrow> bool \<Rightarrow> 32 word \<Rightarrow> 'a sched_scheme \<Rightarrow> 'a sched_scheme option" where
  "idle_init new alloc_ok stack_ok ctx = start_kthread new alloc_ok stack_ok ctx SCHED_PRIORITY_LEVEL_MIN"

definition reaper_init :: "tid \<Rightarrow> bool \<Rightarrow> bool \<Rightarrow> 32 word \<Rightarrow> 'a sched_scheme \<Rightarrow> 'a sched_scheme option" where
  "reaper_init new alloc_ok stack_ok ctx s =
     map_option (semaphore_init REAPER_SEM 0) (start_kthread new alloc_ok stack_ok ctx SCHED_PRIORITY_LEVEL_MAX s)"

subsection \<open>Interrupting a sleep\<close>

text \<open>
  \<open>usermode ctx\<close> says that a saved context is one of user mode; \<open>chained\<close> tests are membership in a
  queue.  The assertions on the system call context hold by construction of the kernel stack and are
  passed as \<open>stack_ok\<close>.
\<close>

definition in_wait_queue :: "nat list \<Rightarrow> tid \<Rightarrow> 'a sched_scheme \<Rightarrow> bool" where
  "in_wait_queue wqs t s \<longleftrightarrow> list_ex (\<lambda>wq. t \<in> set (wait_queues s wq)) wqs"

definition thread_intr_sleep_queues :: "nat list \<Rightarrow> tid \<Rightarrow> 'a sched_scheme \<Rightarrow> 'a sched_scheme option" where
  "thread_intr_sleep_queues wqs t s =
     (if in_wait_queue wqs t s then Some (s\<lparr>wait_queues := (\<lambda>wq. remove1 t (wait_queues s wq))\<rparr>)
      else if t \<in> set (timer_list s) then Some (s\<lparr>timer_list := remove1 t (timer_list s)\<rparr>)
      else None)"

definition thread_intr_sleep :: "nat list \<Rightarrow> bool \<Rightarrow> tid \<Rightarrow> 'a sched_scheme \<Rightarrow> (unit result \<times> 'a sched_scheme) option" where
  "thread_intr_sleep wqs stack_ok t s = do {
     th \<leftarrow> threads s t;
     if th_type th = KTHREAD \<or> th_state th \<noteq> THREAD_SLEEPING then Some (Inl EINVAL, s)
     else if \<not> stack_ok then None
     else do {
       s \<leftarrow> thread_intr_sleep_queues wqs t s;
       s \<leftarrow> sched_add_thread t s;
       Some (Inr (), s) } }"

end
