(* ===== verification/Sched_Inv.thy ===== *)
theory Sched_Inv
  imports Kernel_Sched
begin

text \<open>
  The invariant of the scheduler and the wait queues: every thread is in one place, in the state that goes
  with that place, and its reference count is the number of its owners.  Dropping a reference, waking
  threads from a wait queue and raising a semaphore keep it.  The operations of the scheduler are treated in
  \<^verbatim>\<open>Sched_Ops\<close>.
\<close>

section \<open>Invariant\<close>

text \<open>
  Where a thread is: on the ready queues \<open>R\<close>, on the wait queues \<open>W\<close>, on the timer list, on the reaper's
  list.  Each of these places, and being the running thread, owns one reference; \<open>ext t\<close> counts the
  references to \<open>t\<close> held elsewhere (the list of threads of its process, or the creator of a kernel
  thread).  The invariant says that the state of a thread matches its place, that it is in one place
  only, that its count is the number of its owners, and that it is on the reaper's list exactly when
  it has none.  \<open>X\<close> is the set of threads that may be in state running.
\<close>

definition owned :: "'a sched_scheme \<Rightarrow> tid \<Rightarrow> bool" where
  "owned s t \<longleftrightarrow> (\<exists>p. t \<in> set (ready_queues s p)) \<or> (\<exists>q. t \<in> set (wait_queues s q)) \<or> t \<in> set (timer_list s)
     \<or> (\<exists>th. threads s t = Some th \<and> th_state th = THREAD_RUNNING)"

definition owners :: "(tid \<Rightarrow> nat) \<Rightarrow> 'a sched_scheme \<Rightarrow> tid \<Rightarrow> nat" where
  "owners ext s t = ext t + (if owned s t then 1 else 0)"

definition live_ok :: "(tid \<Rightarrow> nat) \<Rightarrow> bool \<Rightarrow> 'a sched_scheme \<Rightarrow> tid \<Rightarrow> thread \<Rightarrow> bool" where
  "live_ok ext x s t th \<longleftrightarrow>
     th_priority th < SCHED_PRIORITY_LEVELS
   \<and> (\<forall>p. t \<in> set (ready_queues s p) \<longrightarrow> p = th_priority th \<and> th_state th = THREAD_READY)
   \<and> (\<forall>q. t \<in> set (wait_queues s q) \<longrightarrow> th_state th \<in> {THREAD_SLEEPING, THREAD_DEAD} \<and> t \<notin> set (timer_list s))
   \<and> (\<forall>q q'. t \<in> set (wait_queues s q) \<and> t \<in> set (wait_queues s q') \<longrightarrow> q = q')
   \<and> (t \<in> set (timer_list s) \<longrightarrow> th_state th \<in> {THREAD_SLEEPING, THREAD_DEAD})
   \<and> (th_state th = THREAD_RUNNING \<longrightarrow> x)
   \<and> th_refcnt th = of_nat (owners ext s t)
   \<and> (t \<in> set (reaper_list s) \<longleftrightarrow> owners ext s t = 0)"

definition thread_ok :: "(tid \<Rightarrow> nat) \<Rightarrow> bool \<Rightarrow> 'a sched_scheme \<Rightarrow> tid \<Rightarrow> bool" where
  "thread_ok ext x s t \<longleftrightarrow>
     (case threads s t of
        None \<Rightarrow> \<not> owned s t \<and> t \<notin> set (reaper_list s) \<and> \<not> x
      | Some th \<Rightarrow> live_ok ext x s t th)"

definition queues_distinct :: "'a sched_scheme \<Rightarrow> bool" where
  "queues_distinct s \<longleftrightarrow> (\<forall>p. distinct (ready_queues s p)) \<and> (\<forall>q. distinct (wait_queues s q))
     \<and> distinct (timer_list s) \<and> distinct (reaper_list s)"

definition sched_inv_on :: "(tid \<Rightarrow> nat) \<Rightarrow> tid set \<Rightarrow> 'a sched_scheme \<Rightarrow> bool" where
  "sched_inv_on ext X s \<longleftrightarrow> (\<forall>t. thread_ok ext (t \<in> X) s t) \<and> queues_distinct s"

definition sched_inv :: "(tid \<Rightarrow> nat) \<Rightarrow> 'a sched_scheme \<Rightarrow> bool" where
  "sched_inv ext s \<longleftrightarrow> sched_inv_on ext (set_option (current_thread s)) s"

definition few :: "(tid \<Rightarrow> nat) \<Rightarrow> bool" where
  "few ext \<longleftrightarrow> (\<forall>t. ext t < 2 ^ 30)"

lemma set_thread_simps [simp]:
  "threads (set_thread t th s) = (threads s)(t \<mapsto> th)" "ready_queues (set_thread t th s) = ready_queues s"
  "wait_queues (set_thread t th s) = wait_queues s" "timer_list (set_thread t th s) = timer_list s"
  "reaper_list (set_thread t th s) = reaper_list s" "current_thread (set_thread t th s) = current_thread s"
  "locked (set_thread t th s) = locked s" "sem_value (set_thread t th s) = sem_value s"
  "current_time (set_thread t th s) = current_time s" "tick_value (set_thread t th s) = tick_value s"
  "proc_threads (set_thread t th s) = proc_threads s"
  "current_thread_start (set_thread t th s) = current_thread_start s"
  by (simp_all add: set_thread_def)

text \<open>The places of a thread decide its part of the invariant: what changes for one thread only.\<close>

definition same_place :: "'a sched_scheme \<Rightarrow> 'a sched_scheme \<Rightarrow> tid \<Rightarrow> bool" where
  "same_place s s' t \<longleftrightarrow> threads s' t = threads s t
     \<and> (\<forall>p. t \<in> set (ready_queues s' p) \<longleftrightarrow> t \<in> set (ready_queues s p))
     \<and> (\<forall>q. t \<in> set (wait_queues s' q) \<longleftrightarrow> t \<in> set (wait_queues s q))
     \<and> (t \<in> set (timer_list s') \<longleftrightarrow> t \<in> set (timer_list s))
     \<and> (t \<in> set (reaper_list s') \<longleftrightarrow> t \<in> set (reaper_list s))"

lemma same_place_thread_ok:
  assumes "same_place s s' t" and "ext' t = ext t" and "thread_ok ext x s t"
  shows "thread_ok ext' x s' t"
proof -
  have "owned s' t = owned s t" using assms(1) by (simp add: owned_def same_place_def)
  then have "owners ext' s' t = owners ext s t" using assms(2) by (simp add: owners_def)
  then show ?thesis using assms(1,3) \<open>owned s' t = owned s t\<close>
    by (simp add: thread_ok_def live_ok_def same_place_def split: option.splits)
qed

lemma sched_inv_on_update:
  assumes "sched_inv_on ext X s" and "\<And>u. u \<noteq> t \<Longrightarrow> same_place s s' u" and "\<And>u. u \<noteq> t \<Longrightarrow> ext' u = ext u"
    and "\<And>u. u \<noteq> t \<Longrightarrow> (u \<in> X') = (u \<in> X)"
    and "queues_distinct s'" and "thread_ok ext' (t \<in> X') s' t"
  shows "sched_inv_on ext' X' s'"
  unfolding sched_inv_on_def
proof (intro conjI allI)
  fix u show "thread_ok ext' (u \<in> X') s' u"
    using assms(1,6) same_place_thread_ok [of s s' u ext' ext "u \<in> X"] assms(2-4) [of u]
    by (cases "u = t") (auto simp: sched_inv_on_def)
qed (fact assms(5))

lemma sched_inv_on_thread:
  assumes "sched_inv_on ext X s" and "threads s t = Some th"
  shows "live_ok ext (t \<in> X) s t th" and "queues_distinct s"
proof -
  have "thread_ok ext (t \<in> X) s t" using assms(1) by (simp add: sched_inv_on_def)
  then show "live_ok ext (t \<in> X) s t th" using assms(2) by (simp add: thread_ok_def)
  show "queues_distinct s" using assms(1) by (simp add: sched_inv_on_def)
qed

lemma sched_inv_on_member:
  assumes "sched_inv_on ext X s" and "owned s t \<or> t \<in> X \<or> t \<in> set (reaper_list s)"
  shows "\<exists>th. threads s t = Some th \<and> live_ok ext (t \<in> X) s t th"
proof -
  have "thread_ok ext (t \<in> X) s t" using assms(1) by (simp add: sched_inv_on_def)
  then show ?thesis using assms(2) by (auto simp: thread_ok_def split: option.splits)
qed

lemma of_nat_Suc_refcnt: "of_nat (Suc n) = (of_nat n + 1 :: 32 word)"
  by simp

lemma sint_of_nat_small:
  assumes "n < 2 ^ 31"
  shows "sint (of_nat n :: 32 word) = int n"
proof -
  have "uint (of_nat n :: 32 word) = int n" using assms by (simp add: uint_nat unat_of_nat)
  then show ?thesis unfolding sint_uint using assms by (simp add: signed_take_bit_int_eq_self)
qed

section \<open>Reference counts\<close>

definition unqueued :: "'a sched_scheme \<Rightarrow> tid \<Rightarrow> bool" where
  "unqueued s t \<longleftrightarrow> (\<forall>p. t \<notin> set (ready_queues s p)) \<and> (\<forall>q. t \<notin> set (wait_queues s q)) \<and> t \<notin> set (timer_list s)"

lemma thread_okI: "threads s t = Some th \<Longrightarrow> live_ok ext x s t th \<Longrightarrow> thread_ok ext x s t"
  by (simp add: thread_ok_def)

lemma refcount_dec_of_nat: "n < 2 ^ 31 \<Longrightarrow> refcount_dec (of_nat (Suc n)) = (int n, of_nat n)"
  by (simp add: refcount_dec_def sint_of_nat_small)

text \<open>What \<open>sched_add_thread\<close> does to a thread that is on no queue.\<close>

lemma sched_add_thread_inv:
  assumes "sched_inv_on ext X s" and "threads s t = Some th" and "unqueued s t" and "0 < owners ext s t"
  shows "\<exists>s'. sched_add_thread t s = Some s'
    \<and> sched_inv_on (ext(t := ext t + (if th_state th = THREAD_RUNNING then 1 else 0))) X s'
    \<and> wait_queues s' = wait_queues s"
proof -
  note live = sched_inv_on_thread [OF assms(1,2)]
  let ?ext = "ext(t := ext t + (if th_state th = THREAD_RUNNING then 1 else 0))"
  let ?th = "th\<lparr>th_state := THREAD_READY\<rparr>"
  have own: "owned s t \<longleftrightarrow> th_state th = THREAD_RUNNING"
    using assms(2,3) by (auto simp: owned_def unqueued_def)
  have ref: "th_refcnt th = of_nat (?ext t)" "t \<notin> set (reaper_list s)" "?ext t \<noteq> 0"
    using live(1) assms(4) own by (auto simp: live_ok_def owners_def split: if_splits)
  consider (dead) "th_state th = THREAD_DEAD"
    | (lock) "th_state th \<noteq> THREAD_DEAD" "th_type th = UTHREAD" "locked s (th_process th)"
    | (queue) "th_state th \<noteq> THREAD_DEAD" "\<not> (th_type th = UTHREAD \<and> locked s (th_process th))" by blast
  then show ?thesis
  proof cases
    case dead
    then have "?ext = ext" by simp
    then show ?thesis using dead assms by (simp add: sched_add_thread_def)
  next
    case lock
    let ?s = "set_thread t ?th s"
    have "sched_add_thread t s = Some ?s"
      using lock assms(2) by (simp add: sched_add_thread_def thread_set_state_def)
    moreover have "sched_inv_on ?ext X ?s"
    proof (rule sched_inv_on_update [OF assms(1), where t = t])
      show "queues_distinct ?s" using live(2) by (simp add: queues_distinct_def)
      have "\<not> owned ?s t" using assms(3) by (simp add: owned_def unqueued_def)
      then show "thread_ok ?ext (t \<in> X) ?s t" using live(1) ref assms(3)
        by (intro thread_okI [of _ _ ?th]) (auto simp: live_ok_def unqueued_def owners_def)
    qed (auto simp: same_place_def)
    ultimately show ?thesis by simp
  next
    case queue
    let ?p = "th_priority th"
    let ?th' = "?th\<lparr>th_refcnt := of_nat (Suc (?ext t))\<rparr>"
    let ?s = "set_thread t ?th' (set_thread t ?th s\<lparr>ready_queues := (ready_queues s)(?p := ready_queues s ?p @ [t])\<rparr>)"
    have p: "?p < SCHED_PRIORITY_LEVELS" using live(1) by (simp add: live_ok_def)
    have "sched_add_thread t s = Some ?s"
      using queue p assms(2) ref(1)
      by (auto simp: sched_add_thread_def thread_set_state_def thread_ref_def refcount_inc_def add.commute)
    moreover have "sched_inv_on ?ext X ?s"
    proof (rule sched_inv_on_update [OF assms(1), where t = t])
      show "queues_distinct ?s" using live(2) assms(3) by (simp add: queues_distinct_def unqueued_def)
      have "owned ?s t" by (auto simp: owned_def)
      then show "thread_ok ?ext (t \<in> X) ?s t" using live(1) ref assms(3) p
        by (intro thread_okI [of _ _ ?th']) (auto simp: live_ok_def unqueued_def owners_def)
    qed (auto simp: same_place_def)
    ultimately show ?thesis by (auto simp: set_thread_def)
  qed
qed

text \<open>
  What waking threads and dropping references leaves as it is: \<open>keeps q s s'\<close> says that \<open>s'\<close> differs from
  \<open>s\<close> only in the threads that left wait queue \<open>q\<close> or the reaper's one from the front, which are on the
  ready queues now, in reference counts, in semaphore values and in the list of the reaper.
\<close>

definition same_thread :: "thread \<Rightarrow> thread \<Rightarrow> bool" where
  "same_thread th th' \<longleftrightarrow> th_priority th' = th_priority th \<and> th_type th' = th_type th \<and> th_process th' = th_process th
     \<and> th_timer th' = th_timer th \<and> th_cpu_context th' = th_cpu_context th"

definition keeps :: "nat set \<Rightarrow> tid set \<Rightarrow> 'a sched_scheme \<Rightarrow> 'a sched_scheme \<Rightarrow> bool" where
  "keeps Q A s s' \<longleftrightarrow> current_thread s' = current_thread s \<and> timer_list s' = timer_list s
     \<and> current_time s' = current_time s \<and> tick_value s' = tick_value s \<and> locked s' = locked s
     \<and> proc_threads s' = proc_threads s
     \<and> (\<forall>q. q \<notin> Q \<longrightarrow> wait_queues s' q = wait_queues s q)
     \<and> (\<forall>q. \<exists>n. wait_queues s' q = drop n (wait_queues s q))
     \<and> (\<forall>p. \<exists>ts. ready_queues s' p = ready_queues s p @ ts \<and> set ts \<subseteq> A)
     \<and> (\<forall>u. rel_option same_thread (threads s u) (threads s' u))
     \<and> (\<forall>u. u \<notin> A \<longrightarrow> map_option th_state (threads s' u) = map_option th_state (threads s u))"

lemma same_thread_refl [simp]: "same_thread th th"
  by (simp add: same_thread_def)

lemma same_thread_trans: "same_thread a b \<Longrightarrow> same_thread b c \<Longrightarrow> same_thread a c"
  by (simp add: same_thread_def)

lemma rel_same_thread_refl [simp]: "rel_option same_thread x x"
  by (cases x) simp_all

lemma rel_same_thread_trans:
  "rel_option same_thread a b \<Longrightarrow> rel_option same_thread b c \<Longrightarrow> rel_option same_thread a c"
  by (cases a; cases b; cases c) (auto intro: same_thread_trans)

lemma keeps_refl: "keeps Q A s s"
proof -
  have "\<exists>n. ts = drop n ts" for ts :: "tid list" by (rule exI [of _ 0]) simp
  then show ?thesis by (simp add: keeps_def)
qed

lemma keeps_trans:
  assumes "keeps Q A s s1" and "keeps Q A s1 s2"
  shows "keeps Q A s s2"
proof -
  have "\<exists>n. wait_queues s2 q = drop n (wait_queues s q)" for q
  proof -
    obtain m n where "wait_queues s1 q = drop n (wait_queues s q)" "wait_queues s2 q = drop m (wait_queues s1 q)"
      using assms unfolding keeps_def by blast
    then show ?thesis by auto
  qed
  moreover have "\<exists>ts. ready_queues s2 p = ready_queues s p @ ts \<and> set ts \<subseteq> A" for p
  proof -
    obtain ts us where "ready_queues s1 p = ready_queues s p @ ts" "set ts \<subseteq> A"
      "ready_queues s2 p = ready_queues s1 p @ us" "set us \<subseteq> A" using assms unfolding keeps_def by blast
    then show ?thesis by auto
  qed
  moreover have "rel_option same_thread (threads s u) (threads s2 u)" for u
    using assms rel_same_thread_trans unfolding keeps_def by blast
  ultimately show ?thesis using assms unfolding keeps_def by simp
qed

lemma keeps_mono: "keeps Q A s s' \<Longrightarrow> Q \<subseteq> Q' \<Longrightarrow> A \<subseteq> A' \<Longrightarrow> keeps Q' A' s s'"
  unfolding keeps_def by blast

lemma sched_add_thread_keeps:
  assumes "sched_add_thread t s = Some s'" and "t \<in> A"
  shows "keeps Q A s s'"
proof -
  have "\<exists>n. ts = drop n ts" for ts :: "tid list" by (rule exI [of _ 0]) simp
  then show ?thesis using assms
    by (auto simp: sched_add_thread_def thread_set_state_def thread_ref_def keeps_def same_thread_def
      set_thread_def split: Option.bind_splits if_splits)
qed

definition unref_ok :: "(tid \<Rightarrow> 'a sched_scheme \<Rightarrow> 'a sched_scheme option) \<Rightarrow> nat \<Rightarrow> bool" where
  "unref_ok unref m \<longleftrightarrow> (\<forall>t s ext X. length (wait_queues s REAPER_SEM) < m \<longrightarrow> few ext
     \<longrightarrow> sched_inv_on (ext(t := Suc (ext t))) X s \<longrightarrow> threads s t \<noteq> None
     \<longrightarrow> (\<exists>s'. unref t s = Some s' \<and> sched_inv_on ext X s'
           \<and> keeps {REAPER_SEM} (set (wait_queues s REAPER_SEM)) s s'))"

lemma unref_okD:
  assumes "unref_ok unref m" and "length (wait_queues s REAPER_SEM) < m" and "few ext"
    and "sched_inv_on (ext(t := Suc (ext t))) X s" and "threads s t \<noteq> None"
  obtains s' where "unref t s = Some s'" "sched_inv_on ext X s'"
    "keeps {REAPER_SEM} (set (wait_queues s REAPER_SEM)) s s'"
  using assms unfolding unref_ok_def by blast

text \<open>Taking a thread off a wait queue leaves it with one reference that no queue owns.\<close>

lemma pop_wait_queue_inv:
  assumes "sched_inv_on ext X s" and "wait_queues s q = t # ts"
  defines "s1 \<equiv> s\<lparr>wait_queues := (wait_queues s)(q := ts)\<rparr>"
  shows "sched_inv_on (ext(t := Suc (ext t))) X s1" and "unqueued s1 t"
    and "\<exists>th. threads s1 t = Some th \<and> th_state th \<in> {THREAD_SLEEPING, THREAD_DEAD}"
proof -
  have t: "t \<in> set (wait_queues s q)" using assms(2) by simp
  then obtain th where th: "threads s t = Some th" "live_ok ext (t \<in> X) s t th"
    using sched_inv_on_member [OF assms(1), of t] by (auto simp: owned_def)
  have state: "th_state th \<in> {THREAD_SLEEPING, THREAD_DEAD}" using th(2) t by (auto simp: live_ok_def)
  have other: "t \<in> set (wait_queues s q') \<longleftrightarrow> q' = q" for q' using th(2) t unfolding live_ok_def by blast
  have dist: "queues_distinct s" using assms(1) by (simp add: sched_inv_on_def)
  then have "distinct (t # ts)" using assms(2) unfolding queues_distinct_def by metis
  then have ts: "t \<notin> set ts" "distinct ts" by simp_all
  show uq: "unqueued s1 t"
    using other ts th(2) t state by (auto simp: unqueued_def s1_def live_ok_def)
  have "owned s t" using t by (auto simp: owned_def)
  then have own: "owners ext s t = Suc (ext t)" by (simp add: owners_def)
  have "\<not> owned s1 t" using uq state th(1) by (auto simp: owned_def unqueued_def s1_def)
  then have own1: "owners (ext(t := Suc (ext t))) s1 t = Suc (ext t)" by (simp add: owners_def)
  show "sched_inv_on (ext(t := Suc (ext t))) X s1"
  proof (rule sched_inv_on_update [OF assms(1), where t = t])
    show "queues_distinct s1" using dist ts by (auto simp: queues_distinct_def s1_def)
    show "thread_ok (ext(t := Suc (ext t))) (t \<in> X) s1 t"
      using th own own1 uq by (intro thread_okI [of _ _ th]) (auto simp: live_ok_def unqueued_def s1_def)
    show "same_place s s1 u" if "u \<noteq> t" for u using that assms(2) by (auto simp: same_place_def s1_def)
  qed simp_all
  show "\<exists>th. threads s1 t = Some th \<and> th_state th \<in> {THREAD_SLEEPING, THREAD_DEAD}"
    using th(1) state by (simp add: s1_def)
qed

lemma pop_wait_queue_keeps:
  assumes "wait_queues s q = t # ts" and "q \<in> Q"
  shows "keeps Q A s (s\<lparr>wait_queues := (wait_queues s)(q := ts)\<rparr>)"
proof -
  have "\<exists>n. us = drop n us" for us :: "tid list" by (rule exI [of _ 0]) simp
  moreover have "\<exists>n. ts = drop n (wait_queues s q)" by (rule exI [of _ 1]) (simp add: assms(1))
  ultimately show ?thesis using assms(2) by (simp add: keeps_def)
qed

lemma wake_one_inv:
  assumes "unref_ok unref m" and "few ext" and "sched_inv_on ext X s" and "wait_queues s q = t # ts"
    and "q = REAPER_SEM \<Longrightarrow> length ts < m" and "q \<noteq> REAPER_SEM \<Longrightarrow> length (wait_queues s REAPER_SEM) < m"
  shows "\<exists>s1 s2. sched_add_thread t (s\<lparr>wait_queues := (wait_queues s)(q := ts)\<rparr>) = Some s1
    \<and> unref t s1 = Some s2 \<and> sched_inv_on ext X s2
    \<and> keeps {q, REAPER_SEM} (set (wait_queues s q) \<union> set (wait_queues s REAPER_SEM)) s s2
    \<and> (q \<noteq> REAPER_SEM \<longrightarrow> wait_queues s2 q = ts)
    \<and> length (wait_queues s2 REAPER_SEM) \<le> length (wait_queues s REAPER_SEM) - (if q = REAPER_SEM then 1 else 0)"
proof -
  let ?A = "set (wait_queues s q) \<union> set (wait_queues s REAPER_SEM)"
  let ?s0 = "s\<lparr>wait_queues := (wait_queues s)(q := ts)\<rparr>"
  note pop = pop_wait_queue_inv [OF assms(3,4)]
  obtain th where th: "threads ?s0 t = Some th" "th_state th \<in> {THREAD_SLEEPING, THREAD_DEAD}"
    using pop(3) by blast
  have "0 < owners (ext(t := Suc (ext t))) ?s0 t" by (simp add: owners_def)
  from sched_add_thread_inv [OF pop(1) th(1) pop(2) this] th(2) obtain s1 where
    s1: "sched_add_thread t ?s0 = Some s1" "sched_inv_on (ext(t := Suc (ext t))) X s1" "wait_queues s1 = wait_queues ?s0"
    by auto
  have k1: "keeps {q, REAPER_SEM} ?A ?s0 s1" using sched_add_thread_keeps [OF s1(1)] assms(4) by simp
  have ex: "threads s1 t \<noteq> None" using k1 th(1) unfolding keeps_def
    by (metis option.rel_distinct(2))
  have "length (wait_queues s1 REAPER_SEM) < m" using s1(3) assms(5,6) by auto
  from unref_okD [OF assms(1) this assms(2) s1(2) ex] obtain s2 where
    s2: "unref t s1 = Some s2" "sched_inv_on ext X s2" "keeps {REAPER_SEM} (set (wait_queues s1 REAPER_SEM)) s1 s2" .
  have "set (wait_queues s1 REAPER_SEM) \<subseteq> ?A" using s1(3) assms(4) by auto
  then have k2: "keeps {q, REAPER_SEM} ?A s1 s2" using s2(3) by (intro keeps_mono [OF s2(3)]) auto
  have k: "keeps {q, REAPER_SEM} ?A s s2"
    using keeps_trans [OF pop_wait_queue_keeps [OF assms(4)] keeps_trans [OF k1 k2]] by simp
  moreover have "q \<noteq> REAPER_SEM \<longrightarrow> wait_queues s2 q = ts" using s2(3) s1(3) by (simp add: keeps_def)
  moreover have "length (wait_queues s2 REAPER_SEM) \<le> length (wait_queues s1 REAPER_SEM)"
    using s2(3) unfolding keeps_def by (metis diff_le_self length_drop)
  moreover have "length (wait_queues s1 REAPER_SEM)
      = length (wait_queues s REAPER_SEM) - (if q = REAPER_SEM then 1 else 0)"
    using s1(3) assms(4) by (cases "q = REAPER_SEM") auto
  ultimately show ?thesis using s1(1) s2(1,2) by auto
qed

lemma wait_wake_loop_inv:
  assumes "unref_ok unref m" and "few ext" and "sched_inv_on ext X s" and "length (wait_queues s q) < fuel"
    and "q = REAPER_SEM \<Longrightarrow> length (wait_queues s q) \<le> m"
    and "q \<noteq> REAPER_SEM \<Longrightarrow> length (wait_queues s REAPER_SEM) < m"
  shows "\<exists>k s'. wait_wake_loop unref fuel q nb n s = Some (k, s') \<and> sched_inv_on ext X s'
    \<and> keeps {q, REAPER_SEM} (set (wait_queues s q) \<union> set (wait_queues s REAPER_SEM)) s s'
    \<and> (q \<noteq> REAPER_SEM \<longrightarrow> wait_queues s' q = drop (nb - n) (wait_queues s q)
         \<and> k = n + min (nb - n) (length (wait_queues s q)))"
  using assms(3-6)
proof (induction fuel arbitrary: s n)
  case (Suc fuel)
  show ?case
  proof (cases "wait_queues s q")
    case Nil
    then show ?thesis using Suc.prems(1) by (auto simp: keeps_refl)
  next
    case (Cons t ts)
    show ?thesis
    proof (cases "n < nb")
      case False
      then show ?thesis using Suc.prems(1) Cons by (auto simp: keeps_refl)
    next
      case True
      have small: "q = REAPER_SEM \<Longrightarrow> length ts < m" using Suc.prems(3) Cons by simp
      obtain s1 s2 where s2: "sched_add_thread t (s\<lparr>wait_queues := (wait_queues s)(q := ts)\<rparr>) = Some s1"
        "unref t s1 = Some s2" "sched_inv_on ext X s2"
        "keeps {q, REAPER_SEM} (set (wait_queues s q) \<union> set (wait_queues s REAPER_SEM)) s s2"
        "q \<noteq> REAPER_SEM \<longrightarrow> wait_queues s2 q = ts"
        "length (wait_queues s2 REAPER_SEM) \<le> length (wait_queues s REAPER_SEM) - (if q = REAPER_SEM then 1 else 0)"
        using wake_one_inv [OF assms(1,2) Suc.prems(1) Cons small Suc.prems(4)] by blast
      have len: "length (wait_queues s2 q) < fuel"
        using s2(5,6) Suc.prems(2) Cons by (cases "q = REAPER_SEM") auto
      have "\<exists>k s'. wait_wake_loop unref fuel q nb (n + 1) s2 = Some (k, s') \<and> sched_inv_on ext X s'
        \<and> keeps {q, REAPER_SEM} (set (wait_queues s2 q) \<union> set (wait_queues s2 REAPER_SEM)) s2 s'
        \<and> (q \<noteq> REAPER_SEM \<longrightarrow> wait_queues s' q = drop (nb - (n + 1)) (wait_queues s2 q)
             \<and> k = n + 1 + min (nb - (n + 1)) (length (wait_queues s2 q)))"
      proof (rule Suc.IH [OF s2(3) len])
        show "length (wait_queues s2 q) \<le> m" if "q = REAPER_SEM" using that s2(6) Suc.prems(3) by simp
        show "length (wait_queues s2 REAPER_SEM) < m" if "q \<noteq> REAPER_SEM"
          using that s2(6) Suc.prems(4) by simp
      qed
      then obtain k s' where s': "wait_wake_loop unref fuel q nb (n + 1) s2 = Some (k, s')" "sched_inv_on ext X s'"
        "keeps {q, REAPER_SEM} (set (wait_queues s2 q) \<union> set (wait_queues s2 REAPER_SEM)) s2 s'"
        "q \<noteq> REAPER_SEM \<longrightarrow> wait_queues s' q = drop (nb - (n + 1)) (wait_queues s2 q)
             \<and> k = n + 1 + min (nb - (n + 1)) (length (wait_queues s2 q))" by blast
      have sub: "set (wait_queues s2 q') \<subseteq> set (wait_queues s q')" for q'
        using s2(4) set_drop_subset unfolding keeps_def by metis
      have "keeps {q, REAPER_SEM} (set (wait_queues s q) \<union> set (wait_queues s REAPER_SEM)) s s'"
        using sub [of q] sub [of REAPER_SEM] by (intro keeps_trans [OF s2(4)] keeps_mono [OF s'(3)]) auto
      moreover have "drop (nb - n) (t # ts) = drop (nb - (n + 1)) ts"
        "Suc (min (nb - (n + 1)) (length ts)) = min (nb - n) (Suc (length ts))"
        using True by (simp add: drop_Cons' Suc_diff_Suc, linarith)
      ultimately show ?thesis using s' s2(1,2,5) True Cons by auto
    qed
  qed
qed simp

lemma wait_wake_with_inv:
  assumes "unref_ok unref m" and "few ext" and "sched_inv_on ext X s"
    and "q = REAPER_SEM \<Longrightarrow> length (wait_queues s q) \<le> m"
    and "q \<noteq> REAPER_SEM \<Longrightarrow> length (wait_queues s REAPER_SEM) < m"
  shows "\<exists>k s'. wait_wake_with unref q nb s = Some (k, s') \<and> sched_inv_on ext X s'
    \<and> keeps {q, REAPER_SEM} (set (wait_queues s q) \<union> set (wait_queues s REAPER_SEM)) s s'
    \<and> (q \<noteq> REAPER_SEM \<longrightarrow> wait_queues s' q = drop nb (wait_queues s q) \<and> k = min nb (length (wait_queues s q)))"
  using wait_wake_loop_inv [OF assms(1-3) lessI assms(4,5), of nb 0] by (simp add: wait_wake_with_def)

lemma sem_value_inv:
  "sched_inv_on ext X (s\<lparr>sem_value := v\<rparr>) \<longleftrightarrow> sched_inv_on ext X s"
  "keeps Q A s (s\<lparr>sem_value := v\<rparr>)"
proof -
  have "thread_ok ext x (s\<lparr>sem_value := v\<rparr>) t = thread_ok ext x s t" for x t
    by (simp add: thread_ok_def live_ok_def owners_def owned_def split: option.splits)
  then show "sched_inv_on ext X (s\<lparr>sem_value := v\<rparr>) \<longleftrightarrow> sched_inv_on ext X s"
    by (simp add: sched_inv_on_def queues_distinct_def)
  have "\<exists>n. ts = drop n ts" for ts :: "tid list" by (rule exI [of _ 0]) simp
  then show "keeps Q A s (s\<lparr>sem_value := v\<rparr>)" by (simp add: keeps_def)
qed

lemma semaphore_up_with_inv:
  assumes "unref_ok unref m" and "few ext" and "sched_inv_on ext X s"
    and "q = REAPER_SEM \<Longrightarrow> length (wait_queues s q) \<le> m"
    and "q \<noteq> REAPER_SEM \<Longrightarrow> length (wait_queues s REAPER_SEM) < m"
  shows "\<exists>k s'. semaphore_up_with unref q s = Some (k, s') \<and> sched_inv_on ext X s'
    \<and> keeps {q, REAPER_SEM} (set (wait_queues s q) \<union> set (wait_queues s REAPER_SEM)) s s'"
proof -
  let ?v = "signed_take_bit 31 (sem_value s q + 1)"
  let ?s = "s\<lparr>sem_value := (sem_value s)(q := ?v)\<rparr>"
  have inv: "sched_inv_on ext X ?s" using assms(3) by (simp add: sem_value_inv)
  show ?thesis
  proof (cases "?v \<ge> 0")
    case True
    from wait_wake_with_inv [OF assms(1,2) inv, of q 1] assms(4,5) obtain k s' where
      "wait_wake_with unref q 1 ?s = Some (k, s')" "sched_inv_on ext X s'"
      "keeps {q, REAPER_SEM} (set (wait_queues s q) \<union> set (wait_queues s REAPER_SEM)) ?s s'" by auto
    then show ?thesis using True keeps_trans [OF sem_value_inv(2)]
      by (auto simp: semaphore_up_with_def Let_def)
  next
    case False
    then show ?thesis using inv sem_value_inv(2) by (auto simp: semaphore_up_with_def Let_def)
  qed
qed

lemma decrease_refcnt_inv:
  assumes "sched_inv_on (ext(t := Suc (ext t))) X s" and "few ext" and "threads s t = Some th"
  defines "n \<equiv> owners ext s t"
  shows "refcount_dec (th_refcnt th) = (int n, of_nat n)"
    and "n \<noteq> 0 \<Longrightarrow> sched_inv_on ext X (set_thread t (th\<lparr>th_refcnt := of_nat n\<rparr>) s)"
    and "n = 0 \<Longrightarrow> sched_inv_on ext X (set_thread t (th\<lparr>th_refcnt := 0\<rparr>) s\<lparr>reaper_list := reaper_list s @ [t]\<rparr>)"
proof -
  note live = sched_inv_on_thread [OF assms(1,3)]
  have own: "owners (ext(t := Suc (ext t))) s t = Suc n" by (simp add: owners_def n_def)
  have "n \<le> Suc (ext t)" "ext t < 2 ^ 30" using assms(2) by (auto simp: n_def owners_def few_def)
  then have "n < 2 ^ 31" by simp
  then show "refcount_dec (th_refcnt th) = (int n, of_nat n)"
    using live(1) by (simp add: live_ok_def own refcount_dec_of_nat del: of_nat_Suc)
  have reap: "t \<notin> set (reaper_list s)" using live(1) own by (simp add: live_ok_def)
  let ?s = "set_thread t (th\<lparr>th_refcnt := of_nat n\<rparr>) s"
  have own': "owned ?s u = owned s u" for u using assms(3) by (auto simp: owned_def)
  show "sched_inv_on ext X ?s" if "n \<noteq> 0"
  proof (rule sched_inv_on_update [OF assms(1), where t = t])
    show "queues_distinct ?s" using live(2) by (simp add: queues_distinct_def)
    show "thread_ok ext (t \<in> X) ?s t" using live(1) reap own' that
      by (intro thread_okI [of _ _ "th\<lparr>th_refcnt := of_nat n\<rparr>"]) (auto simp: live_ok_def owners_def n_def)
  qed (auto simp: same_place_def)
  let ?r = "set_thread t (th\<lparr>th_refcnt := 0\<rparr>) s\<lparr>reaper_list := reaper_list s @ [t]\<rparr>"
  have own'': "owned ?r u = owned s u" for u using assms(3) by (auto simp: owned_def set_thread_def)
  show "sched_inv_on ext X ?r" if "n = 0"
  proof (rule sched_inv_on_update [OF assms(1), where t = t])
    show "queues_distinct ?r" using live(2) reap by (simp add: queues_distinct_def)
    have "owners ext ?r t = 0" using own'' that by (simp add: owners_def n_def)
    then show "thread_ok ext (t \<in> X) ?r t" using live(1)
      by (intro thread_okI [of _ _ "th\<lparr>th_refcnt := 0\<rparr>"]) (auto simp: live_ok_def)
  qed (auto simp: same_place_def)
qed

lemma thread_unref_fuel_ok: "unref_ok (thread_unref_fuel fuel :: tid \<Rightarrow> 'a sched_scheme \<Rightarrow> 'a sched_scheme option) fuel"
proof (induction fuel)
  case (Suc fuel)
  show ?case unfolding unref_ok_def
  proof (intro allI impI)
    fix t ext X and s :: "'a sched_scheme"
    assume len: "length (wait_queues s REAPER_SEM) < Suc fuel" and few: "few ext"
      and inv: "sched_inv_on (ext(t := Suc (ext t))) X s" and ex: "threads s t \<noteq> None"
    obtain th where th: "threads s t = Some th" using ex by blast
    note dec = decrease_refcnt_inv [OF inv few th]
    have nodrop: "\<exists>n. ts = drop n ts" for ts :: "tid list" by (rule exI [of _ 0]) simp
    show "\<exists>s'. thread_unref_fuel (Suc fuel) t s = Some s' \<and> sched_inv_on ext X s'
      \<and> keeps {REAPER_SEM} (set (wait_queues s REAPER_SEM)) s s'"
    proof (cases "owners ext s t = 0")
      case False
      let ?s = "set_thread t (th\<lparr>th_refcnt := of_nat (owners ext s t)\<rparr>) s"
      have "keeps {REAPER_SEM} (set (wait_queues s REAPER_SEM)) s ?s"
        using th nodrop by (simp add: keeps_def same_thread_def)
      then show ?thesis using False th dec(1,2) by (simp add: Let_def)
    next
      case True
      let ?s = "set_thread t (th\<lparr>th_refcnt := 0\<rparr>) s\<lparr>reaper_list := reaper_list s @ [t]\<rparr>"
      have k: "keeps {REAPER_SEM} (set (wait_queues s REAPER_SEM)) s ?s"
        using th nodrop by (simp add: keeps_def same_thread_def)
      obtain k s' where s': "semaphore_up_with (thread_unref_fuel fuel) REAPER_SEM ?s = Some (k, s')"
        "sched_inv_on ext X s'" "keeps {REAPER_SEM} (set (wait_queues s REAPER_SEM)) ?s s'"
        using semaphore_up_with_inv [OF Suc.IH few dec(3) [OF True], of REAPER_SEM] len by auto
      have "thread_unref_fuel (Suc fuel) t s = Some s'" using th dec(1) True s'(1)
        by (simp add: reaper_reap_with_def thread_get_ref_def refcount_get_def)
      then show ?thesis using s'(2) keeps_trans [OF k s'(3)] by simp
    qed
  qed
qed (simp add: unref_ok_def)

lemma thread_unref_ok: "unref_ok thread_unref m"
  unfolding unref_ok_def thread_unref_def
  using unref_okD [OF thread_unref_fuel_ok lessI] by metis

text \<open>
  With this bound on the recursion, \<open>thread_unref\<close> satisfies the equation of the code: it drops a
  reference and hands the thread to the reaper when it was the last one.
\<close>

lemma sched_add_thread_wait_queues: "sched_add_thread t s = Some s' \<Longrightarrow> wait_queues s' = wait_queues s"
  by (auto simp: sched_add_thread_def thread_set_state_def thread_ref_def split: Option.bind_splits if_splits)

lemma wait_wake_loop_done: "wait_wake_loop unref (Suc m) q n n = (\<lambda>s. Some (n, s))"
  by (rule ext) (simp split: list.split)

lemma reaper_reap_with_cong:
  assumes "\<And>t s1. length (wait_queues s1 REAPER_SEM) < length (wait_queues s REAPER_SEM) \<Longrightarrow> f t s1 = g t s1"
  shows "reaper_reap_with f t s = reaper_reap_with g t s"
proof -
  have loop: "wait_wake_loop f (Suc m) REAPER_SEM (Suc 0) 0 s' = wait_wake_loop g (Suc m) REAPER_SEM (Suc 0) 0 s'"
    if wq: "wait_queues s' = wait_queues s" and m: "m = length (wait_queues s REAPER_SEM)" for m and s' :: "'a sched_scheme"
  proof (cases "wait_queues s' REAPER_SEM")
    case (Cons u us)
    have "f u s1 = g u s1" if "sched_add_thread u (s'\<lparr>wait_queues := (wait_queues s')(REAPER_SEM := us)\<rparr>) = Some s1" for s1
      using sched_add_thread_wait_queues [OF that] wq Cons by (intro assms) auto
    moreover obtain m' where "m = Suc m'" using wq m Cons by (cases m) simp_all
    ultimately show ?thesis using Cons
      by (simp add: wait_wake_loop_done wait_wake_loop.simps(2) [of _ "Suc m'"] del: wait_wake_loop.simps
        cong: Option.bind_cong)
  qed simp
  show ?thesis
    by (auto simp: reaper_reap_with_def semaphore_up_with_def wait_wake_with_def Let_def
      simp del: wait_wake_loop.simps intro!: Option.bind_cong arg_cong [of _ _ "map_option snd"] loop)
qed

lemma thread_unref_fuel_enough:
  "length (wait_queues s REAPER_SEM) < m \<Longrightarrow> length (wait_queues s REAPER_SEM) < n
     \<Longrightarrow> thread_unref_fuel m t s = thread_unref_fuel n t s"
proof (induction m arbitrary: n t s)
  case (Suc m)
  then obtain n' where n: "n = Suc n'" by (cases n) auto
  have "reaper_reap_with (thread_unref_fuel m) t (set_thread t th s)
      = reaper_reap_with (thread_unref_fuel n') t (set_thread t th s)" for th
    using Suc n by (intro reaper_reap_with_cong Suc.IH) auto
  then show ?case by (simp add: n Let_def split_def cong: if_cong)
qed simp

lemma thread_unref_eq:
  "thread_unref t s = do {
     th \<leftarrow> threads s t;
     let (cnt, r) = refcount_dec (th_refcnt th);
     let s = set_thread t (th\<lparr>th_refcnt := r\<rparr>) s;
     if cnt = 0 then reaper_reap t s else Some s }"
proof -
  have "reaper_reap_with (thread_unref_fuel (length (wait_queues s REAPER_SEM))) t (set_thread t th s)
      = reaper_reap t (set_thread t th s)" for th
    unfolding reaper_reap_def by (rule reaper_reap_with_cong)
      (unfold thread_unref_def, rule thread_unref_fuel_enough, auto)
  then show ?thesis by (simp add: thread_unref_def Let_def split_def cong: if_cong)
qed

end
