(* ===== verification/Sched_Ops.thy ===== *)
theory Sched_Ops
  imports Sched_Inv
begin

text \<open>
  The operations of the scheduler keep its invariant and do not fail: choosing the next thread, sleeping on
  wait queues and timers, waking, adding, removing, exiting, semaphores, clock ticks and the reaper.  The
  step relation \<open>sched_step\<close> collects them.
\<close>

section \<open>Choosing the next thread\<close>

lemma first_non_empty_queue_spec:
  "(\<forall>i. first_non_empty_queue q n < i \<and> i \<le> n \<longrightarrow> q i = []) \<and> first_non_empty_queue q n \<le> n
   \<and> ((\<exists>i \<le> n. q i \<noteq> []) \<longrightarrow> q (first_non_empty_queue q n) \<noteq> [])"
  by (induction n) (auto simp: le_Suc_eq)

lemma next_thread_Some:
  assumes "sched_inv_on ext X s" and "ready_queues s p \<noteq> []"
  obtains t ts where "ready_queues s (first_non_empty_queue_priority s) = t # ts"
    "next_thread s = Some (t, s\<lparr>ready_queues := (ready_queues s)(first_non_empty_queue_priority s := ts)\<rparr>)"
proof -
  obtain t where t: "t \<in> set (ready_queues s p)" using assms(2) by (cases "ready_queues s p") auto
  then obtain th where "live_ok ext (t \<in> X) s t th"
    using sched_inv_on_member [OF assms(1), of t] by (auto simp: owned_def)
  then have "p < SCHED_PRIORITY_LEVELS" using t by (auto simp: live_ok_def)
  then have "p \<le> SCHED_PRIORITY_LEVEL_MAX" by (simp add: SCHED_PRIORITY_LEVELS_def SCHED_PRIORITY_LEVEL_MAX_def)
  then have "ready_queues s (first_non_empty_queue_priority s) \<noteq> []"
    using assms(2) first_non_empty_queue_spec [of "ready_queues s" SCHED_PRIORITY_LEVEL_MAX]
    unfolding first_non_empty_queue_priority_def by blast
  then show ?thesis using that by (cases "ready_queues s (first_non_empty_queue_priority s)") (auto simp: next_thread_def Let_def)
qed

lemma pop_ready_queue_inv:
  assumes "sched_inv_on ext X s" and "ready_queues s p = t # ts"
  defines "s1 \<equiv> s\<lparr>ready_queues := (ready_queues s)(p := ts)\<rparr>"
  shows "sched_inv_on (ext(t := Suc (ext t))) X s1" and "unqueued s1 t"
    and "\<exists>th. threads s1 t = Some th \<and> th_state th = THREAD_READY"
proof -
  have t: "t \<in> set (ready_queues s p)" using assms(2) by simp
  then obtain th where th: "threads s t = Some th" "live_ok ext (t \<in> X) s t th"
    using sched_inv_on_member [OF assms(1), of t] by (auto simp: owned_def)
  have state: "th_state th = THREAD_READY" using th(2) t by (auto simp: live_ok_def)
  have other: "t \<in> set (ready_queues s p') \<longleftrightarrow> p' = p" for p' using th(2) t unfolding live_ok_def by blast
  have dist: "queues_distinct s" using assms(1) by (simp add: sched_inv_on_def)
  then have "distinct (t # ts)" using assms(2) unfolding queues_distinct_def by metis
  then have ts: "t \<notin> set ts" "distinct ts" by simp_all
  have nw: "t \<notin> set (wait_queues s q)" "t \<notin> set (timer_list s)" for q
    using th(2) state by (auto simp: live_ok_def)
  show uq: "unqueued s1 t" using other ts nw by (auto simp: unqueued_def s1_def)
  have "owned s t" using t by (auto simp: owned_def)
  then have own: "owners ext s t = Suc (ext t)" by (simp add: owners_def)
  have "\<not> owned s1 t" using uq state th(1) by (auto simp: owned_def unqueued_def s1_def)
  then have own1: "owners (ext(t := Suc (ext t))) s1 t = Suc (ext t)" by (simp add: owners_def)
  show "sched_inv_on (ext(t := Suc (ext t))) X s1"
  proof (rule sched_inv_on_update [OF assms(1), where t = t])
    show "queues_distinct s1" using dist ts by (auto simp: queues_distinct_def s1_def)
    show "thread_ok (ext(t := Suc (ext t))) (t \<in> X) s1 t"
      using th own own1 uq by (intro thread_okI [of _ _ th]) (auto simp: live_ok_def unqueued_def s1_def)
    show "same_place s s1 u" if "u \<noteq> t" for u using that assms(2) by (auto simp: same_place_def s1_def)
  qed simp_all
  show "\<exists>th. threads s1 t = Some th \<and> th_state th = THREAD_READY"
    using th(1) state by (simp add: s1_def)
qed

text \<open>Making a thread on no queue the running one gives its reference to the processor.\<close>

lemma set_current_thread_inv:
  assumes "sched_inv_on (ext(t := Suc (ext t))) X s" and "unqueued s t" and "threads s t = Some th"
    and "th_state th = THREAD_READY"
  shows "\<exists>s'. set_current_thread t s = Some s' \<and> sched_inv_on ext (insert t X) s' \<and> current_thread s' = Some t
    \<and> threads s' = (threads s)(t \<mapsto> th\<lparr>th_state := THREAD_RUNNING\<rparr>) \<and> ready_queues s' = ready_queues s
    \<and> current_time s' = current_time s \<and> locked s' = locked s \<and> wait_queues s' = wait_queues s"
proof -
  note live = sched_inv_on_thread [OF assms(1,3)]
  let ?th = "th\<lparr>th_state := THREAD_RUNNING\<rparr>"
  let ?s = "set_thread t ?th (s\<lparr>current_thread := Some t, current_thread_start := current_time s\<rparr>)"
  have "\<not> owned s t" using assms by (auto simp: owned_def unqueued_def)
  then have own: "owners (ext(t := Suc (ext t))) s t = Suc (ext t)" by (simp add: owners_def)
  have "owned ?s t" by (auto simp: owned_def)
  then have own': "owners ext ?s t = Suc (ext t)" by (simp add: owners_def)
  have "sched_inv_on ext (insert t X) ?s"
  proof (rule sched_inv_on_update [OF assms(1), where t = t])
    show "queues_distinct ?s" using live(2) by (simp add: queues_distinct_def)
    show "thread_ok ext (t \<in> insert t X) ?s t" using live(1) own own' assms(2)
      by (intro thread_okI [of _ _ ?th]) (auto simp: live_ok_def unqueued_def)
  qed (auto simp: same_place_def)
  moreover have "set_current_thread t s = Some ?s"
    using assms(3) by (simp add: set_current_thread_def thread_set_state_def)
  ultimately show ?thesis by simp
qed

text \<open>
  Signal delivery fits the scheduler when it keeps the invariant, leaves the chosen thread running and
  reports success.
\<close>

definition delivers :: "(tid \<Rightarrow> nat) \<Rightarrow> 'a delivery \<Rightarrow> bool" where
  "delivers ext deliver \<longleftrightarrow> (\<forall>t s X h s' th. sched_inv_on ext X s \<longrightarrow> current_thread s = Some t
     \<longrightarrow> threads s t = Some th \<longrightarrow> th_state th = THREAD_RUNNING \<longrightarrow> deliver t s = Some (h, s')
     \<longrightarrow> h \<and> sched_inv_on ext X s' \<and> current_thread s' = Some t
         \<and> (\<exists>th'. threads s' t = Some th' \<and> th_state th' = THREAD_RUNNING))"

lemma choose_next_inv:
  assumes "sched_inv_on ext X s" and "ready_queues s p \<noteq> []" and "delivers ext deliver" and "0 < fuel"
  shows "\<exists>t s'. choose_next deliver fuel s = Some (t, s') \<and> sched_inv_on ext (insert t X) s'
    \<and> t \<in> set (ready_queues s (first_non_empty_queue_priority s))
    \<and> current_thread s' = Some t \<and> (\<exists>th. threads s' t = Some th \<and> th_state th = THREAD_RUNNING)"
proof -
  let ?p = "first_non_empty_queue_priority s"
  obtain t ts where t: "ready_queues s ?p = t # ts"
    "next_thread s = Some (t, s\<lparr>ready_queues := (ready_queues s)(?p := ts)\<rparr>)" (is "_ = Some (t, ?s1)")
    using next_thread_Some [OF assms(1,2)] .
  note pop = pop_ready_queue_inv [OF assms(1) t(1)]
  obtain th where th: "threads ?s1 t = Some th" "th_state th = THREAD_READY" using pop(3) by blast
  obtain s2 where s2: "set_current_thread t ?s1 = Some s2" "sched_inv_on ext (insert t X) s2"
    "current_thread s2 = Some t" "threads s2 = (threads ?s1)(t \<mapsto> th\<lparr>th_state := THREAD_RUNNING\<rparr>)"
    using set_current_thread_inv [OF pop(1,2) th] by blast
  obtain fuel' where fuel: "fuel = Suc fuel'" using assms(4) by (cases fuel) auto
  let ?d = "if th_type th = UTHREAD then deliver t s2 else None"
  have step: "choose_next deliver fuel s = (case ?d of None \<Rightarrow> Some (t, s2)
      | Some (handled, s) \<Rightarrow> if handled then Some (t, s) else choose_next deliver fuel' s)"
    using t(2) s2(1,4) by (simp add: fuel)
  have t_in: "t \<in> set (ready_queues s ?p)" using t(1) by simp
  show ?thesis
  proof (cases ?d)
    case None
    then show ?thesis using step s2 t_in by auto
  next
    case (Some hs)
    then obtain h s' where hs: "deliver t s2 = Some (h, s')" "hs = (h, s')"
      by (cases hs) (auto split: if_splits)
    have run: "threads s2 t = Some (th\<lparr>th_state := THREAD_RUNNING\<rparr>)"
      "th_state (th\<lparr>th_state := THREAD_RUNNING\<rparr>) = THREAD_RUNNING" using s2(4) by simp_all
    have "h" "sched_inv_on ext (insert t X) s'" "current_thread s' = Some t"
      "\<exists>th. threads s' t = Some th \<and> th_state th = THREAD_RUNNING"
      using assms(3) [unfolded delivers_def, rule_format, OF s2(2,3) run(1,2) hs(1)] by blast+
    then show ?thesis using step Some hs t_in by auto
  qed
qed

section \<open>Scheduling\<close>

lemma save_context_inv:
  assumes "sched_inv_on ext X s" and "set_option (current_thread s) \<subseteq> X"
  shows "\<exists>s'. save_context ctx s = Some s' \<and> sched_inv_on ext X s' \<and> current_thread s' = current_thread s
    \<and> ready_queues s' = ready_queues s
    \<and> (\<forall>u. map_option th_state (threads s' u) = map_option th_state (threads s u))"
proof (cases "current_thread s")
  case (Some c)
  then obtain th where th: "threads s c = Some th" "live_ok ext (c \<in> X) s c th"
    using sched_inv_on_member [OF assms(1), of c] assms(2) by auto
  let ?th = "th\<lparr>th_cpu_context := ctx\<rparr>"
  let ?s = "set_thread c ?th s"
  have "owned ?s c = owned s c" using th(1) by (auto simp: owned_def)
  then have own: "owners ext ?s c = owners ext s c" by (simp add: owners_def)
  have "sched_inv_on ext X ?s"
  proof (rule sched_inv_on_update [OF assms(1), where t = c])
    show "queues_distinct ?s" using assms(1) by (simp add: sched_inv_on_def queues_distinct_def)
    show "thread_ok ext (c \<in> X) ?s c" using th own by (intro thread_okI [of _ _ ?th]) (auto simp: live_ok_def)
  qed (auto simp: same_place_def)
  then show ?thesis using Some th(1) by (auto simp: save_context_def)
qed (use assms in \<open>simp add: save_context_def\<close>)

lemma sched_inv_on_shrink:
  assumes "sched_inv_on ext X s" and "\<And>th. threads s t = Some th \<Longrightarrow> th_state th \<noteq> THREAD_RUNNING"
  shows "sched_inv_on ext (X - {t}) s"
proof (rule sched_inv_on_update [OF assms(1), where t = t])
  have "thread_ok ext (t \<in> X) s t" using assms(1) by (simp add: sched_inv_on_def)
  then show "thread_ok ext (t \<in> X - {t}) s t"
    using assms(2) by (auto simp: thread_ok_def live_ok_def split: option.splits)
qed (use assms(1) in \<open>auto simp: same_place_def sched_inv_on_def\<close>)

lemma owned_unqueued_running:
  assumes "sched_inv_on ext X s" and "threads s t = Some th" and "th_state th = THREAD_RUNNING"
  shows "unqueued s t" and "0 < owners ext s t"
  using sched_inv_on_thread(1) [OF assms(1,2)] assms(2,3)
  by (auto simp: live_ok_def unqueued_def owners_def owned_def)

lemma requeue_prev_inv:
  assumes "sched_inv_on ext X s" and "few ext" and "set_option prev \<subseteq> X"
  shows "\<exists>s'. requeue_prev prev s = Some s' \<and> sched_inv_on ext (X - set_option prev) s'
    \<and> current_thread s' = current_thread s
    \<and> (\<forall>u th. u \<notin> set_option prev \<longrightarrow> threads s u = Some th \<longrightarrow> th_state th = THREAD_RUNNING
         \<longrightarrow> (\<exists>th'. threads s' u = Some th' \<and> th_state th' = THREAD_RUNNING))"
proof (cases prev)
  case (Some p)
  then obtain th where th: "threads s p = Some th"
    using sched_inv_on_member [OF assms(1), of p] assms(3) by auto
  show ?thesis
  proof (cases "th_state th = THREAD_RUNNING")
    case False
    then have "sched_inv_on ext (X - {p}) s" using sched_inv_on_shrink [OF assms(1), of p] th by auto
    then show ?thesis using Some th False by (auto simp: requeue_prev_def)
  next
    case True
    note run = owned_unqueued_running [OF assms(1) th True]
    obtain s1 where s1: "sched_add_thread p s = Some s1" "sched_inv_on (ext(p := Suc (ext p))) X s1"
      using sched_add_thread_inv [OF assms(1) th run] True by auto
    have state1: "map_option th_state (threads s1 p) = Some THREAD_READY"
      using s1(1) th True
      by (auto simp: sched_add_thread_def thread_set_state_def thread_ref_def split: Option.bind_splits if_splits)
    then obtain th1 where th1: "threads s1 p = Some th1" "th_state th1 = THREAD_READY" by auto
    have k1: "keeps {} {p} s s1" using sched_add_thread_keeps [OF s1(1)] by blast
    obtain s2 where s2: "thread_unref p s1 = Some s2" "sched_inv_on ext X s2"
      "keeps {REAPER_SEM} (set (wait_queues s1 REAPER_SEM)) s1 s2"
      using unref_okD [OF thread_unref_ok lessI assms(2) s1(2)] th1(1) by auto
    have asleep: "u \<notin> set (wait_queues s1 REAPER_SEM)" if "threads s1 u = Some th'"
      "th_state th' = THREAD_READY \<or> th_state th' = THREAD_RUNNING" for u th'
      using sched_inv_on_thread(1) [OF s1(2) that(1)] that(2) by (auto simp: live_ok_def)
    have state2: "map_option th_state (threads s2 u) = map_option th_state (threads s1 u)"
      if "u \<notin> set (wait_queues s1 REAPER_SEM)" for u
      using s2(3) that by (simp add: keeps_def)
    have "threads s2 p = Some th2 \<Longrightarrow> th_state th2 \<noteq> THREAD_RUNNING" for th2
      using state2 [OF asleep [OF th1(1)]] th1 by auto
    then have "sched_inv_on ext (X - {p}) s2" by (rule sched_inv_on_shrink [OF s2(2)])
    moreover have "\<exists>th'. threads s2 u = Some th' \<and> th_state th' = THREAD_RUNNING"
      if u: "u \<noteq> p" "threads s u = Some thu" "th_state thu = THREAD_RUNNING" for u thu
    proof -
      have "map_option th_state (threads s1 u) = Some THREAD_RUNNING" using k1 u by (simp add: keeps_def)
      then obtain th' where th': "threads s1 u = Some th'" "th_state th' = THREAD_RUNNING" by auto
      then show ?thesis using state2 [OF asleep [OF th'(1)]] by auto
    qed
    moreover have "current_thread s2 = current_thread s" using k1 s2(3) by (simp add: keeps_def)
    ultimately show ?thesis using Some th True s1(1) s2(1) by (auto simp: requeue_prev_def)
  qed
qed (use assms in \<open>auto simp: requeue_prev_def\<close>)

definition running :: "'a sched_scheme \<Rightarrow> tid \<Rightarrow> bool" where
  "running s t \<longleftrightarrow> current_thread s = Some t \<and> map_option th_state (threads s t) = Some THREAD_RUNNING"

lemma sched_schedule_yield_inv:
  assumes "sched_inv ext s" and "few ext" and "delivers ext deliver" and "0 < fuel" and "ready_queues s p \<noteq> []"
    and "\<And>c. current_thread s = Some c \<Longrightarrow> map_option th_state (threads s c) \<noteq> Some THREAD_READY"
  shows "\<exists>ctx' s'. sched_schedule_yield deliver fuel ctx s = Some (ctx', s') \<and> sched_inv ext s'
    \<and> (\<exists>t \<in> set (ready_queues s (first_non_empty_queue_priority s)). running s' t)"
proof -
  let ?prev = "current_thread s" and ?p = "first_non_empty_queue_priority s"
  obtain s1 where s1: "save_context ctx s = Some s1" "sched_inv_on ext (set_option ?prev) s1"
    "current_thread s1 = ?prev" "ready_queues s1 = ready_queues s"
    "\<And>u. map_option th_state (threads s1 u) = map_option th_state (threads s u)"
    using save_context_inv [of ext "set_option ?prev" s ctx] assms(1) by (auto simp: sched_inv_def)
  have p: "first_non_empty_queue_priority s1 = ?p" by (simp add: first_non_empty_queue_priority_def s1(4))
  obtain t s2 where s2: "choose_next deliver fuel s1 = Some (t, s2)" "sched_inv_on ext (insert t (set_option ?prev)) s2"
    "t \<in> set (ready_queues s ?p)" "current_thread s2 = Some t"
    "\<exists>th. threads s2 t = Some th \<and> th_state th = THREAD_RUNNING"
    using choose_next_inv [OF s1(2) _ assms(3,4), of p] assms(5) s1(4) p by auto
  have neq: "t \<notin> set_option ?prev"
  proof
    assume "t \<in> set_option ?prev"
    then have "map_option th_state (threads s t) \<noteq> Some THREAD_READY" using assms(6) by simp
    moreover obtain th where "threads s t = Some th" "live_ok ext (t \<in> set_option ?prev) s t th"
      using sched_inv_on_member [OF assms(1) [unfolded sched_inv_def], of t] s2(3) by (auto simp: owned_def)
    ultimately show False using s2(3) by (auto simp: live_ok_def)
  qed
  obtain s3 where s3: "requeue_prev ?prev s2 = Some s3"
    "sched_inv_on ext (insert t (set_option ?prev) - set_option ?prev) s3" "current_thread s3 = current_thread s2"
    "\<exists>th'. threads s3 t = Some th' \<and> th_state th' = THREAD_RUNNING"
    using requeue_prev_inv [OF s2(2) assms(2), of ?prev] s2(5) neq by blast
  have "insert t (set_option ?prev) - set_option ?prev = {t}" using neq by auto
  then have "sched_inv ext s3" using s3(2,3) s2(4) by (simp add: sched_inv_def)
  moreover have "running s3 t" using s3(3,4) s2(4) by (auto simp: running_def)
  ultimately show ?thesis using s1(1) s2(1,3) s3(1,4) by (auto simp: sched_schedule_yield_def)
qed

section \<open>Sleeping, waking and leaving\<close>

lemma runningE:
  assumes "sched_inv ext s" and "running s c"
  obtains th where "current_thread s = Some c" "threads s c = Some th" "th_state th = THREAD_RUNNING"
    "unqueued s c" "th_refcnt th = of_nat (Suc (ext c))" "th_priority th < SCHED_PRIORITY_LEVELS"
proof -
  obtain th where th: "current_thread s = Some c" "threads s c = Some th" "th_state th = THREAD_RUNNING"
    using assms(2) by (auto simp: running_def)
  have inv: "sched_inv_on ext {c} s" using assms(1) th(1) by (simp add: sched_inv_def)
  have "owned s c" using th by (auto simp: owned_def)
  then have "th_refcnt th = of_nat (Suc (ext c))" "th_priority th < SCHED_PRIORITY_LEVELS"
    using sched_inv_on_thread(1) [OF inv th(2)] by (auto simp: live_ok_def owners_def)
  then show ?thesis using that th owned_unqueued_running(1) [OF inv th(2,3)] by blast
qed

lemma sched_sleep_prepare_eq:
  assumes "current_thread s = Some c" and "threads s c = Some th" and "th_refcnt th = of_nat (Suc (Suc n))"
    and "Suc (Suc n) < 2 ^ 31"
  shows "sched_sleep_prepare s = Some (set_thread c (th\<lparr>th_state := THREAD_SLEEPING, th_refcnt := th_refcnt th - 1\<rparr>) s)"
proof -
  have "sint (of_nat (Suc (Suc n)) :: 32 word) = int (Suc (Suc n))" by (rule sint_of_nat_small) fact
  moreover have "refcount_dec (of_nat (Suc (Suc n))) = (int (Suc n), of_nat (Suc n))"
    using assms(4) by (intro refcount_dec_of_nat) simp
  moreover have "(of_nat (Suc (Suc n)) :: 32 word) - 1 = of_nat (Suc n)" by simp
  ultimately show ?thesis using assms(1-3)
    by (simp add: sched_sleep_prepare_def thread_set_state_def thread_get_ref_def refcount_get_def thread_unref_eq
      set_thread_def del: of_nat_Suc)
qed

text \<open>
  The running thread goes to sleep on a wait queue or on the timer list: \<open>asleep\<close> is the state in which
  it has given up the processor and the scheduler is about to choose another thread.
\<close>

definition asleep :: "tid \<Rightarrow> thread \<Rightarrow> 'a sched_scheme \<Rightarrow> 'a sched_scheme" where
  "asleep c th s = set_thread c (th\<lparr>th_state := THREAD_SLEEPING\<rparr>) s"

lemma asleep_inv:
  assumes "sched_inv ext s" and "running s c" and "threads s c = Some th"
    and "s' = asleep c (th\<lparr>th_timer := tm\<rparr>) (s\<lparr>wait_queues := (wait_queues s)(q := wait_queues s q @ [c])\<rparr>)
       \<or> s' = asleep c (th\<lparr>th_timer := tm\<rparr>) (s\<lparr>timer_list := timer_list s @ [c]\<rparr>)"
  shows "sched_inv ext s' \<and> current_thread s' = Some c \<and> ready_queues s' = ready_queues s
    \<and> map_option th_state (threads s' c) = Some THREAD_SLEEPING"
proof -
  obtain th0 where c: "current_thread s = Some c" "threads s c = Some th0" "th_state th0 = THREAD_RUNNING" "unqueued s c"
    using runningE [OF assms(1,2)] by metis
  have inv: "sched_inv_on ext {c} s" using assms(1) c(1) by (simp add: sched_inv_def)
  note live = sched_inv_on_thread [OF inv assms(3)]
  have own: "owners ext s c = Suc (ext c)" using c(2,3) by (auto simp: owners_def owned_def)
  have own': "owners ext s' c = Suc (ext c)" using assms(4) by (auto simp: owners_def owned_def asleep_def)
  have "sched_inv_on ext {c} s'"
  proof (rule sched_inv_on_update [OF inv, where t = c])
    show "queues_distinct s'" using live(2) c(4) assms(4)
      by (auto simp: queues_distinct_def unqueued_def asleep_def)
    show "thread_ok ext (c \<in> {c}) s' c"
      using live(1) own own' assms(4) c(4)
      by (intro thread_okI [of _ _ "th\<lparr>th_timer := tm, th_state := THREAD_SLEEPING\<rparr>"])
        (auto simp: live_ok_def unqueued_def asleep_def split: if_splits)
    show "same_place s s' u" if "u \<noteq> c" for u using that assms(4)
      by (auto simp: same_place_def asleep_def split: if_splits)
  qed simp_all
  then show ?thesis using assms(4) c(1) by (auto simp: sched_inv_def asleep_def)
qed

lemma wait_wait_asleep:
  assumes "sched_inv ext s" and "few ext" and "running s c" and "threads s c = Some th"
  shows "wait_wait deliver fuel ctx q s = sched_schedule_yield deliver fuel ctx
    (asleep c th (s\<lparr>wait_queues := (wait_queues s)(q := wait_queues s q @ [c])\<rparr>))"
proof -
  have c: "current_thread s = Some c" "th_refcnt th = of_nat (Suc (ext c))"
    using runningE [OF assms(1,3)] assms(4) by (metis option.inject)+
  have "ext c < 2 ^ 30" using assms(2) by (simp add: few_def)
  then have small: "Suc (Suc (ext c)) < 2 ^ 31" by simp
  let ?s = "s\<lparr>wait_queues := (wait_queues s)(q := wait_queues s q @ [c])\<rparr>"
  let ?th = "th\<lparr>th_refcnt := th_refcnt th + 1\<rparr>"
  have r: "thread_ref c ?s = Some (set_thread c ?th ?s)"
    using assms(4) by (simp add: thread_ref_def refcount_inc_def)
  have r2: "th_refcnt ?th = of_nat (Suc (Suc (ext c)))" using c(2) by simp
  have p: "sched_sleep_prepare (set_thread c ?th ?s) = Some (asleep c th ?s)"
    using sched_sleep_prepare_eq [OF _ _ r2 small, of "set_thread c ?th ?s" c] c(1)
    by (simp add: asleep_def set_thread_def)
  show ?thesis using c(1) r p by (simp add: wait_wait_def sched_sleep_event_def)
qed

lemma sched_nanosleep_asleep:
  assumes "sched_inv ext s" and "few ext" and "running s c" and "threads s c = Some th"
  shows "sched_nanosleep deliver fuel ctx timeout s = sched_schedule_yield deliver fuel ctx
    (asleep c (th\<lparr>th_timer := timer_init timeout s\<rparr>) (s\<lparr>timer_list := timer_list s @ [c]\<rparr>))"
proof -
  have c: "current_thread s = Some c" "th_refcnt th = of_nat (Suc (ext c))"
    using runningE [OF assms(1,3)] assms(4) by (metis option.inject)+
  have "ext c < 2 ^ 30" using assms(2) by (simp add: few_def)
  then have small: "Suc (Suc (ext c)) < 2 ^ 31" by simp
  let ?s = "s\<lparr>timer_list := timer_list s @ [c]\<rparr>"
  let ?timed = "th\<lparr>th_timer := timer_init timeout s\<rparr>"
  let ?th = "?timed\<lparr>th_refcnt := th_refcnt th + 1\<rparr>"
  have a: "time_add_timer c (set_thread c ?timed s) = set_thread c ?timed ?s"
    by (simp add: time_add_timer_def set_thread_def)
  have r: "thread_ref c (set_thread c ?timed ?s) = Some (set_thread c ?th ?s)"
    by (simp add: thread_ref_def refcount_inc_def set_thread_def)
  have r2: "th_refcnt ?th = of_nat (Suc (Suc (ext c)))" using c(2) by simp
  have p: "sched_sleep_prepare (set_thread c ?th ?s) = Some (asleep c ?timed ?s)"
    using sched_sleep_prepare_eq [OF _ _ r2 small, of "set_thread c ?th ?s" c] c(1)
    by (simp add: asleep_def set_thread_def)
  show ?thesis using c(1) assms(4) a r p by (simp add: sched_nanosleep_def)
qed

text \<open>Both sleeps end with another thread running.\<close>

lemma sleep_yields:
  assumes "sched_inv ext s" and "few ext" and "delivers ext deliver" and "0 < fuel" and "ready_queues s p \<noteq> []"
    and "running s c" and "threads s c = Some th"
    and "s' = asleep c (th\<lparr>th_timer := tm\<rparr>) (s\<lparr>wait_queues := (wait_queues s)(q := wait_queues s q @ [c])\<rparr>)
       \<or> s' = asleep c (th\<lparr>th_timer := tm\<rparr>) (s\<lparr>timer_list := timer_list s @ [c]\<rparr>)"
  shows "\<exists>ctx' s''. sched_schedule_yield deliver fuel ctx s' = Some (ctx', s'') \<and> sched_inv ext s''
    \<and> (\<exists>t \<in> set (ready_queues s (first_non_empty_queue_priority s)). running s'' t)"
proof -
  note a = asleep_inv [OF assms(1,6,7,8)]
  have "\<exists>ctx' s''. sched_schedule_yield deliver fuel ctx s' = Some (ctx', s'') \<and> sched_inv ext s''
    \<and> (\<exists>t \<in> set (ready_queues s' (first_non_empty_queue_priority s')). running s'' t)"
    using a assms(5) by (intro sched_schedule_yield_inv assms(2-4)) auto
  then show ?thesis using a by (simp add: first_non_empty_queue_priority_def)
qed

lemma sched_exit_inv:
  assumes "sched_inv ext s" and "few ext" and "delivers ext deliver" and "0 < fuel" and "ready_queues s p \<noteq> []"
    and "running s c"
  shows "\<exists>ctx' s'. sched_exit deliver fuel ctx s = Some (ctx', s') \<and> sched_inv ext s' \<and> (\<exists>t. running s' t)"
proof -
  obtain th where c: "current_thread s = Some c" "threads s c = Some th" "th_state th = THREAD_RUNNING"
    "unqueued s c" "th_refcnt th = of_nat (Suc (ext c))" using runningE [OF assms(1,6)] by metis
  have inv: "sched_inv_on ext {c} s" using assms(1) c(1) by (simp add: sched_inv_def)
  let ?th = "th\<lparr>th_state := THREAD_DEAD\<rparr>"
  let ?s = "set_thread c ?th s"
  note live = sched_inv_on_thread [OF inv c(2)]
  have own: "owners ext s c = Suc (ext c)" using c(2,3) by (auto simp: owners_def owned_def)
  have "\<not> owned ?s c" using c(4) by (auto simp: owned_def unqueued_def)
  then have own': "owners (ext(c := Suc (ext c))) ?s c = Suc (ext c)" by (simp add: owners_def)
  have dead: "sched_inv_on (ext(c := Suc (ext c))) {c} ?s"
  proof (rule sched_inv_on_update [OF inv, where t = c])
    show "queues_distinct ?s" using live(2) by (simp add: queues_distinct_def)
    show "thread_ok (ext(c := Suc (ext c))) (c \<in> {c}) ?s c" using live(1) own own' c(4)
      by (intro thread_okI [of _ _ ?th]) (auto simp: live_ok_def unqueued_def)
  qed (auto simp: same_place_def)
  obtain s1 where s1: "thread_unref c ?s = Some s1" "sched_inv_on ext {c} s1"
    "keeps {REAPER_SEM} (set (wait_queues ?s REAPER_SEM)) ?s s1"
    using unref_okD [OF thread_unref_ok lessI assms(2) dead] by auto
  have cur: "current_thread s1 = Some c" using s1(3) c(1) by (simp add: keeps_def)
  have "c \<notin> set (wait_queues ?s REAPER_SEM)" using c(4) by (simp add: unqueued_def)
  then have st: "map_option th_state (threads s1 c) = Some THREAD_DEAD" using s1(3) by (simp add: keeps_def)
  have "ready_queues s1 p \<noteq> []" using s1(3) assms(5) by (auto simp: keeps_def) (metis append_is_Nil_conv)
  then have "\<exists>ctx' s'. sched_schedule_yield deliver fuel ctx s1 = Some (ctx', s') \<and> sched_inv ext s'
    \<and> (\<exists>t \<in> set (ready_queues s1 (first_non_empty_queue_priority s1)). running s' t)"
    using cur st s1(2) by (intro sched_schedule_yield_inv assms(2-4)) (auto simp: sched_inv_def)
  then show ?thesis using c(1,2) s1(1) by (auto simp: sched_exit_def thread_set_state_def)
qed

lemma keeps_current: "keeps Q A s s' \<Longrightarrow> sched_inv_on ext (set_option (current_thread s)) s' \<Longrightarrow> sched_inv ext s'"
  by (simp add: keeps_def sched_inv_def)

lemma wait_wake_inv:
  assumes "sched_inv ext s" and "few ext"
  shows "\<exists>k s'. wait_wake q nb s = Some (k, s') \<and> sched_inv ext s'
    \<and> keeps {q, REAPER_SEM} (set (wait_queues s q) \<union> set (wait_queues s REAPER_SEM)) s s'
    \<and> (q \<noteq> REAPER_SEM \<longrightarrow> wait_queues s' q = drop nb (wait_queues s q) \<and> k = min nb (length (wait_queues s q)))"
  using wait_wake_with_inv [OF thread_unref_ok [of "Suc (length (wait_queues s REAPER_SEM))"] assms(2)
      assms(1) [unfolded sched_inv_def], of q nb] keeps_current
  by (fastforce simp: wait_wake_def)

lemma semaphore_up_inv:
  assumes "sched_inv ext s" and "few ext"
  shows "\<exists>k s'. semaphore_up q s = Some (k, s') \<and> sched_inv ext s'
    \<and> keeps {q, REAPER_SEM} (set (wait_queues s q) \<union> set (wait_queues s REAPER_SEM)) s s'"
  using semaphore_up_with_inv [OF thread_unref_ok [of "Suc (length (wait_queues s REAPER_SEM))"] assms(2)
      assms(1) [unfolded sched_inv_def], of q] keeps_current
  by (fastforce simp: semaphore_up_def)

text \<open>A thread that no queue has, and that somebody holds a reference to, can be made ready.\<close>

lemma sched_add_thread_sched_inv:
  assumes "sched_inv ext s" and "threads s t = Some th" and "unqueued s t" and "0 < ext t"
    and "th_state th \<noteq> THREAD_RUNNING"
  shows "\<exists>s'. sched_add_thread t s = Some s' \<and> sched_inv ext s'"
proof -
  have "0 < owners ext s t" using assms(4) by (simp add: owners_def)
  from sched_add_thread_inv [OF assms(1) [unfolded sched_inv_def] assms(2,3) this] assms(5) obtain s' where
    s': "sched_add_thread t s = Some s'" "sched_inv_on ext (set_option (current_thread s)) s'"
    by (auto simp: fun_upd_idem)
  then show ?thesis using keeps_current [OF sched_add_thread_keeps [OF s'(1) singletonI] s'(2)] by blast
qed

lemma in_ready_queue_iff:
  assumes "sched_inv ext s"
  shows "in_ready_queue t s \<longleftrightarrow> (\<exists>p. t \<in> set (ready_queues s p))"
proof
  assume "\<exists>p. t \<in> set (ready_queues s p)"
  then obtain p where p: "t \<in> set (ready_queues s p)" by blast
  then obtain th where "live_ok ext (t \<in> set_option (current_thread s)) s t th"
    using sched_inv_on_member [OF assms [unfolded sched_inv_def], of t] by (auto simp: owned_def)
  then have "p < SCHED_PRIORITY_LEVELS" using p by (auto simp: live_ok_def)
  then show "in_ready_queue t s" using p by (auto simp: in_ready_queue_def list_ex_iff)
qed (auto simp: in_ready_queue_def list_ex_iff)

lemma sched_remove_thread_inv:
  assumes "sched_inv ext s" and "few ext" and "threads s t = Some th"
  shows "\<exists>r s'. sched_remove_thread t s = Some (r, s') \<and> sched_inv ext s' \<and> (\<forall>p. t \<notin> set (ready_queues s' p))
    \<and> (r = Inr () \<longleftrightarrow> in_ready_queue t s)"
proof (cases "in_ready_queue t s")
  case False
  then show ?thesis using assms in_ready_queue_iff [OF assms(1)] by (auto simp: sched_remove_thread_def)
next
  case True
  let ?X = "set_option (current_thread s)"
  let ?s = "s\<lparr>ready_queues := (\<lambda>p. remove1 t (ready_queues s p))\<rparr>"
  note inv = assms(1) [unfolded sched_inv_def]
  note live = sched_inv_on_thread [OF inv assms(3)]
  obtain p where p: "t \<in> set (ready_queues s p)" using True in_ready_queue_iff [OF assms(1)] by blast
  have state: "th_state th = THREAD_READY" using live(1) p by (auto simp: live_ok_def)
  have gone: "t \<notin> set (ready_queues ?s p')" for p' using live(2) by (simp add: queues_distinct_def)
  have own: "owners ext s t = Suc (ext t)" using p by (auto simp: owners_def owned_def)
  have "\<not> owned ?s t" using gone live(1) state assms(3) by (auto simp: owned_def live_ok_def)
  then have own': "owners (ext(t := Suc (ext t))) ?s t = Suc (ext t)" by (simp add: owners_def)
  have inv1: "sched_inv_on (ext(t := Suc (ext t))) ?X ?s"
  proof (rule sched_inv_on_update [OF inv, where t = t])
    show "queues_distinct ?s" using live(2) by (simp add: queues_distinct_def distinct_remove1)
    show "thread_ok (ext(t := Suc (ext t))) (t \<in> ?X) ?s t"
      using live(1) own own' gone assms(3) by (intro thread_okI [of _ _ th]) (auto simp: live_ok_def)
  qed (auto simp: same_place_def in_set_remove1)
  obtain s' where s': "thread_unref t ?s = Some s'" "sched_inv_on ext ?X s'"
    "keeps {REAPER_SEM} (set (wait_queues ?s REAPER_SEM)) ?s s'"
    using unref_okD [OF thread_unref_ok lessI assms(2) inv1] assms(3) by auto
  have "t \<notin> set (wait_queues ?s REAPER_SEM)" using live(1) state by (auto simp: live_ok_def)
  then have "t \<notin> set (ready_queues s' p')" for p'
    using s'(3) gone [of p'] unfolding keeps_def by (metis UnE set_append subsetD)
  moreover have "sched_inv ext s'" using s'(2,3) by (simp add: sched_inv_def keeps_def)
  ultimately show ?thesis using True assms(3) s'(1) by (auto simp: sched_remove_thread_def)
qed

text \<open>Destroying the first thread of the reaper's list: no queue and no owner has it any more.\<close>

lemma reaper_step_inv:
  assumes "sched_inv ext s" and "reaper_list s = t # ts" and "current_thread s \<noteq> Some t"
  shows "\<exists>s'. reaper_step s = Some s' \<and> sched_inv ext s' \<and> threads s' t = None \<and> ext t = 0"
proof -
  let ?X = "set_option (current_thread s)"
  let ?s = "thread_destroy t (s\<lparr>reaper_list := ts\<rparr>)"
  note inv = assms(1) [unfolded sched_inv_def]
  obtain th where th: "threads s t = Some th" "live_ok ext (t \<in> ?X) s t th"
    using sched_inv_on_member [OF inv, of t] assms(2) by auto
  have zero: "owners ext s t = 0" using th(2) assms(2) by (simp add: live_ok_def)
  have d: "queues_distinct s" using inv by (simp add: sched_inv_on_def)
  then have ts: "t \<notin> set ts" "distinct ts" using assms(2) by (simp_all add: queues_distinct_def)
  have "\<not> owned ?s t" using zero by (auto simp: owners_def owned_def thread_destroy_def split: if_splits)
  then have "sched_inv_on ext ?X ?s"
    using d ts assms(2,3)
    by (intro sched_inv_on_update [OF inv, where t = t])
      (auto simp: same_place_def queues_distinct_def thread_ok_def thread_destroy_def)
  then have "sched_inv ext ?s" by (simp add: sched_inv_def thread_destroy_def)
  moreover have "ext t = 0" using zero by (simp add: owners_def)
  ultimately show ?thesis using assms(2) by (simp add: reaper_step_def thread_destroy_def)
qed

section \<open>Timers\<close>

definition expired :: "'a sched_scheme \<Rightarrow> tid \<Rightarrow> bool" where
  "expired s t \<longleftrightarrow> (\<exists>th. threads s t = Some th \<and> 0 \<le> time_cmp (current_time s) (th_timer th))"

lemma pop_timer_inv:
  assumes "sched_inv_on ext X s" and "t \<in> set (timer_list s)"
  defines "s1 \<equiv> s\<lparr>timer_list := remove1 t (timer_list s)\<rparr>"
  shows "sched_inv_on (ext(t := Suc (ext t))) X s1" and "unqueued s1 t"
    and "\<exists>th. threads s1 t = Some th \<and> th_state th \<in> {THREAD_SLEEPING, THREAD_DEAD}"
proof -
  obtain th where th: "threads s t = Some th" "live_ok ext (t \<in> X) s t th"
    using sched_inv_on_member [OF assms(1), of t] assms(2) by (auto simp: owned_def)
  have state: "th_state th \<in> {THREAD_SLEEPING, THREAD_DEAD}" using th(2) assms(2) by (auto simp: live_ok_def)
  have dist: "queues_distinct s" using assms(1) by (simp add: sched_inv_on_def)
  then have gone: "t \<notin> set (timer_list s1)" by (simp add: s1_def queues_distinct_def)
  show uq: "unqueued s1 t" using gone th(2) assms(2) state by (auto simp: unqueued_def s1_def live_ok_def)
  have "owned s t" using assms(2) by (auto simp: owned_def)
  then have own: "owners ext s t = Suc (ext t)" by (simp add: owners_def)
  have "\<not> owned s1 t" using uq state th(1) by (auto simp: owned_def unqueued_def s1_def)
  then have own1: "owners (ext(t := Suc (ext t))) s1 t = Suc (ext t)" by (simp add: owners_def)
  show "sched_inv_on (ext(t := Suc (ext t))) X s1"
  proof (rule sched_inv_on_update [OF assms(1), where t = t])
    show "queues_distinct s1" using dist by (auto simp: queues_distinct_def s1_def distinct_remove1)
    show "thread_ok (ext(t := Suc (ext t))) (t \<in> X) s1 t"
      using th own own1 uq by (intro thread_okI [of _ _ th]) (auto simp: live_ok_def unqueued_def s1_def)
    show "same_place s s1 u" if "u \<noteq> t" for u using that by (auto simp: same_place_def s1_def in_set_remove1)
  qed simp_all
  show "\<exists>th. threads s1 t = Some th \<and> th_state th \<in> {THREAD_SLEEPING, THREAD_DEAD}"
    using th(1) state by (simp add: s1_def)
qed

lemma set_timer_inv:
  assumes "sched_inv_on ext X s" and "threads s t = Some th"
  shows "sched_inv_on ext X (set_thread t (th\<lparr>th_timer := tm\<rparr>) s)"
proof (rule sched_inv_on_update [OF assms(1), where t = t])
  let ?s = "set_thread t (th\<lparr>th_timer := tm\<rparr>) s"
  note live = sched_inv_on_thread [OF assms]
  have "owned ?s t = owned s t" using assms(2) by (auto simp: owned_def)
  then have "owners ext ?s t = owners ext s t" by (simp add: owners_def)
  then show "thread_ok ext (t \<in> X) ?s t" using live(1)
    by (intro thread_okI [of _ _ "th\<lparr>th_timer := tm\<rparr>"]) (auto simp: live_ok_def)
  show "queues_distinct ?s" using live(2) by (simp add: queues_distinct_def)
qed (auto simp: same_place_def)

lemma timer_callback_inv:
  assumes "sched_inv ext s" and "few ext" and "t \<in> set (timer_list s)"
  shows "\<exists>s'. sched_timer_callback t (s\<lparr>timer_list := remove1 t (timer_list s)\<rparr>) = Some s' \<and> sched_inv ext s'
    \<and> timer_list s' = remove1 t (timer_list s) \<and> current_time s' = current_time s \<and> tick_value s' = tick_value s
    \<and> current_thread s' = current_thread s
    \<and> (\<forall>u. u \<noteq> t \<longrightarrow> map_option th_timer (threads s' u) = map_option th_timer (threads s u))"
proof -
  let ?X = "set_option (current_thread s)"
  let ?s = "s\<lparr>timer_list := remove1 t (timer_list s)\<rparr>"
  note pop = pop_timer_inv [OF assms(1) [unfolded sched_inv_def] assms(3)]
  obtain th where th: "threads ?s t = Some th" "th_state th \<in> {THREAD_SLEEPING, THREAD_DEAD}" using pop(3) by blast
  have "0 < owners (ext(t := Suc (ext t))) ?s t" by (simp add: owners_def)
  from sched_add_thread_inv [OF pop(1) th(1) pop(2) this] th(2) obtain s1 where
    s1: "sched_add_thread t ?s = Some s1" "sched_inv_on (ext(t := Suc (ext t))) ?X s1"
    "wait_queues s1 = wait_queues ?s" by auto
  have k1: "keeps {} {t} ?s s1" using sched_add_thread_keeps [OF s1(1)] by blast
  then have ex: "threads s1 t \<noteq> None" using th(1) unfolding keeps_def by (metis option.rel_distinct(2))
  obtain s2 where s2: "thread_unref t s1 = Some s2" "sched_inv_on ext ?X s2"
    "keeps {REAPER_SEM} (set (wait_queues s1 REAPER_SEM)) s1 s2"
    using unref_okD [OF thread_unref_ok lessI assms(2) s1(2) ex] .
  obtain th2 where th2: "threads s2 t = Some th2"
    using s2(3) ex unfolding keeps_def by (metis option.exhaust option.rel_distinct(2))
  let ?s' = "set_thread t (th2\<lparr>th_timer := zero_time\<rparr>) s2"
  have "sched_timer_callback t ?s = Some ?s'" using s1(1) s2(1) th2 by (simp add: sched_timer_callback_def)
  moreover have "sched_inv ext ?s'" using set_timer_inv [OF s2(2) th2] k1 s2(3) by (simp add: sched_inv_def keeps_def)
  moreover have "map_option th_timer (threads ?s' u) = map_option th_timer (threads s u)" if "u \<noteq> t" for u
  proof -
    have "rel_option same_thread (threads s u) (threads s2 u)"
      using k1 s2(3) rel_same_thread_trans unfolding keeps_def by fastforce
    then show ?thesis using that by (cases "threads s u"; cases "threads s2 u") (auto simp: same_thread_def)
  qed
  moreover have "timer_list ?s' = remove1 t (timer_list s)" "current_time ?s' = current_time s"
    "tick_value ?s' = tick_value s" "current_thread ?s' = current_thread s"
    using k1 s2(3) by (simp_all add: keeps_def)
  ultimately show ?thesis by blast
qed

lemma update_timers_inv:
  assumes "sched_inv ext s" and "few ext" and "distinct ts" and "set ts \<subseteq> set (timer_list s)"
  shows "\<exists>s'. update_timers ts s = Some s' \<and> sched_inv ext s' \<and> current_time s' = current_time s
    \<and> tick_value s' = tick_value s \<and> current_thread s' = current_thread s
    \<and> set (timer_list s') = {t \<in> set (timer_list s). \<not> (t \<in> set ts \<and> expired s t)}
    \<and> (\<forall>u \<in> set (timer_list s'). map_option th_timer (threads s' u) = map_option th_timer (threads s u))"
  using assms
proof (induction ts arbitrary: s)
  case (Cons t ts)
  have t: "t \<in> set (timer_list s)" "t \<notin> set ts" using Cons.prems by auto
  then obtain th where th: "threads s t = Some th"
    using sched_inv_on_member [OF Cons.prems(1) [unfolded sched_inv_def], of t] by (auto simp: owned_def)
  show ?case
  proof (cases "expired s t")
    case False
    then have step: "update_timers (t # ts) s = update_timers ts s" using th by (simp add: expired_def)
    have eq: "{u \<in> set (timer_list s). \<not> (u \<in> set (t # ts) \<and> expired s u)}
        = {u \<in> set (timer_list s). \<not> (u \<in> set ts \<and> expired s u)}" using False by auto
    show ?thesis unfolding step eq using Cons.IH [OF Cons.prems(1,2)] Cons.prems(3,4) by simp
  next
    case True
    obtain s1 where s1: "sched_timer_callback t (s\<lparr>timer_list := remove1 t (timer_list s)\<rparr>) = Some s1"
      "sched_inv ext s1" "timer_list s1 = remove1 t (timer_list s)" "current_time s1 = current_time s"
      "tick_value s1 = tick_value s" "current_thread s1 = current_thread s"
      "\<And>u. u \<noteq> t \<Longrightarrow> map_option th_timer (threads s1 u) = map_option th_timer (threads s u)"
      using timer_callback_inv [OF Cons.prems(1,2) t(1)] by blast
    have d: "distinct (timer_list s)"
      using Cons.prems(1) by (simp add: sched_inv_def sched_inv_on_def queues_distinct_def)
    then have tl1: "set (timer_list s1) = set (timer_list s) - {t}" by (simp add: s1(3))
    have exp: "expired s1 u = expired s u" if "u \<noteq> t" for u
      using s1(7) [OF that] s1(4) by (cases "threads s u"; cases "threads s1 u") (auto simp: expired_def)
    have "set ts \<subseteq> set (timer_list s1)" using Cons.prems(4) t(2) tl1 by auto
    from Cons.IH [OF s1(2) Cons.prems(2) _ this] Cons.prems(3) obtain s' where
      s': "update_timers ts s1 = Some s'" "sched_inv ext s'" "current_time s' = current_time s1"
      "tick_value s' = tick_value s1" "current_thread s' = current_thread s1"
      "set (timer_list s') = {u \<in> set (timer_list s1). \<not> (u \<in> set ts \<and> expired s1 u)}"
      "\<And>u. u \<in> set (timer_list s') \<Longrightarrow> map_option th_timer (threads s' u) = map_option th_timer (threads s1 u)"
      by auto
    have "set (timer_list s') = {u \<in> set (timer_list s). \<not> (u \<in> set (t # ts) \<and> expired s u)}"
      unfolding s'(6) tl1 using True exp t(2) by auto (metis+)
    moreover have "map_option th_timer (threads s' u) = map_option th_timer (threads s u)" if "u \<in> set (timer_list s')" for u
      using s'(7) [OF that] that s1(7) [of u] unfolding s'(6) tl1 by auto
    moreover have "update_timers (t # ts) s = Some s'" using True th s1(1) s'(1) by (simp add: expired_def)
    ultimately show ?thesis using s' s1 by auto
  qed
qed auto

lemma time_tick_inv:
  assumes "sched_inv ext s" and "few ext"
  defines "now \<equiv> timespec_add (current_time s) (tick_value s)"
  shows "\<exists>s'. time_tick s = Some s' \<and> sched_inv ext s' \<and> current_time s' = now \<and> tick_value s' = tick_value s
    \<and> current_thread s' = current_thread s \<and> set (timer_list s') \<subseteq> set (timer_list s)
    \<and> (\<forall>t th. threads s t = Some th \<longrightarrow>
         (t \<in> set (timer_list s') \<longleftrightarrow> t \<in> set (timer_list s) \<and> time_cmp now (th_timer th) < 0))
    \<and> (\<forall>u \<in> set (timer_list s'). map_option th_timer (threads s' u) = map_option th_timer (threads s u))"
proof -
  let ?s = "s\<lparr>current_time := now\<rparr>"
  have "thread_ok ext x ?s t = thread_ok ext x s t" for x t
    by (simp add: thread_ok_def live_ok_def owners_def owned_def split: option.splits)
  then have inv: "sched_inv ext ?s"
    using assms(1) by (simp add: sched_inv_def sched_inv_on_def queues_distinct_def)
  have d: "distinct (timer_list ?s)"
    using assms(1) by (simp add: sched_inv_def sched_inv_on_def queues_distinct_def)
  have "(t \<in> set (timer_list s) \<and> \<not> expired ?s t) = (t \<in> set (timer_list s) \<and> time_cmp now (th_timer th) < 0)"
    if "threads s t = Some th" for t th using that by (auto simp: expired_def)
  then show ?thesis
    using update_timers_inv [OF inv assms(2) d] by (fastforce simp: time_tick_def time_update_timer_list_def now_def)
qed

section \<open>Reachable states\<close>

lemma thread_ref_inv:
  assumes "sched_inv ext s" and "threads s t = Some th" and "0 < owners ext s t"
  shows "\<exists>s'. thread_ref t s = Some s' \<and> sched_inv (ext(t := Suc (ext t))) s'"
proof -
  let ?X = "set_option (current_thread s)"
  let ?th = "th\<lparr>th_refcnt := th_refcnt th + 1\<rparr>"
  let ?s = "set_thread t ?th s"
  note inv = assms(1) [unfolded sched_inv_def]
  note live = sched_inv_on_thread [OF inv assms(2)]
  have "owned ?s t = owned s t" using assms(2) by (auto simp: owned_def)
  then have own: "owners (ext(t := Suc (ext t))) ?s t = Suc (owners ext s t)" by (simp add: owners_def)
  have "sched_inv_on (ext(t := Suc (ext t))) ?X ?s"
  proof (rule sched_inv_on_update [OF inv, where t = t])
    show "thread_ok (ext(t := Suc (ext t))) (t \<in> ?X) ?s t" using live(1) own assms(3)
      by (intro thread_okI [of _ _ ?th]) (auto simp: live_ok_def)
    show "queues_distinct ?s" using live(2) by (simp add: queues_distinct_def)
  qed (auto simp: same_place_def)
  then show ?thesis using assms(2) by (simp add: thread_ref_def refcount_inc_def sched_inv_def)
qed

lemma thread_unref_inv:
  assumes "sched_inv (ext(t := Suc (ext t))) s" and "few ext" and "threads s t = Some th"
  shows "\<exists>s'. thread_unref t s = Some s' \<and> sched_inv ext s'"
  using unref_okD [OF thread_unref_ok lessI assms(2) assms(1) [unfolded sched_inv_def]] assms(3) keeps_current
  by (metis option.distinct(1))

lemma thread_create_inv:
  assumes "sched_inv ext s" and "threads s t = None" and "priority < SCHED_PRIORITY_LEVELS"
  shows "sched_inv (ext(t := 1)) (snd (thread_create_with t a b ty priority ctx s)) \<or> \<not> (a \<and> b)"
proof -
  let ?X = "set_option (current_thread s)" and ?th = "init_thread ty priority ctx"
  let ?s = "set_thread t ?th s"
  note inv = assms(1) [unfolded sched_inv_def]
  have "thread_ok ext (t \<in> ?X) s t" using inv by (simp add: sched_inv_on_def)
  then have t: "\<not> owned s t" "t \<notin> set (reaper_list s)" "t \<notin> ?X" using assms(2) by (simp_all add: thread_ok_def)
  have "owners (ext(t := 1)) ?s t = 1" using t(1) by (auto simp: owners_def owned_def init_thread_def)
  then have ok: "thread_ok (ext(t := 1)) (t \<in> ?X) ?s t" using t assms(3)
    by (intro thread_okI [of _ _ ?th]) (auto simp: live_ok_def init_thread_def refcount_init_def owned_def)
  have "sched_inv_on (ext(t := 1)) ?X ?s"
    using ok inv by (intro sched_inv_on_update [OF inv, where t = t])
      (auto simp: same_place_def sched_inv_on_def queues_distinct_def)
  then show ?thesis by (simp add: thread_create_with_def sched_inv_def)
qed

text \<open>
  The steps of the system: a configuration is a state with the count of the references that the rest of
  the kernel holds.  Threads are created, referenced and dropped; ready, removed, woken; the running
  thread yields, sleeps, exits or takes a semaphore; the clock ticks and the reaper works.
\<close>

inductive sched_step ::
  "'a delivery \<Rightarrow> nat \<Rightarrow> (tid \<Rightarrow> nat) \<times> 'a sched_scheme \<Rightarrow> (tid \<Rightarrow> nat) \<times> 'a sched_scheme \<Rightarrow> bool"
  for deliver fuel where
  step_create: "threads s t = None \<Longrightarrow> priority < SCHED_PRIORITY_LEVELS \<Longrightarrow>
    thread_create_with t True True ty priority ctx s = (Inr t, s') \<Longrightarrow> sched_step deliver fuel (ext, s) (ext(t := 1), s')"
| step_ref: "0 < owners ext s t \<Longrightarrow> thread_ref t s = Some s' \<Longrightarrow> sched_step deliver fuel (ext, s) (ext(t := Suc (ext t)), s')"
| step_unref: "threads s t = Some th \<Longrightarrow> thread_unref t s = Some s' \<Longrightarrow>
    sched_step deliver fuel (ext(t := Suc (ext t)), s) (ext, s')"
| step_add: "threads s t = Some th \<Longrightarrow> unqueued s t \<Longrightarrow> 0 < ext t \<Longrightarrow> th_state th \<noteq> THREAD_RUNNING \<Longrightarrow>
    sched_add_thread t s = Some s' \<Longrightarrow> sched_step deliver fuel (ext, s) (ext, s')"
| step_remove: "sched_remove_thread t s = Some (r, s') \<Longrightarrow> sched_step deliver fuel (ext, s) (ext, s')"
| step_schedule: "running s c \<Longrightarrow> ready_queues s p \<noteq> [] \<Longrightarrow> sched_schedule_yield deliver fuel ctx s = Some (ctx', s') \<Longrightarrow>
    sched_step deliver fuel (ext, s) (ext, s')"
| step_wait: "running s c \<Longrightarrow> ready_queues s p \<noteq> [] \<Longrightarrow> wait_wait deliver fuel ctx q s = Some (ctx', s') \<Longrightarrow>
    sched_step deliver fuel (ext, s) (ext, s')"
| step_nanosleep: "running s c \<Longrightarrow> ready_queues s p \<noteq> [] \<Longrightarrow> sched_nanosleep deliver fuel ctx timeout s = Some (ctx', s') \<Longrightarrow>
    sched_step deliver fuel (ext, s) (ext, s')"
| step_exit: "running s c \<Longrightarrow> ready_queues s p \<noteq> [] \<Longrightarrow> sched_exit deliver fuel ctx s = Some (ctx', s') \<Longrightarrow>
    sched_step deliver fuel (ext, s) (ext, s')"
| step_down: "running s c \<Longrightarrow> ready_queues s p \<noteq> [] \<Longrightarrow> semaphore_down deliver fuel ctx q s = Some (ctx', s') \<Longrightarrow>
    sched_step deliver fuel (ext, s) (ext, s')"
| step_wake: "wait_wake q nb s = Some (k, s') \<Longrightarrow> sched_step deliver fuel (ext, s) (ext, s')"
| step_up: "semaphore_up q s = Some (k, s') \<Longrightarrow> sched_step deliver fuel (ext, s) (ext, s')"
| step_tick: "time_tick s = Some s' \<Longrightarrow> sched_step deliver fuel (ext, s) (ext, s')"
| step_reap: "reaper_list s = t # ts \<Longrightarrow> current_thread s \<noteq> Some t \<Longrightarrow> reaper_step s = Some s' \<Longrightarrow>
    sched_step deliver fuel (ext, s) (ext, s')"

inductive sched_reach ::
  "'a delivery \<Rightarrow> nat \<Rightarrow> (tid \<Rightarrow> nat) \<times> 'a sched_scheme \<Rightarrow> (tid \<Rightarrow> nat) \<times> 'a sched_scheme \<Rightarrow> bool"
  for deliver fuel x where
  reach_start: "sched_reach deliver fuel x x"
| reach_step: "sched_reach deliver fuel x y \<Longrightarrow> sched_step deliver fuel y (ext, s) \<Longrightarrow> few ext \<Longrightarrow>
    sched_reach deliver fuel x (ext, s)"

lemma semaphore_down_inv:
  assumes "sched_inv ext s" and "few ext" and "delivers ext deliver" and "0 < fuel" and "ready_queues s p \<noteq> []"
    and "running s c"
  shows "\<exists>ctx' s'. semaphore_down deliver fuel ctx q s = Some (ctx', s') \<and> sched_inv ext s' \<and> (\<exists>t. running s' t)"
proof -
  let ?v = "signed_take_bit 31 (sem_value s q - 1)"
  let ?s = "s\<lparr>sem_value := (sem_value s)(q := ?v)\<rparr>"
  have inv: "sched_inv ext ?s" using assms(1) by (simp add: sched_inv_def sem_value_inv)
  have run: "running ?s c" using assms(6) by (simp add: running_def)
  show ?thesis
  proof (cases "?v < 0")
    case True
    obtain th where th: "threads ?s c = Some th" using runningE [OF inv run] .
    have "asleep c th r = asleep c (th\<lparr>th_timer := th_timer th\<rparr>) r" for r :: "'a sched_scheme" by simp
    then show ?thesis
      using True wait_wait_asleep [OF inv assms(2) run th]
        sleep_yields [OF inv assms(2-4) _ run th, where tm = "th_timer th" and q = q and p = p and ctx = ctx] assms(5)
      by (fastforce simp: semaphore_down_def Let_def)
  next
    case False
    then show ?thesis using inv run by (auto simp: semaphore_down_def Let_def)
  qed
qed

lemma thread_exists_wait_wait:
  assumes "sched_inv ext s" and "few ext" and "delivers ext deliver" and "0 < fuel" and "ready_queues s p \<noteq> []"
    and "running s c"
  shows "\<exists>ctx' s'. wait_wait deliver fuel ctx q s = Some (ctx', s') \<and> sched_inv ext s' \<and> (\<exists>t. running s' t)"
    and "\<exists>ctx' s'. sched_nanosleep deliver fuel ctx timeout s = Some (ctx', s') \<and> sched_inv ext s' \<and> (\<exists>t. running s' t)"
    and "\<exists>ctx' s'. sched_schedule_yield deliver fuel ctx s = Some (ctx', s') \<and> sched_inv ext s' \<and> (\<exists>t. running s' t)"
proof -
  obtain th where th: "current_thread s = Some c" "threads s c = Some th" "th_state th = THREAD_RUNNING"
    using runningE [OF assms(1,6)] .
  show "\<exists>ctx' s'. wait_wait deliver fuel ctx q s = Some (ctx', s') \<and> sched_inv ext s' \<and> (\<exists>t. running s' t)"
    using sleep_yields [OF assms(1-6) th(2) disjI1 [OF refl], where tm = "th_timer th" and q = q and ctx = ctx]
       wait_wait_asleep [OF assms(1,2,6) th(2)] by fastforce
  show "\<exists>ctx' s'. sched_nanosleep deliver fuel ctx timeout s = Some (ctx', s') \<and> sched_inv ext s' \<and> (\<exists>t. running s' t)"
    using sleep_yields [OF assms(1-6) th(2) disjI2 [OF refl], where tm = "timer_init timeout s" and ctx = ctx]
       sched_nanosleep_asleep [OF assms(1,2,6) th(2)] by fastforce
  show "\<exists>ctx' s'. sched_schedule_yield deliver fuel ctx s = Some (ctx', s') \<and> sched_inv ext s' \<and> (\<exists>t. running s' t)"
    using sched_schedule_yield_inv [OF assms(1-5), of ctx] th by fastforce
qed

lemma sched_step_inv:
  assumes "sched_step deliver fuel (ext, s) (ext', s')" and "sched_inv ext s" and "few ext" and "few ext'"
    and "\<And>e. delivers e deliver" and "0 < fuel"
  shows "sched_inv ext' s'"
  using assms(1)
proof cases
  case (step_create t priority ty ctx)
  then show ?thesis using thread_create_inv [OF assms(2), of t priority True True ty ctx] by simp
next
  case (step_ref t)
  then obtain th where "threads s t = Some th" by (auto simp: thread_ref_def split: Option.bind_splits)
  then show ?thesis using step_ref thread_ref_inv [OF assms(2)] by fastforce
next
  case (step_unref t th)
  then show ?thesis using thread_unref_inv [of ext' t s th] assms(2,4) by auto
next
  case (step_add t th)
  then show ?thesis using sched_add_thread_sched_inv [OF assms(2)] by fastforce
next
  case (step_remove t r)
  then obtain th where "threads s t = Some th" by (auto simp: sched_remove_thread_def split: Option.bind_splits)
  then show ?thesis using step_remove sched_remove_thread_inv [OF assms(2,3)] by fastforce
next
  case (step_schedule c p ctx ctx')
  then show ?thesis using thread_exists_wait_wait(3) [OF assms(2,3,5,6), of p c ctx] by auto
next
  case (step_wait c p ctx q ctx')
  then show ?thesis using thread_exists_wait_wait(1) [OF assms(2,3,5,6), of p c ctx q] by auto
next
  case (step_nanosleep c p ctx timeout ctx')
  then show ?thesis using thread_exists_wait_wait(2) [OF assms(2,3,5,6), of p c ctx timeout] by auto
next
  case (step_exit c p ctx ctx')
  then show ?thesis using sched_exit_inv [OF assms(2,3,5,6), of p c ctx] by auto
next
  case (step_down c p ctx q ctx')
  then show ?thesis using semaphore_down_inv [OF assms(2,3,5,6), of p c ctx q] by auto
next
  case (step_wake q nb k)
  then show ?thesis using wait_wake_inv [OF assms(2,3), of q nb] by auto
next
  case (step_up q k)
  then show ?thesis using semaphore_up_inv [OF assms(2,3), of q] by auto
next
  case step_tick
  then show ?thesis using time_tick_inv [OF assms(2,3)] by auto
next
  case (step_reap t ts)
  then show ?thesis using reaper_step_inv [OF assms(2)] by fastforce
qed

end
