(* ===== verification/Sched_Props.thy ===== *)
theory Sched_Props
  imports Sched_Ops
begin

text \<open>
  What the scheduler, its wait queues, semaphores and timers promise: the invariant of all reachable
  states, progress, the round robin of a priority level, the length of a sleep, whom a semaphore wakes, and
  what an interrupted sleep leaves behind.
\<close>

section \<open>Correctness\<close>

text \<open>A kernel with no threads, a clock of one tick per 10 milliseconds, and no signals.\<close>

definition boot_sched :: sched where
  "boot_sched = \<lparr>threads = (\<lambda>_. None), current_thread = None, current_thread_start = zero_time,
     ready_queues = (\<lambda>_. []), wait_queues = (\<lambda>_. []), sem_value = (\<lambda>_. 0), reaper_list = [], timer_list = [],
     current_time = zero_time, tick_value = \<lparr>tv_sec = 0, tv_nsec = 10000000\<rparr>, locked = (\<lambda>_. False),
     proc_threads = (\<lambda>_. [])\<rparr>"

lemma boot_sched_inv: "sched_inv (\<lambda>_. 0) boot_sched"
  by (simp add: sched_inv_def sched_inv_on_def thread_ok_def owned_def queues_distinct_def boot_sched_def)

lemma delivers_none: "delivers ext (\<lambda>_ _. None)"
  by (simp add: delivers_def)




text \<open>Thread 1 runs and thread 2 is ready, both with the default priority; nothing else holds them.\<close>

definition thread_in :: "thread_state \<Rightarrow> thread" where
  "thread_in st = (init_thread KTHREAD SCHED_PRIORITY_LEVEL_DEFAULT 0)\<lparr>th_state := st\<rparr>"

definition two_threads :: sched where
  "two_threads = boot_sched\<lparr>threads := [1 \<mapsto> thread_in THREAD_RUNNING, 2 \<mapsto> thread_in THREAD_READY],
     current_thread := Some 1, ready_queues := (\<lambda>_. [])(SCHED_PRIORITY_LEVEL_DEFAULT := [2])\<rparr>"

lemma two_threads_inv: "sched_inv (\<lambda>_. 0) two_threads"
proof -
  have "thread_ok (\<lambda>_. 0) (t \<in> {1}) two_threads t" for t
    by (cases "t = 1"; cases "t = 2")
      (auto simp: thread_ok_def live_ok_def owners_def owned_def two_threads_def thread_in_def init_thread_def
        boot_sched_def refcount_init_def SCHED_PRIORITY_LEVELS_def SCHED_PRIORITY_LEVEL_DEFAULT_def split: if_splits)
  then show ?thesis
    by (simp add: sched_inv_def sched_inv_on_def queues_distinct_def two_threads_def boot_sched_def)
qed

lemma two_threads_running: "running two_threads 1" "ready_queues two_threads 3 = [2]" "few (\<lambda>_. 0)"
  by (simp_all add: running_def two_threads_def thread_in_def few_def SCHED_PRIORITY_LEVEL_DEFAULT_def)


section \<open>Scheduling policy\<close>

text \<open>Without pending signals a switch of threads is this change of the state.\<close>

lemma requeue_prev_running:
  assumes "sched_inv_on ext X s" and "few ext" and "threads s c = Some th" and "th_state th = THREAD_RUNNING"
    and "\<not> (th_type th = UTHREAD \<and> locked s (th_process th))"
  shows "\<exists>th'. requeue_prev (Some c) s = Some (set_thread c th' (s\<lparr>ready_queues := (ready_queues s)
      (th_priority th := ready_queues s (th_priority th) @ [c])\<rparr>)) \<and> same_thread th th' \<and> th_state th' = THREAD_READY"
proof -
  let ?s = "s\<lparr>ready_queues := (ready_queues s)(th_priority th := ready_queues s (th_priority th) @ [c])\<rparr>"
  let ?th = "th\<lparr>th_state := THREAD_READY\<rparr>"
  note live = sched_inv_on_thread(1) [OF assms(1,3)]
  have own: "owners ext s c = Suc (ext c)" using assms(3,4) by (auto simp: owners_def owned_def)
  have small: "Suc (ext c) < 2 ^ 31" using assms(2) [unfolded few_def, rule_format, of c] by simp
  have ref: "th_refcnt th + 1 = of_nat (Suc (Suc (ext c)))" using live own by (simp add: live_ok_def)
  have add: "sched_add_thread c s = Some (set_thread c (?th\<lparr>th_refcnt := th_refcnt th + 1\<rparr>) ?s)"
    using assms(3-5) live
    by (auto simp: sched_add_thread_def thread_set_state_def thread_ref_def refcount_inc_def live_ok_def set_thread_def)
  have dec: "refcount_dec (th_refcnt th + 1) = (int (Suc (ext c)), of_nat (Suc (ext c)))"
    unfolding ref using small by (rule refcount_dec_of_nat)
  have "thread_unref c (set_thread c (?th\<lparr>th_refcnt := th_refcnt th + 1\<rparr>) ?s)
      = Some (set_thread c (?th\<lparr>th_refcnt := of_nat (Suc (ext c))\<rparr>) ?s)"
    by (simp add: thread_unref_eq dec set_thread_def del: of_nat_Suc)
  then show ?thesis using assms(3,4) add by (auto simp: requeue_prev_def same_thread_def)
qed

lemma yield_no_signal:
  assumes "sched_inv ext s" and "few ext" and "0 < fuel" and "running s c" and "threads s c = Some th"
    and "\<not> (th_type th = UTHREAD \<and> locked s (th_process th))" and "ready_queues s p \<noteq> []"
  defines "h \<equiv> first_non_empty_queue_priority s"
  defines "q \<equiv> (ready_queues s)(h := tl (ready_queues s h))"
  shows "\<exists>ctx' s'. sched_schedule_yield (\<lambda>_ _. None) fuel ctx s = Some (ctx', s') \<and> sched_inv ext s'
    \<and> running s' (hd (ready_queues s h)) \<and> ready_queues s' = q(th_priority th := q (th_priority th) @ [c])
    \<and> locked s' = locked s \<and> (\<forall>u. map_option th_priority (threads s' u) = map_option th_priority (threads s u))"
proof -
  have c: "current_thread s = Some c" "th_state th = THREAD_RUNNING"
    using assms(4,5) by (auto simp: running_def)
  obtain ts t where t: "ready_queues s h = t # ts"
    "next_thread s = Some (t, s\<lparr>ready_queues := (ready_queues s)(h := ts)\<rparr>)"
    using next_thread_Some [OF assms(1) [unfolded sched_inv_def] assms(7)] unfolding h_def by metis
  obtain tht where tht: "threads s t = Some tht" "th_state tht = THREAD_READY"
    using pop_ready_queue_inv(3) [OF assms(1) [unfolded sched_inv_def] t(1)] by auto
  have neq: "t \<noteq> c" using tht c(2) assms(5) by auto
  define s1 where "s1 = set_thread c (th\<lparr>th_cpu_context := ctx\<rparr>) s"
  define s2 where "s2 = set_thread t (tht\<lparr>th_state := THREAD_RUNNING\<rparr>)
    (s1\<lparr>ready_queues := (ready_queues s)(h := ts), current_thread := Some t, current_thread_start := current_time s\<rparr>)"
  have sc: "save_context ctx s = Some s1" using c(1) assms(5) by (simp add: save_context_def s1_def)
  have "first_non_empty_queue_priority s1 = h"
    by (simp add: h_def first_non_empty_queue_priority_def s1_def)
  then have nt: "next_thread s1 = Some (t, s1\<lparr>ready_queues := (ready_queues s)(h := ts)\<rparr>)"
    using t(1) by (simp add: next_thread_def s1_def)
  obtain fuel' where fuel: "fuel = Suc fuel'" using assms(3) by (cases fuel) auto
  have cn: "choose_next (\<lambda>_ _. None) fuel s1 = Some (t, s2)"
    using nt tht(1) neq by (simp add: fuel set_current_thread_def thread_set_state_def s1_def s2_def set_thread_def)
  obtain t' s2' where "choose_next (\<lambda>_ _. None) fuel s1 = Some (t', s2')" "sched_inv_on ext (insert t' {c}) s2'"
    using save_context_inv [OF assms(1) [unfolded sched_inv_def], of ctx] sc c(1) assms(7)
      choose_next_inv [of ext "{c}" s1 p "\<lambda>_ _. None" fuel] delivers_none assms(3) by (fastforce simp: s1_def)
  then have inv2: "sched_inv_on ext {t, c} s2" using cn by simp
  have thc: "threads s2 c = Some (th\<lparr>th_cpu_context := ctx\<rparr>)" using neq by (simp add: s2_def s1_def)
  obtain th' where rq: "requeue_prev (Some c) s2 = Some (set_thread c th' (s2\<lparr>ready_queues := (ready_queues s2)
      (th_priority th := ready_queues s2 (th_priority th) @ [c])\<rparr>))" "th_priority th' = th_priority th"
    using requeue_prev_running [OF inv2 assms(2) thc] c(2) assms(6)
    by (auto simp: s2_def s1_def same_thread_def)
  define s3 where "s3 = set_thread c th' (s2\<lparr>ready_queues := (ready_queues s2)
      (th_priority th := ready_queues s2 (th_priority th) @ [c])\<rparr>)"
  have y: "sched_schedule_yield (\<lambda>_ _. None) fuel ctx s = Some (th_cpu_context tht, s3)"
    using sc cn rq(1) c(1) neq by (simp add: sched_schedule_yield_def s3_def s2_def)
  have "sched_inv ext s3"
    using thread_exists_wait_wait(3) [OF assms(1,2) delivers_none assms(3,7,4), of ctx] y by auto
  moreover have "running s3 (hd (ready_queues s h))" using t(1) neq by (simp add: running_def s3_def s2_def)
  moreover have "ready_queues s3 = q(th_priority th := q (th_priority th) @ [c])"
    using t(1) by (simp add: s3_def s2_def q_def)
  moreover have "locked s3 = locked s" by (simp add: s3_def s2_def s1_def)
  moreover have "map_option th_priority (threads s3 u) = map_option th_priority (threads s u)" for u
    using rq(2) assms(5) tht(1) neq by (simp add: s3_def s2_def s1_def)
  ultimately show ?thesis using y by blast
qed

text \<open>\<open>n\<close> switches in a row.\<close>

fun yields :: "nat \<Rightarrow> nat \<Rightarrow> 32 word \<Rightarrow> 'a sched_scheme \<Rightarrow> 'a sched_scheme option" where
  "yields 0 fuel ctx s = Some s"
| "yields (Suc n) fuel ctx s = do {
     (ctx, s) \<leftarrow> sched_schedule_yield (\<lambda>_ _. None) fuel ctx s;
     yields n fuel ctx s }"

text \<open>The running thread has the highest priority among the runnable ones, and \<open>ts\<close> are the others with it.\<close>

definition top_level :: "'a sched_scheme \<Rightarrow> tid \<Rightarrow> nat \<Rightarrow> tid list \<Rightarrow> bool" where
  "top_level s c h ts \<longleftrightarrow> running s c \<and> map_option th_priority (threads s c) = Some h \<and> ready_queues s h = ts
     \<and> (\<forall>i. h < i \<longrightarrow> ready_queues s i = []) \<and> (\<forall>p. \<not> locked s p)"

lemma top_level_step:
  assumes "sched_inv ext s" and "few ext" and "0 < fuel" and "top_level s c h (t # ts)"
  shows "\<exists>ctx' s'. sched_schedule_yield (\<lambda>_ _. None) fuel ctx s = Some (ctx', s') \<and> sched_inv ext s'
    \<and> top_level s' t h (ts @ [c])"
proof -
  obtain th where th: "running s c" "threads s c = Some th" "th_priority th = h" "ready_queues s h = t # ts"
    "\<And>i. h < i \<Longrightarrow> ready_queues s i = []" "\<And>p. \<not> locked s p"
    using assms(4) by (auto simp: top_level_def)
  have t: "t \<in> set (ready_queues s h)" using th(4) by simp
  then have "owned s t" by (auto simp: owned_def)
  then obtain th0 where "threads s t = Some th0" "live_ok ext (t \<in> set_option (current_thread s)) s t th0"
    using sched_inv_on_member [OF assms(1) [unfolded sched_inv_def], of t] by blast
  then have "threads s t = Some th0" "th_priority th0 = h" "h < SCHED_PRIORITY_LEVELS"
    using t by (auto simp: live_ok_def)
  then have pt: "map_option th_priority (threads s t) = Some h" "h \<le> SCHED_PRIORITY_LEVEL_MAX"
    by (simp_all add: SCHED_PRIORITY_LEVELS_def SCHED_PRIORITY_LEVEL_MAX_def)
  have h: "first_non_empty_queue_priority s = h"
  proof (rule antisym)
    note spec = first_non_empty_queue_spec [of "ready_queues s" SCHED_PRIORITY_LEVEL_MAX]
    show "first_non_empty_queue_priority s \<le> h"
      using spec th(4,5) pt(2) unfolding first_non_empty_queue_priority_def by (metis list.distinct(1) not_le)
    show "h \<le> first_non_empty_queue_priority s"
      using spec th(4) pt(2) unfolding first_non_empty_queue_priority_def by (metis list.distinct(1) not_le)
  qed
  have "ready_queues s h \<noteq> []" "\<not> (th_type th = UTHREAD \<and> locked s (th_process th))" using th(4,6) by simp_all
  from yield_no_signal [OF assms(1-3) th(1,2) this(2,1), of ctx] obtain ctx' s' where
    s': "sched_schedule_yield (\<lambda>_ _. None) fuel ctx s = Some (ctx', s')" "sched_inv ext s'" "running s' t"
    "ready_queues s' = (ready_queues s)(h := ts, h := ts @ [c])" "locked s' = locked s"
    "\<And>u. map_option th_priority (threads s' u) = map_option th_priority (threads s u)"
    unfolding h th(3) by (auto simp: th(4))
  then have "top_level s' t h (ts @ [c])" using th(5,6) pt by (simp add: top_level_def)
  then show ?thesis using s'(1,2) by blast
qed



section \<open>Sleeping\<close>

fun ticks :: "nat \<Rightarrow> 'a sched_scheme \<Rightarrow> 'a sched_scheme option" where
  "ticks 0 s = Some s"
| "ticks (Suc n) s = do { s \<leftarrow> time_tick s; ticks n s }"

lemma ticks_subset:
  assumes "sched_inv ext s" and "few ext"
  shows "\<exists>s'. ticks n s = Some s' \<and> sched_inv ext s' \<and> set (timer_list s') \<subseteq> set (timer_list s)"
  using assms(1)
proof (induction n arbitrary: s)
  case (Suc n)
  obtain s1 where "time_tick s = Some s1" "sched_inv ext s1" "set (timer_list s1) \<subseteq> set (timer_list s)"
    using time_tick_inv [OF Suc.prems assms(2)] by blast
  then show ?case using Suc.IH [of s1] by auto
qed simp

lemma ticks_sleeper:
  assumes "sched_inv ext s" and "few ext" and "threads s t = Some th" and "t \<in> set (timer_list s)"
    and "normal (current_time s)" and "normal (tick_value s)" and "0 \<le> tv_sec (tick_value s)"
    and "normal (th_timer th)" and "in_range (th_timer th)"
    and "0 \<le> tv_sec (current_time s)" and "tv_sec (current_time s) + int n * (tv_sec (tick_value s) + 1) < 2 ^ 61"
  shows "\<exists>s'. ticks n s = Some s' \<and> sched_inv ext s'
    \<and> (t \<in> set (timer_list s') \<longleftrightarrow> n = 0 \<or> ns_of (current_time s) + int n * ns_of (tick_value s) < ns_of (th_timer th))"
  using assms
proof (induction n arbitrary: s th)
  case (Suc n)
  let ?tick = "tick_value s" and ?now = "timespec_add (current_time s) (tick_value s)"
  have step: "tv_sec (current_time s) + tv_sec ?tick + 1 + int n * (tv_sec ?tick + 1) < 2 ^ 61"
    using Suc.prems(11) by (simp add: algebra_simps)
  moreover have "0 \<le> int n * (tv_sec ?tick + 1)" using Suc.prems(7) by simp
  ultimately have range: "in_range (current_time s)" "in_range ?tick"
    using Suc.prems(7,10) unfolding in_range_def by linarith+
  note add = timespec_add_spec [OF Suc.prems(5,6) range]
  have carry: "0 \<le> (tv_nsec (current_time s) + tv_nsec ?tick) div TIME_SEC_IN_NS"
    "(tv_nsec (current_time s) + tv_nsec ?tick) div TIME_SEC_IN_NS \<le> 1"
    using Suc.prems(5,6) by (auto simp: normal_def TIME_SEC_IN_NS_def)
  have sec: "0 \<le> tv_sec ?now" "tv_sec ?now \<le> tv_sec (current_time s) + tv_sec ?tick + 1"
    using add(3) carry Suc.prems(7,10) by auto
  have now: "in_range ?now" "tv_sec ?now + int n * (tv_sec ?tick + 1) < 2 ^ 61"
    using sec step \<open>0 \<le> int n * (tv_sec ?tick + 1)\<close> unfolding in_range_def by linarith+
  obtain s1 where s1: "time_tick s = Some s1" "sched_inv ext s1" "current_time s1 = ?now" "tick_value s1 = ?tick"
    "\<And>u thu. threads s u = Some thu \<Longrightarrow>
       (u \<in> set (timer_list s1)) = (u \<in> set (timer_list s) \<and> time_cmp ?now (th_timer thu) < 0)"
    "\<And>u. u \<in> set (timer_list s1) \<Longrightarrow> map_option th_timer (threads s1 u) = map_option th_timer (threads s u)"
    using time_tick_inv [OF Suc.prems(1,2)] by blast
  have in1: "t \<in> set (timer_list s1) \<longleftrightarrow> ns_of (current_time s) + ns_of ?tick < ns_of (th_timer th)"
    using s1(5) [OF Suc.prems(3)] Suc.prems(4) time_cmp_spec [OF add(1) Suc.prems(8) now(1) Suc.prems(9)] add(2) by auto
  have tick0: "0 \<le> ns_of ?tick" using Suc.prems(6,7) by (simp add: ns_of_def normal_def TIME_SEC_IN_NS_def)
  then have mono: "0 \<le> int n * ns_of ?tick" by simp
  show ?case
  proof (cases "t \<in> set (timer_list s1)")
    case True
    then obtain th1 where th1: "threads s1 t = Some th1" "th_timer th1 = th_timer th"
      using s1(6) Suc.prems(3) by fastforce
    have "\<exists>s'. ticks n s1 = Some s' \<and> sched_inv ext s' \<and> (t \<in> set (timer_list s') \<longleftrightarrow>
        n = 0 \<or> ns_of (current_time s1) + int n * ns_of (tick_value s1) < ns_of (th_timer th1))"
      using Suc.IH [OF s1(2) Suc.prems(2) th1(1) True] add(1) Suc.prems(6-9) sec(1) now(2)
      unfolding s1(3,4) th1(2) by blast
    then show ?thesis using True in1 s1(1) unfolding s1(3,4) th1(2) add(2)
      by (auto simp: algebra_simps)
  next
    case False
    obtain s' where "ticks n s1 = Some s'" "sched_inv ext s'" "set (timer_list s') \<subseteq> set (timer_list s1)"
      using ticks_subset [OF s1(2) Suc.prems(2)] by blast
    then show ?thesis using False in1 mono s1(1) by (auto simp: algebra_simps)
  qed
qed simp

text \<open>
  C34: a sleeping thread wakes up at the first tick of the clock that is not before its deadline: after \<open>n\<close>
  ticks it is still on the timer list exactly when the clock has not reached the deadline, so a sleep lasts
  at least the time asked for and less than one tick more.
\<close>

theorem sleep_duration:
  assumes "sched_inv ext s" and "few ext" and "threads s t = Some th" and "t \<in> set (timer_list s)"
    and "normal (current_time s)" and "normal (tick_value s)" and "0 \<le> tv_sec (tick_value s)"
    and "normal timeout" and "0 \<le> tv_sec timeout" and "tv_sec timeout < 2 ^ 60" and "tv_sec (current_time s) < 2 ^ 60"
    and "th_timer th = timer_init timeout s" and "0 \<le> tv_sec (current_time s)"
    and "tv_sec (current_time s) + int n * (tv_sec (tick_value s) + 1) < 2 ^ 61"
  shows "\<exists>s'. ticks n s = Some s' \<and> sched_inv ext s'
    \<and> (t \<in> set (timer_list s') \<longleftrightarrow> n = 0 \<or> int n * ns_of (tick_value s) < ns_of timeout)"
proof -
  have range: "in_range (current_time s)" "in_range timeout" using assms(9-11,13) by (simp_all add: in_range_def)
  note add = timespec_add_spec [OF assms(5,8) range]
  have "0 \<le> (tv_nsec (current_time s) + tv_nsec timeout) div TIME_SEC_IN_NS"
    "(tv_nsec (current_time s) + tv_nsec timeout) div TIME_SEC_IN_NS \<le> 1"
    using assms(5,8) by (auto simp: normal_def TIME_SEC_IN_NS_def)
  then have "in_range (timespec_add (current_time s) timeout)"
    using add(3) assms(9-11,13) by (simp add: in_range_def)
  then show ?thesis
    using ticks_sleeper [OF assms(1-7) _ _ assms(13,14)] add(1,2) by (simp add: assms(12) timer_init_def)
qed

text \<open>A thread that has just gone to sleep for 15 milliseconds, with ticks of 10 milliseconds.\<close>

definition sleeper :: sched where
  "sleeper = asleep 1 ((thread_in THREAD_RUNNING)\<lparr>th_timer := \<lparr>tv_sec = 0, tv_nsec = 15000000\<rparr>\<rparr>)
     (two_threads\<lparr>timer_list := [1]\<rparr>)"

theorem sleep_duration_witness:
  "\<exists>s'. ticks 1 sleeper = Some s' \<and> sched_inv (\<lambda>_. 0) s' \<and> 1 \<in> set (timer_list s')"
proof -
  have "threads two_threads 1 = Some (thread_in THREAD_RUNNING)" "timer_list two_threads = []"
    by (simp_all add: two_threads_def boot_sched_def)
  then have inv: "sched_inv (\<lambda>_. 0) sleeper"
    using asleep_inv [OF two_threads_inv two_threads_running(1), of "thread_in THREAD_RUNNING" sleeper
      "\<lparr>tv_sec = 0, tv_nsec = 15000000\<rparr>"] by (simp add: sleeper_def)
  have "\<exists>s'. ticks 1 sleeper = Some s' \<and> sched_inv (\<lambda>_. 0) s' \<and> (1 \<in> set (timer_list s') \<longleftrightarrow>
      (1 :: nat) = 0 \<or> int 1 * ns_of (tick_value sleeper) < ns_of \<lparr>tv_sec = 0, tv_nsec = 15000000\<rparr>)"
    by (rule sleep_duration [OF inv, where th = "(thread_in THREAD_SLEEPING)\<lparr>th_timer := \<lparr>tv_sec = 0, tv_nsec = 15000000\<rparr>\<rparr>"])
      (simp_all add: few_def sleeper_def asleep_def two_threads_def boot_sched_def thread_in_def init_thread_def
        normal_def TIME_SEC_IN_NS_def zero_time_def timer_init_def timespec_add_def sdiv_nonneg smod_nonneg)
  then show ?thesis
    by (simp add: ns_of_def TIME_SEC_IN_NS_def sleeper_def asleep_def two_threads_def boot_sched_def)
qed

section \<open>Semaphores and interrupted sleeps\<close>


text \<open>Thread 1 runs and releases a semaphore that threads 3 and 4 wait for.\<close>

definition two_waiters :: sched where
  "two_waiters = boot_sched\<lparr>threads := [1 \<mapsto> thread_in THREAD_RUNNING, 3 \<mapsto> thread_in THREAD_SLEEPING,
     4 \<mapsto> thread_in THREAD_SLEEPING], current_thread := Some 1, wait_queues := (\<lambda>_. [])(7 := [3, 4]),
     sem_value := (\<lambda>_. 0)(7 := - 2)\<rparr>"

lemma two_waiters_inv: "sched_inv (\<lambda>_. 0) two_waiters"
proof -
  have "thread_ok (\<lambda>_. 0) (t \<in> {1}) two_waiters t" for t
    by (cases "t = 1"; cases "t = 3"; cases "t = 4")
      (auto simp: thread_ok_def live_ok_def owners_def owned_def two_waiters_def thread_in_def init_thread_def
        boot_sched_def refcount_init_def SCHED_PRIORITY_LEVELS_def SCHED_PRIORITY_LEVEL_DEFAULT_def split: if_splits)
  then show ?thesis
    by (simp add: sched_inv_def sched_inv_on_def queues_distinct_def two_waiters_def boot_sched_def)
qed


text \<open>
  Interrupting a sleep leaks a reference.  The thread leaves its wait queue and becomes ready, but the
  reference of the wait queue is not dropped: afterwards its count is right only if one more owner is
  assumed, so the thread is never handed to the reaper.
\<close>

theorem interrupted_sleep_leaks:
  assumes "sched_inv ext s" and "threads s t = Some th" and "th_type th = UTHREAD" and "th_state th = THREAD_SLEEPING"
    and "t \<in> set (wait_queues s q)" and "q \<in> set wqs"
  shows "\<exists>s'. thread_intr_sleep wqs True t s = Some (Inr (), s') \<and> sched_inv (ext(t := Suc (ext t))) s'"
proof -
  let ?X = "set_option (current_thread s)"
  let ?s = "s\<lparr>wait_queues := (\<lambda>wq. remove1 t (wait_queues s wq))\<rparr>"
  note inv = assms(1) [unfolded sched_inv_def]
  note live = sched_inv_on_thread [OF inv assms(2)]
  have gone: "unqueued ?s t"
    using live assms(4,5) by (auto simp: unqueued_def queues_distinct_def live_ok_def)
  have own: "owners ext s t = Suc (ext t)" using assms(5) by (auto simp: owners_def owned_def)
  have "\<not> owned ?s t" using gone assms(2,4) by (auto simp: owned_def unqueued_def)
  then have own': "owners (ext(t := Suc (ext t))) ?s t = Suc (ext t)" by (simp add: owners_def)
  have inv1: "sched_inv_on (ext(t := Suc (ext t))) ?X ?s"
  proof (rule sched_inv_on_update [OF inv, where t = t])
    show "queues_distinct ?s" using live(2) by (simp add: queues_distinct_def distinct_remove1)
    show "thread_ok (ext(t := Suc (ext t))) (t \<in> ?X) ?s t" using live(1) own own' gone assms(2)
      by (intro thread_okI [of _ _ th]) (auto simp: live_ok_def unqueued_def)
  qed (auto simp: same_place_def in_set_remove1)
  have "sched_inv (ext(t := Suc (ext t))) ?s" using inv1 by (simp add: sched_inv_def)
  then obtain s' where "sched_add_thread t ?s = Some s'" "sched_inv (ext(t := Suc (ext t))) s'"
    using sched_add_thread_sched_inv [of "ext(t := Suc (ext t))" ?s t th] assms(2,4) gone by auto
  moreover have "in_wait_queue wqs t s" using assms(5,6) by (auto simp: in_wait_queue_def list_ex_iff)
  ultimately show ?thesis using assms(2-4) by (auto simp: thread_intr_sleep_def thread_intr_sleep_queues_def)
qed

definition user_waiter :: sched where
  "user_waiter = boot_sched\<lparr>threads := [3 \<mapsto> (thread_in THREAD_SLEEPING)\<lparr>th_type := UTHREAD\<rparr>],
     wait_queues := (\<lambda>_. [])(7 := [3])\<rparr>"

theorem interrupted_sleep_leaks_witness:
  "\<exists>s'. thread_intr_sleep [7] True 3 user_waiter = Some (Inr (), s') \<and> sched_inv ((\<lambda>_. 0)(3 := 1)) s'"
proof -
  have "thread_ok (\<lambda>_. 0) False user_waiter t" for t
    by (cases "t = 3")
      (auto simp: thread_ok_def live_ok_def owners_def owned_def user_waiter_def thread_in_def init_thread_def
        boot_sched_def refcount_init_def SCHED_PRIORITY_LEVELS_def SCHED_PRIORITY_LEVEL_DEFAULT_def split: if_splits)
  then have "sched_inv (\<lambda>_. 0) user_waiter"
    by (simp add: sched_inv_def sched_inv_on_def queues_distinct_def user_waiter_def boot_sched_def)
  then show ?thesis
    using interrupted_sleep_leaks [of "\<lambda>_. 0" user_waiter 3 "(thread_in THREAD_SLEEPING)\<lparr>th_type := UTHREAD\<rparr>" 7 "[7]"]
    by (simp add: user_waiter_def boot_sched_def thread_in_def)
qed

end
