(* ===== verification/Fs_Pipe.thy ===== *)
theory Fs_Pipe
  imports Libk_Deque Libk_String "HOL-Library.Word"
begin

unbundle bit_operations_syntax

text \<open>
  Pipes and FIFOs (\<^verbatim>\<open>fs/pipe.c\<close>): a ring buffer of 128 bytes with counts of the readers and writers.

  A kernel thread is not preempted, and the mutex of a pipe is only held between two points where a thread
  can wait; the code between two such points is one step here, and the mutex is not part of the state.  An
  operation that has to wait on the queue of the pipe returns \<open>Block\<close>, and its \<open>_resume\<close> function is what
  it does each time it is woken.  \<open>p_wakes\<close> counts the calls of \<^verbatim>\<open>wait_wake_all\<close> on the queue of the pipe.
\<close>

section \<open>The model\<close>

definition PIPE_BUFFER_SIZE :: nat where "PIPE_BUFFER_SIZE = 128"

record pipe =
  p_buffer :: deque
  p_readers :: refcount
  p_writers :: refcount
  p_wakes :: nat

datatype 'a outcome = Done 'a | Block

definition pipe_init :: "byte list \<Rightarrow> pipe" where
  "pipe_init mem = \<lparr>p_buffer = deque_init mem PIPE_BUFFER_SIZE, p_readers = refcount_init_zero,
     p_writers = refcount_init_zero, p_wakes = 0\<rparr>"

definition pipe_create :: "byte list option \<Rightarrow> pipe result" where
  "pipe_create mem = (case mem of None \<Rightarrow> Inl ENOMEM | Some m \<Rightarrow> Inr (pipe_init m))"

definition pipe_wake :: "pipe \<Rightarrow> pipe" where
  "pipe_wake p = p\<lparr>p_wakes := p_wakes p + 1\<rparr>"

definition pipe_add_reader :: "pipe \<Rightarrow> pipe" where
  "pipe_add_reader p = p\<lparr>p_readers := snd (refcount_inc (p_readers p))\<rparr>"

definition pipe_add_writer :: "pipe \<Rightarrow> pipe" where
  "pipe_add_writer p = p\<lparr>p_writers := snd (refcount_inc (p_writers p))\<rparr>"

text \<open>Removing an end: the second component is \<open>None\<close> when the pipe is destroyed.\<close>

definition pipe_removed :: "int \<Rightarrow> int \<Rightarrow> pipe \<Rightarrow> int \<times> pipe option" where
  "pipe_removed type_rc other_rc p =
     (if type_rc = 0 then if other_rc = 0 then (0, None) else (type_rc, Some (pipe_wake p))
      else (type_rc, Some p))"

definition pipe_remove_reader :: "pipe \<Rightarrow> int \<times> pipe option" where
  "pipe_remove_reader p =
     (let (rc, r) = refcount_dec (p_readers p)
      in pipe_removed rc (refcount_get (p_writers p)) (p\<lparr>p_readers := r\<rparr>))"

definition pipe_remove_writer :: "pipe \<Rightarrow> int \<times> pipe option" where
  "pipe_remove_writer p =
     (let (rc, w) = refcount_dec (p_writers p)
      in pipe_removed rc (refcount_get (p_readers p)) (p\<lparr>p_writers := w\<rparr>))"

subsection \<open>Opening and closing\<close>

definition O_RDONLY :: int where "O_RDONLY = 0"
definition O_WRONLY :: int where "O_WRONLY = 1"

definition vfs_file_flags_read :: "int \<Rightarrow> bool" where
  "vfs_file_flags_read flags \<longleftrightarrow> (flags + 1) AND (O_RDONLY + 1) \<noteq> 0"

definition vfs_file_flags_write :: "int \<Rightarrow> bool" where
  "vfs_file_flags_write flags \<longleftrightarrow> (flags + 1) AND (O_WRONLY + 1) \<noteq> 0"

definition pipe_acquire_resume :: "int \<Rightarrow> pipe \<Rightarrow> unit result outcome \<times> pipe" where
  "pipe_acquire_resume flags p =
     (let other = (if vfs_file_flags_read flags then p_writers p else p_readers p)
      in (if refcount_get other = 0 then Block else Done (Inr ()), pipe_wake p))"

definition pipe_acquire :: "pipe \<Rightarrow> int \<Rightarrow> bool \<Rightarrow> unit result outcome \<times> pipe" where
  "pipe_acquire p flags block =
     (let r = vfs_file_flags_read flags; w = vfs_file_flags_write flags
      in if r \<and> w then (Done (Inr ()), pipe_wake (pipe_add_writer (pipe_add_reader p)))
         else if \<not> r \<and> \<not> w then (Done (Inl EPERM), p)
         else let p = (if r then pipe_add_reader p else pipe_add_writer p)
              in if block then pipe_acquire_resume flags p else (Done (Inr ()), p))"

text \<open>The FIFO of an inode is its private data; it is made by the first opener.\<close>

definition fifo_open :: "byte list option \<Rightarrow> pipe option \<Rightarrow> int \<Rightarrow> unit result outcome \<times> pipe option" where
  "fifo_open mem private_data flags =
     (case (case private_data of Some p \<Rightarrow> Inr p | None \<Rightarrow> pipe_create mem) of
        Inl e \<Rightarrow> (Done (Inl e), None)
      | Inr p \<Rightarrow> map_prod id Some (pipe_acquire p flags True))"

text \<open>The code removes the writer of a pipe even if removing the reader has destroyed it: \<open>None\<close> is that use after free.\<close>

definition pipe_close_ends :: "pipe \<Rightarrow> int \<Rightarrow> (int \<times> pipe option) option" where
  "pipe_close_ends p flags =
     (let r = vfs_file_flags_read flags; w = vfs_file_flags_write flags
      in if r \<and> w then map_option pipe_remove_writer (snd (pipe_remove_reader p))
         else if r then Some (pipe_remove_reader p)
         else if w then Some (pipe_remove_writer p)
         else Some (- 22, Some p))"

definition fifo_close :: "pipe \<Rightarrow> int \<Rightarrow> pipe option option" where
  "fifo_close p flags = map_option (\<lambda>(ret, p'). if ret = 0 then None else p') (pipe_close_ends p flags)"

subsection \<open>Reading and writing\<close>

text \<open>
  The loop of a read: one byte is taken, and then more of them while the buffer has any, \<open>k\<close> at most.
\<close>

fun pipe_drain :: "nat \<Rightarrow> deque \<Rightarrow> byte list \<times> deque" where
  "pipe_drain k dq =
     (case deque_pop_front dq of
        (Inl e, dq) \<Rightarrow> ([], dq)
      | (Inr c, dq) \<Rightarrow>
          (case k of
             0 \<Rightarrow> ([c], dq)
           | Suc k \<Rightarrow> if deque_empty dq then ([c], dq)
                      else let (cs, dq) = pipe_drain k dq in (c # cs, dq)))"

definition pipe_read_resume :: "nat \<Rightarrow> pipe \<Rightarrow> byte list result outcome \<times> pipe" where
  "pipe_read_resume count p =
     (if deque_empty (p_buffer p) then (Block, p)
      else let (cs, dq) = pipe_drain (count - 1) (p_buffer p)
           in (Done (Inr cs), pipe_wake (p\<lparr>p_buffer := dq\<rparr>)))"

definition pipe_read :: "nat \<Rightarrow> pipe \<Rightarrow> byte list result outcome \<times> pipe" where
  "pipe_read count p =
     (if deque_empty (p_buffer p) \<and> refcount_get (p_writers p) = 0 then (Done (Inr []), p)
      else pipe_read_resume count p)"

fun pipe_fill :: "byte list \<Rightarrow> deque \<Rightarrow> nat \<times> deque" where
  "pipe_fill [] dq = (0, dq)"
| "pipe_fill (c # cs) dq =
     (if deque_full dq then (0, dq)
      else case deque_push_back c dq of
             (Inl e, dq) \<Rightarrow> (0, dq)
           | (Inr _, dq) \<Rightarrow> let (n, dq) = pipe_fill cs dq in (Suc n, dq))"

definition pipe_write_resume :: "byte list \<Rightarrow> pipe \<Rightarrow> nat result outcome \<times> pipe" where
  "pipe_write_resume buf p =
     (if deque_full (p_buffer p) then (Block, p)
      else let (n, dq) = pipe_fill buf (p_buffer p)
           in (Done (Inr n), pipe_wake (p\<lparr>p_buffer := dq\<rparr>)))"

definition pipe_write :: "byte list \<Rightarrow> pipe \<Rightarrow> nat result outcome \<times> pipe" where
  "pipe_write buf p =
     (if refcount_get (p_readers p) = 0 then (Done (Inl EPIPE), p) else pipe_write_resume buf p)"

text \<open>The file operations of a FIFO, whose inode may have no pipe.\<close>

definition fifo_read :: "nat \<Rightarrow> pipe option \<Rightarrow> byte list result outcome \<times> pipe option" where
  "fifo_read count private_data =
     (case private_data of None \<Rightarrow> (Done (Inl EIO), None) | Some p \<Rightarrow> map_prod id Some (pipe_read count p))"

definition fifo_write :: "byte list \<Rightarrow> pipe option \<Rightarrow> nat result outcome \<times> pipe option" where
  "fifo_write buf private_data =
     (case private_data of None \<Rightarrow> (Done (Inl EIO), None) | Some p \<Rightarrow> map_prod id Some (pipe_write buf p))"

definition pipe_copy :: "pipe \<Rightarrow> int \<Rightarrow> unit result outcome \<times> pipe" where
  "pipe_copy p flags = pipe_acquire p flags False"

definition fifo_copy :: "pipe \<Rightarrow> int \<Rightarrow> unit result outcome \<times> pipe" where
  "fifo_copy p flags = pipe_acquire p flags True"

section \<open>Reads and writes as operations on a byte sequence\<close>

definition pipe_inv :: "pipe \<Rightarrow> bool" where
  "pipe_inv p \<longleftrightarrow> deque_inv (p_buffer p) \<and> dq_size (p_buffer p) = PIPE_BUFFER_SIZE"

definition pipe_contents :: "pipe \<Rightarrow> byte list" where
  "pipe_contents p = deque_contents (p_buffer p)"

lemmas pipe_defs = pipe_inv_def pipe_contents_def pipe_wake_def PIPE_BUFFER_SIZE_def deque_capacity_def

declare pipe_drain.simps [simp del]

lemma pipe_drain_spec:
  assumes "deque_inv dq" and "deque_contents dq \<noteq> []"
  shows "\<exists>dq'. pipe_drain k dq = (take (Suc k) (deque_contents dq), dq') \<and> deque_inv dq'
    \<and> deque_contents dq' = drop (Suc k) (deque_contents dq) \<and> deque_capacity dq' = deque_capacity dq"
  using assms
proof (induction k arbitrary: dq)
  case 0
  then obtain c cs where cs: "deque_contents dq = c # cs" by (cases "deque_contents dq") auto
  then show ?case using dq.pop_ok [OF 0(1) cs] by (auto simp: pipe_drain.simps)
next
  case (Suc k)
  then obtain c cs where cs: "deque_contents dq = c # cs" by (cases "deque_contents dq") auto
  obtain dq1 where dq1: "deque_pop_front dq = (Inr c, dq1)" "deque_inv dq1" "deque_contents dq1 = cs"
    "deque_capacity dq1 = deque_capacity dq" using dq.pop_ok [OF Suc.prems(1) cs] by blast
  show ?case
  proof (cases cs)
    case Nil
    then show ?thesis using dq1 cs dq.empty_law [OF dq1(2)] by (auto simp: pipe_drain.simps [of "Suc k"])
  next
    case (Cons b bs)
    then show ?thesis using dq1 cs dq.empty_law [OF dq1(2)] Suc.IH [OF dq1(2)]
      by (auto simp: pipe_drain.simps [of "Suc k"])
  qed
qed

lemma pipe_fill_spec:
  assumes "deque_inv dq"
  shows "\<exists>dq'. pipe_fill cs dq = (min (length cs) (deque_capacity dq - length (deque_contents dq)), dq') \<and> deque_inv dq'
    \<and> deque_contents dq' = deque_contents dq @ take (deque_capacity dq - length (deque_contents dq)) cs
    \<and> deque_capacity dq' = deque_capacity dq"
  using assms
proof (induction cs arbitrary: dq)
  case (Cons c cs)
  show ?case
  proof (cases "deque_full dq")
    case True
    then show ?thesis using Cons.prems dq.full_law [OF Cons.prems(1)] by simp
  next
    case False
    obtain dq1 where dq1: "deque_push_back c dq = (Inr (), dq1)" "deque_inv dq1"
      "deque_contents dq1 = deque_contents dq @ [c]" "deque_capacity dq1 = deque_capacity dq"
      using dq.push_ok [OF Cons.prems(1) False] by blast
    have room: "length (deque_contents dq) < deque_capacity dq"
      using dq.full_law [OF Cons.prems(1)] dq.bounded [OF Cons.prems(1)] False by simp
    then have "deque_capacity dq - length (deque_contents dq) = Suc (deque_capacity dq1 - length (deque_contents dq1))"
      using dq1 by simp
    then show ?thesis using Cons.IH [OF dq1(2)] dq1 False by auto
  qed
qed simp

lemma pipe_read_resume_spec:
  assumes "pipe_inv p" and "pipe_contents p \<noteq> []"
  shows "\<exists>p'. pipe_read_resume count p = (Done (Inr (take (max 1 count) (pipe_contents p))), p') \<and> pipe_inv p'
    \<and> pipe_contents p' = drop (max 1 count) (pipe_contents p) \<and> p_wakes p' = Suc (p_wakes p)
    \<and> p_readers p' = p_readers p \<and> p_writers p' = p_writers p"
proof -
  have inv: "deque_inv (p_buffer p)" "deque_contents (p_buffer p) \<noteq> []" "\<not> deque_empty (p_buffer p)"
    using assms dq.empty_law by (auto simp: pipe_defs)
  obtain dq' where dq': "pipe_drain (count - 1) (p_buffer p) = (take (Suc (count - 1)) (pipe_contents p), dq')"
    "deque_inv dq'" "deque_contents dq' = drop (Suc (count - 1)) (pipe_contents p)"
    "deque_capacity dq' = deque_capacity (p_buffer p)"
    using pipe_drain_spec [OF inv(1,2), of "count - 1"] unfolding pipe_contents_def by blast
  moreover have "Suc (count - 1) = max 1 count" by simp
  moreover have "dq_size dq' = PIPE_BUFFER_SIZE"
    using dq'(2,4) assms(1) inv(1) by (auto simp: pipe_defs deque_inv_def)
  ultimately show ?thesis using inv(3) assms(1) by (simp add: pipe_read_resume_def pipe_defs)
qed

lemma pipe_write_resume_spec:
  assumes "pipe_inv p" and "length (pipe_contents p) < 127"
  shows "\<exists>p'. pipe_write_resume buf p = (Done (Inr (min (length buf) (127 - length (pipe_contents p)))), p')
    \<and> pipe_inv p' \<and> pipe_contents p' = pipe_contents p @ take (127 - length (pipe_contents p)) buf \<and> p_wakes p' = Suc (p_wakes p)
    \<and> p_readers p' = p_readers p \<and> p_writers p' = p_writers p"
proof -
  have inv: "deque_inv (p_buffer p)" and cap: "deque_capacity (p_buffer p) = 127"
    using assms(1) by (simp_all add: pipe_defs)
  have "\<not> deque_full (p_buffer p)" using dq.full_law [OF inv] assms(2) cap by (simp add: pipe_contents_def)
  moreover obtain dq' where dq': "deque_inv dq'" "deque_capacity dq' = 127"
    "pipe_fill buf (p_buffer p) = (min (length buf) (127 - length (pipe_contents p)), dq')"
    "deque_contents dq' = pipe_contents p @ take (127 - length (pipe_contents p)) buf"
    using pipe_fill_spec [OF inv, of buf] cap unfolding pipe_contents_def by auto
  moreover have "dq_size dq' = PIPE_BUFFER_SIZE" using dq'(1,2) by (auto simp: pipe_defs deque_inv_def)
  ultimately show ?thesis using assms(1) by (simp add: pipe_write_resume_def pipe_defs)
qed

lemma pipe_blocks:
  assumes "pipe_inv p"
  shows "pipe_contents p = [] \<Longrightarrow> pipe_read_resume count p = (Block, p)"
    and "length (pipe_contents p) = 127 \<Longrightarrow> pipe_write_resume buf p = (Block, p)"
    and "length (pipe_contents p) \<le> 127"
proof -
  have inv: "deque_inv (p_buffer p)" and cap: "deque_capacity (p_buffer p) = 127"
    using assms by (simp_all add: pipe_defs)
  show "pipe_contents p = [] \<Longrightarrow> pipe_read_resume count p = (Block, p)"
    using dq.empty_law [OF inv] by (simp add: pipe_read_resume_def pipe_contents_def)
  show "length (pipe_contents p) = 127 \<Longrightarrow> pipe_write_resume buf p = (Block, p)"
    using dq.full_law [OF inv] cap by (simp add: pipe_write_resume_def pipe_contents_def)
  show "length (pipe_contents p) \<le> 127" using dq.bounded [OF inv] cap by (simp add: pipe_contents_def)
qed

lemma refcount_get_zero: "refcount_get r = 0 \<longleftrightarrow> r = 0"
  using signed_word_eqI [of r 0] by (auto simp: refcount_get_def)

lemma pipe_reads:
  assumes "pipe_inv p"
  shows "case pipe_read count p of
      (Block, p') \<Rightarrow> pipe_contents p = [] \<and> p_writers p \<noteq> 0 \<and> p' = p
    | (Done (Inr cs), p') \<Rightarrow> pipe_inv p' \<and> pipe_contents p = cs @ pipe_contents p'
        \<and> (if pipe_contents p = [] then p_writers p = 0 else length cs = min (max 1 count) (length (pipe_contents p)))
    | (Done (Inl e), p') \<Rightarrow> False"
proof -
  have "deque_empty (p_buffer p) \<longleftrightarrow> pipe_contents p = []"
    using assms dq.empty_law by (simp add: pipe_inv_def pipe_contents_def)
  then show ?thesis
    using pipe_read_resume_spec [OF assms, of count] pipe_blocks(1) [OF assms, of count] assms
    by (cases "pipe_contents p = []") (auto simp: pipe_read_def refcount_get_zero min.commute)
qed

lemma pipe_writes:
  assumes "pipe_inv p"
  shows "case pipe_write buf p of
      (Block, p') \<Rightarrow> length (pipe_contents p) = 127 \<and> p_readers p \<noteq> 0 \<and> p' = p
    | (Done (Inr n), p') \<Rightarrow> pipe_inv p' \<and> pipe_contents p' = pipe_contents p @ take n buf \<and> p_readers p \<noteq> 0
        \<and> n = min (length buf) (127 - length (pipe_contents p))
    | (Done (Inl e), p') \<Rightarrow> e = EPIPE \<and> p_readers p = 0 \<and> p' = p"
  using pipe_write_resume_spec [OF assms, of buf] pipe_blocks(2,3) [OF assms] assms
  by (cases "length (pipe_contents p) = 127") (auto simp: pipe_write_def refcount_get_zero min_def)

section \<open>Correctness\<close>


definition sample_pipe :: pipe where
  "sample_pipe = \<lparr>p_buffer = deque_init (replicate 128 0) 128, p_readers = 1, p_writers = 1, p_wakes = 0\<rparr>"

lemma sample_pipe_inv: "pipe_inv sample_pipe" "pipe_contents sample_pipe = []"
  using deque_init_spec [of "replicate 128 0"] by (simp_all add: sample_pipe_def pipe_defs deque_init_def)


text \<open>A sequence of reads and writes; those that have to wait transfer nothing.\<close>

datatype pipe_op = ReadOp nat | WriteOp "byte list"

fun pipe_run :: "pipe_op list \<Rightarrow> pipe \<Rightarrow> byte list \<times> byte list \<times> pipe" where
  "pipe_run [] p = ([], [], p)"
| "pipe_run (ReadOp count # ops) p =
     (let (r, p) = pipe_read count p; (rs, ws, p) = pipe_run ops p
      in ((case r of Done (Inr cs) \<Rightarrow> cs | _ \<Rightarrow> []) @ rs, ws, p))"
| "pipe_run (WriteOp buf # ops) p =
     (let (r, p) = pipe_write buf p; (rs, ws, p) = pipe_run ops p
      in (rs, (case r of Done (Inr n) \<Rightarrow> take n buf | _ \<Rightarrow> []) @ ws, p))"

text \<open>
  C15: a pipe is a stream.  Over any sequence of reads and writes, the bytes that the reads return followed
  by those left in the pipe are the bytes that were in it followed by those that the writes accepted: nothing
  is lost, duplicated or reordered, and never more than 127 bytes are buffered.
\<close>

theorem pipe_is_stream:
  assumes "pipe_inv p"
  shows "case pipe_run ops p of (rs, ws, p') \<Rightarrow>
    pipe_contents p @ ws = rs @ pipe_contents p' \<and> pipe_inv p' \<and> length (pipe_contents p') \<le> 127"
  using assms
proof (induction ops arbitrary: p)
  case Nil
  then show ?case using pipe_blocks(3) by simp
next
  case (Cons op ops)
  show ?case
  proof (cases op)
    case (ReadOp count)
    obtain r p1 where r: "pipe_read count p = (r, p1)" by fastforce
    have "pipe_inv p1 \<and> pipe_contents p = (case r of Done (Inr cs) \<Rightarrow> cs | _ \<Rightarrow> []) @ pipe_contents p1"
      using pipe_reads [OF Cons.prems, of count] r Cons.prems by (auto split: outcome.splits sum.splits)
    then show ?thesis using Cons.IH [of p1] r ReadOp by (auto split: prod.splits)
  next
    case (WriteOp buf)
    obtain r p1 where r: "pipe_write buf p = (r, p1)" by fastforce
    have "pipe_inv p1 \<and> pipe_contents p1 = pipe_contents p @ (case r of Done (Inr n) \<Rightarrow> take n buf | _ \<Rightarrow> [])"
      using pipe_writes [OF Cons.prems, of buf] r Cons.prems by (auto split: outcome.splits sum.splits)
    then show ?thesis using Cons.IH [of p1] r WriteOp by (auto split: prod.splits)
  qed
qed

theorem pipe_is_stream_witness:
  "\<exists>rs p'. pipe_run [WriteOp [1, 2, 3], ReadOp 2] sample_pipe = (rs, [1, 2, 3], p') \<and> [1, 2, 3] = rs @ pipe_contents p'"
proof -
  obtain p1 where p1: "pipe_write [1, 2, 3] sample_pipe = (Done (Inr 3), p1)"
    using pipe_write_resume_spec [OF sample_pipe_inv(1), of "[1, 2, 3]"] sample_pipe_inv(2)
    by (auto simp: pipe_write_def sample_pipe_def refcount_get_def)
  then show ?thesis
    using pipe_is_stream [OF sample_pipe_inv(1), of "[WriteOp [1, 2, 3], ReadOp 2]"] sample_pipe_inv(2)
    by (auto split: prod.splits)
qed

text \<open>
  A reader that waits when the last writer leaves is woken and waits again: it looks at the buffer, not at
  the number of writers.  Only a read that starts afterwards returns the end of the stream.
\<close>

theorem orphaned_reader_blocks:
  assumes "pipe_inv p" and "pipe_contents p = []" and "p_writers p = 1" and "p_readers p \<noteq> 0"
  shows "\<exists>p'. pipe_remove_writer p = (0, Some p') \<and> p_wakes p' = Suc (p_wakes p)
    \<and> pipe_read_resume count p' = (Block, p') \<and> pipe_read count p' = (Done (Inr []), p')"
proof -
  let ?p = "pipe_wake (p\<lparr>p_writers := 0\<rparr>)"
  have "pipe_remove_writer p = (0, Some ?p)"
    using assms(3,4) by (simp add: pipe_remove_writer_def pipe_removed_def refcount_dec_def refcount_get_zero)
  moreover have "pipe_inv ?p" "pipe_contents ?p = []" using assms(1,2) by (simp_all add: pipe_defs)
  moreover have "deque_empty (p_buffer ?p)" using assms(1,2) dq.empty_law by (simp add: pipe_defs)
  ultimately show ?thesis
    using pipe_blocks(1) [of ?p count] by (simp add: pipe_read_def pipe_wake_def refcount_get_def)
qed

theorem orphaned_reader_blocks_witness:
  "\<exists>p'. pipe_remove_writer sample_pipe = (0, Some p') \<and> pipe_read_resume 10 p' = (Block, p')"
  using orphaned_reader_blocks [OF sample_pipe_inv, of 10] by (auto simp: sample_pipe_def)

end
