(* ===== verification/Fs_Tty.thy ===== *)
theory Fs_Tty
  imports Libk_Deque "HOL-Library.Word"
begin

unbundle bit_operations_syntax

text \<open>
  Terminals (\<^verbatim>\<open>fs/tty.c\<close>): the line discipline between the keyboard and the readers of a terminal.

  The characters that the driver of a terminal prints are \<open>tt_out\<close>, the signals sent to process groups
  are \<open>tt_signals\<close>, and \<open>tt_wakes\<close> counts the calls of \<^verbatim>\<open>wait_wake_all\<close>.  As for pipes, the mutex is only
  held between two points where a thread can wait, and a read that has to wait returns what it has read so
  far; it continues from there when it is woken.  The control characters are compared with a character as
  32-bit values, after the promotion of a signed \<^verbatim>\<open>char\<close>.
\<close>

section \<open>The model\<close>

definition TTY_BUFFER_SIZE :: nat where "TTY_BUFFER_SIZE = 256"

definition ECHO :: "32 word" where "ECHO = 1"
definition ICANON :: "32 word" where "ICANON = 16"
definition ISIG :: "32 word" where "ISIG = 64"
definition SIGINT :: int where "SIGINT = 2"

record termios =
  c_lflag :: "32 word"
  c_veof :: "32 word"
  c_verase :: "32 word"
  c_vintr :: "32 word"

record tty =
  tt_minor :: nat
  tt_termios :: termios
  tt_buffer :: deque
  tt_lines :: int
  tt_pgrp :: int
  tt_out :: "byte list"
  tt_signals :: "(int \<times> int) list"
  tt_wakes :: nat

definition termios_init :: termios where
  "termios_init = \<lparr>c_lflag = ICANON OR ECHO OR ISIG, c_veof = 4, c_verase = 127, c_vintr = 3\<rparr>"

definition is_intr :: "tty \<Rightarrow> byte \<Rightarrow> bool" where
  "is_intr tty c \<longleftrightarrow> scast c = c_vintr (tt_termios tty)"

definition is_eof :: "tty \<Rightarrow> byte \<Rightarrow> bool" where
  "is_eof tty c \<longleftrightarrow> scast c = c_veof (tt_termios tty)"

definition is_erase :: "tty \<Rightarrow> byte \<Rightarrow> bool" where
  "is_erase tty c \<longleftrightarrow> scast c = c_verase (tt_termios tty)"

definition l_flag :: "tty \<Rightarrow> 32 word \<Rightarrow> bool" where
  "l_flag tty flag \<longleftrightarrow> c_lflag (tt_termios tty) AND flag \<noteq> 0"

definition tty_intr :: "int \<Rightarrow> tty \<Rightarrow> tty" where
  "tty_intr sig tty = (if tt_pgrp tty > 0 then tty\<lparr>tt_signals := tt_signals tty @ [(tt_pgrp tty, sig)]\<rparr> else tty)"

fun tty_get_device :: "tty list \<Rightarrow> nat \<Rightarrow> tty option" where
  "tty_get_device [] minor = None"
| "tty_get_device (tty # ttys) minor = (if tt_minor tty = minor then Some tty else tty_get_device ttys minor)"

definition tty_init :: "byte list \<Rightarrow> nat \<Rightarrow> tty" where
  "tty_init mem minor = \<lparr>tt_minor = minor, tt_termios = termios_init, tt_buffer = deque_init mem TTY_BUFFER_SIZE,
     tt_lines = 0, tt_pgrp = 0, tt_out = [], tt_signals = [], tt_wakes = 0\<rparr>"

definition tty_create :: "byte list option \<Rightarrow> nat \<Rightarrow> tty list \<Rightarrow> unit result \<times> tty list" where
  "tty_create mem minor ttys =
     (case mem of None \<Rightarrow> (Inl ENOMEM, ttys) | Some m \<Rightarrow> (Inr (), ttys @ [tty_init m minor]))"

definition tty_reset_pgrp :: "tty \<Rightarrow> tty" where
  "tty_reset_pgrp tty = tty\<lparr>tt_pgrp := 0\<rparr>"

definition tty_putchar :: "byte \<Rightarrow> tty \<Rightarrow> tty" where
  "tty_putchar c tty = tty\<lparr>tt_out := tt_out tty @ [c]\<rparr>"

definition tty_erase :: "tty \<Rightarrow> unit result \<times> tty" where
  "tty_erase tty =
     (if deque_empty (tt_buffer tty) then (Inr (), tty)
      else case deque_back (tt_buffer tty) of
             Inl e \<Rightarrow> (Inl e, tty)
           | Inr peek \<Rightarrow>
               if peek = 10 then (Inr (), tty)
               else let tty = tty\<lparr>tt_buffer := snd (deque_pop_back (tt_buffer tty))\<rparr>
                    in (Inr (), if l_flag tty ECHO then tty_putchar 8 tty else tty))"

definition tty_input_c :: "byte \<Rightarrow> tty \<Rightarrow> unit result \<times> tty" where
  "tty_input_c c tty =
     (if l_flag tty ISIG \<and> is_intr tty c then (Inr (), tty_intr SIGINT tty)
      else if l_flag tty ICANON \<and> is_erase tty c then tty_erase tty
      else case deque_push_back c (tt_buffer tty) of
             (Inl e, dq) \<Rightarrow> (Inl e, tty\<lparr>tt_buffer := dq\<rparr>)
           | (Inr _, dq) \<Rightarrow>
               let tty = tty\<lparr>tt_buffer := dq\<rparr>;
                   tty = (if \<not> l_flag tty ICANON \<or> c = 10 \<or> is_eof tty c
                          then tty\<lparr>tt_lines := tt_lines tty + 1, tt_wakes := tt_wakes tty + 1\<rparr> else tty)
               in (Inr (), if l_flag tty ECHO then tty_putchar c tty else tty))"

text \<open>A key is one or two bytes, the upper one first; zero bytes are skipped.\<close>

definition tty_input_byte :: "byte \<Rightarrow> tty \<Rightarrow> tty" where
  "tty_input_byte c tty = (if c = 0 then tty else snd (tty_input_c c tty))"

definition tty_input :: "16 word \<Rightarrow> tty option \<Rightarrow> unit result \<times> tty option" where
  "tty_input c tty =
     (case tty of
        None \<Rightarrow> (Inl EINVAL, None)
      | Some t \<Rightarrow> (Inr (), Some (tty_input_byte (ucast (c AND 0xff)) (tty_input_byte (ucast (drop_bit 8 c)) t))))"

definition tty_close :: "tty \<Rightarrow> tty" where
  "tty_close tty = tty\<lparr>tt_buffer := deque_flush (tt_buffer tty)\<rparr>"

text \<open>
  One turn of the loop of a read, with \<open>acc\<close> in the buffer of the reader: \<open>None\<close> if the thread has to wait,
  otherwise whether the read is over, and what it has read.
\<close>

definition tty_read_turn :: "nat \<Rightarrow> byte list \<Rightarrow> tty \<Rightarrow> ((bool \<times> byte list) \<times> tty) option" where
  "tty_read_turn count acc tty =
     (if deque_empty (tt_buffer tty) then None
      else case deque_front (tt_buffer tty) of
             Inl e \<Rightarrow> Some ((True, acc), tty)
           | Inr c \<Rightarrow>
               let acc' = acc @ [c];
                   tty = (if c = 10 then tty\<lparr>tt_lines := tt_lines tty - 1\<rparr> else tty);
                   done = (length acc' = count \<or> l_flag tty ICANON \<and> c = 10)
               in if is_eof tty c then Some ((True, acc), tty)
                  else Some ((done, acc'), tty\<lparr>tt_buffer := snd (deque_pop_front (tt_buffer tty))\<rparr>))"

fun tty_read_loop :: "nat \<Rightarrow> nat \<Rightarrow> byte list \<Rightarrow> tty \<Rightarrow> ((bool \<times> byte list) \<times> tty) option" where
  "tty_read_loop 0 count acc tty = None"
| "tty_read_loop (Suc fuel) count acc tty =
     (case tty_read_turn count acc tty of
        None \<Rightarrow> Some ((False, acc), tty)
      | Some ((True, acc), tty) \<Rightarrow> Some ((True, acc), tty)
      | Some ((False, acc), tty) \<Rightarrow> tty_read_loop fuel count acc tty)"

text \<open>
  A read returns \<open>(True, bytes)\<close>, or \<open>(False, bytes)\<close> if it waits after these bytes.  Every turn that does not
  end the loop takes a byte off the buffer, which bounds their number.
\<close>

definition tty_read :: "nat \<Rightarrow> byte list \<Rightarrow> tty \<Rightarrow> ((bool \<times> byte list) \<times> tty) option" where
  "tty_read count acc tty = tty_read_loop (Suc (dq_size (tt_buffer tty))) count acc tty"

fun tty_write :: "byte list \<Rightarrow> tty \<Rightarrow> tty" where
  "tty_write [] tty = tty"
| "tty_write (c # cs) tty = tty_write cs (tty_putchar c tty)"

text \<open>
  Making a terminal the controlling one of a session: \<open>session_leader\<close> and \<open>has_ctrl_tty\<close> are the fields of the
  current process, \<open>pgrp\<close> its process group.  The result carries the process group that loses the terminal.
\<close>

definition TIOCSCTTY :: int where "TIOCSCTTY = 1"

definition tty_ioctl :: "int \<Rightarrow> bool \<Rightarrow> bool \<Rightarrow> int \<Rightarrow> tty option \<Rightarrow> int option result \<times> tty option" where
  "tty_ioctl request session_leader has_ctrl_tty pgrp tty =
     (case tty of
        None \<Rightarrow> (Inl ENOTTY, None)
      | Some t \<Rightarrow>
          if request \<noteq> TIOCSCTTY then (Inl EINVAL, tty)
          else if \<not> session_leader then (Inl ENXIO, tty)
          else if has_ctrl_tty then (Inl ENXIO, tty)
          else (Inr (if tt_pgrp t \<noteq> 0 then Some (tt_pgrp t) else None), Some (t\<lparr>tt_pgrp := pgrp\<rparr>)))"

section \<open>The line discipline\<close>

definition tty_inv :: "tty \<Rightarrow> bool" where
  "tty_inv tty \<longleftrightarrow> deque_inv (tt_buffer tty)"

definition tty_contents :: "tty \<Rightarrow> byte list" where
  "tty_contents tty = deque_contents (tt_buffer tty)"

text \<open>The default modes, which no system call changes.\<close>

definition default_modes :: "tty \<Rightarrow> bool" where
  "default_modes tty \<longleftrightarrow> tt_termios tty = termios_init"

lemma default_flags:
  assumes "default_modes tty"
  shows "l_flag tty ICANON" and "l_flag tty ECHO" and "l_flag tty ISIG"
  using assms by (simp_all add: default_modes_def l_flag_def termios_init_def ICANON_def ECHO_def ISIG_def)

lemma scast_inj: "(scast (a :: 8 word) :: 32 word) = scast b \<longleftrightarrow> a = b"
proof
  have s: "sint (scast x :: 32 word) = sint x" for x :: "8 word"
    using sint_greater_eq [of x] sint_less [of x] by (simp add: signed_scast_eq signed_take_bit_int_eq_self)
  assume "(scast a :: 32 word) = scast b"
  then have "sint a = sint b" using s [of a] s [of b] by simp
  then show "a = b" by (rule signed_word_eqI)
qed simp

lemma control_characters:
  assumes "default_modes tty"
  shows "is_intr tty c \<longleftrightarrow> c = 3" and "is_eof tty c \<longleftrightarrow> c = 4" and "is_erase tty c \<longleftrightarrow> c = 127"
proof -
  have "(3 :: 32 word) = scast (3 :: 8 word)" "(4 :: 32 word) = scast (4 :: 8 word)"
    "(127 :: 32 word) = scast (127 :: 8 word)" by simp_all
  then show "is_intr tty c \<longleftrightarrow> c = 3" "is_eof tty c \<longleftrightarrow> c = 4" "is_erase tty c \<longleftrightarrow> c = 127"
    using assms unfolding is_intr_def is_eof_def is_erase_def default_modes_def termios_init_def
    by (metis scast_inj termios.select_convs)+
qed

text \<open>
  The effect of a character on the buffered input: an interrupt character is not buffered, an erase
  character removes the last character of the last line, any other one is appended if there is room.
\<close>

definition edit :: "nat \<Rightarrow> byte \<Rightarrow> byte list \<Rightarrow> byte list" where
  "edit cap c cs =
     (if c = 0 \<or> c = 3 then cs
      else if c = 127 then if cs = [] \<or> last cs = 10 then cs else butlast cs
      else if length cs = cap then cs else cs @ [c])"

lemma tty_erase_contents:
  assumes "tty_inv tty"
  shows "tty_inv (snd (tty_erase tty)) \<and> tt_termios (snd (tty_erase tty)) = tt_termios tty
    \<and> deque_capacity (tt_buffer (snd (tty_erase tty))) = deque_capacity (tt_buffer tty)
    \<and> tty_contents (snd (tty_erase tty))
      = (if tty_contents tty = [] \<or> last (tty_contents tty) = 10 then tty_contents tty else butlast (tty_contents tty))"
proof (cases "tty_contents tty = []")
  case True
  then show ?thesis using assms dq.empty_law by (simp add: tty_erase_def tty_inv_def tty_contents_def)
next
  case False
  have inv: "deque_inv (tt_buffer tty)" "\<not> deque_empty (tt_buffer tty)"
    using assms False dq.empty_law by (auto simp: tty_inv_def tty_contents_def)
  obtain r dq' where pop: "deque_pop_back (tt_buffer tty) = (r, dq')" by fastforce
  have dq': "deque_contents (tt_buffer tty) = deque_contents dq' @ [last (deque_contents (tt_buffer tty))]"
    "deque_inv dq'" "deque_capacity dq' = deque_capacity (tt_buffer tty)"
    using deque_pop_back_ok [OF inv pop] by (auto simp: deque_capacity_def)
  have "butlast (deque_contents (tt_buffer tty)) = deque_contents dq'"
    using dq'(1) by (metis butlast_snoc)
  then show ?thesis
    using inv False pop dq'(2,3) deque_back_last [OF inv]
    by (auto simp: tty_erase_def tty_inv_def tty_contents_def tty_putchar_def Let_def)
qed

lemma tty_input_byte_contents:
  assumes "tty_inv tty" and "default_modes tty"
  shows "tty_inv (tty_input_byte c tty) \<and> default_modes (tty_input_byte c tty)
    \<and> deque_capacity (tt_buffer (tty_input_byte c tty)) = deque_capacity (tt_buffer tty)
    \<and> tty_contents (tty_input_byte c tty) = edit (deque_capacity (tt_buffer tty)) c (tty_contents tty)"
proof -
  note flags = default_flags [OF assms(2)] and chars = control_characters [OF assms(2)]
  consider "c = 0" | "c = 3" | "c = 127" | "c \<noteq> 0" "c \<noteq> 3" "c \<noteq> 127" by blast
  then show ?thesis
  proof cases
    case 1
    then show ?thesis using assms by (simp add: tty_input_byte_def edit_def)
  next
    case 2
    then show ?thesis using assms flags chars
      by (simp add: tty_input_byte_def tty_input_c_def edit_def tty_intr_def tty_inv_def tty_contents_def default_modes_def)
  next
    case 3
    then show ?thesis using assms(2) flags chars tty_erase_contents [OF assms(1)]
      by (simp add: tty_input_byte_def tty_input_c_def edit_def default_modes_def)
  next
    case 4
    have inv: "deque_inv (tt_buffer tty)" using assms(1) by (simp add: tty_inv_def)
    show ?thesis
    proof (cases "deque_full (tt_buffer tty)")
      case True
      then show ?thesis using 4 assms chars dq.push_full dq.full_law [OF inv]
        by (simp add: tty_input_byte_def tty_input_c_def edit_def tty_inv_def tty_contents_def default_modes_def)
    next
      case False
      then show ?thesis using 4 assms chars dq.push_ok [OF inv False, of c] dq.full_law [OF inv]
        by (auto simp: tty_input_byte_def tty_input_c_def edit_def tty_inv_def tty_contents_def default_modes_def
          tty_putchar_def Let_def)
    qed
  qed
qed

lemma tty_read_loop_plain:
  assumes "tty_inv tty" and "default_modes tty" and "tty_contents tty = line @ rest" and "10 \<notin> set line" and "4 \<notin> set line"
    and "length acc + length line < count" and "length line < fuel"
  shows "\<exists>tty'. tty_read_loop fuel count acc tty = tty_read_loop (fuel - length line) count (acc @ line) tty'
    \<and> tty_inv tty' \<and> default_modes tty' \<and> tty_contents tty' = rest \<and> tt_lines tty' = tt_lines tty"
  using assms
proof (induction line arbitrary: tty acc fuel)
  case (Cons c line)
  have inv: "deque_inv (tt_buffer tty)" and cs: "deque_contents (tt_buffer tty) = c # line @ rest"
    using Cons.prems by (simp_all add: tty_inv_def tty_contents_def)
  have ne: "\<not> deque_empty (tt_buffer tty)" using dq.empty_law [OF inv] cs by simp
  obtain dq' where dq': "deque_pop_front (tt_buffer tty) = (Inr c, dq')" "deque_inv dq'" "deque_contents dq' = line @ rest"
    using dq.pop_ok [OF inv cs] by blast
  let ?t = "tty\<lparr>tt_buffer := dq'\<rparr>"
  obtain fuel' where fuel: "fuel = Suc fuel'" using Cons.prems(7) by (cases fuel) auto
  have "tty_read_turn count acc tty = Some ((False, acc @ [c]), ?t)"
    using ne deque_front_hd [OF inv ne] cs dq'(1) Cons.prems control_characters [OF Cons.prems(2)]
    by (auto simp: tty_read_turn_def Let_def)
  then have step: "tty_read_loop fuel count acc tty = tty_read_loop fuel' count (acc @ [c]) ?t" by (simp add: fuel)
  have "tty_inv ?t" "default_modes ?t" "tty_contents ?t = line @ rest"
    using dq' Cons.prems(2) by (simp_all add: tty_inv_def default_modes_def tty_contents_def)
  from Cons.IH [OF this, of "acc @ [c]" fuel'] show ?case
    using Cons.prems(4-7) step fuel by (auto simp: default_modes_def)
qed (auto intro: exI [of _ tty])

lemma tty_read_turn_last:
  assumes "tty_inv tty" and "default_modes tty" and "tty_contents tty = c # rest" and "c \<noteq> 4"
    and "length acc + 1 = count \<or> c = 10"
  shows "\<exists>tty'. tty_read_loop (Suc fuel) count acc tty = Some ((True, acc @ [c]), tty') \<and> tty_inv tty'
    \<and> default_modes tty' \<and> tty_contents tty' = rest"
proof -
  have inv: "deque_inv (tt_buffer tty)" and cs: "deque_contents (tt_buffer tty) = c # rest"
    using assms by (simp_all add: tty_inv_def tty_contents_def)
  have ne: "\<not> deque_empty (tt_buffer tty)" using dq.empty_law [OF inv] cs by simp
  obtain dq' where dq': "deque_pop_front (tt_buffer tty) = (Inr c, dq')" "deque_inv dq'" "deque_contents dq' = rest"
    using dq.pop_ok [OF inv cs] by blast
  have canon: "l_flag t ICANON" "\<not> is_eof t c" if "tt_termios t = tt_termios tty" for t
    using that assms(2,4) default_flags(1) [of t] control_characters(2) [of t c] by (simp_all add: default_modes_def)
  show ?thesis
    using ne deque_front_hd [OF inv ne] cs dq' assms(2,5) canon
    by (auto simp: tty_read_turn_def Let_def tty_inv_def default_modes_def tty_contents_def)
qed

lemma contents_below_size: "tty_inv tty \<Longrightarrow> length (tty_contents tty) < dq_size (tt_buffer tty)"
  using deque_count_less [of "tt_buffer tty"] length_deque_contents
  by (auto simp: tty_inv_def tty_contents_def)

section \<open>Correctness\<close>

text \<open>
  C26: the line discipline edits the buffered input as specified: after any sequence of characters the buffer
  holds the result of applying their edits one after the other, and the invariant of the buffer is kept.
\<close>

theorem tty_line_editing:
  assumes "tty_inv tty" and "default_modes tty"
  shows "tty_inv (fold tty_input_byte cs tty)
    \<and> tty_contents (fold tty_input_byte cs tty) = fold (edit (deque_capacity (tt_buffer tty))) cs (tty_contents tty)"
  using assms
proof (induction cs arbitrary: tty)
  case (Cons c cs)
  then show ?case using tty_input_byte_contents [OF Cons.prems, of c] Cons.IH [of "tty_input_byte c tty"] by simp
qed simp

definition sample_tty :: tty where
  "sample_tty = tty_init (replicate 256 0) 0"

lemma sample_tty_ok: "tty_inv sample_tty" "default_modes sample_tty" "tty_contents sample_tty = []"
  "deque_capacity (tt_buffer sample_tty) = 255"
  using deque_init_spec [of "replicate 256 0"]
  by (simp_all add: sample_tty_def tty_init_def tty_inv_def default_modes_def tty_contents_def TTY_BUFFER_SIZE_def
    deque_capacity_def deque_init_def)

text \<open>The keys a, b, erase, c, newline.\<close>

theorem tty_line_editing_witness:
  "tty_contents (fold tty_input_byte [97, 98, 127, 99, 10] sample_tty) = [97, 99, 10]"
  using tty_line_editing [OF sample_tty_ok(1,2), of "[97, 98, 127, 99, 10]"] sample_tty_ok(3,4)
  by (simp add: edit_def)

text \<open>
  C27: a read of a terminal whose buffer holds a complete line returns the line with its newline, or its first
  \<open>count\<close> bytes if it is longer, and leaves what follows for the next read.
\<close>

theorem tty_read_line:
  assumes "tty_inv tty" and "default_modes tty" and "tty_contents tty = line @ 10 # rest" and "10 \<notin> set line"
    and "4 \<notin> set line" and "0 < count"
  shows "\<exists>tty'. tty_read count [] tty = Some ((True, take count (line @ [10])), tty') \<and> tty_inv tty'
    \<and> tty_contents tty' = drop count (line @ [10]) @ rest"
proof -
  let ?fuel = "Suc (dq_size (tt_buffer tty))"
  have len: "length line < dq_size (tt_buffer tty)" using contents_below_size [OF assms(1)] assms(3) by simp
  show ?thesis
  proof (cases "length line < count")
    case True
    have fuel: "length line < ?fuel" using len by simp
    obtain tty1 where t1: "tty_read_loop ?fuel count [] tty = tty_read_loop (?fuel - length line) count line tty1"
      "tty_inv tty1" "default_modes tty1" "tty_contents tty1 = 10 # rest"
      using tty_read_loop_plain [OF assms(1-5) _ fuel, of "[]" count] True by auto
    obtain k where "?fuel - length line = Suc k" using len by (cases "?fuel - length line") auto
    then show ?thesis
      using t1(1) tty_read_turn_last [OF t1(2-4), of line count k] True by (auto simp: tty_read_def)
  next
    case False
    then obtain n where n: "count = Suc n" "n < length line" using assms(6) by (cases count) auto
    have line: "line @ 10 # rest = take n line @ line ! n # drop (Suc n) line @ 10 # rest"
      using n(2) by (simp add: id_take_nth_drop [symmetric] flip: append.assoc append_Cons)
    have "line ! n \<in> set line" using n(2) by (rule nth_mem)
    then have sub: "10 \<notin> set (take n line)" "4 \<notin> set (take n line)" "line ! n \<noteq> 4"
      using assms(4,5) by (auto dest: in_set_takeD)
    have fuel: "length (take n line) < ?fuel" using len by simp
    obtain tty1 where t1: "tty_read_loop ?fuel count [] tty = tty_read_loop (?fuel - n) count (take n line) tty1"
      "tty_inv tty1" "default_modes tty1" "tty_contents tty1 = line ! n # drop (Suc n) line @ 10 # rest"
      using tty_read_loop_plain [OF assms(1,2) _ sub(1,2) _ fuel, of _ "[]" count] n assms(3) line by auto
    obtain k where "?fuel - n = Suc k" using len n(2) by (cases "?fuel - n") auto
    then show ?thesis
      using t1(1) tty_read_turn_last [OF t1(2-4) sub(3), of "take n line" count k] n
      by (auto simp: tty_read_def take_Suc_conv_app_nth)
  qed
qed

theorem tty_read_line_witness:
  "\<exists>tty'. tty_read 100 [] (fold tty_input_byte [97, 98, 10, 99] sample_tty) = Some ((True, [97, 98, 10]), tty')
     \<and> tty_contents tty' = [99]"
proof -
  let ?t = "fold tty_input_byte [97, 98, 10, 99] sample_tty"
  note inputs = tty_input_byte_contents [of sample_tty 97] tty_input_byte_contents [of "tty_input_byte 97 sample_tty" 98]
    tty_input_byte_contents [of "tty_input_byte 98 (tty_input_byte 97 sample_tty)" 10]
    tty_input_byte_contents [of "tty_input_byte 10 (tty_input_byte 98 (tty_input_byte 97 sample_tty))" 99]
  have "tty_inv ?t" "default_modes ?t" "tty_contents ?t = [97, 98] @ 10 # [99]"
    using inputs sample_tty_ok by (auto simp: edit_def)
  from tty_read_line [OF this, of 100] show ?thesis by auto
qed

text \<open>
  An end of file is never consumed.  When the end-of-file character is next in the buffer, a read returns
  no byte and leaves the terminal as it was, so all later reads return no byte either and the input that
  follows is never read.
\<close>

theorem tty_eof_is_permanent:
  assumes "tty_inv tty" and "default_modes tty" and "tty_contents tty = 4 # rest"
  shows "tty_read count acc tty = Some ((True, acc), tty)"
proof -
  have inv: "deque_inv (tt_buffer tty)" and cs: "deque_contents (tt_buffer tty) = 4 # rest"
    using assms by (simp_all add: tty_inv_def tty_contents_def)
  have ne: "\<not> deque_empty (tt_buffer tty)" using dq.empty_law [OF inv] cs by simp
  then have "tty_read_turn count acc tty = Some ((True, acc), tty)"
    using deque_front_hd [OF inv ne] cs control_characters(2) [OF assms(2)] by (simp add: tty_read_turn_def)
  then show ?thesis by (simp add: tty_read_def)
qed

theorem tty_eof_is_permanent_witness:
  "tty_read 100 [] (tty_input_byte 97 (tty_input_byte 4 sample_tty))
     = Some ((True, []), tty_input_byte 97 (tty_input_byte 4 sample_tty))"
proof -
  have "tty_inv (tty_input_byte 97 (tty_input_byte 4 sample_tty))"
    "default_modes (tty_input_byte 97 (tty_input_byte 4 sample_tty))"
    "tty_contents (tty_input_byte 97 (tty_input_byte 4 sample_tty)) = 4 # [97]"
    using tty_input_byte_contents [of sample_tty 4] tty_input_byte_contents [of "tty_input_byte 4 sample_tty" 97]
      sample_tty_ok by (auto simp: edit_def)
  then show ?thesis by (rule tty_eof_is_permanent)
qed

end
