(* ===== verification/Kernel_Kmalloc.thy ===== *)
theory Kernel_Kmalloc
  imports Mm_Memory "HOL-Library.Monad_Syntax"
begin

text \<open>
  The kernel heap (\<^verbatim>\<open>kernel/kheap.c\<close>) and its allocator (\<^verbatim>\<open>kernel/kmalloc.c\<close>): a linked list of blocks that
  follow each other in memory, each with a header of 16 bytes.

  The headers are a map from addresses; the bytes between them are the memory of the clients.  Pointers are
  32-bit words with 0 as the null pointer.  \<open>kheap_sbrk\<close> takes page frames from the allocator of
  \<^verbatim>\<open>Mm_Memory\<close>; mapping a page is the argument \<open>map_page\<close>.
\<close>

section \<open>The model\<close>

definition MAGIC :: "32 word" where "MAGIC = 0xc001b10c"
definition ALIGNMENT :: "32 word" where "ALIGNMENT = 16"
definition HEADER_SIZE :: "32 word" where "HEADER_SIZE = 16"
definition KHEAP_INITIAL_SIZE :: "32 word" where "KHEAP_INITIAL_SIZE = 0x80000"

record memory_block_header =
  bh_magic :: "32 word"
  bh_next :: "32 word"
  bh_size :: "32 word"
  bh_used :: bool

record kheap =
  kh_start :: "32 word"
  kh_end :: "32 word"
  kh_headers :: "32 word \<Rightarrow> memory_block_header"
  kh_frames :: frames

type_synonym page_map = "32 word \<Rightarrow> 32 word \<Rightarrow> unit result"

subsection \<open>The heap\<close>

fun sbrk_loop :: "page_map \<Rightarrow> nat \<Rightarrow> nat \<Rightarrow> kheap \<Rightarrow> nat \<times> kheap" where
  "sbrk_loop map_page 0 i h = (i, h)"
| "sbrk_loop map_page (Suc n) i h =
     (case memory_page_frame_alloc (kh_frames h) of
        (frame, fr) \<Rightarrow>
          let h = h\<lparr>kh_frames := fr\<rparr>
          in if frame = 0 then (i + 1, h)
             else case map_page frame (kh_end h) of
                    Inl e \<Rightarrow> (i + 1, h)
                  | Inr _ \<Rightarrow> sbrk_loop map_page n (i + 1) (h\<lparr>kh_end := kh_end h + PAGE_SIZE\<rparr>))"

definition kheap_sbrk :: "page_map \<Rightarrow> 32 word \<Rightarrow> kheap \<Rightarrow> 32 word \<times> kheap" where
  "kheap_sbrk map_page increment h =
     (let pages = unat (page_align_up increment div PAGE_SIZE);
          (i, h) = sbrk_loop map_page pages 0 h
      in (of_nat i * PAGE_SIZE, h))"

definition make_memory_block ::
  "32 word \<Rightarrow> 32 word \<Rightarrow> 32 word \<Rightarrow> bool \<Rightarrow> kheap \<Rightarrow> kheap" where
  "make_memory_block ptr following sz used h =
     h\<lparr>kh_headers := (kh_headers h)(ptr := \<lparr>bh_magic = MAGIC, bh_next = following, bh_size = sz, bh_used = used\<rparr>)\<rparr>"

definition kmalloc_init :: "kheap \<Rightarrow> 32 word \<Rightarrow> 32 word \<Rightarrow> kheap option" where
  "kmalloc_init h start sz =
     (if is_aligned start ALIGNMENT then Some (make_memory_block start 0 sz False h) else None)"

text \<open>The result is a size; an error is the negated error number as a size.\<close>

definition kheap_init :: "page_map \<Rightarrow> 32 word \<Rightarrow> kheap \<Rightarrow> (32 word \<times> kheap) option" where
  "kheap_init map_page start h =
     (let h = h\<lparr>kh_start := start, kh_end := start\<rparr>;
          (n, h) = kheap_sbrk map_page KHEAP_INITIAL_SIZE h
      in if n < KHEAP_INITIAL_SIZE then Some (- 12, h)
         else map_option (\<lambda>h. (kh_end h - kh_start h, h)) (kmalloc_init h (kh_start h) (kh_end h - kh_start h)))"

subsection \<open>The allocator\<close>

fun find_block :: "nat \<Rightarrow> kheap \<Rightarrow> 32 word \<Rightarrow> 32 word \<Rightarrow> 32 word option" where
  "find_block 0 h block sz = None"
| "find_block (Suc fuel) h block sz =
     (let b = kh_headers h block
      in if bh_next b \<noteq> 0 \<and> (bh_size b < sz \<or> bh_used b) then find_block fuel h (bh_next b) sz else Some block)"

definition set_header :: "32 word \<Rightarrow> (memory_block_header \<Rightarrow> memory_block_header) \<Rightarrow> kheap \<Rightarrow> kheap" where
  "set_header a f h = h\<lparr>kh_headers := (kh_headers h)(a := f (kh_headers h a))\<rparr>"

definition next_block :: "kheap \<Rightarrow> 32 word \<Rightarrow> 32 word" where
  "next_block h block = block + bh_size (kh_headers h block)"

text \<open>More memory for a block that is too small or used: \<open>None\<close> when there is none.\<close>

definition grow_heap :: "page_map \<Rightarrow> 32 word \<Rightarrow> 32 word \<Rightarrow> kheap \<Rightarrow> 32 word option \<times> kheap" where
  "grow_heap map_page block sz h =
     (let (increment, h) = kheap_sbrk map_page sz h
      in if increment = 0 then (None, h)
         else if bh_used (kh_headers h block) then
           let new = next_block h block;
               h = make_memory_block new 0 increment False h
           in (Some new, set_header block (\<lambda>b. b\<lparr>bh_next := new\<rparr>) h)
         else (Some block, set_header block (\<lambda>b. b\<lparr>bh_size := bh_size b + increment\<rparr>) h))"

definition split_block :: "32 word \<Rightarrow> 32 word \<Rightarrow> kheap \<Rightarrow> kheap" where
  "split_block block sz h =
     (if bh_size (kh_headers h block) > sz * 2 then
        let orig_size = bh_size (kh_headers h block);
            h = set_header block (\<lambda>b. b\<lparr>bh_size := sz\<rparr>) h;
            second_part = next_block h block;
            h = make_memory_block second_part (bh_next (kh_headers h block)) (orig_size - sz) False h
        in set_header block (\<lambda>b. b\<lparr>bh_next := second_part\<rparr>) h
      else h)"

definition kmalloc :: "page_map \<Rightarrow> nat \<Rightarrow> 32 word \<Rightarrow> kheap \<Rightarrow> (32 word \<times> kheap) option" where
  "kmalloc map_page fuel size0 h = do {
     let sz = align_up (size0 + HEADER_SIZE) ALIGNMENT;
     block \<leftarrow> find_block fuel h (kh_start h) sz;
     let (found, h) =
       (if bh_size (kh_headers h block) < sz \<or> bh_used (kh_headers h block) then grow_heap map_page block sz h
        else (Some block, h));
     (case found of
        None \<Rightarrow> Some (0, h)
      | Some block \<Rightarrow>
          if bh_size (kh_headers h block) < sz then Some (0, h)
          else let h = set_header block (\<lambda>b. b\<lparr>bh_used := True\<rparr>) (split_block block sz h)
               in Some (block + HEADER_SIZE, h)) }"

text \<open>The division in \<^verbatim>\<open>kcalloc\<close> traps for a count of 0; clearing the memory concerns the client's bytes only.\<close>

definition kcalloc :: "page_map \<Rightarrow> nat \<Rightarrow> 32 word \<Rightarrow> 32 word \<Rightarrow> kheap \<Rightarrow> (32 word \<times> kheap) option" where
  "kcalloc map_page fuel count size0 h =
     (if count = 0 then None
      else if - 1 div count < size0 then Some (0, h)
      else kmalloc map_page fuel (count * size0) h)"

fun merge_free :: "nat \<Rightarrow> kheap \<Rightarrow> 32 word \<Rightarrow> 32 word \<Rightarrow> (32 word \<times> 32 word) option" where
  "merge_free 0 h following merge_size = None"
| "merge_free (Suc fuel) h following merge_size =
     (if following \<noteq> 0 \<and> \<not> bh_used (kh_headers h following)
      then merge_free fuel h (bh_next (kh_headers h following)) (merge_size + bh_size (kh_headers h following))
      else Some (following, merge_size))"

definition kfree :: "nat \<Rightarrow> 32 word \<Rightarrow> kheap \<Rightarrow> kheap option" where
  "kfree fuel ptr h =
     (if ptr = 0 then Some h
      else if \<not> is_aligned ptr ALIGNMENT then Some h
      else let block = ptr - HEADER_SIZE; b = kh_headers h block
           in if bh_magic b \<noteq> MAGIC then Some h
              else if \<not> bh_used b then Some h
              else do {
                (following, merge_size) \<leftarrow> merge_free fuel h (bh_next b) (bh_size b);
                Some (set_header block (\<lambda>b. b\<lparr>bh_next := following, bh_size := merge_size, bh_used := False\<rparr>) h) })"

definition kmalloc_early :: "bool \<Rightarrow> 32 word \<Rightarrow> kernel_image \<Rightarrow> (32 word \<times> kernel_image) option" where
  "kmalloc_early init_done size0 img =
     (if init_done then None
      else map_option (\<lambda>img'. (kernel_image_get_virt_end img, img')) (kernel_image_shift_kernel_end (align_up size0 ALIGNMENT) img))"

section \<open>The list of blocks\<close>

text \<open>
  The blocks of a heap, with their addresses, sizes and whether they are used.  \<open>path h a bs c\<close>: following the
  links from \<open>a\<close> visits the blocks \<open>bs\<close> and arrives at \<open>c\<close>.  \<open>tiled a e bs\<close>: the blocks fill the memory from
  \<open>a\<close> to \<open>e\<close> without gaps.
\<close>

type_synonym blk = "32 word \<times> 32 word \<times> bool"

primrec path :: "kheap \<Rightarrow> 32 word \<Rightarrow> blk list \<Rightarrow> 32 word \<Rightarrow> bool" where
  "path h a [] c \<longleftrightarrow> a = c"
| "path h a (b # bs) c \<longleftrightarrow> a = fst b \<and> bh_magic (kh_headers h a) = MAGIC \<and> bh_size (kh_headers h a) = fst (snd b)
     \<and> bh_used (kh_headers h a) = snd (snd b) \<and> path h (bh_next (kh_headers h a)) bs c"

primrec tiled :: "nat \<Rightarrow> nat \<Rightarrow> blk list \<Rightarrow> bool" where
  "tiled a e [] \<longleftrightarrow> a = e"
| "tiled a e (b # bs) \<longleftrightarrow> unat (fst b) = a \<and> 16 dvd unat (fst (snd b)) \<and> 16 \<le> unat (fst (snd b))
     \<and> tiled (a + unat (fst (snd b))) e bs"

definition heap_inv :: "kheap \<Rightarrow> blk list \<Rightarrow> bool" where
  "heap_inv h bs \<longleftrightarrow> path h (kh_start h) bs 0 \<and> tiled (unat (kh_start h)) (unat (kh_end h)) bs \<and> bs \<noteq> []
     \<and> 0 < unat (kh_start h) \<and> 16 dvd unat (kh_start h)"

definition used_blocks :: "blk list \<Rightarrow> (32 word \<times> 32 word) set" where
  "used_blocks bs = {(b, s). (b, s, True) \<in> set bs}"

lemma used_blocks_simps [simp]:
  "used_blocks [] = {}"
  "used_blocks ((b, s, True) # bs) = insert (b, s) (used_blocks bs)"
  "used_blocks ((b, s, False) # bs) = used_blocks bs"
  "used_blocks (xs @ ys) = used_blocks xs \<union> used_blocks ys"
  by (auto simp: used_blocks_def)

lemma path_append: "path h a (xs @ ys) c \<longleftrightarrow> (\<exists>m. path h a xs m \<and> path h m ys c)"
  by (induction xs arbitrary: a) auto

lemma tiled_append: "tiled a e (xs @ ys) \<longleftrightarrow> (\<exists>m. tiled a m xs \<and> tiled m e ys)"
  by (induction xs arbitrary: a) auto

lemma tiled_bounds: "tiled a e bs \<Longrightarrow> a \<le> e \<and> (\<forall>(b, s, u) \<in> set bs. a \<le> unat b \<and> unat b + unat s \<le> e)"
  by (induction bs arbitrary: a) fastforce+

lemma tiled_bound: "tiled a e bs \<Longrightarrow> b \<in> set bs \<Longrightarrow> a \<le> unat (fst b) \<and> unat (fst b) + unat (fst (snd b)) \<le> e"
  using tiled_bounds [of a e bs] by (cases b) auto

lemma tiled_positive: "tiled a e bs \<Longrightarrow> (b, s, u) \<in> set bs \<Longrightarrow> 16 \<le> unat s \<and> 16 dvd unat s"
  by (induction bs arbitrary: a) auto

lemma path_frame:
  "(\<And>b. b \<in> fst ` set bs \<Longrightarrow> kh_headers h' b = kh_headers h b) \<Longrightarrow> path h' a bs c = path h a bs c"
  by (induction bs arbitrary: a) auto

lemma path_set_header: "a \<notin> fst ` set bs \<Longrightarrow> path (set_header a f h) x bs c = path h x bs c"
  by (rule path_frame) (auto simp: set_header_def)

lemma path_make_block: "a \<notin> fst ` set bs \<Longrightarrow> path (make_memory_block a n s u h) x bs c = path h x bs c"
  by (rule path_frame) (auto simp: make_memory_block_def)

text \<open>A block in the middle: everything else lies before or behind it.\<close>

lemma tiled_split:
  assumes "tiled a e (xs @ (b, s, u) # ys)"
  shows "tiled a (unat b) xs" and "tiled (unat b + unat s) e ys" and "16 \<le> unat s" and "16 dvd unat s"
    and "unat b + unat s \<le> e" and "b \<notin> fst ` set xs" and "b \<notin> fst ` set ys"
    and "\<And>c. c \<in> set xs \<Longrightarrow> unat (fst c) + unat (fst (snd c)) \<le> unat b"
    and "\<And>c. c \<in> set ys \<Longrightarrow> unat b + unat s \<le> unat (fst c)"
proof -
  show xs: "tiled a (unat b) xs" and ys: "tiled (unat b + unat s) e ys" and s: "16 \<le> unat s" "16 dvd unat s"
    using assms by (auto simp: tiled_append)
  show "unat b + unat s \<le> e" using tiled_bounds [OF ys] by simp
  show below: "\<And>c. c \<in> set xs \<Longrightarrow> unat (fst c) + unat (fst (snd c)) \<le> unat b" using tiled_bound [OF xs] by blast
  show above: "\<And>c. c \<in> set ys \<Longrightarrow> unat b + unat s \<le> unat (fst c)" using tiled_bound [OF ys] by blast
  show "b \<notin> fst ` set xs"
  proof
    assume "b \<in> fst ` set xs"
    then obtain s' u' where c: "(b, s', u') \<in> set xs" by auto
    then show False using below [OF c] tiled_positive [OF xs c] by simp
  qed
  show "b \<notin> fst ` set ys" using above s(1) by fastforce
qed

lemma find_block_spec:
  assumes "path h a bs 0" and "tiled (unat a) e bs" and "bs \<noteq> []" and "0 < unat a" and "length bs \<le> fuel"
  shows "\<exists>xs b s u ys. find_block fuel h a sz = Some b \<and> bs = xs @ (b, s, u) # ys 
    \<and> (s < sz \<or> u \<longrightarrow> ys = []) \<and> (\<forall>x \<in> set xs. fst (snd x) < sz \<or> snd (snd x))"
  using assms
proof (induction bs arbitrary: a fuel)
  case (Cons c cs)
  obtain fuel' where fuel: "fuel = Suc fuel'" using Cons.prems(5) by (cases fuel) auto
  obtain s u where c: "c = (a, s, u)" using Cons.prems(1) by (cases c) auto
  have hd: "bh_size (kh_headers h a) = s" "bh_used (kh_headers h a) = u"
    and rest: "path h (bh_next (kh_headers h a)) cs 0" "tiled (unat a + unat s) e cs"
    using Cons.prems(1,2) c by auto
  show ?case
  proof (cases cs)
    case Nil
    then have "find_block fuel h a sz = Some a" using rest(1) by (simp add: fuel)
    then show ?thesis using Nil c by (intro exI [of _ "[]"]) auto
  next
    case (Cons d ds)
    have nx: "unat (bh_next (kh_headers h a)) = unat a + unat s" using rest Cons by simp
    then have pos: "0 < unat (bh_next (kh_headers h a))" using Cons.prems(4) by simp
    then have nz: "bh_next (kh_headers h a) \<noteq> 0" by (auto simp: unat_gt_0)
    show ?thesis
    proof (cases "s < sz \<or> u")
      case True
      have step: "find_block fuel h a sz = find_block fuel' h (bh_next (kh_headers h a)) sz"
        using True nz hd by (auto simp: fuel Let_def)
      obtain xs b s' u' ys where "find_block fuel' h (bh_next (kh_headers h a)) sz = Some b"
        "cs = xs @ (b, s', u') # ys" "s' < sz \<or> u' \<longrightarrow> ys = []"
        "\<forall>x \<in> set xs. fst (snd x) < sz \<or> snd (snd x)"
        using Cons.IH [OF rest(1) _ _ pos, of fuel'] rest(2) nx \<open>cs = d # ds\<close> Cons.prems(5) fuel by auto
      then show ?thesis using step c True by (intro exI [of _ "(a, s, u) # xs"]) auto
    next
      case False
      then have "find_block fuel h a sz = Some a" using hd by (auto simp: fuel Let_def)
      then show ?thesis using c False by (intro exI [of _ "[]"]) auto
    qed
  qed
qed simp

lemma heap_inv_split:
  assumes "heap_inv h (xs @ (b, s, u) # ys)"
  shows "path h (kh_start h) xs b" and "path h (bh_next (kh_headers h b)) ys 0"
    and "bh_magic (kh_headers h b) = MAGIC" "bh_size (kh_headers h b) = s" "bh_used (kh_headers h b) = u"
  using assms by (auto simp: heap_inv_def path_append)

lemma unat_add_within: "unat (a :: 32 word) + unat b \<le> unat (c :: 32 word) \<Longrightarrow> unat (a + b) = unat a + unat b"
  using unat_32_bound [of c] by (intro unat_add_no_wrap) simp

text \<open>Taking a free block that is large enough, after splitting it if it is more than twice as large as needed.\<close>

lemma take_block_inv:
  assumes "heap_inv h (xs @ (b, s, False) # ys)" and "sz \<le> s" and "16 dvd unat sz" and "16 \<le> unat sz"
    and "unat sz < 2 ^ 31"
  defines "h' \<equiv> set_header b (\<lambda>b. b\<lparr>bh_used := True\<rparr>) (split_block b sz h)"
  shows "heap_inv h' (xs @ (if s > sz * 2 then [(b, sz, True), (b + sz, s - sz, False)] else [(b, s, True)]) @ ys)"
proof -
  have t: "tiled (unat (kh_start h)) (unat (kh_end h)) (xs @ (b, s, False) # ys)"
    using assms(1) by (simp add: heap_inv_def)
  note split = tiled_split [OF t] and links = heap_inv_split [OF assms(1)]
  have start: "kh_start h' = kh_start h" "kh_end h' = kh_end h"
    by (simp_all add: h'_def set_header_def split_block_def make_memory_block_def Let_def)
  have base: "0 < unat (kh_start h)" "16 dvd unat (kh_start h)" using assms(1) by (simp_all add: heap_inv_def)
  show ?thesis
  proof (cases "s > sz * 2")
    case False
    have h': "h' = set_header b (\<lambda>b. b\<lparr>bh_used := True\<rparr>) h"
      using False links(4) by (simp add: h'_def split_block_def)
    have "path h' (kh_start h) xs b" "path h' (bh_next (kh_headers h b)) ys 0"
      using links(1,2) split(6,7) by (simp_all add: h' path_set_header)
    then show ?thesis using False start base links(3-5) split(1,2,3,4)
      by (auto simp: heap_inv_def path_append tiled_append h' set_header_def)
  next
    case True
    have le: "unat sz \<le> unat s" using assms(2) by (simp add: word_le_nat_alt)
    have bsz: "unat (b + sz) = unat b + unat sz" "unat (s - sz) = unat s - unat sz"
      using split(5) le assms(2) unat_add_within [of b sz "kh_end h"] by (auto intro: unat_sub)
    have "unat (sz * 2) = unat sz * 2" using assms(5) unat_mult_no_wrap [of sz 2] by simp
    then have big: "unat sz * 2 < unat s" using True by (simp add: word_less_nat_alt)
    have ne: "b + sz \<noteq> b" using bsz(1) assms(4) by auto
    have nx: "b + sz \<notin> fst ` set xs" "b + sz \<notin> fst ` set ys"
    proof -
      show "b + sz \<notin> fst ` set xs" using split(8) bsz(1) tiled_positive [OF split(1)] by fastforce
      show "b + sz \<notin> fst ` set ys" using split(9) bsz(1) big by fastforce
    qed
    let ?n = "bh_next (kh_headers h b)"
    have hb: "kh_headers h' b = \<lparr>bh_magic = MAGIC, bh_next = b + sz, bh_size = sz, bh_used = True\<rparr>"
      "kh_headers h' (b + sz) = \<lparr>bh_magic = MAGIC, bh_next = ?n, bh_size = s - sz, bh_used = False\<rparr>"
      "\<And>c. c \<noteq> b \<Longrightarrow> c \<noteq> b + sz \<Longrightarrow> kh_headers h' c = kh_headers h c"
      using True links(3-5) ne
      by (auto simp: h'_def split_block_def set_header_def make_memory_block_def next_block_def Let_def)
    have "path h' (kh_start h) xs b" "path h' ?n ys 0"
      using links(1,2) split(6,7) nx hb(3) path_frame [of xs h' h] path_frame [of ys h' h] by metis+
    moreover have "16 dvd unat s - unat sz" "16 \<le> unat s - unat sz" using split(4) assms(3,4) big by auto
    ultimately show ?thesis using True start base hb split(1,2) bsz assms(3,4) le
      by (auto simp: heap_inv_def path_append tiled_append)
  qed
qed

section \<open>Growing, allocating and freeing\<close>

lemma sbrk_loop_headers:
  "sbrk_loop map_page n i h = (k, h') \<Longrightarrow> kh_headers h' = kh_headers h \<and> kh_start h' = kh_start h"
  by (induction n arbitrary: i h) (auto simp: Let_def split: prod.splits if_splits sum.splits)

lemma kheap_sbrk_headers:
  "kheap_sbrk map_page inc h = (n, h') \<Longrightarrow> kh_headers h' = kh_headers h \<and> kh_start h' = kh_start h"
  by (auto simp: kheap_sbrk_def Let_def dest: sbrk_loop_headers split: prod.splits)

text \<open>
  The heap grows as asked: the added bytes are those it says, at its end, and they are enough.
\<close>

definition sbrk_succeeds :: "page_map \<Rightarrow> 32 word \<Rightarrow> kheap \<Rightarrow> bool" where
  "sbrk_succeeds map_page sz h \<longleftrightarrow>
     (case kheap_sbrk map_page sz h of (inc, h') \<Rightarrow>
        kh_end h' = kh_end h + inc \<and> unat (kh_end h) + unat inc < 2 ^ 32 \<and> sz \<le> inc \<and> 16 dvd unat inc)"

lemma grow_heap_inv:
  assumes "heap_inv h (xs @ [(b, s, u)])" and "sbrk_succeeds map_page sz h" and "16 \<le> unat sz"
  shows "\<exists>xs' b' s' h'. grow_heap map_page b sz h = (Some b', h') \<and> heap_inv h' (xs' @ [(b', s', False)]) \<and> sz \<le> s'
    \<and> used_blocks xs' = used_blocks (xs @ [(b, s, u)])
    \<and> bh_size (kh_headers h' b') = s' \<and> \<not> bh_used (kh_headers h' b')"
proof -
  obtain inc h1 where inc: "kheap_sbrk map_page sz h = (inc, h1)" by fastforce
  then have e: "kh_end h1 = kh_end h + inc" "unat (kh_end h) + unat inc < 2 ^ 32" "sz \<le> inc" "16 dvd unat inc"
    using assms(2) by (auto simp: sbrk_succeeds_def)
  have hd: "kh_headers h1 = kh_headers h" "kh_start h1 = kh_start h" using kheap_sbrk_headers [OF inc] by simp_all
  have "unat sz \<le> unat inc" using e(3) by (simp add: word_le_nat_alt)
  then have inc0: "inc \<noteq> 0" "16 \<le> unat inc" using assms(3) by auto
  have t: "tiled (unat (kh_start h)) (unat (kh_end h)) (xs @ (b, s, u) # [])"
    using assms(1) by (simp add: heap_inv_def)
  note split = tiled_split [OF t] and links = heap_inv_split [OF assms(1)]
  have end_eq: "unat b + unat s = unat (kh_end h)" using split(2) by simp
  have ue: "unat (kh_end h1) = unat (kh_end h) + unat inc" unfolding e(1) using e(2) by (rule unat_add_no_wrap)
  have nb: "unat (b + s) = unat b + unat s" using end_eq by (intro unat_add_within [of _ _ "kh_end h"]) simp
  have base: "0 < unat (kh_start h)" "16 dvd unat (kh_start h)" using assms(1) by (simp_all add: heap_inv_def)
  have p1: "path h1 (kh_start h) xs b" using links(1) path_frame [of xs h1 h] hd(1) by simp
  show ?thesis
  proof (cases u)
    case True
    let ?new = "b + s"
    let ?h2 = "make_memory_block ?new 0 inc False h1"
    let ?h = "set_header b (\<lambda>b. b\<lparr>bh_next := ?new\<rparr>) ?h2"
    have ne: "?new \<noteq> b" using nb split(3) by auto
    have nxs: "?new \<notin> fst ` set xs" using split(8) nb split(3) by fastforce
    have g: "grow_heap map_page b sz h = (Some ?new, ?h)"
      using inc inc0(1) links(4,5) True hd by (simp add: grow_heap_def next_block_def Let_def)
    have "path ?h (kh_start h) xs b" using p1 split(6) nxs by (simp add: path_set_header path_make_block)
    then have "heap_inv ?h ((xs @ [(b, s, True)]) @ [(?new, inc, False)])"
      using links(3-5) True split(1,3,4) ne nb end_eq ue e(4) inc0 base hd
      by (auto simp: heap_inv_def path_append tiled_append set_header_def make_memory_block_def)
    moreover have "bh_size (kh_headers ?h ?new) = inc" "\<not> bh_used (kh_headers ?h ?new)"
      using ne by (simp_all add: set_header_def make_memory_block_def)
    ultimately show ?thesis using g e(3) True by fastforce
  next
    case False
    let ?h = "set_header b (\<lambda>b. b\<lparr>bh_size := bh_size b + inc\<rparr>) h1"
    have si: "unat (s + inc) = unat s + unat inc" using end_eq e(2) by (intro unat_add_no_wrap) simp
    have g: "grow_heap map_page b sz h = (Some b, ?h)"
      using inc inc0(1) links(4,5) False hd by (simp add: grow_heap_def)
    have "path ?h (kh_start h) xs b" using p1 split(6) by (simp add: path_set_header)
    then have "heap_inv ?h (xs @ [(b, s + inc, False)])"
      using links(2-5) False split(1,3,4) si end_eq ue e(4) base hd
      by (auto simp: heap_inv_def path_append tiled_append set_header_def)
    moreover have "sz \<le> s + inc" using si \<open>unat sz \<le> unat inc\<close> by (simp add: word_le_nat_alt)
    moreover have "bh_size (kh_headers ?h b) = s + inc" "\<not> bh_used (kh_headers ?h b)"
      using links(4,5) False hd by (simp_all add: set_header_def)
    ultimately show ?thesis using g False by fastforce
  qed
qed

text \<open>The size of the block for a request that is not too large.\<close>

lemma request_size:
  assumes "unat size0 + 32 < 2 ^ 31"
  defines "sz \<equiv> align_up (size0 + HEADER_SIZE) ALIGNMENT"
  shows "unat size0 + 16 \<le> unat sz" and "16 dvd unat sz" and "unat sz < 2 ^ 31"
proof -
  have s: "unat (size0 + 16) = unat size0 + 16" using assms(1) unat_add_no_wrap [of size0 16] by simp
  have "unat sz = (unat size0 + 16 + 15) div 16 * 16"
    using unat_align_up [of "size0 + 16" 4] s assms(1)
    by (simp add: sz_def HEADER_SIZE_def ALIGNMENT_def)
  then show "unat size0 + 16 \<le> unat sz" "16 dvd unat sz" "unat sz < 2 ^ 31" using assms(1) by simp_all
qed


text \<open>A used block overlaps no other block.\<close>

definition apart :: "32 word \<Rightarrow> 32 word \<Rightarrow> (32 word \<times> 32 word) set \<Rightarrow> bool" where
  "apart b s us \<longleftrightarrow> (\<forall>(c, t) \<in> us. unat c + unat t \<le> unat b \<or> unat b + unat s \<le> unat c)"

lemma tiled_apart:
  assumes "tiled a e (xs @ (b, s, u) # ys)" and "s' \<le> s"
  shows "apart b s' (used_blocks (xs @ ys))"
  using tiled_split(8,9) [OF assms(1)] assms(2) by (fastforce simp: apart_def used_blocks_def word_le_nat_alt)

lemma tiled_aligned: "tiled a e bs \<Longrightarrow> 16 dvd a \<Longrightarrow> (b, s, u) \<in> set bs \<Longrightarrow> 16 dvd unat b"
  by (induction bs arbitrary: a) (auto intro: dvd_add)

lemma take_block:
  assumes "heap_inv h (xs @ (b, s, False) # ys)" and "sz \<le> s" and "16 dvd unat sz" and "16 \<le> unat sz"
    and "unat sz < 2 ^ 31"
  shows "\<exists>s' bs'. heap_inv (set_header b (\<lambda>b. b\<lparr>bh_used := True\<rparr>) (split_block b sz h)) bs'
    \<and> used_blocks bs' = insert (b, s') (used_blocks (xs @ ys)) \<and> sz \<le> s' \<and> apart b s' (used_blocks (xs @ ys))
    \<and> 16 dvd unat b"
proof -
  let ?mid = "if s > sz * 2 then [(b, sz, True), (b + sz, s - sz, False)] else [(b, s, True)]"
  let ?s = "if s > sz * 2 then sz else s"
  have t: "tiled (unat (kh_start h)) (unat (kh_end h)) (xs @ (b, s, False) # ys)" "16 dvd unat (kh_start h)"
    using assms(1) by (simp_all add: heap_inv_def)
  have "16 dvd unat b" using tiled_aligned [OF t, of b s False] by simp
  moreover have "used_blocks (xs @ ?mid @ ys) = insert (b, ?s) (used_blocks (xs @ ys))" by simp
  moreover have "sz \<le> ?s" "?s \<le> s" using assms(2) by simp_all
  ultimately show ?thesis using take_block_inv [OF assms] tiled_apart [OF t(1)] by blast
qed

text \<open>Freeing: the free blocks behind the freed one are merged into it.\<close>

lemma merge_free_spec:
  assumes "path h n ys 0" and "tiled (unat b + unat ms) e ys" and "e < 2 ^ 32" and "16 dvd unat ms" and "16 \<le> unat ms"
    and "length ys < fuel"
  shows "\<exists>fs zs n' ms'. merge_free fuel h n ms = Some (n', ms') \<and> ys = fs @ zs \<and> (\<forall>f \<in> set fs. \<not> snd (snd f))
    \<and> (zs \<noteq> [] \<longrightarrow> snd (snd (hd zs))) \<and> path h n' zs 0 \<and> tiled (unat b + unat ms') e zs
    \<and> 16 dvd unat ms' \<and> 16 \<le> unat ms'"
  using assms
proof (induction ys arbitrary: n ms fuel)
  case Nil
  then show ?case by (cases fuel) auto
next
  case (Cons y ys)
  obtain fuel' where fuel: "fuel = Suc fuel'" using Cons.prems(6) by (cases fuel) auto
  obtain s u where y: "y = (n, s, u)" using Cons.prems(1) by (cases y) auto
  have hd: "bh_size (kh_headers h n) = s" "bh_used (kh_headers h n) = u"
    and n: "unat n = unat b + unat ms" and s: "16 dvd unat s" "16 \<le> unat s"
    and rest: "path h (bh_next (kh_headers h n)) ys 0" "tiled (unat b + unat ms + unat s) e ys"
    using Cons.prems(1,2) y by auto
  have "unat b + unat ms + unat s \<le> e" using tiled_bounds [OF rest(2)] by simp
  then have ms: "unat (ms + s) = unat ms + unat s" using Cons.prems(3) by (intro unat_add_no_wrap) simp
  have nz: "n \<noteq> 0" using n Cons.prems(5) by (auto simp: unat_gt_0)
  show ?case
  proof (cases u)
    case True
    then show ?thesis using Cons.prems y hd by (intro exI [of _ "[]"] exI [of _ "y # ys"]) (auto simp: fuel)
  next
    case False
    have "tiled (unat b + unat (ms + s)) e ys" using rest(2) ms by (simp add: add.assoc)
    moreover have "16 dvd unat (ms + s)" "16 \<le> unat (ms + s)" using ms s Cons.prems(4,5) by simp_all
    moreover have "length ys < fuel'" using Cons.prems(6) fuel by simp
    ultimately obtain fs zs n' ms' where "merge_free fuel' h (bh_next (kh_headers h n)) (ms + s) = Some (n', ms')"
      "ys = fs @ zs" "\<forall>f \<in> set fs. \<not> snd (snd f)" "zs \<noteq> [] \<longrightarrow> snd (snd (hd zs))" "path h n' zs 0"
      "tiled (unat b + unat ms') e zs" "16 dvd unat ms'" "16 \<le> unat ms'"
      using Cons.IH [OF rest(1) _ Cons.prems(3)] by blast
    then show ?thesis using False y hd nz by (intro exI [of _ "y # fs"] exI [of _ zs]) (auto simp: fuel)
  qed
qed

lemma free_merged: "\<forall>f \<in> set fs. \<not> snd (snd f) \<Longrightarrow> used_blocks fs = {}"
  by (auto simp: used_blocks_def)

lemma kfree_block:
  assumes "heap_inv h (xs @ (b, s, True) # ys)" and "length ys < fuel"
  shows "\<exists>h' s' fs zs. kfree fuel (b + HEADER_SIZE) h = Some h' \<and> heap_inv h' (xs @ (b, s', False) # zs)
    \<and> ys = fs @ zs \<and> (\<forall>f \<in> set fs. \<not> snd (snd f)) \<and> (zs \<noteq> [] \<longrightarrow> snd (snd (hd zs)))"
proof -
  have t: "tiled (unat (kh_start h)) (unat (kh_end h)) (xs @ (b, s, True) # ys)" "16 dvd unat (kh_start h)"
    "0 < unat (kh_start h)" using assms(1) by (simp_all add: heap_inv_def)
  note split = tiled_split [OF t(1)] and links = heap_inv_split [OF assms(1)]
  have b16: "unat (b + 16) = unat b + 16" using split(3,5) unat_add_within [of b 16 "kh_end h"] by simp
  have al: "16 dvd unat b" using tiled_aligned [OF t(1,2), of b s True] by simp
  have valid: "b + HEADER_SIZE \<noteq> 0" "is_aligned (b + HEADER_SIZE) ALIGNMENT"
    using b16 al is_aligned_iff_dvd [of "b + 16" 4] by (auto simp: HEADER_SIZE_def ALIGNMENT_def)
  have "unat (kh_end h) < 2 ^ 32" using unat_32_bound [of "kh_end h"] by simp
  then obtain fs zs n' s' where m: "merge_free fuel h (bh_next (kh_headers h b)) s = Some (n', s')" "ys = fs @ zs"
    "\<forall>f \<in> set fs. \<not> snd (snd f)" "zs \<noteq> [] \<longrightarrow> snd (snd (hd zs))" "path h n' zs 0"
    "tiled (unat b + unat s') (unat (kh_end h)) zs" "16 dvd unat s'" "16 \<le> unat s'"
    using merge_free_spec [OF links(2) split(2) _ split(4,3) assms(2)] by blast
  let ?h = "set_header b (\<lambda>b. b\<lparr>bh_next := n', bh_size := s', bh_used := False\<rparr>) h"
  have k: "kfree fuel (b + HEADER_SIZE) h = Some ?h"
    using valid links(3-5) m(1) by (simp add: kfree_def Let_def)
  have "path ?h (kh_start h) xs b" "path ?h n' zs 0"
    using links(1) m(2,5) split(6,7) by (simp_all add: path_set_header image_Un)
  then have "heap_inv ?h (xs @ (b, s', False) # zs)"
    using t(2,3) links(3) split(1) m(6-8) by (auto simp: heap_inv_def path_append tiled_append set_header_def)
  then show ?thesis using k m(2-4) by blast
qed

lemma kmalloc_from:
  assumes "find_block fuel h (kh_start h) (align_up (size0 + HEADER_SIZE) ALIGNMENT) = Some c"
    and "(if bh_size (kh_headers h c) < align_up (size0 + HEADER_SIZE) ALIGNMENT \<or> bh_used (kh_headers h c)
          then grow_heap map_page c (align_up (size0 + HEADER_SIZE) ALIGNMENT) h else (Some c, h)) = (Some b, h1)"
    and "heap_inv h1 (xs @ (b, s, False) # ys)" and "align_up (size0 + HEADER_SIZE) ALIGNMENT \<le> s"
    and "unat size0 + 32 < 2 ^ 31"
  shows "\<exists>s' h' bs'. kmalloc map_page fuel size0 h = Some (b + HEADER_SIZE, h') \<and> heap_inv h' bs'
    \<and> used_blocks bs' = insert (b, s') (used_blocks (xs @ ys)) \<and> unat size0 + 16 \<le> unat s'
    \<and> apart b s' (used_blocks (xs @ ys)) \<and> 16 dvd unat b"
proof -
  let ?sz = "align_up (size0 + HEADER_SIZE) ALIGNMENT"
  let ?h = "set_header b (\<lambda>b. b\<lparr>bh_used := True\<rparr>) (split_block b ?sz h1)"
  have sz: "unat size0 + 16 \<le> unat ?sz" "16 dvd unat ?sz" "16 \<le> unat ?sz" "unat ?sz < 2 ^ 31"
    using request_size [OF assms(5)] by simp_all
  have k: "kmalloc map_page fuel size0 h = Some (b + HEADER_SIZE, ?h)"
    using assms(1,2) leD [OF assms(4)] heap_inv_split(4) [OF assms(3)] by (simp add: kmalloc_def Let_def)
  obtain s' bs' where "heap_inv ?h bs'" "used_blocks bs' = insert (b, s') (used_blocks (xs @ ys))" "?sz \<le> s'"
    "apart b s' (used_blocks (xs @ ys))" "16 dvd unat b"
    using take_block [OF assms(3,4) sz(2-4)] by blast
  then show ?thesis using k sz(1) by (fastforce simp: word_le_nat_alt)
qed





lemma kheap_sbrk_exhausted:
  assumes "list_empty (fr_heap (kh_frames h)) (pf_sentinel free_page_frames)" and "0 < unat sz" and "unat sz \<le> 4096"
  shows "kheap_sbrk map_page sz h = (PAGE_SIZE, h)"
proof -
  have "unat (page_align_up sz div PAGE_SIZE) = 1"
    using assms(2,3) by (subst unat_div) (simp add: unat_page_align_up)
  then have "unat (page_align_up sz div PAGE_SIZE) = Suc 0" by simp
  then show ?thesis using assms(1) unfolding kheap_sbrk_def by (simp add: memory_page_frame_alloc_def)
qed



text \<open>The size of a request near the top of the range wraps to 0: the first free block is handed out for it.\<close>

lemma kmalloc_huge_request:
  assumes "\<not> bh_used (kh_headers h (kh_start h))"
  shows "\<exists>h'. kmalloc map_page (Suc fuel) 0xfffffff0 h = Some (kh_start h + HEADER_SIZE, h')"
proof -
  have "align_up (0xfffffff0 + HEADER_SIZE) ALIGNMENT = 0" by code_simp
  then show ?thesis using assms by (simp add: kmalloc_def Let_def)
qed

lemma sbrk_loop_end:
  "sbrk_loop map_page n i h = (k, h') \<Longrightarrow> \<exists>m \<le> n. kh_end h' = kh_end h + of_nat m * PAGE_SIZE \<and> k \<le> i + m + 1"
proof (induction n arbitrary: i h)
  case (Suc n)
  obtain frame fr where f: "memory_page_frame_alloc (kh_frames h) = (frame, fr)" by fastforce
  show ?case
  proof (cases "frame = 0 \<or> (\<exists>e. map_page frame (kh_end h) = Inl e)")
    case True
    then have "kh_end h' = kh_end h" "k = i + 1" using Suc.prems f by (auto simp: Let_def split: if_splits)
    then show ?thesis by (intro exI [of _ 0]) simp
  next
    case False
    then obtain v where "map_page frame (kh_end h) = Inr v" by (cases "map_page frame (kh_end h)") auto
    then have "sbrk_loop map_page n (i + 1) (h\<lparr>kh_frames := fr, kh_end := kh_end h + PAGE_SIZE\<rparr>) = (k, h')"
      using Suc.prems f False by (simp add: Let_def)
    from Suc.IH [OF this] obtain m where "m \<le> n" "kh_end h' = kh_end h + PAGE_SIZE + of_nat m * PAGE_SIZE" "k \<le> i + 1 + m + 1"
      by auto
    then show ?thesis by (intro exI [of _ "Suc m"]) (simp add: algebra_simps)
  qed
qed simp

text \<open>
  A heap that \<open>kheap_init\<close> sets up is one free block from its start to the end of the mapped pages, and a
  well-formed heap as soon as one page could be mapped.
\<close>

lemma kheap_init_establishes:
  assumes "kheap_init map_page start h = Some (n, h')" and "n \<noteq> - 12" and "kh_end h' \<noteq> start" and "0 < unat start"
    and "unat start + 0x80000 < 2 ^ 32"
  shows "heap_inv h' [(start, kh_end h' - start, False)] \<and> n = kh_end h' - start"
proof -
  let ?h = "h\<lparr>kh_start := start, kh_end := start\<rparr>"
  obtain k h1 where l: "sbrk_loop map_page 128 0 ?h = (k, h1)" by fastforce
  have pages: "unat (page_align_up KHEAP_INITIAL_SIZE div PAGE_SIZE) = 128" by code_simp
  have h1: "kh_start h1 = start" using sbrk_loop_headers [OF l] by simp
  have ok: "is_aligned start ALIGNMENT" "h' = make_memory_block start 0 (kh_end h1 - start) False h1" "n = kh_end h1 - start"
    using assms(1,2) l h1 pages
    by (auto simp: kheap_init_def kheap_sbrk_def kmalloc_init_def make_memory_block_def Let_def split: if_splits)
  obtain m where m: "m \<le> 128" "kh_end h1 = start + of_nat m * PAGE_SIZE" using sbrk_loop_end [OF l] by auto
  have "unat (of_nat m * 0x1000 :: 32 word) = m * 4096" using m(1) by (simp add: unat_word_ariths unat_of_nat)
  then have e: "unat (kh_end h1 - start) = m * 4096" "unat (kh_end h1) = unat start + m * 4096"
    using m assms(5) unat_add_no_wrap [of start "of_nat m * 0x1000"] by simp_all
  have "m \<noteq> 0" using assms(3) ok(2) m(2) by (intro notI) (simp add: make_memory_block_def)
  then have "16 \<le> m * 4096" "16 dvd m * (4096 :: nat)" by simp_all
  then show ?thesis
    using ok h1 e assms(4) is_aligned_iff_dvd [of start 4]
    by (auto simp: heap_inv_def make_memory_block_def ALIGNMENT_def)
qed

end
