(* ===== verification/X86_Paging.thy ===== *)
theory X86_Paging
  imports Mm_Memory "HOL-Library.Monad_Syntax"
begin

text \<open>
  Paging on x86 (\<^verbatim>\<open>arch/x86/mm/paging.c\<close>) and the address spaces of \<^verbatim>\<open>arch/x86/mm/vmm.c\<close>.

  Physical memory is a map from page frames (their 20-bit numbers) and word indices to 32-bit words.  The code reaches its
  page tables through virtual addresses, by a page directory entry that points to the directory itself; so every
  access here is a virtual one, translated by the two-level walk of the processor (\<open>translate\<close>), and \<open>None\<close> is a page fault of the kernel.
  Translations are not cached in the model: the code invalidates what it changes.  The accessed and dirty bits are left alone.
\<close>

section \<open>The model\<close>

subsection \<open>Addresses\<close>

definition KERNEL_SPACE_START :: v_addr where "KERNEL_SPACE_START = 0xc0000000"
definition RECURSIVE_ENTRY_START :: v_addr where "RECURSIVE_ENTRY_START = 0xffc00000"
definition TEMP_RECURSIVE_ENTRY_START :: v_addr where "TEMP_RECURSIVE_ENTRY_START = 0xff800000"
definition KERNEL_SPACE_RESERVED :: v_addr where "KERNEL_SPACE_RESERVED = KERNEL_SPACE_START"
definition USER_SPACE_PD_ENTRIES :: nat where "USER_SPACE_PD_ENTRIES = 768"
definition PAGE_TABLE_ENTRY_COUNT :: nat where "PAGE_TABLE_ENTRY_COUNT = 1024"
definition X86_MEMORY_HARDWARE_MAP_START :: "32 word" where "X86_MEMORY_HARDWARE_MAP_START = 0xa0000"

definition VMM_PROT_WRITE :: "32 word" where "VMM_PROT_WRITE = 1"
definition VMM_PROT_EXEC :: "32 word" where "VMM_PROT_EXEC = 2"
definition VMM_PROT_USER :: "32 word" where "VMM_PROT_USER = 4"
definition VMM_PROT_NOCACHE :: "32 word" where "VMM_PROT_NOCACHE = 8"

definition vmm_is_userspace_address :: "v_addr \<Rightarrow> bool" where
  "vmm_is_userspace_address addr \<longleftrightarrow> addr < KERNEL_SPACE_START"

definition index_in_pd :: "v_addr \<Rightarrow> 32 word" where
  "index_in_pd addr = drop_bit 22 addr"

definition index_in_pt :: "v_addr \<Rightarrow> 32 word" where
  "index_in_pt addr = drop_bit 12 addr AND 0x3ff"

definition p_addr2pd_addr :: "p_addr \<Rightarrow> 20 word" where
  "p_addr2pd_addr paddr = ucast (drop_bit 12 paddr)"

definition pd_addr2p_addr :: "20 word \<Rightarrow> p_addr" where
  "pd_addr2p_addr a = push_bit 12 (ucast a)"

subsection \<open>Entries\<close>

text \<open>Page directory and page table entries have these bit fields in common.\<close>

abbreviation present :: "32 word \<Rightarrow> bool" where "present e \<equiv> bit e 0"
abbreviation read_write :: "32 word \<Rightarrow> bool" where "read_write e \<equiv> bit e 1"
abbreviation user :: "32 word \<Rightarrow> bool" where "user e \<equiv> bit e 2"

definition address :: "32 word \<Rightarrow> 20 word" where
  "address e = ucast (drop_bit 12 e)"

definition set_flag :: "nat \<Rightarrow> bool \<Rightarrow> 32 word \<Rightarrow> 32 word" where
  "set_flag n b e = (if b then set_bit n e else unset_bit n e)"

definition set_address :: "20 word \<Rightarrow> 32 word \<Rightarrow> 32 word" where
  "set_address a e = (e AND mask 12) OR push_bit 12 (ucast a)"

definition make_entry :: "bool \<Rightarrow> bool \<Rightarrow> 20 word \<Rightarrow> 32 word \<Rightarrow> 32 word" where
  "make_entry rw us a e = set_address a (set_flag 2 us (set_flag 1 rw (set_flag 0 True e)))"

subsection \<open>The processor\<close>

record mmu =
  mmu_cr3 :: p_addr
  mmu_phys :: "20 word \<Rightarrow> nat \<Rightarrow> 32 word"
  mmu_frames :: frames
  mmu_vmms :: "p_addr list"
  mmu_current :: "p_addr option"

definition word_in_page :: "v_addr \<Rightarrow> nat" where
  "word_in_page va = unat va mod 4096 div 4"

definition translate :: "mmu \<Rightarrow> v_addr \<Rightarrow> 20 word option" where
  "translate m va =
     (let pde = mmu_phys m (p_addr2pd_addr (mmu_cr3 m)) (unat (index_in_pd va));
          pte = mmu_phys m (address pde) (unat (index_in_pt va))
      in if present pde \<and> present pte then Some (address pte) else None)"

definition load :: "mmu \<Rightarrow> v_addr \<Rightarrow> 32 word option" where
  "load m va = map_option (\<lambda>f. mmu_phys m f (word_in_page va)) (translate m va)"

definition store_phys :: "20 word \<Rightarrow> nat \<Rightarrow> 32 word \<Rightarrow> mmu \<Rightarrow> mmu" where
  "store_phys f i v m = m\<lparr>mmu_phys := (mmu_phys m)(f := (mmu_phys m f)(i := v))\<rparr>"

definition store :: "v_addr \<Rightarrow> 32 word \<Rightarrow> mmu \<Rightarrow> mmu option" where
  "store va v m = map_option (\<lambda>f. store_phys f (word_in_page va) v m) (translate m va)"

text \<open>The effect of \<^verbatim>\<open>memset(page, 0, PAGE_SIZE)\<close> and of copying a page to another.\<close>

definition clear_frame :: "20 word \<Rightarrow> mmu \<Rightarrow> mmu" where
  "clear_frame f m = m\<lparr>mmu_phys := (mmu_phys m)(f := (\<lambda>_. 0))\<rparr>"

definition clear_page :: "v_addr \<Rightarrow> mmu \<Rightarrow> mmu option" where
  "clear_page va m = map_option (\<lambda>f. clear_frame f m) (translate m va)"

definition copy_frame :: "20 word \<Rightarrow> 20 word \<Rightarrow> mmu \<Rightarrow> mmu" where
  "copy_frame d s m = m\<lparr>mmu_phys := (mmu_phys m)(d := mmu_phys m s)\<rparr>"

fun foreach :: "('a \<Rightarrow> 's \<Rightarrow> 's option) \<Rightarrow> 'a list \<Rightarrow> 's \<Rightarrow> 's option" where
  "foreach f [] s = Some s"
| "foreach f (x # xs) s = do { s \<leftarrow> f x s; foreach f xs s }"

definition paging_switch_cr3 :: "p_addr \<Rightarrow> mmu \<Rightarrow> mmu" where
  "paging_switch_cr3 cr3 m = m\<lparr>mmu_cr3 := cr3\<rparr>"

subsection \<open>Windows to the page tables\<close>

definition get_page_directory :: v_addr where
  "get_page_directory = RECURSIVE_ENTRY_START + push_bit 12 (index_in_pd RECURSIVE_ENTRY_START)"

definition get_page_table :: "32 word \<Rightarrow> v_addr" where
  "get_page_table pde_index = RECURSIVE_ENTRY_START + push_bit 12 pde_index"

definition get_temp_page_directory :: v_addr where
  "get_temp_page_directory = TEMP_RECURSIVE_ENTRY_START + push_bit 12 (index_in_pd RECURSIVE_ENTRY_START)"

definition get_temp_page_table :: "32 word \<Rightarrow> v_addr" where
  "get_temp_page_table pde_index = TEMP_RECURSIVE_ENTRY_START + push_bit 12 pde_index"

definition entry :: "v_addr \<Rightarrow> 32 word \<Rightarrow> v_addr" where
  "entry table i = table + 4 * i"

definition make_recursive_entry :: "v_addr \<Rightarrow> p_addr \<Rightarrow> v_addr \<Rightarrow> mmu \<Rightarrow> mmu option" where
  "make_recursive_entry pd pd_phys recursive_entry_addr m = do {
     let at = entry pd (index_in_pd recursive_entry_addr);
     e \<leftarrow> load m at;
     store at (make_entry True False (p_addr2pd_addr pd_phys) e) m }"

definition clear_recursive_entry :: "v_addr \<Rightarrow> v_addr \<Rightarrow> mmu \<Rightarrow> mmu option" where
  "clear_recursive_entry pd recursive_entry_addr m = store (entry pd (index_in_pd recursive_entry_addr)) 0 m"

definition setup_recursive_entry :: "v_addr \<Rightarrow> p_addr \<Rightarrow> mmu \<Rightarrow> mmu option" where
  "setup_recursive_entry pd pd_phys m = make_recursive_entry pd pd_phys RECURSIVE_ENTRY_START m"

definition setup_temp_recursive_entry :: "p_addr \<Rightarrow> mmu \<Rightarrow> mmu option" where
  "setup_temp_recursive_entry pd m = make_recursive_entry get_page_directory pd TEMP_RECURSIVE_ENTRY_START m"

definition reset_temp_recursive_entry :: "mmu \<Rightarrow> mmu option" where
  "reset_temp_recursive_entry m = clear_recursive_entry get_page_directory TEMP_RECURSIVE_ENTRY_START m"

subsection \<open>Initialisation\<close>

text \<open>
  The boot page directory and page table are objects of the kernel image; \<open>boot_pd\<close> and \<open>boot_pt\<close> are their page frames.
\<close>

definition cleanup_boot_pd :: "20 word \<Rightarrow> mmu \<Rightarrow> mmu" where
  "cleanup_boot_pd boot_pd m =
     (let pd_index = unat (index_in_pd 0xc0000000);
          m = fold (\<lambda>i. store_phys boot_pd i 0) [0 ..< pd_index] m
      in fold (\<lambda>i. store_phys boot_pd i 0) [pd_index + 1 ..< 1024] m)"

definition cleanup_boot_pt :: "20 word \<Rightarrow> kernel_image \<Rightarrow> mmu \<Rightarrow> mmu" where
  "cleanup_boot_pt boot_pt img m =
     (let pages = unat X86_MEMORY_HARDWARE_MAP_START div 4096;
          m = fold (\<lambda>i. store_phys boot_pt (unat (index_in_pt (KERNEL_SPACE_START + of_nat i * PAGE_SIZE))) 0) [0 ..< pages] m;
          pt_index = unat (index_in_pt (kernel_image_get_top_page img))
      in fold (\<lambda>i. store_phys boot_pt i 0) [pt_index ..< PAGE_TABLE_ENTRY_COUNT] m)"

definition remap_kernel :: "p_addr \<Rightarrow> 20 word \<Rightarrow> kernel_image \<Rightarrow> mmu \<Rightarrow> mmu" where
  "remap_kernel boot_page_directory_phys boot_pt img m =
     (let m = cleanup_boot_pd (p_addr2pd_addr boot_page_directory_phys) m;
          m = cleanup_boot_pt boot_pt img m
      in paging_switch_cr3 boot_page_directory_phys m)"

definition paging_init :: "p_addr \<Rightarrow> v_addr \<Rightarrow> 20 word \<Rightarrow> kernel_image \<Rightarrow> mmu \<Rightarrow> mmu option" where
  "paging_init boot_page_directory_phys boot_page_directory boot_pt img m =
     (let m = remap_kernel boot_page_directory_phys boot_pt img m
      in setup_recursive_entry boot_page_directory boot_page_directory_phys m)"

subsection \<open>Mapping pages\<close>

definition paging_sync_kernel_space :: "p_addr \<Rightarrow> 32 word \<Rightarrow> mmu \<Rightarrow> mmu option" where
  "paging_sync_kernel_space cr3 pdi m = do {
     m \<leftarrow> setup_temp_recursive_entry cr3 m;
     e \<leftarrow> load m (entry get_page_directory pdi);
     m \<leftarrow> store (entry get_temp_page_directory pdi) e m;
     reset_temp_recursive_entry m }"

text \<open>The address spaces other than the current one get the new page table of the kernel.\<close>

definition vmm_sync_kernel_space :: "32 word \<Rightarrow> mmu \<Rightarrow> mmu option" where
  "vmm_sync_kernel_space pdi m =
     foreach (\<lambda>cr3 m. if mmu_current m \<noteq> Some cr3 then paging_sync_kernel_space cr3 pdi m else Some m) (mmu_vmms m) m"

definition paging_set_entry :: "p_addr \<Rightarrow> v_addr \<Rightarrow> 32 word \<Rightarrow> mmu \<Rightarrow> (unit result \<times> mmu) option" where
  "paging_set_entry paddr vaddr prot m = do {
     let at = entry (get_page_table (index_in_pd vaddr)) (index_in_pt vaddr);
     pte \<leftarrow> load m at;
     if present pte then Some (Inl EFAULT, m)
     else do {
       m \<leftarrow> store at (make_entry (prot AND VMM_PROT_WRITE \<noteq> 0) (prot AND VMM_PROT_USER \<noteq> 0) (p_addr2pd_addr paddr) pte) m;
       Some (Inr (), m) } }"

definition paging_add_table :: "p_addr \<Rightarrow> v_addr \<Rightarrow> 32 word \<Rightarrow> mmu \<Rightarrow> mmu option" where
  "paging_add_table page_table vaddr prot m = do {
     let pdi = index_in_pd vaddr;
     e \<leftarrow> load m (entry get_page_directory pdi);
     m \<leftarrow> store (entry get_page_directory pdi) (make_entry True (prot AND VMM_PROT_USER \<noteq> 0) (p_addr2pd_addr page_table) e) m;
     m \<leftarrow> clear_page (get_page_table pdi) m;
     if vmm_is_userspace_address vaddr then Some m else vmm_sync_kernel_space pdi m }"

definition paging_map :: "p_addr \<Rightarrow> v_addr \<Rightarrow> 32 word \<Rightarrow> mmu \<Rightarrow> (unit result \<times> mmu) option" where
  "paging_map paddr vaddr prot m = do {
     pde \<leftarrow> load m (entry get_page_directory (index_in_pd vaddr));
     if present pde then paging_set_entry paddr vaddr prot m
     else case memory_page_frame_alloc (mmu_frames m) of
            (page_table, fr) \<Rightarrow>
              if page_table = 0 then Some (Inl ENOMEM, m\<lparr>mmu_frames := fr\<rparr>)
              else do {
                m \<leftarrow> paging_add_table page_table vaddr prot (m\<lparr>mmu_frames := fr\<rparr>);
                paging_set_entry paddr vaddr prot m } }"

definition pte_at :: "v_addr \<Rightarrow> mmu \<Rightarrow> 32 word option option" where
  "pte_at vaddr m = do {
     pde \<leftarrow> load m (entry get_page_directory (index_in_pd vaddr));
     if \<not> present pde then Some None
     else do {
       pte \<leftarrow> load m (entry (get_page_table (index_in_pd vaddr)) (index_in_pt vaddr));
       Some (if present pte then Some pte else None) } }"

definition paging_unmap :: "v_addr \<Rightarrow> mmu \<Rightarrow> (unit result \<times> mmu) option" where
  "paging_unmap vaddr m = do {
     e \<leftarrow> pte_at vaddr m;
     (case e of
        None \<Rightarrow> Some (Inl EFAULT, m)
      | Some _ \<Rightarrow> do {
          m \<leftarrow> store (entry (get_page_table (index_in_pd vaddr)) (index_in_pt vaddr)) 0 m;
          Some (Inr (), m) }) }"

definition paging_update_prot :: "v_addr \<Rightarrow> 32 word \<Rightarrow> mmu \<Rightarrow> (unit result \<times> mmu) option" where
  "paging_update_prot page prot m = do {
     e \<leftarrow> pte_at page m;
     (case e of
        None \<Rightarrow> Some (Inl EINVAL, m)
      | Some pte \<Rightarrow> do {
          m \<leftarrow> store (entry (get_page_table (index_in_pd page)) (index_in_pt page))
                 (set_flag 2 (prot AND VMM_PROT_USER \<noteq> 0) (set_flag 1 (prot AND VMM_PROT_WRITE \<noteq> 0) pte)) m;
          Some (Inr (), m) }) }"

definition paging_copy_page :: "v_addr \<Rightarrow> p_addr \<Rightarrow> mmu \<Rightarrow> (unit result \<times> mmu) option" where
  "paging_copy_page src_page dst_frame m = do {
     (r, m) \<leftarrow> paging_map dst_frame KERNEL_SPACE_RESERVED VMM_PROT_WRITE m;
     (case r of
        Inl e \<Rightarrow> Some (Inl e, m)
      | Inr _ \<Rightarrow> do {
          d \<leftarrow> translate m KERNEL_SPACE_RESERVED;
          s \<leftarrow> translate m src_page;
          (_, m) \<leftarrow> paging_unmap KERNEL_SPACE_RESERVED (copy_frame d s m);
          Some (Inr (), m) }) }"

subsection \<open>Address spaces\<close>

definition init_kernel_space :: "p_addr \<Rightarrow> v_addr \<Rightarrow> nat \<Rightarrow> mmu \<Rightarrow> mmu option" where
  "init_kernel_space cr3 addr nr_pages m = do {
     m \<leftarrow> setup_temp_recursive_entry cr3 m;
     let idx = unat (index_in_pd addr);
     let nr_pd_entries = (nr_pages + 1023) div 1024;
     m \<leftarrow> foreach (\<lambda>i m. do {
             e \<leftarrow> load m (entry get_page_directory (of_nat i));
             store (entry get_temp_page_directory (of_nat i)) e m }) [idx ..< idx + nr_pd_entries] m;
     reset_temp_recursive_entry m }"

definition init_pd_recursive_entry :: "p_addr \<Rightarrow> mmu \<Rightarrow> (unit result \<times> mmu) option" where
  "init_pd_recursive_entry pd m = do {
     (r, m) \<leftarrow> paging_map pd KERNEL_SPACE_RESERVED VMM_PROT_WRITE m;
     (case r of
        Inl e \<Rightarrow> Some (Inl e, m)
      | Inr _ \<Rightarrow> do {
          m \<leftarrow> clear_page KERNEL_SPACE_RESERVED m;
          m \<leftarrow> setup_recursive_entry KERNEL_SPACE_RESERVED pd m;
          paging_unmap KERNEL_SPACE_RESERVED m }) }"

definition paging_init_pd :: "p_addr \<Rightarrow> mmu \<Rightarrow> (unit result \<times> mmu) option" where
  "paging_init_pd cr3 m = do {
     (r, m) \<leftarrow> init_pd_recursive_entry cr3 m;
     (case r of
        Inl e \<Rightarrow> Some (Inl e, m)
      | Inr _ \<Rightarrow> do {
          m \<leftarrow> init_kernel_space cr3 KERNEL_SPACE_START (unat ((TEMP_RECURSIVE_ENTRY_START - KERNEL_SPACE_START) div PAGE_SIZE)) m;
          Some (Inr (), m) }) }"

definition clone_entry :: "32 word \<Rightarrow> nat \<Rightarrow> mmu \<Rightarrow> mmu option" where
  "clone_entry i j m = do {
     let cur_at = entry (get_page_table i) (of_nat j);
     e \<leftarrow> load m cur_at;
     if present e then do {
       m \<leftarrow> store (entry (get_temp_page_table i) (of_nat j)) (set_flag 1 False e) m;
       store cur_at (set_flag 1 False e) m }
     else Some m }"

definition clone_table :: "p_addr \<Rightarrow> 32 word \<Rightarrow> mmu \<Rightarrow> mmu option" where
  "clone_table page_table i m = do {
     e \<leftarrow> load m (entry get_temp_page_directory i);
     m \<leftarrow> store (entry get_temp_page_directory i) (make_entry True True (p_addr2pd_addr page_table) e) m;
     m \<leftarrow> clear_page (get_temp_page_table i) m;
     foreach (clone_entry i) [0 ..< PAGE_TABLE_ENTRY_COUNT] m }"

fun clone_tables :: "nat list \<Rightarrow> mmu \<Rightarrow> (unit result \<times> mmu) option" where
  "clone_tables [] m = Some (Inr (), m)"
| "clone_tables (i # is) m = do {
     e \<leftarrow> load m (entry get_page_directory (of_nat i));
     if present e then
       (case memory_page_frame_alloc (mmu_frames m) of
          (page_table, fr) \<Rightarrow>
            if page_table = 0 then Some (Inl ENOMEM, m\<lparr>mmu_frames := fr\<rparr>)
            else do {
              m \<leftarrow> clone_table page_table (of_nat i) (m\<lparr>mmu_frames := fr\<rparr>);
              clone_tables is m })
     else clone_tables is m }"

definition paging_clone_current_cow :: "p_addr \<Rightarrow> mmu \<Rightarrow> (unit result \<times> mmu) option" where
  "paging_clone_current_cow cr3 m = do {
     m \<leftarrow> setup_temp_recursive_entry cr3 m;
     (r, m) \<leftarrow> clone_tables [0 ..< USER_SPACE_PD_ENTRIES] m;
     (case r of
        Inl e \<Rightarrow> Some (Inl e, m)
      | Inr _ \<Rightarrow> do { m \<leftarrow> reset_temp_recursive_entry m; Some (Inr (), m) }) }"

text \<open>The result of freeing a page table is ignored; \<open>None\<close> is a failed assertion of the frame allocator.\<close>

definition clear_table :: "nat \<Rightarrow> mmu \<Rightarrow> mmu option" where
  "clear_table i m = do {
     let at = entry get_temp_page_directory (of_nat i);
     e \<leftarrow> load m at;
     if present e then do {
       (_, fr) \<leftarrow> memory_page_frame_free (pd_addr2p_addr (address e)) (mmu_frames m);
       store at 0 (m\<lparr>mmu_frames := fr\<rparr>) }
     else Some m }"

definition paging_clear_userspace :: "p_addr \<Rightarrow> mmu \<Rightarrow> mmu option" where
  "paging_clear_userspace cr3 m = do {
     m \<leftarrow> setup_temp_recursive_entry cr3 m;
     m \<leftarrow> foreach clear_table [0 ..< USER_SPACE_PD_ENTRIES] m;
     reset_temp_recursive_entry m }"

subsection \<open>The address spaces of the kernel\<close>

text \<open>An address space is its page directory; \<open>have_vmm\<close> is the outcome of allocating its object.\<close>

definition create_pd_and_init_kernel :: "mmu \<Rightarrow> (p_addr result \<times> mmu) option" where
  "create_pd_and_init_kernel m =
     (case memory_page_frame_alloc (mmu_frames m) of
        (pd, fr) \<Rightarrow>
          if pd = 0 then Some (Inl ENOMEM, m\<lparr>mmu_frames := fr\<rparr>)
          else do {
            (r, m) \<leftarrow> paging_init_pd pd (m\<lparr>mmu_frames := fr\<rparr>);
            (case r of
               Inl e \<Rightarrow> do {
                 (_, fr) \<leftarrow> memory_page_frame_free pd (mmu_frames m);
                 Some (Inl e, m\<lparr>mmu_frames := fr\<rparr>) }
             | Inr _ \<Rightarrow> Some (Inr pd, m)) })"

definition x86_vmm_create :: "bool \<Rightarrow> mmu \<Rightarrow> (p_addr result \<times> mmu) option" where
  "x86_vmm_create have_vmm m = (if have_vmm then create_pd_and_init_kernel m else Some (Inl ENOMEM, m))"

definition x86_vmm_reset :: "p_addr \<Rightarrow> mmu \<Rightarrow> mmu option" where
  "x86_vmm_reset cr3 m = do {
     m \<leftarrow> paging_clear_userspace cr3 m;
     (_, fr) \<leftarrow> memory_page_frame_free cr3 (mmu_frames m);
     Some (m\<lparr>mmu_frames := fr\<rparr>) }"

definition x86_vmm_destroy :: "p_addr \<Rightarrow> mmu \<Rightarrow> mmu option" where
  "x86_vmm_destroy vmm m = x86_vmm_reset vmm m"

definition x86_switch_to :: "p_addr \<Rightarrow> mmu \<Rightarrow> mmu" where
  "x86_switch_to vmm m = paging_switch_cr3 vmm m"

definition x86_clone_current :: "p_addr \<Rightarrow> mmu \<Rightarrow> (unit result \<times> mmu) option" where
  "x86_clone_current clone m = paging_clone_current_cow clone m"

definition x86_sync_kernel_space :: "p_addr \<Rightarrow> 32 word \<Rightarrow> mmu \<Rightarrow> mmu option" where
  "x86_sync_kernel_space vmm pdi m = paging_sync_kernel_space vmm pdi m"

section \<open>Entries and windows\<close>

lemma entry_fields [simp]:
  "present (make_entry rw us a e)" "read_write (make_entry rw us a e) = rw" "bit (make_entry rw us a e) (Suc 0) = rw"
  "user (make_entry rw us a e) = us" "address (make_entry rw us a e) = a"
proof -
  have flag: "bit (set_flag n b e) k = (if k = n then b \<and> n < 32 else bit e k)" for n b k and e :: "32 word"
    by (auto simp: set_flag_def bit_simps dest: bit_imp_le_length)
  have addr: "bit (set_address a e) k = (if k < 12 then bit e k else k < 32 \<and> bit a (k - 12))" for k and e :: "32 word"
    by (auto simp: set_address_def bit_simps)
  show "present (make_entry rw us a e)" "read_write (make_entry rw us a e) = rw" "bit (make_entry rw us a e) (Suc 0) = rw"
    "user (make_entry rw us a e) = us" by (simp_all add: make_entry_def addr flag)
  show "address (make_entry rw us a e) = a"
    by (rule bit_word_eqI) (simp add: address_def make_entry_def addr bit_simps)
qed

lemma set_flag_fields [simp]:
  "bit (set_flag n b e) k = (if k = n then b \<and> n < 32 else bit e k)"
  "n < 12 \<Longrightarrow> address (set_flag n b e) = address e"
proof -
  show flag: "bit (set_flag n b e) k = (if k = n then b \<and> n < 32 else bit e k)" for n k
    by (auto simp: set_flag_def bit_simps dest: bit_imp_le_length)
  show "address (set_flag n b e) = address e" if "n < 12"
    by (rule bit_word_eqI) (use that in \<open>auto simp: address_def flag bit_simps\<close>)
qed

lemma not_present_zero [simp]: "\<not> present 0"
  by simp

definition pdi :: "v_addr \<Rightarrow> nat" where "pdi va = unat va div 4194304"
definition pti :: "v_addr \<Rightarrow> nat" where "pti va = unat va div 4096 mod 1024"

lemma unat_index_in_pd [simp]: "unat (index_in_pd va) = pdi va"
  by (simp add: index_in_pd_def pdi_def unat_drop_bit_eq drop_bit_eq_div unat_div)

lemma unat_index_in_pt [simp]: "unat (index_in_pt va) = pti va"
proof -
  have "index_in_pt va = drop_bit 12 va AND mask 10" by (simp add: index_in_pt_def mask_eq_decr_exp)
  then show ?thesis by (simp only: pti_def unat_and_mask unat_drop_bit_eq drop_bit_eq_div unat_div) simp
qed

lemma index_bounds [simp]: "pdi va < 1024" "pti va < 1024"
  using unat_32_bound [of va] by (auto simp: pdi_def pti_def)

text \<open>Two addresses with the same indices are in the same page.\<close>

lemma same_indices: "pdi va = pdi wa \<Longrightarrow> pti va = pti wa \<Longrightarrow> page_align_down va = page_align_down wa"
proof -
  assume same: "pdi va = pdi wa" "pti va = pti wa"
  have page: "unat a div 4096 = 1024 * pdi a + pti a" for a :: v_addr
    using div_mult2_eq [of "unat a" 4096 1024] mult_div_mod_eq [of 1024 "unat a div 4096"] by (simp add: pdi_def pti_def)
  have "unat va div 4096 = unat wa div 4096" unfolding page same by simp
  then show ?thesis by (simp add: word_unat_eq_iff unat_page_align_down)
qed

lemma same_page_indices: "page_align_down va = page_align_down wa \<Longrightarrow> pdi va = pdi wa \<and> pti va = pti wa"
proof -
  assume "page_align_down va = page_align_down wa"
  then have "unat va div 4096 = unat wa div 4096" by (metis unat_page_align_down mult_cancel2 zero_neq_numeral)
  moreover have "pdi a = unat a div 4096 div 1024" for a by (simp add: pdi_def flip: div_mult2_eq)
  ultimately show ?thesis by (simp add: pti_def)
qed

lemma window:
  assumes "unat i < 1024" and "unat j < 1024" and "b = 0xffc00000 \<or> b = 0xff800000"
  shows "pdi (entry (b + push_bit 12 i) j) = unat b div 4194304" and "pti (entry (b + push_bit 12 i) j) = unat i"
    and "word_in_page (entry (b + push_bit 12 i) j) = unat j"
proof -
  have p: "unat (push_bit 12 i) = 4096 * unat i"
    using assms(1) unat_mult_no_wrap [of i 4096] by (simp add: push_bit_eq_mult mult.commute)
  have f: "unat (4 * j) = 4 * unat j" using assms(2) unat_mult_no_wrap [of 4 j] by simp
  have bp: "unat (b + push_bit 12 i) = unat b + 4096 * unat i"
    using assms(1,3) p unat_add_no_wrap [of b "push_bit 12 i"] by auto
  have e: "unat (entry (b + push_bit 12 i) j) = unat b + 4096 * unat i + 4 * unat j"
    unfolding entry_def using assms bp f unat_add_no_wrap [of "b + push_bit 12 i" "4 * j"] by auto
  obtain k where k: "unat b = 4194304 * k" "k = 1023 \<or> k = 1022"
    using assms(3) by (elim disjE) (auto intro: that [of 1023] that [of 1022])
  have "unat (entry (b + push_bit 12 i) j) = 4194304 * k + (4096 * unat i + 4 * unat j)" using e k(1) by simp
  then show "pdi (entry (b + push_bit 12 i) j) = unat b div 4194304" using assms(1,2) k(1) unfolding pdi_def by simp
  have "unat (entry (b + push_bit 12 i) j) = 4096 * (1024 * k + unat i) + 4 * unat j" using e k(1) by simp
  moreover have "(4096 * n + 4 * unat j) div 4096 = n" "(4096 * n + 4 * unat j) mod 4096 div 4 = unat j" for n
    using assms(2) by simp_all
  ultimately show "pti (entry (b + push_bit 12 i) j) = unat i" "word_in_page (entry (b + push_bit 12 i) j) = unat j"
    unfolding pti_def word_in_page_def using assms(1) by (simp_all del: distrib_left_numeral)
qed

abbreviation cur :: "mmu \<Rightarrow> 20 word" where "cur m \<equiv> p_addr2pd_addr (mmu_cr3 m)"

text \<open>A page directory whose last entry points to itself, and one whose entry before it is the window to another.\<close>

definition self_mapped :: "mmu \<Rightarrow> 20 word \<Rightarrow> bool" where
  "self_mapped m f \<longleftrightarrow> present (mmu_phys m f 1023) \<and> address (mmu_phys m f 1023) = f"

definition temp_mapped :: "mmu \<Rightarrow> 20 word \<Rightarrow> bool" where
  "temp_mapped m f \<longleftrightarrow> present (mmu_phys m (cur m) 1022) \<and> address (mmu_phys m (cur m) 1022) = f"

lemma translate_simp:
  "translate m va = (if present (mmu_phys m (cur m) (pdi va)) \<and> present (mmu_phys m (address (mmu_phys m (cur m) (pdi va))) (pti va))
     then Some (address (mmu_phys m (address (mmu_phys m (cur m) (pdi va))) (pti va))) else None)"
  by (simp add: translate_def Let_def)

lemmas window_simps = get_page_directory_def get_page_table_def get_temp_page_directory_def get_temp_page_table_def
  RECURSIVE_ENTRY_START_def TEMP_RECURSIVE_ENTRY_START_def

lemma recursive_index: "index_in_pd 0xffc00000 = 1023" "index_in_pd 0xff800000 = 1022"
  by (simp_all add: word_unat_eq_iff pdi_def)

lemma translate_directory:
  "self_mapped m (cur m) \<Longrightarrow> unat j < 1024 \<Longrightarrow> translate m (entry get_page_directory j) = Some (cur m)"
  "self_mapped m (cur m) \<Longrightarrow> unat j < 1024 \<Longrightarrow> word_in_page (entry get_page_directory j) = unat j"
  using window [of 1023 j "0xffc00000"] by (simp_all add: window_simps recursive_index translate_simp self_mapped_def)

lemma translate_table:
  assumes "self_mapped m (cur m)" "unat i < 1024" "unat j < 1024" "present (mmu_phys m (cur m) (unat i))"
  shows "translate m (entry (get_page_table i) j) = Some (address (mmu_phys m (cur m) (unat i)))"
    and "word_in_page (entry (get_page_table i) j) = unat j"
  using assms window [of i j "0xffc00000"] by (simp_all add: window_simps translate_simp self_mapped_def)

lemma translate_temp_directory:
  assumes "temp_mapped m f" "self_mapped m f" "unat j < 1024"
  shows "translate m (entry get_temp_page_directory j) = Some f" and "word_in_page (entry get_temp_page_directory j) = unat j"
  using assms window [of 1023 j "0xff800000"]
  by (simp_all add: window_simps recursive_index translate_simp self_mapped_def temp_mapped_def)

lemma translate_temp_table:
  assumes "temp_mapped m f" "unat i < 1024" "unat j < 1024" "present (mmu_phys m f (unat i))"
  shows "translate m (entry (get_temp_page_table i) j) = Some (address (mmu_phys m f (unat i)))"
    and "word_in_page (entry (get_temp_page_table i) j) = unat j"
  using assms window [of i j "0xff800000"] by (simp_all add: window_simps translate_simp temp_mapped_def)

lemma store_phys_simps [simp]:
  "mmu_phys (store_phys f i v m) = (mmu_phys m)(f := (mmu_phys m f)(i := v))"
  "mmu_cr3 (store_phys f i v m) = mmu_cr3 m" "mmu_frames (store_phys f i v m) = mmu_frames m"
  "mmu_vmms (store_phys f i v m) = mmu_vmms m" "mmu_current (store_phys f i v m) = mmu_current m"
  by (simp_all add: store_phys_def)

lemma clear_frame_simps [simp]:
  "mmu_phys (clear_frame f m) = (mmu_phys m)(f := (\<lambda>_. 0))" "mmu_cr3 (clear_frame f m) = mmu_cr3 m"
  "mmu_frames (clear_frame f m) = mmu_frames m" "mmu_vmms (clear_frame f m) = mmu_vmms m"
  "mmu_current (clear_frame f m) = mmu_current m"
  by (simp_all add: clear_frame_def)

text \<open>What the code reads and writes through the windows is the entries themselves.\<close>

lemma directory_access:
  assumes "self_mapped m (cur m)" and "unat j < 1024"
  shows "load m (entry get_page_directory j) = Some (mmu_phys m (cur m) (unat j))"
    and "store (entry get_page_directory j) v m = Some (store_phys (cur m) (unat j) v m)"
  using translate_directory [OF assms] by (simp_all add: load_def store_def)

lemma table_access:
  assumes "self_mapped m (cur m)" and "unat i < 1024" and "unat j < 1024" and "present (mmu_phys m (cur m) (unat i))"
  shows "load m (entry (get_page_table i) j) = Some (mmu_phys m (address (mmu_phys m (cur m) (unat i))) (unat j))"
    and "store (entry (get_page_table i) j) v m = Some (store_phys (address (mmu_phys m (cur m) (unat i))) (unat j) v m)"
  using translate_table [OF assms] by (simp_all add: load_def store_def)

lemma temp_directory_access:
  assumes "temp_mapped m f" and "self_mapped m f" and "unat j < 1024"
  shows "load m (entry get_temp_page_directory j) = Some (mmu_phys m f (unat j))"
    and "store (entry get_temp_page_directory j) v m = Some (store_phys f (unat j) v m)"
  using translate_temp_directory [OF assms] by (simp_all add: load_def store_def)

lemma temp_table_access:
  assumes "temp_mapped m f" and "unat i < 1024" and "unat j < 1024" and "present (mmu_phys m f (unat i))"
  shows "load m (entry (get_temp_page_table i) j) = Some (mmu_phys m (address (mmu_phys m f (unat i))) (unat j))"
    and "store (entry (get_temp_page_table i) j) v m = Some (store_phys (address (mmu_phys m f (unat i))) (unat j) v m)"
  using translate_temp_table [OF assms] by (simp_all add: load_def store_def)

lemma clear_table_page:
  assumes "self_mapped m (cur m)" and "unat i < 1024" and "present (mmu_phys m (cur m) (unat i))"
  shows "clear_page (get_page_table i) m = Some (clear_frame (address (mmu_phys m (cur m) (unat i))) m)"
  using translate_table(1) [OF assms(1,2) _ assms(3), of 0] by (simp add: clear_page_def entry_def)

lemma clear_temp_table_page:
  assumes "temp_mapped m f" and "unat i < 1024" and "present (mmu_phys m f (unat i))"
  shows "clear_page (get_temp_page_table i) m = Some (clear_frame (address (mmu_phys m f (unat i))) m)"
  using translate_temp_table(1) [OF assms(1,2) _ assms(3), of 0] by (simp add: clear_page_def entry_def)

lemma setup_temp_recursive_entry_eq:
  assumes "self_mapped m (cur m)"
  shows "setup_temp_recursive_entry cr3 m
    = Some (store_phys (cur m) 1022 (make_entry True False (p_addr2pd_addr cr3) (mmu_phys m (cur m) 1022)) m)"
  using directory_access [OF assms, of 1022]
  by (simp add: setup_temp_recursive_entry_def make_recursive_entry_def TEMP_RECURSIVE_ENTRY_START_def recursive_index)

lemma reset_temp_recursive_entry_eq:
  assumes "self_mapped m (cur m)"
  shows "reset_temp_recursive_entry m = Some (store_phys (cur m) 1022 0 m)"
  using directory_access [OF assms, of 1022]
  by (simp add: reset_temp_recursive_entry_def clear_recursive_entry_def TEMP_RECURSIVE_ENTRY_START_def recursive_index)

end
