(* ===== verification/X86_Space.thy ===== *)
theory X86_Space
  imports X86_Paging
begin

text \<open>
  Correctness of paging on x86.  \<open>walk\<close> is the page table entry of an address in an address space; \<open>space_inv\<close> says that the
  page directories map themselves and that no two tables share a page frame; \<open>space_rep\<close> adds that the tables are
  frames in use of the frame allocator.  The operations of \<^verbatim>\<open>X86_Paging\<close> keep these and change the walks as specified.
\<close>

section \<open>Address spaces\<close>

text \<open>The page table entry of an address in the address space with the page directory \<open>f\<close>.\<close>

definition walk :: "mmu \<Rightarrow> 20 word \<Rightarrow> v_addr \<Rightarrow> 32 word option" where
  "walk m f va =
     (let pde = mmu_phys m f (pdi va); pte = mmu_phys m (address pde) (pti va)
      in if present pde \<and> present pte then Some pte else None)"

lemma translate_walk: "translate m va = map_option address (walk m (cur m) va)"
  by (simp add: translate_simp walk_def Let_def)

text \<open>The page directories of the address spaces that are not the current one.\<close>

definition others :: "mmu \<Rightarrow> 20 word set" where
  "others m = p_addr2pd_addr ` {c \<in> set (mmu_vmms m). mmu_current m \<noteq> Some c}"

text \<open>
  The current address space is well-formed within the set \<open>U\<close> of page frames: its directory maps itself, and its tables, its
  directory and the other directories are frames of \<open>U\<close> that do not coincide.
\<close>

definition space_inv :: "mmu \<Rightarrow> 20 word set \<Rightarrow> bool" where
  "space_inv m U \<longleftrightarrow> self_mapped m (cur m) \<and> cur m \<in> U
     \<and> (\<forall>i < 1022. present (mmu_phys m (cur m) i) \<longrightarrow>
          address (mmu_phys m (cur m) i) \<in> U \<and> address (mmu_phys m (cur m) i) \<noteq> cur m
          \<and> address (mmu_phys m (cur m) i) \<notin> others m)
     \<and> (\<forall>i < 1022. \<forall>j < 1022. i \<noteq> j \<longrightarrow> present (mmu_phys m (cur m) i) \<longrightarrow> present (mmu_phys m (cur m) j) \<longrightarrow>
          address (mmu_phys m (cur m) i) \<noteq> address (mmu_phys m (cur m) j))
     \<and> (\<forall>c \<in> others m. self_mapped m c \<and> c \<in> U \<and> c \<noteq> cur m)"

lemma space_inv_self [simp]: "space_inv m U \<Longrightarrow> self_mapped m (cur m)"
  by (simp add: space_inv_def)

lemma space_inv_mono: "space_inv m U \<Longrightarrow> U \<subseteq> V \<Longrightarrow> space_inv m V"
  unfolding space_inv_def by blast

text \<open>The invariant concerns only the entries of the directories.\<close>

lemma space_inv_cong:
  assumes "mmu_cr3 m' = mmu_cr3 m" and "mmu_vmms m' = mmu_vmms m" and "mmu_current m' = mmu_current m"
    and "\<And>k. k \<noteq> 1022 \<Longrightarrow> mmu_phys m' (cur m) k = mmu_phys m (cur m) k"
    and "\<And>c. c \<in> others m \<Longrightarrow> mmu_phys m' c 1023 = mmu_phys m c 1023"
  shows "space_inv m' U = space_inv m U"
proof -
  have "others m' = others m" using assms(2,3) by (simp add: others_def)
  moreover have "self_mapped m' c = self_mapped m c" if "c \<in> others m" for c
    using assms(5) [OF that] by (simp add: self_mapped_def)
  ultimately show ?thesis unfolding space_inv_def assms(1) using assms(4) by (simp add: self_mapped_def)
qed

text \<open>Giving the other address spaces an entry of the current directory.\<close>

definition synced :: "nat \<Rightarrow> 20 word set \<Rightarrow> mmu \<Rightarrow> mmu \<Rightarrow> bool" where
  "synced i C m m' \<longleftrightarrow> mmu_cr3 m' = mmu_cr3 m \<and> mmu_vmms m' = mmu_vmms m \<and> mmu_current m' = mmu_current m
     \<and> mmu_frames m' = mmu_frames m
     \<and> (\<forall>k. k \<noteq> 1022 \<longrightarrow> mmu_phys m' (cur m) k = mmu_phys m (cur m) k)
     \<and> (\<forall>f. f \<noteq> cur m \<longrightarrow> mmu_phys m' f = (if f \<in> C then (mmu_phys m f)(i := mmu_phys m (cur m) i) else mmu_phys m f))"

lemma synced_space_inv: "synced i C m m' \<Longrightarrow> C \<subseteq> others m \<Longrightarrow> i < 1022 \<Longrightarrow> space_inv m U \<Longrightarrow> space_inv m' U"
  by (subst space_inv_cong [of m' m]) (auto simp: synced_def space_inv_def)

lemma synced_others: "synced i C m m' \<Longrightarrow> others m' = others m"
  by (simp add: synced_def others_def)

lemma sync_one:
  assumes "space_inv m U" and "p_addr2pd_addr cr3 \<in> others m" and "unat i < 1022"
  shows "\<exists>m'. paging_sync_kernel_space cr3 i m = Some m' \<and> synced (unat i) {p_addr2pd_addr cr3} m m'"
proof -
  let ?c = "p_addr2pd_addr cr3"
  let ?m = "store_phys (cur m) 1022 (make_entry True False ?c (mmu_phys m (cur m) 1022)) m"
  let ?s = "store_phys ?c (unat i) (mmu_phys m (cur m) (unat i)) ?m"
  have c: "self_mapped m ?c" "?c \<noteq> cur m" and self: "self_mapped m (cur m)" using assms(1,2) by (auto simp: space_inv_def)
  have m: "self_mapped ?m (cur ?m)" "self_mapped ?m ?c" "temp_mapped ?m ?c" "self_mapped ?s (cur ?s)"
    using c self by (auto simp: self_mapped_def temp_mapped_def)
  have i: "unat i < 1024" using assms(3) by simp
  have "paging_sync_kernel_space cr3 i m = Some (store_phys (cur m) 1022 0 ?s)"
    using directory_access(1) [OF m(1) i] temp_directory_access(2) [OF m(3,2) i] reset_temp_recursive_entry_eq [OF m(4)] assms(3)
    by (simp add: paging_sync_kernel_space_def setup_temp_recursive_entry_eq [OF self])
  moreover have "synced (unat i) {?c} m (store_phys (cur m) 1022 0 ?s)" using c(2) by (auto simp: synced_def)
  ultimately show ?thesis by blast
qed

lemma synced_trans:
  assumes "synced i C m m1" and "synced i D m1 m2" and "i < 1022"
  shows "synced i (C \<union> D) m m2"
  using assms by (auto simp: synced_def)

lemma vmm_sync_kernel_space_spec:
  assumes "space_inv m U" and "unat i < 1022"
  shows "\<exists>m'. vmm_sync_kernel_space i m = Some m' \<and> synced (unat i) (others m) m m'"
proof -
  let ?f = "\<lambda>cr3 m. if mmu_current m \<noteq> Some cr3 then paging_sync_kernel_space cr3 i m else Some m"
  have "\<exists>m'. foreach ?f cs m = Some m' \<and> synced (unat i) (p_addr2pd_addr ` {c \<in> set cs. mmu_current m \<noteq> Some c}) m m'"
    if "space_inv m U" "set cs \<subseteq> set (mmu_vmms m)" for cs m
    using that
  proof (induction cs arbitrary: m)
    case (Cons c cs)
    show ?case
    proof (cases "mmu_current m = Some c")
      case True
      then show ?thesis using Cons.IH [of m] Cons.prems by (auto simp: conj_disj_distribR Collect_disj_eq cong: conj_cong)
    next
      case False
      then obtain m1 where m1: "paging_sync_kernel_space c i m = Some m1" "synced (unat i) {p_addr2pd_addr c} m m1"
        using sync_one [OF Cons.prems(1), of c i] Cons.prems(2) assms(2) by (auto simp: others_def)
      have "space_inv m1 U" using synced_space_inv [OF m1(2) _ assms(2) Cons.prems(1)] False Cons.prems(2) by (auto simp: others_def)
      then obtain m2 where m2: "foreach ?f cs m1 = Some m2"
        "synced (unat i) (p_addr2pd_addr ` {c \<in> set cs. mmu_current m \<noteq> Some c}) m1 m2"
        using Cons.IH [of m1] Cons.prems(2) m1(2) by (auto simp: synced_def)
      have "p_addr2pd_addr ` {x \<in> set (c # cs). mmu_current m \<noteq> Some x}
          = {p_addr2pd_addr c} \<union> p_addr2pd_addr ` {x \<in> set cs. mmu_current m \<noteq> Some x}" using False by auto
      then show ?thesis using synced_trans [OF m1(2) m2(2) assms(2)] m1(1) m2(1) False by simp
    qed
  qed (simp add: synced_def)
  then show ?thesis using assms(1) by (auto simp: vmm_sync_kernel_space_def others_def)
qed

section \<open>Mapping a page\<close>

lemma index_bounds_le [simp]: "pdi va < 1022 \<Longrightarrow> pdi va < 1024"
  by simp

text \<open>Writing one entry of a page table changes the walk for the addresses of its page only.\<close>

lemma walk_store_entry:
  assumes "space_inv m U" and "pdi va < 1022" and "present (mmu_phys m (cur m) (pdi va))" and "pdi wa < 1022"
  shows "walk (store_phys (address (mmu_phys m (cur m) (pdi va))) (pti va) e m) (cur m) wa
    = (if page_align_down wa = page_align_down va then if present e then Some e else None else walk m (cur m) wa)"
proof -
  let ?t = "address (mmu_phys m (cur m) (pdi va))"
  have t: "?t \<noteq> cur m" using assms(1-3) by (auto simp: space_inv_def)
  show ?thesis
  proof (cases "pdi wa = pdi va \<and> pti wa = pti va")
    case True
    then show ?thesis using same_indices [of wa va] t assms(3) by (auto simp: walk_def Let_def)
  next
    case False
    then have other: "page_align_down wa \<noteq> page_align_down va" using same_page_indices [of wa va] by blast
    show ?thesis
    proof (cases "present (mmu_phys m (cur m) (pdi wa)) \<and> address (mmu_phys m (cur m) (pdi wa)) = ?t")
      case True
      then have "pdi wa = pdi va" using assms unfolding space_inv_def by metis
      then show ?thesis using False other t by (auto simp: walk_def Let_def)
    next
      case False
      then show ?thesis using other t by (auto simp: walk_def Let_def)
    qed
  qed
qed

lemma space_inv_store_entry:
  assumes "space_inv m U" and "pdi va < 1022" and "present (mmu_phys m (cur m) (pdi va))"
  shows "space_inv (store_phys (address (mmu_phys m (cur m) (pdi va))) i e m) U"
  using assms by (subst space_inv_cong [of _ m]) (auto simp: space_inv_def)

lemma paging_set_entry_eq:
  assumes "space_inv m U" and "pdi va < 1022" and "present (mmu_phys m (cur m) (pdi va))"
  defines "t \<equiv> address (mmu_phys m (cur m) (pdi va))"
  shows "paging_set_entry paddr va prot m =
    (if present (mmu_phys m t (pti va)) then Some (Inl EFAULT, m)
     else Some (Inr (), store_phys t (pti va) (make_entry (prot AND VMM_PROT_WRITE \<noteq> 0) (prot AND VMM_PROT_USER \<noteq> 0)
       (p_addr2pd_addr paddr) (mmu_phys m t (pti va))) m))"
  using table_access [of m "index_in_pd va" "index_in_pt va"] assms
  by (simp add: paging_set_entry_def t_def Let_def)

text \<open>A new page table.\<close>

lemma paging_add_table_spec:
  assumes "space_inv m U" and "pdi va < 1022" and "\<not> present (mmu_phys m (cur m) (pdi va))" and "p_addr2pd_addr p \<notin> U"
  shows "\<exists>m'. paging_add_table p va prot m = Some m' \<and> space_inv m' (insert (p_addr2pd_addr p) U) \<and> mmu_frames m' = mmu_frames m
    \<and> cur m' = cur m \<and> others m' = others m \<and> present (mmu_phys m' (cur m) (pdi va)) \<and> address (mmu_phys m' (cur m) (pdi va)) = p_addr2pd_addr p
    \<and> (\<forall>j. mmu_phys m' (p_addr2pd_addr p) j = 0) \<and> (\<forall>wa. pdi wa < 1022 \<longrightarrow> walk m' (cur m) wa = walk m (cur m) wa)
    \<and> (\<not> vmm_is_userspace_address va \<longrightarrow> (\<forall>c \<in> others m. mmu_phys m' c (pdi va) = mmu_phys m' (cur m) (pdi va)))"
proof -
  let ?F = "p_addr2pd_addr p"
  let ?e = "make_entry True (prot AND VMM_PROT_USER \<noteq> 0) ?F (mmu_phys m (cur m) (pdi va))"
  let ?m1 = "store_phys (cur m) (pdi va) ?e m"
  let ?m2 = "clear_frame ?F ?m1"
  have F: "?F \<noteq> cur m" "?F \<notin> others m" using assms(1,4) by (auto simp: space_inv_def)
  have tab: "\<And>i. i < 1022 \<Longrightarrow> present (mmu_phys m (cur m) i) \<Longrightarrow> address (mmu_phys m (cur m) i) \<noteq> ?F"
    using assms(1,4) by (auto simp: space_inv_def)
  have self: "self_mapped ?m1 (cur ?m1)" using assms(1,2) by (auto simp: space_inv_def self_mapped_def)
  have steps: "paging_add_table p va prot m = (if vmm_is_userspace_address va then Some ?m2 else vmm_sync_kernel_space (index_in_pd va) ?m2)"
    using directory_access [of m "index_in_pd va"] clear_table_page [OF self, of "index_in_pd va"] assms(1)
    by (simp add: paging_add_table_def Let_def)
  have "others ?m2 = others m" by (simp add: others_def)
  then have inv2: "space_inv ?m2 (insert ?F U)"
    using assms(1,2) F unfolding space_inv_def by (auto simp: self_mapped_def dest: tab)
  have w2: "walk ?m2 (cur m) wa = walk m (cur m) wa" if "pdi wa < 1022" for wa
    using F(1) tab [OF that] assms(1,3) that by (auto simp: walk_def Let_def space_inv_def)
  show ?thesis
  proof (cases "vmm_is_userspace_address va")
    case True
    then show ?thesis using steps inv2 w2 F(1) \<open>others ?m2 = others m\<close> by auto
  next
    case False
    obtain m3 where m3: "vmm_sync_kernel_space (index_in_pd va) ?m2 = Some m3" "synced (pdi va) (others m) ?m2 m3"
      using vmm_sync_kernel_space_spec [OF inv2, of "index_in_pd va"] assms(2) \<open>others ?m2 = others m\<close> by auto
    have inv3: "space_inv m3 (insert ?F U)"
      using synced_space_inv [OF m3(2) _ assms(2) inv2] \<open>others ?m2 = others m\<close> by simp
    have d: "\<And>k. k \<noteq> 1022 \<Longrightarrow> mmu_phys m3 (cur m) k = mmu_phys ?m2 (cur m) k"
      "\<And>f. f \<noteq> cur m \<Longrightarrow> f \<notin> others m \<Longrightarrow> mmu_phys m3 f = mmu_phys ?m2 f"
      "\<And>c. c \<in> others m \<Longrightarrow> mmu_phys m3 c (pdi va) = mmu_phys ?m2 (cur m) (pdi va)" "mmu_frames m3 = mmu_frames m"
      "cur m3 = cur m"
      using m3(2) inv2 F by (auto simp: synced_def space_inv_def \<open>others ?m2 = others m\<close>)
    have tab2: "address (mmu_phys ?m2 (cur m) (pdi wa)) \<noteq> cur m \<and> address (mmu_phys ?m2 (cur m) (pdi wa)) \<notin> others m"
      if "present (mmu_phys ?m2 (cur m) (pdi wa))" "pdi wa < 1022" for wa
      using inv2 that unfolding space_inv_def \<open>others ?m2 = others m\<close> by auto
    have "walk m3 (cur m) wa = walk m (cur m) wa" if "pdi wa < 1022" for wa
    proof -
      have "walk m3 (cur m) wa = walk ?m2 (cur m) wa" using d(1) [of "pdi wa"] d(2) tab2 [of wa] that by (auto simp: walk_def Let_def)
      then show ?thesis using w2 [OF that] by simp
    qed
    then show ?thesis using steps False m3(1) inv3 d F assms(2) synced_others [OF m3(2)] \<open>others ?m2 = others m\<close> by auto
  qed
qed

lemma frame_of_fresh:
  assumes "frame_rep s fs us" and "p \<in> set fs"
  shows "p_addr2pd_addr p \<notin> p_addr2pd_addr ` us"
proof
  have inv: "pd_addr2p_addr (p_addr2pd_addr a) = a" if "page_is_aligned a" for a
  proof -
    have "unat (p_addr2pd_addr a) = unat a div 4096"
      using unat_32_bound [of a] by (simp add: p_addr2pd_addr_def unsigned_ucast_eq take_bit_eq_mod unat_drop_bit_eq drop_bit_eq_div unat_div)
    moreover have "unat (pd_addr2p_addr f) = 4096 * unat f" if "unat f < 2 ^ 20" for f
      using unat_mult_no_wrap [of "ucast f" 4096] that
      by (simp add: pd_addr2p_addr_def push_bit_eq_mult unsigned_ucast_eq take_bit_eq_mod mult.commute)
    ultimately show ?thesis
      using that unat_32_bound [of a] by (simp add: word_unat_eq_iff page_is_aligned_iff less_mult_imp_div_less)
  qed
  have al: "\<forall>a \<in> set fs \<union> us. page_is_aligned a" "set fs \<inter> us = {}" using frame_rep_frames [OF assms(1)] by auto
  assume "p_addr2pd_addr p \<in> p_addr2pd_addr ` us"
  then obtain q where "q \<in> us" "p_addr2pd_addr p = p_addr2pd_addr q" by auto
  moreover have "page_is_aligned p" "page_is_aligned q" using al(1) assms(2) \<open>q \<in> us\<close> by auto
  ultimately have "p = q" by (metis inv)
  then show False using al(2) assms(2) \<open>q \<in> us\<close> by auto
qed

text \<open>The well-formed address spaces over a frame allocator.\<close>

definition space_rep :: "mmu \<Rightarrow> p_addr list \<Rightarrow> p_addr set \<Rightarrow> p_addr set \<Rightarrow> bool" where
  "space_rep m fs us ts \<longleftrightarrow> frame_rep (mmu_frames m) fs us \<and> ts \<subseteq> us \<and> space_inv m (p_addr2pd_addr ` ts)"

lemma space_rep_all: "space_rep m fs us ts \<Longrightarrow> space_rep m fs us us"
  using space_inv_mono [of m "p_addr2pd_addr ` ts" "p_addr2pd_addr ` us"] by (auto simp: space_rep_def)

lemma walk_frames_update [simp]: "walk (m\<lparr>mmu_frames := fr\<rparr>) f va = walk m f va"
  by (simp add: walk_def)

lemma space_inv_frames_update [simp]: "space_inv (m\<lparr>mmu_frames := fr\<rparr>) U = space_inv m U"
  by (rule space_inv_cong) simp_all

lemma paging_map_existing:
  assumes "space_inv m U" and "pdi va < 1022" and "present (mmu_phys m (cur m) (pdi va))"
  shows "\<exists>r m'. paging_set_entry paddr va prot m = Some (r, m') \<and> space_inv m' U \<and> mmu_frames m' = mmu_frames m
    \<and> mmu_cr3 m' = mmu_cr3 m \<and> others m' = others m
    \<and> (case r of
         Inl e \<Rightarrow> e = EFAULT \<and> walk m (cur m) va \<noteq> None \<and> m' = m
       | Inr _ \<Rightarrow> walk m (cur m) va = None
           \<and> (\<exists>e. walk m' (cur m) va = Some e \<and> address e = p_addr2pd_addr paddr
                \<and> (read_write e \<longleftrightarrow> prot AND VMM_PROT_WRITE \<noteq> 0) \<and> (user e \<longleftrightarrow> prot AND VMM_PROT_USER \<noteq> 0))
           \<and> (\<forall>wa. pdi wa < 1022 \<longrightarrow> page_align_down wa \<noteq> page_align_down va \<longrightarrow> walk m' (cur m) wa = walk m (cur m) wa))"
proof (cases "present (mmu_phys m (address (mmu_phys m (cur m) (pdi va))) (pti va))")
  case True
  then show ?thesis using paging_set_entry_eq [OF assms] assms by (simp add: walk_def Let_def)
next
  case False
  then show ?thesis
    using paging_set_entry_eq [OF assms] walk_store_entry [OF assms] space_inv_store_entry [OF assms] assms
    by (simp add: others_def) (simp add: walk_def Let_def)
qed

lemma paging_map_add_table:
  assumes "space_rep m (p # fs) us ts" and "pdi va < 1022" and "\<not> present (mmu_phys m (cur m) (pdi va))"
  shows "\<exists>fr m'. memory_page_frame_alloc (mmu_frames m) = (p, fr) \<and> p \<noteq> 0 \<and> paging_add_table p va prot (m\<lparr>mmu_frames := fr\<rparr>) = Some m'
    \<and> space_rep m' fs (insert p us) (insert p ts) \<and> cur m' = cur m \<and> others m' = others m \<and> present (mmu_phys m' (cur m) (pdi va))
    \<and> walk m' (cur m) va = None \<and> (\<forall>wa. pdi wa < 1022 \<longrightarrow> walk m' (cur m) wa = walk m (cur m) wa)
    \<and> (\<not> vmm_is_userspace_address va \<longrightarrow> (\<forall>c \<in> others m. mmu_phys m' c (pdi va) = mmu_phys m' (cur m) (pdi va)))"
proof -
  have rep: "frame_rep (mmu_frames m) (p # fs) us" and sub: "ts \<subseteq> us" and inv: "space_inv m (p_addr2pd_addr ` ts)"
    using assms(1) by (simp_all add: space_rep_def)
  obtain fr where fr: "memory_page_frame_alloc (mmu_frames m) = (p, fr)" "frame_rep fr fs (insert p us)"
    using frame_rep_alloc_some [OF rep] by blast
  have p: "p \<noteq> 0" "p_addr2pd_addr p \<notin> p_addr2pd_addr ` ts"
    using frame_rep_frames [OF rep] frame_of_fresh [OF rep, of p] sub by auto
  obtain m' where m': "paging_add_table p va prot (m\<lparr>mmu_frames := fr\<rparr>) = Some m'"
    "space_inv m' (insert (p_addr2pd_addr p) (p_addr2pd_addr ` ts))" "mmu_frames m' = fr" "cur m' = cur m" "others m' = others m"
    "present (mmu_phys m' (cur m) (pdi va))" "address (mmu_phys m' (cur m) (pdi va)) = p_addr2pd_addr p"
    "\<forall>j. mmu_phys m' (p_addr2pd_addr p) j = 0"
    "\<forall>wa. pdi wa < 1022 \<longrightarrow> walk m' (cur m) wa = walk m (cur m) wa"
    "\<not> vmm_is_userspace_address va \<longrightarrow> (\<forall>c \<in> others m. mmu_phys m' c (pdi va) = mmu_phys m' (cur m) (pdi va))"
    using paging_add_table_spec [of "m\<lparr>mmu_frames := fr\<rparr>" "p_addr2pd_addr ` ts" va p prot] inv assms(2,3) p(2)
    by (auto simp: others_def)
  have "walk m' (cur m) va = None" using m'(7,8) by (simp add: walk_def Let_def)
  then show ?thesis using m' fr p(1) sub by (auto simp: space_rep_def)
qed

text \<open>The page of \<open>va\<close> is mapped to the frame of \<open>paddr\<close> with the given protection.\<close>

definition mapped_as :: "mmu \<Rightarrow> v_addr \<Rightarrow> p_addr \<Rightarrow> 32 word \<Rightarrow> bool" where
  "mapped_as m va paddr prot \<longleftrightarrow> (\<exists>e. walk m (cur m) va = Some e \<and> address e = p_addr2pd_addr paddr
     \<and> (read_write e \<longleftrightarrow> prot AND VMM_PROT_WRITE \<noteq> 0) \<and> (user e \<longleftrightarrow> prot AND VMM_PROT_USER \<noteq> 0))"

text \<open>The addresses below the two windows, except those of one page, are mapped as before.\<close>

definition keeps_walks :: "mmu \<Rightarrow> mmu \<Rightarrow> v_addr set \<Rightarrow> bool" where
  "keeps_walks m m' P \<longleftrightarrow> (\<forall>wa. pdi wa < 1022 \<longrightarrow> page_align_down wa \<notin> P \<longrightarrow> walk m' (cur m) wa = walk m (cur m) wa)"

lemma paging_map_spec:
  assumes "space_rep m fs us ts" and "pdi va < 1022"
  shows "\<exists>r m' N fs'. paging_map paddr va prot m = Some (r, m') \<and> fs = N @ fs' \<and> space_rep m' fs' (us \<union> set N) (ts \<union> set N)
    \<and> cur m' = cur m \<and> others m' = others m
    \<and> (case r of
         Inl e \<Rightarrow> (e = EFAULT \<and> walk m (cur m) va \<noteq> None \<or> e = ENOMEM \<and> fs = []) \<and> keeps_walks m m' {}
       | Inr _ \<Rightarrow> walk m (cur m) va = None \<and> mapped_as m' va paddr prot \<and> keeps_walks m m' {page_align_down va})"
proof -
  have inv: "space_inv m (p_addr2pd_addr ` ts)" and rep: "frame_rep (mmu_frames m) fs us" and sub: "ts \<subseteq> us"
    using assms(1) by (simp_all add: space_rep_def)
  have i: "unat (index_in_pd va) < 1024" by simp
  note ld = directory_access(1) [OF space_inv_self [OF inv] i]
  show ?thesis
  proof (cases "present (mmu_phys m (cur m) (pdi va))")
    case True
    then have k: "paging_map paddr va prot m = paging_set_entry paddr va prot m" using ld by (simp add: paging_map_def)
    obtain r m' where "paging_set_entry paddr va prot m = Some (r, m')" "space_inv m' (p_addr2pd_addr ` ts)"
      "mmu_frames m' = mmu_frames m" "mmu_cr3 m' = mmu_cr3 m" "others m' = others m"
      "case r of Inl e \<Rightarrow> e = EFAULT \<and> walk m (cur m) va \<noteq> None \<and> m' = m
       | Inr _ \<Rightarrow> walk m (cur m) va = None \<and> mapped_as m' va paddr prot \<and> keeps_walks m m' {page_align_down va}"
      using paging_map_existing [OF inv assms(2) True, of paddr prot] by (fastforce simp: mapped_as_def keeps_walks_def split: sum.splits)
    then show ?thesis using k rep sub by (intro exI [of _ r] exI [of _ m'] exI [of _ "[]"] exI [of _ fs])
      (auto simp: space_rep_def keeps_walks_def split: sum.splits)
  next
    case False
    show ?thesis
    proof (cases fs)
      case Nil
      then show ?thesis using False ld frame_rep_alloc_none [of "mmu_frames m" us] rep inv sub
        by (auto simp: paging_map_def space_rep_def keeps_walks_def others_def)
    next
      case (Cons p fs')
      obtain fr m1 where m1: "memory_page_frame_alloc (mmu_frames m) = (p, fr)" "p \<noteq> 0"
        "paging_add_table p va prot (m\<lparr>mmu_frames := fr\<rparr>) = Some m1" "space_rep m1 fs' (insert p us) (insert p ts)" "cur m1 = cur m"
        "others m1 = others m" "present (mmu_phys m1 (cur m) (pdi va))" "walk m1 (cur m) va = None"
        "\<forall>wa. pdi wa < 1022 \<longrightarrow> walk m1 (cur m) wa = walk m (cur m) wa"
        using paging_map_add_table [OF assms(1) [unfolded Cons] assms(2) False, of prot] by blast
      have k: "paging_map paddr va prot m = paging_set_entry paddr va prot m1"
        using False ld m1(1-3) by (simp add: paging_map_def)
      have inv1: "space_inv m1 (p_addr2pd_addr ` insert p ts)" "frame_rep (mmu_frames m1) fs' (insert p us)"
        using m1(4) by (simp_all add: space_rep_def)
      obtain r m' where m': "paging_set_entry paddr va prot m1 = Some (r, m')" "space_inv m' (p_addr2pd_addr ` insert p ts)"
        "mmu_frames m' = mmu_frames m1" "mmu_cr3 m' = mmu_cr3 m1" "others m' = others m1"
        "case r of Inl e \<Rightarrow> e = EFAULT \<and> walk m1 (cur m1) va \<noteq> None \<and> m' = m1
         | Inr _ \<Rightarrow> walk m1 (cur m1) va = None \<and> mapped_as m' va paddr prot \<and> keeps_walks m1 m' {page_align_down va}"
        using paging_map_existing [OF inv1(1) assms(2), of paddr prot] m1(5,7) by (fastforce simp: mapped_as_def keeps_walks_def split: sum.splits)
      then have "r = Inr ()" using m1(5,8) by (auto split: sum.splits)
      moreover have "space_rep m' fs' (insert p us) (insert p ts)" using m' inv1(2) sub by (auto simp: space_rep_def)
      ultimately show ?thesis using k m' m1(5,6,8,9) assms(2) Cons
        by (intro exI [of _ r] exI [of _ m'] exI [of _ "[p]"] exI [of _ fs']) (auto simp: keeps_walks_def)
    qed
  qed
qed


lemma pte_at_eq:
  assumes "space_inv m U" and "pdi va < 1022"
  shows "pte_at va m = Some (walk m (cur m) va)"
  using directory_access(1) [of m "index_in_pd va"] table_access(1) [of m "index_in_pd va" "index_in_pt va"] assms(1)
  by (simp add: pte_at_def walk_def Let_def)

lemma paging_unmap_spec:
  assumes "space_rep m fs us ts" and "pdi va < 1022"
  shows "\<exists>r m'. paging_unmap va m = Some (r, m') \<and> space_rep m' fs us ts \<and> cur m' = cur m \<and> others m' = others m
    \<and> (case r of
         Inl e \<Rightarrow> e = EFAULT \<and> walk m (cur m) va = None \<and> m' = m
       | Inr _ \<Rightarrow> walk m (cur m) va \<noteq> None \<and> walk m' (cur m) va = None \<and> keeps_walks m m' {page_align_down va})"
proof -
  have inv: "space_inv m (p_addr2pd_addr ` ts)" using assms(1) by (simp add: space_rep_def)
  show ?thesis
  proof (cases "walk m (cur m) va")
    case None
    then show ?thesis using pte_at_eq [OF inv assms(2)] assms(1) by (simp add: paging_unmap_def)
  next
    case (Some e)
    then have t: "present (mmu_phys m (cur m) (pdi va))" by (auto simp: walk_def Let_def split: if_splits)
    let ?m = "store_phys (address (mmu_phys m (cur m) (pdi va))) (pti va) 0 m"
    have "paging_unmap va m = Some (Inr (), ?m)"
      using pte_at_eq [OF inv assms(2)] Some table_access(2) [of m "index_in_pd va" "index_in_pt va" 0] t inv
      by (simp add: paging_unmap_def)
    moreover have "space_rep ?m fs us ts" using space_inv_store_entry [OF inv assms(2) t] assms(1) by (simp add: space_rep_def)
    moreover have "walk ?m (cur m) va = None" "keeps_walks m ?m {page_align_down va}"
      using walk_store_entry [OF inv assms(2) t, of _ 0] assms(2) by (simp_all add: keeps_walks_def del: store_phys_simps(1))
    ultimately show ?thesis using Some by (simp add: others_def)
  qed
qed

lemma paging_unmap_mapped:
  assumes "space_rep m fs us ts" and "pdi va < 1022" and "walk m (cur m) va \<noteq> None"
  shows "\<exists>m'. paging_unmap va m = Some (Inr (), m') \<and> space_rep m' fs us ts \<and> cur m' = cur m \<and> others m' = others m
    \<and> walk m' (cur m) va = None \<and> keeps_walks m m' {page_align_down va}"
proof -
  obtain r m' where "paging_unmap va m = Some (r, m')" "space_rep m' fs us ts" "cur m' = cur m" "others m' = others m"
    "case r of Inl e \<Rightarrow> False | Inr _ \<Rightarrow> walk m' (cur m) va = None \<and> keeps_walks m m' {page_align_down va}"
    using paging_unmap_spec [OF assms(1,2)] assms(3) by (fastforce split: sum.splits)
  then show ?thesis by (cases r) auto
qed

lemma paging_unmap_unmapped:
  assumes "space_rep m fs us ts" and "pdi va < 1022" and "walk m (cur m) va = None"
  shows "paging_unmap va m = Some (Inl EFAULT, m)"
  using pte_at_eq [of m "p_addr2pd_addr ` ts" va] assms by (simp add: paging_unmap_def space_rep_def)

text \<open>
  Unmapping undoes mapping: after a successful \<open>paging_map\<close>, \<open>paging_unmap\<close> of the same address succeeds and every address below
  the windows is mapped as it was before both; unmapping it once more is the error EFAULT.
\<close>

theorem paging_map_unmap:
  assumes "space_rep m fs us ts" and "pdi vaddr < 1022" and "paging_map paddr vaddr prot m = Some (Inr (), m1)"
  shows "\<exists>m2. paging_unmap vaddr m1 = Some (Inr (), m2) \<and> keeps_walks m m2 {} \<and> paging_unmap vaddr m2 = Some (Inl EFAULT, m2)"
proof -
  obtain fs' us' ts' where m1: "space_rep m1 fs' us' ts'" "cur m1 = cur m" "walk m (cur m) vaddr = None"
    "mapped_as m1 vaddr paddr prot" "keeps_walks m m1 {page_align_down vaddr}"
    using paging_map_spec [OF assms(1,2), of paddr prot] assms(3) by force
  obtain m2 where m2: "paging_unmap vaddr m1 = Some (Inr (), m2)" "space_rep m2 fs' us' ts'" "cur m2 = cur m"
    "walk m2 (cur m) vaddr = None" "keeps_walks m1 m2 {page_align_down vaddr}"
    using paging_unmap_mapped [OF m1(1) assms(2)] m1(2,4) by (auto simp: mapped_as_def)
  have "walk m2 (cur m) wa = walk m (cur m) wa" if "pdi wa < 1022" for wa
  proof (cases "page_align_down wa = page_align_down vaddr")
    case True
    then have "pdi wa = pdi vaddr" "pti wa = pti vaddr" using same_page_indices by blast+
    then show ?thesis using m1(3) m2(4) by (simp add: walk_def)
  next
    case False
    then show ?thesis using that m1(2,5) m2(5) by (simp add: keeps_walks_def)
  qed
  then show ?thesis using m2(1,3,4) paging_unmap_unmapped [OF m2(2) assms(2)] by (auto simp: keeps_walks_def)
qed

section \<open>Cloning an address space\<close>

lemma foreach_append: "foreach f (xs @ ys) s = Option.bind (foreach f xs s) (foreach f ys)"
  by (induction xs arbitrary: s) (auto split: Option.bind_splits)

text \<open>An entry without the permission to write.\<close>

abbreviation read_only :: "32 word \<Rightarrow> 32 word" where "read_only e \<equiv> set_flag 1 False e"

definition copied :: "nat \<Rightarrow> 20 word \<Rightarrow> 20 word \<Rightarrow> mmu \<Rightarrow> mmu" where
  "copied n T F m = m\<lparr>mmu_phys := (mmu_phys m)
     (F := (\<lambda>j. if j < n \<and> present (mmu_phys m T j) then read_only (mmu_phys m T j) else mmu_phys m F j),
      T := (\<lambda>j. if j < n \<and> present (mmu_phys m T j) then read_only (mmu_phys m T j) else mmu_phys m T j))\<rparr>"

lemma copied_simps [simp]:
  "mmu_cr3 (copied n T F m) = mmu_cr3 m" "mmu_frames (copied n T F m) = mmu_frames m" "mmu_vmms (copied n T F m) = mmu_vmms m"
  "mmu_current (copied n T F m) = mmu_current m" "f \<noteq> T \<Longrightarrow> f \<noteq> F \<Longrightarrow> mmu_phys (copied n T F m) f = mmu_phys m f"
  by (simp_all add: copied_def)

text \<open>The window to the other directory is open, and both directories have a table at the index.\<close>

definition both_tables :: "mmu \<Rightarrow> 20 word \<Rightarrow> nat \<Rightarrow> 20 word \<Rightarrow> 20 word \<Rightarrow> bool" where
  "both_tables m c i T F \<longleftrightarrow> self_mapped m (cur m) \<and> temp_mapped m c \<and> i < 1022
     \<and> present (mmu_phys m (cur m) i) \<and> address (mmu_phys m (cur m) i) = T \<and> present (mmu_phys m c i) \<and> address (mmu_phys m c i) = F
     \<and> T \<noteq> F \<and> T \<noteq> c \<and> T \<noteq> cur m \<and> F \<noteq> c \<and> F \<noteq> cur m"

lemma both_tables_copied: "both_tables m c i T F \<Longrightarrow> both_tables (copied n T F m) c i T F"
  by (auto simp: both_tables_def self_mapped_def temp_mapped_def)

lemma clone_entry_step:
  assumes "both_tables m c i T F" and "n < 1024"
  shows "clone_entry (of_nat i) n (copied n T F m) = Some (copied (Suc n) T F m)"
proof -
  let ?m = "copied n T F m"
  have b: "both_tables ?m c i T F" using both_tables_copied [OF assms(1)] .
  then have ctx: "self_mapped ?m (cur ?m)" "temp_mapped ?m c" "present (mmu_phys ?m (cur ?m) i)" "present (mmu_phys ?m c i)"
    "address (mmu_phys ?m (cur ?m) i) = T" "address (mmu_phys ?m c i) = F" "i < 1024" "T \<noteq> F" "F \<noteq> c" "F \<noteq> cur m"
    by (auto simp: both_tables_def)
  have u: "unat (of_nat i :: 32 word) = i" "unat (of_nat n :: 32 word) = n" using ctx(7) assms(2) by (simp_all add: unat_of_nat)
  have T: "mmu_phys ?m T n = mmu_phys m T n" by (simp add: copied_def)
  have ld: "load ?m (entry (get_page_table (of_nat i)) (of_nat n)) = Some (mmu_phys m T n)"
    using table_access(1) [OF ctx(1), of "of_nat i" "of_nat n"] u ctx T assms(2) by simp
  show ?thesis
  proof (cases "present (mmu_phys m T n)")
    case True
    let ?e = "read_only (mmu_phys m T n)"
    let ?s = "store_phys F n ?e ?m"
    have "self_mapped ?s (cur ?s)" "present (mmu_phys ?s (cur ?s) i)" "address (mmu_phys ?s (cur ?s) i) = T"
      using ctx by (auto simp: self_mapped_def)
    then have "store (entry (get_page_table (of_nat i)) (of_nat n)) ?e ?s = Some (store_phys T n ?e ?s)"
      using table_access(2) [of ?s "of_nat i" "of_nat n" ?e] u ctx(7) assms(2) by simp
    moreover have "store (entry (get_temp_page_table (of_nat i)) (of_nat n)) ?e ?m = Some ?s"
      using temp_table_access(2) [OF ctx(2), of "of_nat i" "of_nat n" ?e] u ctx assms(2) by simp
    moreover have "store_phys T n ?e ?s = copied (Suc n) T F m"
      using True ctx(8) by (auto simp: copied_def store_phys_def fun_eq_iff less_Suc_eq)
    ultimately show ?thesis using True ld by (simp add: clone_entry_def Let_def)
  next
    case False
    then have "copied n T F m = copied (Suc n) T F m"
      unfolding copied_def by (intro arg_cong [where f = "\<lambda>p. m\<lparr>mmu_phys := p\<rparr>"]) (auto simp: fun_eq_iff less_Suc_eq)
    then show ?thesis using False ld by (simp add: clone_entry_def Let_def)
  qed
qed

lemma clone_entries:
  assumes "both_tables m c i T F" and "n \<le> 1024"
  shows "foreach (clone_entry (of_nat i)) [0 ..< n] m = Some (copied n T F m)"
  using assms(2)
proof (induction n)
  case 0
  have "copied 0 T F m = m" by (simp add: copied_def fun_upd_def fun_eq_iff)
  then show ?case by simp
next
  case (Suc n)
  then show ?case using clone_entry_step [OF assms(1), of n] by (simp add: foreach_append)
qed

definition clone_ctx :: "mmu \<Rightarrow> 20 word \<Rightarrow> 20 word set \<Rightarrow> bool" where
  "clone_ctx m c U \<longleftrightarrow> space_inv m U \<and> temp_mapped m c \<and> c \<in> others m"

lemma walk_cong:
  assumes "mmu_phys m' f (pdi va) = mmu_phys m f (pdi va)"
    and "present (mmu_phys m f (pdi va)) \<Longrightarrow>
      mmu_phys m' (address (mmu_phys m f (pdi va))) (pti va) = mmu_phys m (address (mmu_phys m f (pdi va))) (pti va)"
  shows "walk m' f va = walk m f va"
  using assms by (auto simp: walk_def Let_def)

lemma clone_table_spec:
  assumes "clone_ctx m c U" and "i < 1022" and "present (mmu_phys m (cur m) i)" and "p_addr2pd_addr p \<notin> U"
  defines "T \<equiv> address (mmu_phys m (cur m) i)" and "F \<equiv> p_addr2pd_addr p"
  shows "\<exists>m'. clone_table p (of_nat i) m = Some m' \<and> clone_ctx m' c (insert F U)
    \<and> cur m' = cur m \<and> others m' = others m \<and> mmu_frames m' = mmu_frames m \<and> mmu_phys m' (cur m) = mmu_phys m (cur m)
    \<and> (\<forall>k. k \<noteq> i \<longrightarrow> mmu_phys m' c k = mmu_phys m c k) \<and> present (mmu_phys m' c i) \<and> address (mmu_phys m' c i) = F
    \<and> (\<forall>f. f \<noteq> c \<longrightarrow> f \<noteq> T \<longrightarrow> f \<noteq> F \<longrightarrow> mmu_phys m' f = mmu_phys m f)
    \<and> (\<forall>va. pdi va = i \<longrightarrow> walk m' c va = map_option read_only (walk m (cur m) va)
          \<and> walk m' (cur m) va = map_option read_only (walk m (cur m) va))"
proof -
  let ?m1 = "store_phys c i (make_entry True True F (mmu_phys m c i)) m"
  let ?m2 = "clear_frame F ?m1"
  let ?m = "copied 1024 T F ?m2"
  have inv: "space_inv m U" and temp: "temp_mapped m c" and c: "c \<in> others m" using assms(1) by (simp_all add: clone_ctx_def)
  have cs: "self_mapped m c" "c \<noteq> cur m" "c \<in> U" using inv c by (auto simp: space_inv_def)
  have T: "T \<noteq> cur m" "T \<in> U" "T \<noteq> c" using inv c assms(2,3) by (auto simp: space_inv_def T_def)
  have F: "F \<noteq> cur m" "F \<noteq> T" "F \<noteq> c" "F \<notin> others m" using assms(4) T cs inv by (auto simp: F_def space_inv_def)
  have u: "unat (of_nat i :: 32 word) = i" using assms(2) by (simp add: unat_of_nat)
  have t1: "temp_mapped ?m1 c" using temp cs(2) by (simp add: temp_mapped_def)
  have both: "both_tables ?m2 c i T F"
    using inv temp cs T F assms(2,3) by (auto simp: both_tables_def T_def self_mapped_def temp_mapped_def space_inv_def)
  have step: "clone_table p (of_nat i) m = Some ?m"
    using temp_directory_access [OF temp cs(1), of "of_nat i"] clear_temp_table_page [OF t1, of "of_nat i"] u assms(2)
      clone_entries [OF both, of 1024]
    by (simp add: clone_table_def PAGE_TABLE_ENTRY_COUNT_def F_def)
  have ph: "mmu_phys ?m (cur m) = mmu_phys m (cur m)" "\<And>k. k \<noteq> i \<Longrightarrow> mmu_phys ?m c k = mmu_phys m c k"
    "present (mmu_phys ?m c i)" "address (mmu_phys ?m c i) = F"
    "\<And>f. f \<noteq> c \<Longrightarrow> f \<noteq> T \<Longrightarrow> f \<noteq> F \<Longrightarrow> mmu_phys ?m f = mmu_phys m f"
    using T F cs by (auto simp: copied_def)
  have tabs: "mmu_phys ?m T j = (if present (mmu_phys m T j) then read_only (mmu_phys m T j) else mmu_phys m T j)"
    "mmu_phys ?m F j = (if present (mmu_phys m T j) then read_only (mmu_phys m T j) else 0)" if "j < 1024" for j
    using that T F cs by (auto simp: copied_def)
  have w: "walk ?m c va = map_option read_only (walk m (cur m) va)" "walk ?m (cur m) va = map_option read_only (walk m (cur m) va)"
    if "pdi va = i" for va
    using ph(1,3,4) tabs [of "pti va"] that assms(3) unfolding walk_def by (auto simp: Let_def simp flip: T_def)
  have oth: "others ?m = others m" by (simp add: others_def)
  have "space_inv ?m (insert F U)"
  proof -
    have "T \<notin> others m" using inv assms(2,3) by (auto simp: space_inv_def T_def)
    then have o: "mmu_phys ?m d 1023 = mmu_phys m d 1023" if "d \<in> others m" for d
    proof (cases "d = c")
      case True
      then show ?thesis using ph(2) [of 1023] assms(2) by simp
    next
      case False
      moreover have "d \<noteq> T" "d \<noteq> F" using that F(4) \<open>T \<notin> others m\<close> by auto
      ultimately show ?thesis using ph(5) [of d] by simp
    qed
    have "space_inv ?m U = space_inv m U" by (rule space_inv_cong) (use ph(1) o in auto)
    then show ?thesis using inv space_inv_mono [of ?m U] by blast
  qed
  moreover have "temp_mapped ?m c" using temp ph(1) by (simp add: temp_mapped_def)
  ultimately have "clone_ctx ?m c (insert F U)" using c oth by (simp add: clone_ctx_def)
  then show ?thesis using step ph w oth by (intro exI [of _ ?m]) simp
qed

text \<open>The tables at the given indices are cloned; only they, their clones and the directory of the clone change.\<close>

definition cloned :: "nat set \<Rightarrow> 20 word \<Rightarrow> 20 word set \<Rightarrow> mmu \<Rightarrow> mmu \<Rightarrow> bool" where
  "cloned I c U m m' \<longleftrightarrow> cur m' = cur m \<and> others m' = others m \<and> mmu_phys m' (cur m) = mmu_phys m (cur m)
     \<and> (\<forall>k. k \<notin> I \<longrightarrow> mmu_phys m' c k = mmu_phys m c k)
     \<and> (\<forall>f \<in> U. f \<noteq> c \<longrightarrow> (\<forall>i \<in> I. present (mmu_phys m (cur m) i) \<longrightarrow> address (mmu_phys m (cur m) i) \<noteq> f)
           \<longrightarrow> mmu_phys m' f = mmu_phys m f)
     \<and> (\<forall>i \<in> I. present (mmu_phys m' c i) \<longrightarrow> address (mmu_phys m' c i) \<notin> U)
     \<and> (\<forall>va. pdi va \<in> I \<longrightarrow> walk m' c va = map_option read_only (walk m (cur m) va)
           \<and> walk m' (cur m) va = map_option read_only (walk m (cur m) va))"

lemma cloned_skip:
  assumes "cloned I c U m m'" and "\<not> present (mmu_phys m (cur m) i)" and "\<not> present (mmu_phys m c i)" and "i \<notin> I"
  shows "cloned (insert i I) c U m m'"
proof -
  have "walk m' c va = None" "walk m' (cur m) va = None" "walk m (cur m) va = None" if "pdi va = i" for va
    using assms that by (auto simp: cloned_def walk_def Let_def)
  moreover have "\<not> present (mmu_phys m' c i)" using assms by (simp add: cloned_def)
  ultimately show ?thesis using assms(1,2) unfolding cloned_def by auto
qed

lemma cloned_step:
  assumes inv: "space_inv m U" "c \<in> others m" "i < 1022" "\<forall>k \<in> I. k < 1022" "i \<notin> I" "present (mmu_phys m (cur m) i)" "F \<notin> U"
    and m1: "cur m1 = cur m" "others m1 = others m" "mmu_phys m1 (cur m) = mmu_phys m (cur m)"
      "\<forall>k. k \<noteq> i \<longrightarrow> mmu_phys m1 c k = mmu_phys m c k" "present (mmu_phys m1 c i)" "address (mmu_phys m1 c i) = F"
      "\<forall>f. f \<noteq> c \<longrightarrow> f \<noteq> address (mmu_phys m (cur m) i) \<longrightarrow> f \<noteq> F \<longrightarrow> mmu_phys m1 f = mmu_phys m f"
      "\<forall>va. pdi va = i \<longrightarrow> walk m1 c va = map_option read_only (walk m (cur m) va)
         \<and> walk m1 (cur m) va = map_option read_only (walk m (cur m) va)"
    and m2: "cloned I c (insert F U) m1 m2"
  shows "cloned (insert i I) c U m m2"
proof -
  let ?T = "\<lambda>k. address (mmu_phys m (cur m) k)"
  have T: "?T k \<in> U" "?T k \<noteq> c" "?T k \<noteq> cur m" if "k < 1022" "present (mmu_phys m (cur m) k)" for k
    using inv(1,2) that by (auto simp: space_inv_def)
  have dist: "?T k \<noteq> ?T l" if "k < 1022" "l < 1022" "k \<noteq> l" "present (mmu_phys m (cur m) k)" "present (mmu_phys m (cur m) l)" for k l
    using inv(1) that by (auto simp: space_inv_def)
  have cU: "c \<in> U" "c \<noteq> cur m" "cur m \<in> U" using inv(1,2) by (auto simp: space_inv_def)
  have keep: "mmu_phys m2 f = mmu_phys m1 f"
    if "f \<in> insert F U" "f \<noteq> c" "\<forall>k \<in> I. present (mmu_phys m (cur m) k) \<longrightarrow> ?T k \<noteq> f" for f
    using m2 that m1(1,3) unfolding cloned_def by auto
  have at_i: "walk m2 c va = walk m1 c va" "walk m2 (cur m) va = walk m1 (cur m) va" if "pdi va = i" for va
  proof -
    have "F \<noteq> c" "\<forall>k \<in> I. present (mmu_phys m (cur m) k) \<longrightarrow> ?T k \<noteq> F" using T inv(4,7) cU(1) by auto
    then have "mmu_phys m2 F = mmu_phys m1 F" using keep by blast
    moreover have "mmu_phys m2 c i = mmu_phys m1 c i" using m2 inv(5) by (simp add: cloned_def)
    ultimately show "walk m2 c va = walk m1 c va" using that m1(6) by (intro walk_cong) auto
    have "\<forall>k \<in> I. present (mmu_phys m (cur m) k) \<longrightarrow> ?T k \<noteq> ?T i" using dist [OF _ inv(3) _ _ inv(6)] inv(4,5) by blast
    then have "mmu_phys m2 (?T i) = mmu_phys m1 (?T i)" using keep [of "?T i"] T(1,2) [OF inv(3,6)] by simp
    then show "walk m2 (cur m) va = walk m1 (cur m) va" using that m1(1,3) m2 by (intro walk_cong) (auto simp: cloned_def)
  qed
  have at_I: "walk m1 (cur m) va = walk m (cur m) va" if "pdi va \<in> I" for va
  proof (rule walk_cong)
    show "mmu_phys m1 (cur m) (pdi va) = mmu_phys m (cur m) (pdi va)" using m1(3) by simp
    assume t: "present (mmu_phys m (cur m) (pdi va))"
    have "pdi va < 1022" "pdi va \<noteq> i" using inv(4,5) that by auto
    then have "?T (pdi va) \<noteq> c" "?T (pdi va) \<noteq> ?T i" "?T (pdi va) \<noteq> F"
      using T [of "pdi va"] t dist [OF _ inv(3) _ t inv(6)] inv(7) by auto
    then show "mmu_phys m1 (?T (pdi va)) (pti va) = mmu_phys m (?T (pdi va)) (pti va)" using m1(7) by simp
  qed
  have frame: "mmu_phys m2 f = mmu_phys m f"
    if "f \<in> U" "f \<noteq> c" "\<forall>k \<in> insert i I. present (mmu_phys m (cur m) k) \<longrightarrow> ?T k \<noteq> f" for f
    using keep [of f] that m1(7) inv(6,7) by auto
  show ?thesis
    unfolding cloned_def
  proof (intro conjI allI impI ballI)
    fix va assume "pdi va \<in> insert i I"
    then show "walk m2 c va = map_option read_only (walk m (cur m) va)" "walk m2 (cur m) va = map_option read_only (walk m (cur m) va)"
      using at_i m1(1,8) at_I m2 by (auto simp: cloned_def)
  next
    fix k assume "k \<notin> insert i I"
    then show "mmu_phys m2 c k = mmu_phys m c k" using m2 m1(4) by (auto simp: cloned_def)
  next
    fix k assume "k \<in> insert i I" "present (mmu_phys m2 c k)"
    then show "address (mmu_phys m2 c k) \<notin> U" using m2 m1(6) inv(5,7) by (auto simp: cloned_def)
  qed (use m2 m1 frame in \<open>auto simp: cloned_def\<close>)
qed

lemma clone_tables_spec:
  assumes "clone_ctx m c (p_addr2pd_addr ` us)" and "frame_rep (mmu_frames m) fs us" and "distinct is" and "\<forall>i \<in> set is. i < 1022"
    and "\<forall>i \<in> set is. \<not> present (mmu_phys m c i)"
    and "length (filter (\<lambda>i. present (mmu_phys m (cur m) i)) is) \<le> length fs"
  shows "\<exists>m' fs' us'. clone_tables is m = Some (Inr (), m') \<and> clone_ctx m' c (p_addr2pd_addr ` us') \<and> frame_rep (mmu_frames m') fs' us'
    \<and> cloned (set is) c (p_addr2pd_addr ` us) m m'"
  using assms
proof (induction "is" arbitrary: m fs us)
  case Nil
  then show ?case by (auto simp: cloned_def)
next
  case (Cons i "is")
  have inv: "space_inv m (p_addr2pd_addr ` us)" and c: "c \<in> others m" using Cons.prems(1) by (simp_all add: clone_ctx_def)
  have i: "i < 1022" "i \<notin> set is" "unat (of_nat i :: 32 word) = i" using Cons.prems(3,4) by (auto simp: unat_of_nat)
  have ld: "load m (entry get_page_directory (of_nat i)) = Some (mmu_phys m (cur m) i)"
    using directory_access(1) [of m "of_nat i"] inv i by simp
  show ?case
  proof (cases "present (mmu_phys m (cur m) i)")
    case False
    then have "clone_tables (i # is) m = clone_tables is m" using ld by simp
    moreover obtain m' fs' us' where "clone_tables is m = Some (Inr (), m')" "clone_ctx m' c (p_addr2pd_addr ` us')"
      "frame_rep (mmu_frames m') fs' us'" "cloned (set is) c (p_addr2pd_addr ` us) m m'"
      using Cons.IH [of m us fs] Cons.prems False by auto
    ultimately show ?thesis using cloned_skip [of "set is" c _ m m' i] False Cons.prems(5) i(2) by (metis list.set(2) list.set_intros(1))
  next
    case True
    obtain p fs1 where fs: "fs = p # fs1" using Cons.prems(6) True by (cases fs) auto
    let ?F = "p_addr2pd_addr p"
    obtain fr where fr: "memory_page_frame_alloc (mmu_frames m) = (p, fr)" "frame_rep fr fs1 (insert p us)"
      using frame_rep_alloc_some Cons.prems(2) fs by blast
    have p: "p \<noteq> 0" "?F \<notin> p_addr2pd_addr ` us"
      using frame_rep_frames [OF Cons.prems(2)] frame_of_fresh [OF Cons.prems(2), of p] fs by auto
    have ctx: "clone_ctx (m\<lparr>mmu_frames := fr\<rparr>) c (p_addr2pd_addr ` us)"
      using Cons.prems(1) by (auto simp: clone_ctx_def temp_mapped_def others_def)
    obtain m1 where m1: "clone_table p (of_nat i) (m\<lparr>mmu_frames := fr\<rparr>) = Some m1" "clone_ctx m1 c (p_addr2pd_addr ` insert p us)"
      "mmu_frames m1 = fr"
      and m1': "cur m1 = cur m" "others m1 = others m" "mmu_phys m1 (cur m) = mmu_phys m (cur m)"
      "\<forall>k. k \<noteq> i \<longrightarrow> mmu_phys m1 c k = mmu_phys m c k" "present (mmu_phys m1 c i)" "address (mmu_phys m1 c i) = ?F"
      "\<forall>f. f \<noteq> c \<longrightarrow> f \<noteq> address (mmu_phys m (cur m) i) \<longrightarrow> f \<noteq> ?F \<longrightarrow> mmu_phys m1 f = mmu_phys m f"
      "\<forall>va. pdi va = i \<longrightarrow> walk m1 c va = map_option read_only (walk m (cur m) va)
          \<and> walk m1 (cur m) va = map_option read_only (walk m (cur m) va)"
      using clone_table_spec [OF ctx i(1), of p] True p(2) by (auto simp: others_def)
    have step: "clone_tables (i # is) m = clone_tables is m1" using ld True fr(1) p(1) m1(1) by simp
    have "\<forall>k \<in> set is. \<not> present (mmu_phys m1 c k)" using Cons.prems(5) m1'(4) i(2) by auto
    moreover have "length (filter (\<lambda>k. present (mmu_phys m1 (cur m1) k)) is) \<le> length fs1"
      using Cons.prems(6) True fs m1'(1,3) by simp
    ultimately obtain m2 fs2 us2 where m2: "clone_tables is m1 = Some (Inr (), m2)" "clone_ctx m2 c (p_addr2pd_addr ` us2)"
      "frame_rep (mmu_frames m2) fs2 us2" "cloned (set is) c (insert ?F (p_addr2pd_addr ` us)) m1 m2"
      using Cons.IH [OF m1(2), of fs1] fr(2) m1(3) Cons.prems(3,4) by auto
    have "cloned (insert i (set is)) c (p_addr2pd_addr ` us) m m2"
      using cloned_step [OF inv c i(1) _ i(2) True p(2) m1' m2(4)] Cons.prems(4) by simp
    then show ?thesis using step m2 by auto
  qed
qed

lemma user_index: "vmm_is_userspace_address va \<longleftrightarrow> pdi va < 768"
  by (auto simp: vmm_is_userspace_address_def KERNEL_SPACE_START_def pdi_def word_less_nat_alt)

lemma walk_other_slot [simp]: "pdi va < 1022 \<Longrightarrow> space_inv m U \<Longrightarrow> walk (store_phys (cur m) 1022 e m) (cur m) va = walk m (cur m) va"
  by (rule walk_cong) (auto simp: space_inv_def)

lemma space_inv_slot: "space_inv (store_phys (cur m) 1022 e m) U = space_inv m U"
proof (cases "cur m \<in> others m")
  case True
  then show ?thesis by (auto simp: space_inv_def others_def)
next
  case False
  then show ?thesis by (intro space_inv_cong) auto
qed

lemma paging_clone_spec:
  assumes "space_rep m fs us ts" and "p_addr2pd_addr cr3 \<in> others m" and "\<forall>i < 768. \<not> present (mmu_phys m (p_addr2pd_addr cr3) i)"
    and "length (filter (\<lambda>i. present (mmu_phys m (cur m) i)) [0 ..< 768]) \<le> length fs"
  shows "\<exists>m' fs' us'. paging_clone_current_cow cr3 m = Some (Inr (), m') \<and> space_rep m' fs' us' us' \<and> cur m' = cur m \<and> others m' = others m
    \<and> (\<forall>va. pdi va < 768 \<longrightarrow> walk m' (p_addr2pd_addr cr3) va = map_option read_only (walk m (cur m) va)
          \<and> walk m' (cur m) va = map_option read_only (walk m (cur m) va))
    \<and> (\<forall>va. 768 \<le> pdi va \<longrightarrow> pdi va < 1022 \<longrightarrow> walk m' (cur m) va = walk m (cur m) va)"
proof -
  let ?c = "p_addr2pd_addr cr3"
  let ?U = "p_addr2pd_addr ` us"
  let ?m1 = "store_phys (cur m) 1022 (make_entry True False ?c (mmu_phys m (cur m) 1022)) m"
  have inv: "space_inv m ?U" and rep: "frame_rep (mmu_frames m) fs us" using space_rep_all [OF assms(1)] by (simp_all add: space_rep_def)
  have c: "?c \<noteq> cur m" "?c \<in> ?U" using inv assms(2) by (auto simp: space_inv_def)
  have ctx: "clone_ctx ?m1 ?c ?U"
    using inv assms(2) by (simp add: clone_ctx_def space_inv_slot temp_mapped_def) (simp add: others_def)
  have "filter (\<lambda>i. present (mmu_phys ?m1 (cur ?m1) i)) [0 ..< 768] = filter (\<lambda>i. present (mmu_phys m (cur m) i)) [0 ..< 768]"
    by (rule filter_cong) auto
  then have "length (filter (\<lambda>i. present (mmu_phys ?m1 (cur ?m1) i)) [0 ..< 768]) \<le> length fs" using assms(4) by simp
  then obtain m2 fs' us' where m2: "clone_tables [0 ..< 768] ?m1 = Some (Inr (), m2)" "clone_ctx m2 ?c (p_addr2pd_addr ` us')"
    "frame_rep (mmu_frames m2) fs' us'" "cloned {0 ..< 768} ?c ?U ?m1 m2"
    using clone_tables_spec [OF ctx, of fs "[0 ..< 768]"] rep assms(3) c by auto
  let ?m = "store_phys (cur m) 1022 0 m2"
  have cur2: "cur m2 = cur m" "others m2 = others m" using m2(4) by (auto simp: cloned_def others_def)
  have inv2: "space_inv m2 (p_addr2pd_addr ` us')" using m2(2) by (simp add: clone_ctx_def)
  have step: "paging_clone_current_cow cr3 m = Some (Inr (), ?m)"
    using m2(1) setup_temp_recursive_entry_eq [of m cr3] reset_temp_recursive_entry_eq [OF space_inv_self [OF inv2]] inv cur2
    by (simp add: paging_clone_current_cow_def USER_SPACE_PD_ENTRIES_def)
  have w: "walk ?m (cur m) va = walk m2 (cur m) va" if "pdi va < 1022" for va
    using walk_other_slot [of va m2 _ 0] that inv2 cur2 by (simp del: store_phys_simps(1))
  have wc: "walk ?m ?c va = walk m2 ?c va" if "pdi va < 768" for va
  proof (rule walk_cong)
    have "present (mmu_phys m2 ?c (pdi va)) \<Longrightarrow> address (mmu_phys m2 ?c (pdi va)) \<noteq> cur m"
      using m2(4) that inv by (auto simp: cloned_def space_inv_def)
    then show "mmu_phys ?m (address (mmu_phys m2 ?c (pdi va))) (pti va) = mmu_phys m2 (address (mmu_phys m2 ?c (pdi va))) (pti va)"
      if "present (mmu_phys m2 ?c (pdi va))" using that by simp
  qed (use c in simp)
  have k: "walk m2 (cur m) va = walk m (cur m) va" if va: "768 \<le> pdi va" "pdi va < 1022" for va
  proof (rule walk_cong)
    show "mmu_phys m2 (cur m) (pdi va) = mmu_phys m (cur m) (pdi va)" using m2(4) va(2) by (auto simp: cloned_def)
    assume t: "present (mmu_phys m (cur m) (pdi va))"
    let ?T = "address (mmu_phys m (cur m) (pdi va))"
    have T: "?T \<in> ?U" "?T \<noteq> ?c" "?T \<noteq> cur m" using inv assms(2) t va(2) by (auto simp: space_inv_def)
    have "address (mmu_phys m (cur m) i) \<noteq> ?T" if "i < 768" "present (mmu_phys m (cur m) i)" for i
      using inv that t va by (auto simp: space_inv_def)
    then have "mmu_phys m2 ?T = mmu_phys ?m1 ?T" using m2(4) T unfolding cloned_def by (auto split: if_splits)
    then show "mmu_phys m2 ?T (pti va) = mmu_phys m ?T (pti va)" using T(3) by simp
  qed
  have "walk m2 ?c va = map_option read_only (walk m (cur m) va)" "walk m2 (cur m) va = map_option read_only (walk m (cur m) va)"
    if "pdi va < 768" for va
    using m2(4) walk_other_slot [of va m ?U] that inv by (auto simp: cloned_def simp del: store_phys_simps(1))
  moreover have "space_rep ?m fs' us' us'" using space_inv_slot [of m2 0] inv2 m2(3) cur2(1) by (simp add: space_rep_def)
  moreover have "others ?m = others m" using cur2(2) by (simp add: others_def)
  ultimately show ?thesis using step w wc k cur2(1) by auto
qed

text \<open>
  C6. Cloning an address space for copy on write is correct.  Let the current space be well-formed, let the other one have no user pages, and let
  there be a frame for every page table of the user space.  Then \<open>paging_clone_current_cow\<close> succeeds; afterwards every user address is mapped to
  the same frame in both spaces, as it was before, and nowhere in them may it be written, so that the first write faults.  The addresses of
  the kernel keep their mapping.
\<close>

theorem paging_clone_current_cow_correct:
  assumes "space_rep m fs us ts" and "p_addr2pd_addr cr3 \<in> others m" and "\<forall>i < 768. \<not> present (mmu_phys m (p_addr2pd_addr cr3) i)"
    and "length (filter (\<lambda>i. present (mmu_phys m (cur m) i)) [0 ..< 768]) \<le> length fs"
  shows "\<exists>m' fs' us'. paging_clone_current_cow cr3 m = Some (Inr (), m') \<and> space_rep m' fs' us' us' \<and> cur m' = cur m
    \<and> (\<forall>va. vmm_is_userspace_address va \<longrightarrow>
          map_option address (walk m' (p_addr2pd_addr cr3) va) = translate m va \<and> translate m' va = translate m va
          \<and> (\<forall>e. walk m' (p_addr2pd_addr cr3) va = Some e \<or> walk m' (cur m) va = Some e \<longrightarrow> \<not> read_write e))
    \<and> (\<forall>va. \<not> vmm_is_userspace_address va \<and> pdi va < 1022 \<longrightarrow> walk m' (cur m) va = walk m (cur m) va)"
proof -
  have "map_option address (map_option read_only w) = map_option address w" for w by (cases w) simp_all
  then show ?thesis using paging_clone_spec [OF assms] unfolding user_index translate_walk by (fastforce simp: not_less)
qed

section \<open>Creating an address space\<close>

lemma reserved_indices [simp]: "pdi KERNEL_SPACE_RESERVED = 768" "pti KERNEL_SPACE_RESERVED = 0"
  by (simp_all add: pdi_def pti_def KERNEL_SPACE_RESERVED_def KERNEL_SPACE_START_def)

lemma reserved_last_entry:
  "pdi (entry KERNEL_SPACE_RESERVED 1023) = 768" "pti (entry KERNEL_SPACE_RESERVED 1023) = 0"
  "word_in_page (entry KERNEL_SPACE_RESERVED 1023) = 1023"
  by (simp_all add: pdi_def pti_def word_in_page_def entry_def KERNEL_SPACE_RESERVED_def KERNEL_SPACE_START_def)

lemma translate_cong: "pdi va = pdi wa \<Longrightarrow> pti va = pti wa \<Longrightarrow> translate m va = translate m wa"
  by (simp add: translate_simp)

text \<open>A frame becomes an empty page directory that maps itself; the page used to reach it is unmapped again.\<close>

lemma init_pd_recursive_entry_spec:
  assumes "space_inv m U" and "p_addr2pd_addr pd \<notin> U" and "present (mmu_phys m (cur m) 768)"
    and "walk m (cur m) KERNEL_SPACE_RESERVED = None"
  defines "T \<equiv> address (mmu_phys m (cur m) 768)" and "C \<equiv> p_addr2pd_addr pd"
  shows "init_pd_recursive_entry pd m
    = Some (Inr (), m\<lparr>mmu_phys := (mmu_phys m)(T := (mmu_phys m T)(0 := 0), C := (\<lambda>_. 0)(1023 := make_entry True False C 0))\<rparr>)"
proof -
  let ?R = KERNEL_SPACE_RESERVED
  have T: "T \<in> U" "T \<noteq> cur m" using assms(1,3) by (auto simp: space_inv_def T_def)
  have C: "C \<noteq> T" "C \<noteq> cur m" using assms(1,2) T by (auto simp: space_inv_def C_def)
  define e where "e = make_entry (VMM_PROT_WRITE AND VMM_PROT_WRITE \<noteq> 0) (VMM_PROT_WRITE AND VMM_PROT_USER \<noteq> 0) C (mmu_phys m T 0)"
  let ?m1 = "store_phys T 0 e m"
  have np: "\<not> present (mmu_phys m T 0)" using assms(3,4) by (auto simp: walk_def Let_def T_def split: if_splits)
  have map: "paging_map pd ?R VMM_PROT_WRITE m = Some (Inr (), ?m1)"
    using paging_set_entry_eq [OF assms(1), of ?R pd VMM_PROT_WRITE] directory_access(1) [of m "index_in_pd ?R"] assms(1,3) np
    by (simp add: paging_map_def e_def T_def C_def)
  have tr: "translate m' va = Some C"
    if "mmu_phys m' (cur m') = mmu_phys m (cur m)" "mmu_phys m' T 0 = e" "pdi va = 768" "pti va = 0" for m' va
    using that assms(3) by (simp add: translate_simp e_def flip: T_def)
  let ?m2 = "clear_frame C ?m1"
  have c2: "clear_page ?R ?m1 = Some ?m2" using tr [of ?m1 ?R] T by (simp add: clear_page_def)
  let ?m3 = "store_phys C 1023 (make_entry True False C 0) ?m2"
  have tr2: "translate ?m2 (entry ?R 1023) = Some C" using tr [of ?m2] T C by (simp add: reserved_last_entry)
  have c3: "setup_recursive_entry ?R pd ?m2 = Some ?m3"
    using tr2 by (simp add: setup_recursive_entry_def make_recursive_entry_def RECURSIVE_ENTRY_START_def recursive_index load_def
        store_def reserved_last_entry Let_def C_def)
  have inv3: "space_inv ?m3 U"
  proof -
    have "C \<notin> others m" "T \<notin> others m" using assms(1-3) by (auto simp: space_inv_def C_def T_def)
    then have "space_inv ?m3 U = space_inv m U" using T C by (intro space_inv_cong) auto
    then show ?thesis using assms(1) by simp
  qed
  have w: "walk ?m3 (cur ?m3) ?R = Some e" using T C assms(3) by (simp add: walk_def Let_def e_def flip: T_def)
  have "paging_unmap ?R ?m3 = Some (Inr (), store_phys T 0 0 ?m3)"
    using pte_at_eq [OF inv3, of ?R] w table_access(2) [OF space_inv_self [OF inv3], of "index_in_pd ?R" "index_in_pt ?R" 0] T C assms(3)
    by (simp add: paging_unmap_def flip: T_def)
  moreover have "store_phys T 0 0 ?m3
      = m\<lparr>mmu_phys := (mmu_phys m)(T := (mmu_phys m T)(0 := 0), C := (\<lambda>_. 0)(1023 := make_entry True False C 0))\<rparr>"
    using C by (auto simp: store_phys_def clear_frame_def fun_eq_iff)
  ultimately show ?thesis using map c2 c3 by (simp add: init_pd_recursive_entry_def)
qed

text \<open>Copying entries of the current directory through the window.\<close>

lemma copy_entries:
  assumes "self_mapped m (cur m)" and "temp_mapped m C" and "self_mapped m C" and "C \<noteq> cur m" and "a + n \<le> 1022"
  shows "foreach (\<lambda>i m. do {
      e \<leftarrow> load m (entry get_page_directory (of_nat i));
      store (entry get_temp_page_directory (of_nat i)) e m }) [a ..< a + n] m
    = Some (m\<lparr>mmu_phys := (mmu_phys m)(C := (\<lambda>i. if a \<le> i \<and> i < a + n then mmu_phys m (cur m) i else mmu_phys m C i))\<rparr>)"
    (is "foreach ?f _ _ = Some (?m n)")
  using assms(5)
proof (induction n)
  case 0
  have "(\<lambda>i. if a \<le> i \<and> i < a then mmu_phys m (cur m) i else mmu_phys m C i) = mmu_phys m C" by (auto simp: fun_eq_iff)
  then show ?case by simp
next
  case (Suc n)
  have ctx: "self_mapped (?m n) (cur (?m n))" "temp_mapped (?m n) C" "self_mapped (?m n) C"
    using assms Suc.prems by (auto simp: self_mapped_def temp_mapped_def)
  have u: "unat (of_nat (a + n) :: 32 word) = a + n" "a + n < 1024"
    using Suc.prems by (simp_all add: unat_of_nat del: of_nat_add)
  have "?f (a + n) (?m n) = Some (store_phys C (a + n) (mmu_phys m (cur m) (a + n)) (?m n))"
    using directory_access(1) [OF ctx(1), of "of_nat (a + n)"] temp_directory_access(2) [OF ctx(2,3), of "of_nat (a + n)"] u assms(4)
    by simp
  moreover have "store_phys C (a + n) (mmu_phys m (cur m) (a + n)) (?m n) = ?m (Suc n)"
    unfolding store_phys_def by (auto simp: fun_eq_iff less_Suc_eq)
  ultimately show ?case using Suc by (simp add: foreach_append del: of_nat_add)
qed

lemma init_kernel_space_spec:
  assumes "self_mapped m (cur m)" and "self_mapped m (p_addr2pd_addr cr3)" and "p_addr2pd_addr cr3 \<noteq> cur m"
  defines "C \<equiv> p_addr2pd_addr cr3"
  shows "init_kernel_space cr3 KERNEL_SPACE_START (unat ((TEMP_RECURSIVE_ENTRY_START - KERNEL_SPACE_START) div PAGE_SIZE)) m
    = Some (m\<lparr>mmu_phys := (mmu_phys m)(cur m := (mmu_phys m (cur m))(1022 := 0),
        C := (\<lambda>i. if 768 \<le> i \<and> i < 1022 then mmu_phys m (cur m) i else mmu_phys m C i))\<rparr>)"
proof -
  let ?m1 = "store_phys (cur m) 1022 (make_entry True False C (mmu_phys m (cur m) 1022)) m"
  let ?m2 = "?m1\<lparr>mmu_phys := (mmu_phys ?m1)(C := (\<lambda>i. if 768 \<le> i \<and> i < 768 + 254 then mmu_phys ?m1 (cur ?m1) i else mmu_phys ?m1 C i))\<rparr>"
  have self: "self_mapped ?m1 (cur ?m1)" "temp_mapped ?m1 C" "self_mapped ?m1 C" "C \<noteq> cur ?m1" "self_mapped ?m2 (cur ?m2)"
    using assms by (auto simp: self_mapped_def temp_mapped_def)
  have n: "unat ((TEMP_RECURSIVE_ENTRY_START - KERNEL_SPACE_START) div PAGE_SIZE) = 260096" "pdi KERNEL_SPACE_START = 768"
    by (simp_all add: TEMP_RECURSIVE_ENTRY_START_def KERNEL_SPACE_START_def pdi_def)
  have loop: "foreach (\<lambda>i m. do {
      e \<leftarrow> load m (entry get_page_directory (of_nat i));
      store (entry get_temp_page_directory (of_nat i)) e m }) [768 ..< 768 + 254] ?m1 = Some ?m2"
    by (rule copy_entries [OF self(1-4)]) simp
  have nr: "(260096 + 1023) div 1024 = (254 :: nat)" by simp
  have "init_kernel_space cr3 KERNEL_SPACE_START 260096 m = reset_temp_recursive_entry ?m2"
    unfolding init_kernel_space_def setup_temp_recursive_entry_eq [OF assms(1)] unat_index_in_pd n(2)
    by (simp only: Let_def bind.bind_lunit nr loop flip: C_def)
  moreover have "store_phys (cur ?m2) 1022 0 ?m2 = m\<lparr>mmu_phys := (mmu_phys m)(cur m := (mmu_phys m (cur m))(1022 := 0),
        C := (\<lambda>i. if 768 \<le> i \<and> i < 1022 then mmu_phys m (cur m) i else mmu_phys m C i))\<rparr>"
    using assms(3) unfolding store_phys_def C_def by (auto simp: fun_eq_iff)
  ultimately show ?thesis unfolding n(1) using reset_temp_recursive_entry_eq [OF self(5)] by simp
qed

lemma x86_vmm_create_spec:
  assumes "space_rep m (p # fs) us ts" and "present (mmu_phys m (cur m) 768)" and "walk m (cur m) KERNEL_SPACE_RESERVED = None"
  shows "\<exists>m'. x86_vmm_create True m = Some (Inr p, m') \<and> space_rep m' fs (insert p us) (insert p ts) \<and> self_mapped m' (p_addr2pd_addr p)
    \<and> (\<forall>i < 768. \<not> present (mmu_phys m' (p_addr2pd_addr p) i))
    \<and> (\<forall>i. 768 \<le> i \<and> i < 1022 \<longrightarrow> mmu_phys m' (p_addr2pd_addr p) i = mmu_phys m' (cur m) i)
    \<and> keeps_walks m m' {}"
proof -
  let ?C = "p_addr2pd_addr p"
  let ?U = "p_addr2pd_addr ` ts"
  let ?T = "address (mmu_phys m (cur m) 768)"
  have inv: "space_inv m ?U" and rep: "frame_rep (mmu_frames m) (p # fs) us" and sub: "ts \<subseteq> us" using assms(1) by (simp_all add: space_rep_def)
  obtain fr where fr: "memory_page_frame_alloc (mmu_frames m) = (p, fr)" "frame_rep fr fs (insert p us)"
    using frame_rep_alloc_some [OF rep] by blast
  have p: "p \<noteq> 0" "?C \<notin> ?U" using frame_rep_frames [OF rep] frame_of_fresh [OF rep, of p] sub by auto
  have TU: "?T \<in> ?U" "?T \<noteq> cur m" "?T \<notin> others m" using inv assms(2) unfolding space_inv_def by simp_all
  have CU: "cur m \<in> ?U" "others m \<subseteq> ?U" using inv by (auto simp: space_inv_def)
  have "?C \<noteq> cur m" using CU(1) p(2) by metis
  moreover have "?C \<notin> others m" using CU(2) p(2) by blast
  moreover have "?T \<noteq> ?C" using TU(1) p(2) by metis
  ultimately have fro: "?C \<noteq> cur m" "?C \<notin> others m" "?T \<noteq> cur m" "?T \<notin> others m" "?T \<noteq> ?C" using TU(2,3) by simp_all
  let ?e = "make_entry True False ?C 0"
  let ?m1 = "m\<lparr>mmu_frames := fr, mmu_phys := (mmu_phys m)(?T := (mmu_phys m ?T)(0 := 0), ?C := (\<lambda>_. 0)(1023 := ?e))\<rparr>"
  have m1: "init_pd_recursive_entry p (m\<lparr>mmu_frames := fr\<rparr>) = Some (Inr (), ?m1)"
    using init_pd_recursive_entry_spec [of "m\<lparr>mmu_frames := fr\<rparr>" ?U p] inv p(2) assms(2,3) by simp
  have self: "self_mapped ?m1 (cur ?m1)" "self_mapped ?m1 ?C" "?C \<noteq> cur ?m1"
    using inv fro by (auto simp: space_inv_def self_mapped_def)
  let ?m = "?m1\<lparr>mmu_phys := (mmu_phys ?m1)(cur ?m1 := (mmu_phys ?m1 (cur ?m1))(1022 := 0),
    ?C := (\<lambda>i. if 768 \<le> i \<and> i < 1022 then mmu_phys ?m1 (cur ?m1) i else mmu_phys ?m1 ?C i))\<rparr>"
  have "x86_vmm_create True m = Some (Inr p, ?m)"
    using m1 fr(1) p(1) init_kernel_space_spec [OF self] by (simp add: x86_vmm_create_def create_pd_and_init_kernel_def paging_init_pd_def)
  moreover have cur: "mmu_phys ?m (cur m) k = mmu_phys m (cur m) k" if "k \<noteq> 1022" for k using fro that by simp
  moreover have "space_inv ?m ?U = space_inv m ?U"
  proof (rule space_inv_cong)
    show "mmu_phys ?m d 1023 = mmu_phys m d 1023" if "d \<in> others m" for d using that fro inv by (auto simp: space_inv_def)
  qed (use cur in auto)
  then have "space_rep ?m fs (insert p us) (insert p ts)"
    using inv fr(2) space_inv_mono [of ?m ?U "p_addr2pd_addr ` insert p ts"] sub
    by (simp add: space_rep_def image_insert subset_insertI subset_insertI2)
  moreover have "self_mapped ?m ?C" "\<forall>i < 768. \<not> present (mmu_phys ?m ?C i)"
    "\<forall>i. 768 \<le> i \<and> i < 1022 \<longrightarrow> mmu_phys ?m ?C i = mmu_phys ?m (cur m) i"
    using fro by (auto simp: self_mapped_def)
  moreover have "walk ?m (cur m) wa = walk m (cur m) wa" if "pdi wa < 1022" for wa
  proof (cases "present (mmu_phys m (cur m) (pdi wa))")
    case True
    let ?S = "address (mmu_phys m (cur m) (pdi wa))"
    have "?S \<in> ?U" "?S \<noteq> cur m" using inv that True by (simp_all add: space_inv_def)
    then have S: "mmu_phys ?m ?S = (if ?S = ?T then (mmu_phys m ?T)(0 := 0) else mmu_phys m ?S)" using p(2) by auto
    have "(768 :: nat) < 1022" by simp
    then have "pdi wa = 768" if "?S = ?T" using inv True assms(2) \<open>pdi wa < 1022\<close> that unfolding space_inv_def by blast
    then show ?thesis using assms(3) True S cur [of "pdi wa"] that unfolding walk_def Let_def by auto
  next
    case False
    then show ?thesis using cur [of "pdi wa"] that unfolding walk_def Let_def by auto
  qed
  then have "keeps_walks m ?m {}" by (simp only: keeps_walks_def) blast
  ultimately show ?thesis by blast
qed

text \<open>
  C29. A new address space is correct: with the kernel's reserved page unmapped and a free frame, creating one succeeds; its directory is a frame
  that was free, maps itself, has no user pages, and maps every address of the kernel below the windows with the very page tables of the
  current space.  The current space is well-formed afterwards and maps everything as before.
\<close>

theorem x86_vmm_create_correct:
  assumes "space_rep m (p # fs) us ts" and "present (mmu_phys m (cur m) 768)" and "walk m (cur m) KERNEL_SPACE_RESERVED = None"
  shows "\<exists>m'. x86_vmm_create True m = Some (Inr p, m') \<and> space_rep m' fs (insert p us) (insert p ts) \<and> self_mapped m' (p_addr2pd_addr p)
    \<and> (\<forall>i < 768. \<not> present (mmu_phys m' (p_addr2pd_addr p) i))
    \<and> (\<forall>i. 768 \<le> i \<and> i < 1022 \<longrightarrow> mmu_phys m' (p_addr2pd_addr p) i = mmu_phys m' (cur m) i)
    \<and> keeps_walks m m' {}"
  by (rule x86_vmm_create_spec [OF assms])

section \<open>A sample address space\<close>

definition sample_frames :: frames where
  "sample_frames =
     init_frame used_page_frames (page_frame_descriptor 6) 0x6000
       (init_frame used_page_frames (page_frame_descriptor 5) 0x5000
         (init_frame used_page_frames (page_frame_descriptor 4) 0x4000
           (init_frame used_page_frames (page_frame_descriptor 3) 0x3000
             (init_frame free_page_frames (page_frame_descriptor 2) 0x2000
               (memory_pf_list_init used_page_frames (memory_pf_list_init free_page_frames
                 (blank_frames\<lparr>memory_base := 0x1000, memory_top := 0x7000\<rparr>)))))))"

definition sample_space :: mmu where
  "sample_space =
     \<lparr>mmu_cr3 = 0x3000,
      mmu_phys = (\<lambda>_ _. 0)(3 := (\<lambda>_. 0)(0 := make_entry True True 5 0, 768 := make_entry True False 6 0, 1023 := make_entry True False 3 0),
        4 := (\<lambda>_. 0)(1023 := make_entry True False 4 0), 5 := (\<lambda>_. 0)(1 := make_entry True True 9 0)),
      mmu_frames = sample_frames, mmu_vmms = [0x3000, 0x4000], mmu_current = Some 0x3000\<rparr>"

lemma sample_frames_rep: "frame_rep sample_frames [0x2000] {0x3000, 0x4000, 0x5000, 0x6000}"
proof -
  let ?d = page_frame_descriptor
  have d: "?d 2 \<noteq> ?d 3" "?d 2 \<noteq> ?d 4" "?d 2 \<noteq> ?d 5" "?d 3 \<noteq> ?d 4" "?d 3 \<noteq> ?d 5" "?d 4 \<noteq> ?d 5"
    "?d 2 \<noteq> ?d 6" "?d 3 \<noteq> ?d 6" "?d 4 \<noteq> ?d 6" "?d 5 \<noteq> ?d 6" "2 < ?d 6"
    "2 < ?d 2" "2 < ?d 3" "2 < ?d 4" "2 < ?d 5" by (simp_all add: page_frame_descriptor_def)
  have rep: "frames_rep sample_frames ([] @ [?d 2]) (((([] @ [?d 3]) @ [?d 4]) @ [?d 5]) @ [?d 6])"
    unfolding sample_frames_def init_frame_def
    by (intro insert_frames_rep frames_rep_set_pf_addr [THEN iffD2] memory_pf_list_init_rep) (use d in auto)
  have addr: "fr_addr sample_frames (?d 2) = 0x2000" "fr_addr sample_frames (?d 3) = 0x3000" "fr_addr sample_frames (?d 4) = 0x4000"
    "fr_addr sample_frames (?d 5) = 0x5000" "fr_addr sample_frames (?d 6) = 0x6000" "memory_base sample_frames = 0x1000" "memory_top sample_frames = 0x7000"
    using d by (simp_all add: sample_frames_def init_frame_def memory_pf_list_insert_def memory_pf_list_init_def)
  have "frames_inv sample_frames [?d 2] [?d 3, ?d 4, ?d 5, ?d 6]"
    using rep addr by (simp add: frames_inv_def managed_def get_page_frame_at_def is_aligned_def)
  then show ?thesis unfolding frame_rep_def using addr by (intro exI [of _ "[?d 2]"] exI [of _ "[?d 3, ?d 4, ?d 5, ?d 6]"]) auto
qed

lemma sample_frame_numbers:
  "p_addr2pd_addr 0x2000 = 2" "p_addr2pd_addr 0x3000 = 3" "p_addr2pd_addr 0x4000 = 4" "p_addr2pd_addr 0x5000 = 5" "p_addr2pd_addr 0x6000 = 6"
  by (simp_all add: p_addr2pd_addr_def drop_bit_eq_div)

lemma sample_others: "others sample_space = {4}"
proof -
  have "{c \<in> set (mmu_vmms sample_space). mmu_current sample_space \<noteq> Some c} = {0x4000}" by (auto simp: sample_space_def)
  then show ?thesis by (simp add: others_def sample_frame_numbers)
qed

lemma sample_space_rep: "space_rep sample_space [0x2000] {0x3000, 0x4000, 0x5000, 0x6000} {0x3000, 0x4000, 0x5000, 0x6000}"
proof -
  show ?thesis
    using sample_frames_rep sample_others
    by (auto simp: space_rep_def space_inv_def self_mapped_def sample_space_def sample_frame_numbers)
qed


theorem paging_map_unmap_witness:
  "\<exists>m1 m2. paging_map 0x7000 0x2000 VMM_PROT_USER sample_space = Some (Inr (), m1) \<and> paging_unmap 0x2000 m1 = Some (Inr (), m2)
     \<and> keeps_walks sample_space m2 {} \<and> paging_unmap 0x2000 m2 = Some (Inl EFAULT, m2)"
proof -
  have i: "pdi 0x2000 = 0" "pti 0x2000 = 2" by (simp_all add: pdi_def pti_def)
  have inv: "space_inv sample_space (p_addr2pd_addr ` {0x3000, 0x4000, 0x5000, 0x6000})" using sample_space_rep by (simp add: space_rep_def)
  have "present (mmu_phys sample_space (cur sample_space) (pdi 0x2000))" "walk sample_space (cur sample_space) 0x2000 = None"
    by (simp_all add: i walk_def sample_space_def sample_frame_numbers)
  then obtain r m1 where "paging_map 0x7000 0x2000 VMM_PROT_USER sample_space = Some (r, m1)" "case r of Inl e \<Rightarrow> False | Inr _ \<Rightarrow> True"
    using paging_map_spec [OF sample_space_rep, of "0x2000" "0x7000" VMM_PROT_USER] i by (fastforce split: sum.splits)
  then have m1: "paging_map 0x7000 0x2000 VMM_PROT_USER sample_space = Some (Inr (), m1)" by (cases r) auto
  show ?thesis using paging_map_unmap [OF sample_space_rep _ m1] m1 i by auto
qed

theorem paging_clone_current_cow_correct_witness:
  "\<exists>m' fs' us'. paging_clone_current_cow 0x4000 sample_space = Some (Inr (), m') \<and> space_rep m' fs' us' us' \<and> cur m' = cur sample_space
    \<and> map_option address (walk m' 4 0x1000) = Some 9 \<and> translate m' 0x1000 = Some 9
    \<and> (\<forall>e. walk m' 4 0x1000 = Some e \<or> walk m' 3 0x1000 = Some e \<longrightarrow> \<not> read_write e)"
proof -
  have tr: "translate sample_space 0x1000 = Some 9"
    by (simp add: translate_walk walk_def sample_space_def sample_frame_numbers pdi_def pti_def)
  have us: "vmm_is_userspace_address 0x1000" by (simp add: vmm_is_userspace_address_def KERNEL_SPACE_START_def)
  have "filter (\<lambda>i. present (mmu_phys sample_space (cur sample_space) i)) [0 ..< 768] = filter (\<lambda>i. i = 0) [0 ..< 768]"
    by (rule filter_cong) (auto simp: sample_space_def sample_frame_numbers)
  moreover have "[0 ..< 768] = 0 # [1 ..< 768]" using upt_conv_Cons [of 0 768] by simp
  moreover have "filter (\<lambda>i. i = (0 :: nat)) [1 ..< 768] = []" by (auto simp: filter_empty_conv)
  ultimately have "length (filter (\<lambda>i. present (mmu_phys sample_space (cur sample_space) i)) [0 ..< 768]) \<le> length [0x2000 :: p_addr]"
    by simp
  moreover have "p_addr2pd_addr 0x4000 \<in> others sample_space" "\<forall>i < 768. \<not> present (mmu_phys sample_space (p_addr2pd_addr 0x4000) i)"
    "cur sample_space = 3"
    by (auto simp: sample_others sample_frame_numbers) (auto simp: sample_space_def sample_frame_numbers)
  ultimately show ?thesis
    using paging_clone_current_cow_correct [OF sample_space_rep, of "0x4000"] us tr unfolding sample_frame_numbers by fastforce
qed

theorem x86_vmm_create_correct_witness:
  "\<exists>m'. x86_vmm_create True sample_space = Some (Inr 0x2000, m') \<and> space_rep m' [] {0x2000, 0x3000, 0x4000, 0x5000, 0x6000} {0x2000, 0x3000, 0x4000, 0x5000, 0x6000}
     \<and> self_mapped m' 2 \<and> (\<forall>i < 768. \<not> present (mmu_phys m' 2 i))
     \<and> (\<forall>i. 768 \<le> i \<and> i < 1022 \<longrightarrow> mmu_phys m' 2 i = mmu_phys m' 3 i) \<and> keeps_walks sample_space m' {}"
proof -
  have "present (mmu_phys sample_space (cur sample_space) 768)" "walk sample_space (cur sample_space) KERNEL_SPACE_RESERVED = None"
    "cur sample_space = 3"
    by (simp_all add: walk_def sample_space_def sample_frame_numbers)
  then show ?thesis using x86_vmm_create_correct [OF sample_space_rep] unfolding sample_frame_numbers by simp
qed

end
