(* ===== verification/Mm_Vmm.thy ===== *)
theory Mm_Vmm
  imports X86_Space Libk_String
begin

text \<open>
  Virtual memory: regions of page frames (\<^verbatim>\<open>kernel/mm/region.c\<close>), mappings (\<^verbatim>\<open>kernel/mm/mapping.c\<close>) and the address
  spaces built from them (\<^verbatim>\<open>kernel/mm/vmm.c\<close>), over the paging of \<^verbatim>\<open>X86_Paging\<close>, the registered implementation.

  Regions are shared, so they are objects of a heap with reference counts; a mapping belongs to one address space.  The outcome of
  the allocations of kernel objects is the infinite sequence \<open>vm_allocs\<close>.  An address space is known by its page directory.
\<close>

section \<open>The model\<close>

definition VMM_MAP_GROWSDOW :: "32 word" where "VMM_MAP_GROWSDOW = 2"
definition VMM_FAULT_USER :: "32 word" where "VMM_FAULT_USER = 1"
definition VMM_FAULT_WRITE :: "32 word" where "VMM_FAULT_WRITE = 2"
definition VMM_FAULT_NOT_PRESENT :: "32 word" where "VMM_FAULT_NOT_PRESENT = 4"
definition VMM_FAULT_ALIGNMENT :: "32 word" where "VMM_FAULT_ALIGNMENT = 8"

record region =
  rg_prot :: "32 word"
  rg_frames :: "p_addr list"
  rg_refcnt :: refcount

record mapping =
  mp_flags :: "32 word"
  mp_start :: v_addr
  mp_size :: size_t
  mp_region :: nat

record vmm =
  vmm_mappings :: "mapping list"
  vmm_refcnt :: refcount

record vm =
  vm_mmu :: mmu
  vm_regions :: "nat \<Rightarrow> region option"
  vm_next :: nat
  vm_spaces :: "p_addr \<Rightarrow> vmm option"
  vm_allocs :: "nat \<Rightarrow> bool"
  vm_fixup_addr :: v_addr

definition vm_kmalloc :: "vm \<Rightarrow> bool \<times> vm" where
  "vm_kmalloc s = (vm_allocs s 0, s\<lparr>vm_allocs := (\<lambda>n. vm_allocs s (Suc n))\<rparr>)"

text \<open>An allocation of an array: dividing by the count traps when it is 0.\<close>

definition vm_kcalloc :: "size_t \<Rightarrow> size_t \<Rightarrow> vm \<Rightarrow> (bool \<times> vm) option" where
  "vm_kcalloc count sz s =
     (if count = 0 then None else if - 1 div count < sz then Some (False, s) else Some (vm_kmalloc s))"

abbreviation set_frames :: "frames \<Rightarrow> vm \<Rightarrow> vm" where
  "set_frames fr s \<equiv> s\<lparr>vm_mmu := (vm_mmu s)\<lparr>mmu_frames := fr\<rparr>\<rparr>"

abbreviation set_region :: "nat \<Rightarrow> region option \<Rightarrow> vm \<Rightarrow> vm" where
  "set_region r v s \<equiv> s\<lparr>vm_regions := (vm_regions s)(r := v)\<rparr>"

subsection \<open>Regions\<close>

definition free_frame :: "p_addr \<Rightarrow> vm \<Rightarrow> vm option" where
  "free_frame f s =
     (if f = 0 then Some s
      else do { (_, fr) \<leftarrow> memory_page_frame_free f (mmu_frames (vm_mmu s)); Some (set_frames fr s) })"

definition region_reset :: "p_addr list \<Rightarrow> vm \<Rightarrow> vm option" where
  "region_reset frames s = foreach free_frame frames s"

definition region_destroy :: "nat \<Rightarrow> vm \<Rightarrow> vm option" where
  "region_destroy r s = do {
     rg \<leftarrow> vm_regions s r;
     s \<leftarrow> region_reset (rg_frames rg) s;
     Some (set_region r None s) }"

definition region_unref :: "nat \<Rightarrow> vm \<Rightarrow> vm option" where
  "region_unref r s = do {
     rg \<leftarrow> vm_regions s r;
     let (n, cnt) = refcount_dec (rg_refcnt rg);
     let s = set_region r (Some (rg\<lparr>rg_refcnt := cnt\<rparr>)) s;
     if n = 0 then region_destroy r s else Some s }"

definition region_ref :: "nat \<Rightarrow> vm \<Rightarrow> vm option" where
  "region_ref r s = do {
     rg \<leftarrow> vm_regions s r;
     Some (set_region r (Some (rg\<lparr>rg_refcnt := snd (refcount_inc (rg_refcnt rg))\<rparr>)) s) }"

definition region_get_ref :: "nat \<Rightarrow> vm \<Rightarrow> int option" where
  "region_get_ref r s = map_option (\<lambda>rg. refcount_get (rg_refcnt rg)) (vm_regions s r)"

definition region_init_from_frames :: "p_addr list \<Rightarrow> 32 word \<Rightarrow> region" where
  "region_init_from_frames frames prot = \<lparr>rg_prot = prot, rg_frames = frames, rg_refcnt = refcount_init\<rparr>"

definition new_region :: "region \<Rightarrow> vm \<Rightarrow> nat \<times> vm" where
  "new_region rg s = (vm_next s, (set_region (vm_next s) (Some rg) s)\<lparr>vm_next := Suc (vm_next s)\<rparr>)"

definition region_create_from_range :: "p_addr \<Rightarrow> size_t \<Rightarrow> 32 word \<Rightarrow> vm \<Rightarrow> (nat result \<times> vm) option" where
  "region_create_from_range start sz prot s = do {
     let (ok, s) = vm_kmalloc s;
     if \<not> ok then Some (Inl ENOMEM, s)
     else do {
       let nr_frames = page_align_up sz div PAGE_SIZE;
       (ok, s) \<leftarrow> vm_kcalloc nr_frames 4 s;
       if \<not> ok then Some (Inl ENOMEM, s)
       else do {
         let frames = map (\<lambda>i. start + of_nat i * PAGE_SIZE) [0 ..< unat nr_frames];
         let (r, s) = new_region (region_init_from_frames frames prot) s;
         Some (Inr r, s) } } }"

text \<open>The frames of a new region; the array was cleared, so after a failure the rest of it is 0.\<close>

fun alloc_frames :: "nat \<Rightarrow> vm \<Rightarrow> bool \<times> p_addr list \<times> vm" where
  "alloc_frames 0 s = (True, [], s)"
| "alloc_frames (Suc n) s =
     (case memory_page_frame_alloc (mmu_frames (vm_mmu s)) of
        (f, fr) \<Rightarrow>
          let s = set_frames fr s
          in if f = 0 then (False, replicate (Suc n) 0, s)
             else case alloc_frames n s of (ok, frames, s) \<Rightarrow> (ok, f # frames, s))"

definition region_init_frames :: "size_t \<Rightarrow> 32 word \<Rightarrow> vm \<Rightarrow> (region result \<times> vm) option" where
  "region_init_frames nr_frames prot s =
     (case alloc_frames (unat nr_frames) s of
        (frames_ok, frames, s) \<Rightarrow>
          if frames_ok then Some (Inr (region_init_from_frames frames prot), s)
          else do { s \<leftarrow> region_reset frames s; Some (Inl ENOMEM, s) })"

definition region_init :: "size_t \<Rightarrow> 32 word \<Rightarrow> vm \<Rightarrow> (region result \<times> vm) option" where
  "region_init nr_frames prot s = do {
     (ok, s) \<leftarrow> vm_kcalloc nr_frames 4 s;
     if ok then region_init_frames nr_frames prot s else Some (Inl ENOMEM, s) }"

definition region_create :: "size_t \<Rightarrow> 32 word \<Rightarrow> vm \<Rightarrow> (nat result \<times> vm) option" where
  "region_create nr_frames prot s = do {
     let (ok, s) = vm_kmalloc s;
     if \<not> ok then Some (Inl ENOMEM, s)
     else do {
       (r, s) \<leftarrow> region_init nr_frames prot s;
       (case r of
          Inl e \<Rightarrow> Some (Inl e, s)
        | Inr rg \<Rightarrow> let (i, s) = new_region rg s in Some (Inr i, s)) } }"

subsection \<open>Mappings\<close>

definition mapping_size_in_pages :: "mapping \<Rightarrow> size_t" where
  "mapping_size_in_pages m = page_align_up (mp_size m) div PAGE_SIZE"

definition mapping_contains_addr :: "mapping \<Rightarrow> v_addr \<Rightarrow> bool" where
  "mapping_contains_addr m addr \<longleftrightarrow> mp_start m \<le> addr \<and> addr < mp_start m + mp_size m"

definition mapping_get_end :: "mapping \<Rightarrow> v_addr" where
  "mapping_get_end m = mp_start m + mp_size m - 1"

definition mapping_destroy :: "mapping \<Rightarrow> vm \<Rightarrow> vm option" where
  "mapping_destroy m s = region_unref (mp_region m) s"

definition mapping_init_region :: "nat \<Rightarrow> v_addr \<Rightarrow> size_t \<Rightarrow> 32 word \<Rightarrow> vm \<Rightarrow> (mapping result \<times> vm) option" where
  "mapping_init_region r start sz flags s =
     (if start + sz < start then Some (Inl EOVERFLOW, s)
      else do {
        s \<leftarrow> region_ref r s;
        Some (Inr \<lparr>mp_flags = flags, mp_start = start, mp_size = sz, mp_region = r\<rparr>, s) })"

definition mapping_init :: "v_addr \<Rightarrow> size_t \<Rightarrow> 32 word \<Rightarrow> 32 word \<Rightarrow> vm \<Rightarrow> (mapping result \<times> vm) option" where
  "mapping_init start sz prot flags s =
     (if start + sz < start then Some (Inl EOVERFLOW, s)
      else do {
        (r, s) \<leftarrow> region_create ((start + sz - start) div PAGE_SIZE) prot s;
        (case r of
           Inl e \<Rightarrow> Some (Inl e, s)
         | Inr r \<Rightarrow> do {
             (m, s) \<leftarrow> mapping_init_region r start sz flags s;
             s \<leftarrow> region_unref r s;
             Some (m, s) }) })"

definition mapping_create :: "v_addr \<Rightarrow> size_t \<Rightarrow> 32 word \<Rightarrow> 32 word \<Rightarrow> vm \<Rightarrow> (mapping result \<times> vm) option" where
  "mapping_create start sz prot flags s =
     (case vm_kmalloc s of (ok, s) \<Rightarrow> if ok then mapping_init start sz prot flags s else Some (Inl ENOMEM, s))"

definition mapping_init_from_range ::
  "v_addr \<Rightarrow> p_addr \<Rightarrow> size_t \<Rightarrow> 32 word \<Rightarrow> 32 word \<Rightarrow> vm \<Rightarrow> (mapping result \<times> vm) option" where
  "mapping_init_from_range mstart pstart sz prot flags s = do {
     (r, s) \<leftarrow> region_create_from_range pstart sz prot s;
     (case r of
        Inl e \<Rightarrow> Some (Inl e, s)
      | Inr r \<Rightarrow> do {
          (m, s) \<leftarrow> mapping_init_region r mstart sz flags s;
          s \<leftarrow> region_unref r s;
          Some (m, s) }) }"

definition mapping_create_from_range ::
  "v_addr \<Rightarrow> p_addr \<Rightarrow> size_t \<Rightarrow> 32 word \<Rightarrow> 32 word \<Rightarrow> vm \<Rightarrow> (mapping result \<times> vm) option" where
  "mapping_create_from_range mstart pstart sz prot flags s =
     (case vm_kmalloc s of
        (ok, s) \<Rightarrow> if ok then mapping_init_from_range mstart pstart sz prot flags s else Some (Inl ENOMEM, s))"

definition mapping_copy_create :: "mapping \<Rightarrow> vm \<Rightarrow> (mapping result \<times> vm) option" where
  "mapping_copy_create src s =
     (case vm_kmalloc s of
        (ok, s) \<Rightarrow> if ok then do { s \<leftarrow> region_ref (mp_region src) s; Some (Inr src, s) } else Some (Inl ENOMEM, s))"

subsection \<open>Address spaces\<close>

fun find_mapping :: "mapping list \<Rightarrow> v_addr \<Rightarrow> mapping option" where
  "find_mapping [] addr = None"
| "find_mapping (m # ms) addr = (if mapping_contains_addr m addr then Some m else find_mapping ms addr)"

fun add_mapping :: "mapping list \<Rightarrow> mapping \<Rightarrow> mapping list" where
  "add_mapping [] mapping = [mapping]"
| "add_mapping (m # ms) mapping =
     (if mp_start m > mp_start mapping then m # mapping # ms else m # add_mapping ms mapping)"

definition set_space :: "p_addr \<Rightarrow> vmm option \<Rightarrow> vm \<Rightarrow> vm" where
  "set_space v x s = s\<lparr>vm_spaces := (vm_spaces s)(v := x)\<rparr>"

definition vmm_create :: "vm \<Rightarrow> (p_addr result \<times> vm) option" where
  "vmm_create s = do {
     let (ok, s) = vm_kmalloc s;
     (r, m) \<leftarrow> x86_vmm_create ok (vm_mmu s);
     let s = s\<lparr>vm_mmu := m\<rparr>;
     (case r of
        Inl e \<Rightarrow> Some (Inl e, s)
      | Inr v \<Rightarrow> Some (Inr v, (set_space v (Some \<lparr>vmm_mappings = [], vmm_refcnt = refcount_init\<rparr>) s)
                    \<lparr>vm_mmu := m\<lparr>mmu_vmms := mmu_vmms m @ [v]\<rparr>\<rparr>)) }"

definition vmm_destroy_mappings :: "mapping list \<Rightarrow> vm \<Rightarrow> vm option" where
  "vmm_destroy_mappings ms s = foreach mapping_destroy ms s"

definition vmm_destroy :: "p_addr \<Rightarrow> vm \<Rightarrow> vm option" where
  "vmm_destroy v s = do {
     x \<leftarrow> vm_spaces s v;
     s \<leftarrow> vmm_destroy_mappings (vmm_mappings x) s;
     let m = (vm_mmu s)\<lparr>mmu_vmms := remove1 v (mmu_vmms (vm_mmu s))\<rparr>;
     m \<leftarrow> x86_vmm_destroy v m;
     Some ((set_space v None s)\<lparr>vm_mmu := m\<rparr>) }"

definition vmm_ref :: "p_addr \<Rightarrow> vm \<Rightarrow> vm option" where
  "vmm_ref v s = do {
     x \<leftarrow> vm_spaces s v;
     Some (set_space v (Some (x\<lparr>vmm_refcnt := snd (refcount_inc (vmm_refcnt x))\<rparr>)) s) }"

definition vmm_unref :: "p_addr \<Rightarrow> vm \<Rightarrow> vm option" where
  "vmm_unref v s = do {
     x \<leftarrow> vm_spaces s v;
     let (n, cnt) = refcount_dec (vmm_refcnt x);
     let s = set_space v (Some (x\<lparr>vmm_refcnt := cnt\<rparr>)) s;
     if n = 0 then vmm_destroy v s else Some s }"

definition vmm_switch_to :: "p_addr \<Rightarrow> vm \<Rightarrow> vm option" where
  "vmm_switch_to v s =
     (if mmu_current (vm_mmu s) = Some v then Some s
      else do {
        s \<leftarrow> (case mmu_current (vm_mmu s) of None \<Rightarrow> Some s | Some c \<Rightarrow> vmm_unref c s);
        s \<leftarrow> vmm_ref v (s\<lparr>vm_mmu := (vm_mmu s)\<lparr>mmu_current := Some v\<rparr>\<rparr>);
        Some (s\<lparr>vm_mmu := x86_switch_to v (vm_mmu s)\<rparr>) })"

text \<open>\<open>thr\<close> is the address space of the current thread's process, \<open>None\<close> for a kernel thread.\<close>

definition vmm_uaccess_setup :: "p_addr option \<Rightarrow> vm \<Rightarrow> vm option" where
  "vmm_uaccess_setup thr s = (case thr of None \<Rightarrow> Some s | Some v \<Rightarrow> vmm_switch_to v s)"

definition current_mappings :: "vm \<Rightarrow> mapping list option" where
  "current_mappings s = do { v \<leftarrow> mmu_current (vm_mmu s); x \<leftarrow> vm_spaces s v; Some (vmm_mappings x) }"

definition set_current_mappings :: "mapping list \<Rightarrow> vm \<Rightarrow> vm option" where
  "set_current_mappings ms s = do {
     v \<leftarrow> mmu_current (vm_mmu s);
     x \<leftarrow> vm_spaces s v;
     Some (set_space v (Some (x\<lparr>vmm_mappings := ms\<rparr>)) s) }"

text \<open>User and kernel pages are unmapped by the same function of the implementation.\<close>

fun unmap_pages :: "nat \<Rightarrow> v_addr \<Rightarrow> mmu \<Rightarrow> (unit result \<times> mmu) option" where
  "unmap_pages 0 addr m = Some (Inr (), m)"
| "unmap_pages (Suc n) addr m = do {
     (r, m) \<leftarrow> paging_unmap addr m;
     (case r of Inl e \<Rightarrow> Some (Inl e, m) | Inr _ \<Rightarrow> unmap_pages n (addr + PAGE_SIZE) m) }"

definition unmap_mapping :: "mapping \<Rightarrow> mmu \<Rightarrow> (unit result \<times> mmu) option" where
  "unmap_mapping mp m = unmap_pages (unat (mapping_size_in_pages mp)) (mp_start mp) m"

fun map_pages :: "v_addr \<Rightarrow> nat \<Rightarrow> nat \<Rightarrow> p_addr list \<Rightarrow> 32 word \<Rightarrow> mmu \<Rightarrow> (unit result \<times> mmu) option" where
  "map_pages start i 0 frames prot m = Some (Inr (), m)"
| "map_pages start i (Suc n) frames prot m =
     (if i < length frames then do {
        (r, m) \<leftarrow> paging_map (frames ! i) (start + of_nat i * PAGE_SIZE) prot m;
        (case r of
           Inl e \<Rightarrow> do { (_, m) \<leftarrow> unmap_pages i start m; Some (Inl e, m) }
         | Inr _ \<Rightarrow> map_pages start (Suc i) n frames prot m) }
      else None)"

definition map_mapping :: "mapping \<Rightarrow> region \<Rightarrow> mmu \<Rightarrow> (unit result \<times> mmu) option" where
  "map_mapping mp rg m = map_pages (mp_start mp) 0 (unat (mapping_size_in_pages mp)) (rg_frames rg) (rg_prot rg) m"

definition vmm_destroy_mapping :: "mapping \<Rightarrow> vm \<Rightarrow> (unit result \<times> vm) option" where
  "vmm_destroy_mapping mp s = do {
     (r, m) \<leftarrow> unmap_mapping mp (vm_mmu s);
     let s = s\<lparr>vm_mmu := m\<rparr>;
     (case r of Inl e \<Rightarrow> Some (Inl e, s) | Inr _ \<Rightarrow> do { s \<leftarrow> mapping_destroy mp s; Some (Inr (), s) }) }"

definition vmm_find_and_destroy_mapping :: "v_addr \<Rightarrow> vm \<Rightarrow> (unit result \<times> vm) option" where
  "vmm_find_and_destroy_mapping addr s = do {
     ms \<leftarrow> current_mappings s;
     (case find_mapping ms addr of
        None \<Rightarrow> Some (Inl EINVAL, s)
      | Some mp \<Rightarrow> do {
          (r, s) \<leftarrow> vmm_destroy_mapping mp s;
          (case r of
             Inl e \<Rightarrow> Some (Inl e, s)
           | Inr _ \<Rightarrow> do { s \<leftarrow> set_current_mappings (remove1 mp ms) s; Some (Inr (), s) }) }) }"

definition is_within_physical_memory_bounds :: "p_addr \<Rightarrow> p_addr \<Rightarrow> frames \<Rightarrow> bool" where
  "is_within_physical_memory_bounds start end_addr fr \<longleftrightarrow> memory_get_memory_base fr \<le> start \<and> end_addr \<le> memory_get_memory_top fr"

definition vmm_map_kernel_page :: "p_addr \<Rightarrow> v_addr \<Rightarrow> 32 word \<Rightarrow> mmu \<Rightarrow> (unit result \<times> mmu) option" where
  "vmm_map_kernel_page phys virt prot m =
     (if \<not> page_is_aligned phys \<or> \<not> page_is_aligned virt \<or> vmm_is_userspace_address virt then Some (Inl EINVAL, m)
      else paging_map phys virt prot m)"

fun unmap_kernel_back :: "nat \<Rightarrow> v_addr \<Rightarrow> mmu \<Rightarrow> mmu option" where
  "unmap_kernel_back 0 virt m = Some m"
| "unmap_kernel_back (Suc i) virt m = do {
     (_, m) \<leftarrow> paging_unmap (virt - PAGE_SIZE) m;
     unmap_kernel_back i (virt - PAGE_SIZE) m }"

fun map_kernel_pages :: "nat \<Rightarrow> nat \<Rightarrow> p_addr \<Rightarrow> v_addr \<Rightarrow> 32 word \<Rightarrow> mmu \<Rightarrow> (unit result \<times> mmu) option" where
  "map_kernel_pages 0 i phys virt prot m = Some (Inr (), m)"
| "map_kernel_pages (Suc n) i phys virt prot m = do {
     (r, m) \<leftarrow> vmm_map_kernel_page phys virt prot m;
     (case r of
        Inl e \<Rightarrow> do { m \<leftarrow> unmap_kernel_back i virt m; Some (Inl e, m) }
      | Inr _ \<Rightarrow> map_kernel_pages n (Suc i) (phys + PAGE_SIZE) (virt + PAGE_SIZE) prot m) }"

definition vmm_map_kernel_range :: "p_addr \<Rightarrow> v_addr \<Rightarrow> size_t \<Rightarrow> 32 word \<Rightarrow> mmu \<Rightarrow> (unit result \<times> mmu) option" where
  "vmm_map_kernel_range phys virt sz prot m = map_kernel_pages (unat (page_align_up sz div PAGE_SIZE)) 0 phys virt prot m"

fun clone_mappings :: "mapping list \<Rightarrow> mapping list \<Rightarrow> vm \<Rightarrow> (unit result \<times> mapping list \<times> vm) option" where
  "clone_mappings [] acc s = Some (Inr (), acc, s)"
| "clone_mappings (src # ms) acc s = do {
     (r, s) \<leftarrow> mapping_copy_create src s;
     (case r of Inl e \<Rightarrow> Some (Inl e, acc, s) | Inr cpy \<Rightarrow> clone_mappings ms (acc @ [cpy]) s) }"

definition vmm_clone :: "p_addr \<Rightarrow> p_addr \<Rightarrow> vm \<Rightarrow> (unit result \<times> vm) option" where
  "vmm_clone v clone s = do {
     c \<leftarrow> vm_spaces s clone;
     if vmm_mappings c \<noteq> [] then None
     else do {
       s \<leftarrow> vmm_switch_to v s;
       x \<leftarrow> vm_spaces s v;
       (r, ms, s) \<leftarrow> clone_mappings (vmm_mappings x) [] s;
       c \<leftarrow> vm_spaces s clone;
       let s = set_space clone (Some (c\<lparr>vmm_mappings := ms\<rparr>)) s;
       (case r of
          Inl e \<Rightarrow> Some (Inl e, s)
        | Inr _ \<Rightarrow> do {
            (r, m) \<leftarrow> x86_clone_current clone (vm_mmu s);
            Some (r, s\<lparr>vm_mmu := m\<rparr>) }) } }"

definition vmm_is_valid_userspace_address :: "v_addr \<Rightarrow> vm \<Rightarrow> bool option" where
  "vmm_is_valid_userspace_address addr s =
     (if vmm_is_userspace_address addr then do { ms \<leftarrow> current_mappings s; Some (find_mapping ms addr \<noteq> None) } else Some False)"

definition range_in_userspace :: "v_addr \<Rightarrow> size_t \<Rightarrow> bool" where
  "range_in_userspace start sz \<longleftrightarrow> vmm_is_userspace_address start \<and> vmm_is_userspace_address (start + sz - 1)"

definition vmm_create_user_mapping ::
  "p_addr option \<Rightarrow> v_addr \<Rightarrow> size_t \<Rightarrow> 32 word \<Rightarrow> 32 word \<Rightarrow> vm \<Rightarrow> (unit result \<times> vm) option" where
  "vmm_create_user_mapping thr addr size0 prot flags s = do {
     s \<leftarrow> vmm_uaccess_setup thr s;
     let sz = page_align_up size0;
     if \<not> range_in_userspace addr sz \<and> \<not> is_aligned addr PAGE_SIZE then Some (Inl EINVAL, s)
     else do {
       (r, s) \<leftarrow> mapping_create addr sz (prot OR VMM_PROT_USER) flags s;
       (case r of
          Inl e \<Rightarrow> Some (Inl e, s)
        | Inr mp \<Rightarrow> do {
            rg \<leftarrow> vm_regions s (mp_region mp);
            (r, m) \<leftarrow> map_mapping mp rg (vm_mmu s);
            let s = s\<lparr>vm_mmu := m\<rparr>;
            (case r of
               Inl e \<Rightarrow> do { s \<leftarrow> mapping_destroy mp s; Some (Inl e, s) }
             | Inr _ \<Rightarrow> do {
                 ms \<leftarrow> current_mappings s;
                 s \<leftarrow> set_current_mappings (add_mapping ms mp) s;
                 Some (Inr (), s) }) }) } }"

definition vmm_destroy_user_mapping :: "p_addr option \<Rightarrow> v_addr \<Rightarrow> vm \<Rightarrow> (unit result \<times> vm) option" where
  "vmm_destroy_user_mapping thr addr s =
     (if \<not> vmm_is_userspace_address addr then Some (Inl EINVAL, s)
      else do { s \<leftarrow> vmm_uaccess_setup thr s; vmm_find_and_destroy_mapping addr s })"

text \<open>The loop visits one address per page; the fuel is the number of pages of the address space.\<close>

fun range_is_free :: "nat \<Rightarrow> mapping list \<Rightarrow> v_addr \<Rightarrow> v_addr \<Rightarrow> bool option" where
  "range_is_free 0 ms addr end_addr = None"
| "range_is_free (Suc fuel) ms addr end_addr =
     (if addr < end_addr then
        (if find_mapping ms addr \<noteq> None then Some False else range_is_free fuel ms (addr + PAGE_SIZE) end_addr)
      else Some True)"

definition vmm_range_is_free :: "nat \<Rightarrow> v_addr \<Rightarrow> v_addr \<Rightarrow> vm \<Rightarrow> bool option" where
  "vmm_range_is_free fuel start end_addr s = do { ms \<leftarrow> current_mappings s; range_is_free fuel ms start end_addr }"

definition vmm_extend_user_mapping :: "nat \<Rightarrow> p_addr option \<Rightarrow> v_addr \<Rightarrow> size_t \<Rightarrow> vm \<Rightarrow> (unit result \<times> vm) option" where
  "vmm_extend_user_mapping fuel thr addr increment s =
     (if \<not> vmm_is_userspace_address addr then Some (Inl EINVAL, s)
      else do {
        s \<leftarrow> vmm_uaccess_setup thr s;
        ms \<leftarrow> current_mappings s;
        (case find_mapping ms addr of
           None \<Rightarrow> Some (Inl EINVAL, s)
         | Some mp \<Rightarrow>
             if mapping_contains_addr mp (addr + increment - 1) then Some (Inr (), s)
             else do {
               let increment = page_align_up (addr + increment - mapping_get_end mp);
               let ext_start = (if mp_flags mp AND VMM_MAP_GROWSDOW \<noteq> 0 then mp_start mp - increment else mp_start mp + mp_size mp);
               free \<leftarrow> vmm_range_is_free fuel ext_start (ext_start + increment - 1) s;
               if \<not> free then Some (Inl EINVAL, s)
               else do {
                 rg \<leftarrow> vm_regions s (mp_region mp);
                 vmm_create_user_mapping thr ext_start increment (rg_prot rg) (mp_flags mp) s } }) })"

text \<open>The result is the new break or -1; \<open>brk\<close> is the break of the current process before and after.\<close>

definition sys_sbrk :: "nat \<Rightarrow> p_addr option \<Rightarrow> 32 word \<Rightarrow> v_addr \<Rightarrow> vm \<Rightarrow> (v_addr \<times> v_addr \<times> vm) option" where
  "sys_sbrk fuel thr increment brk s = do {
     s \<leftarrow> vmm_uaccess_setup thr s;
     ms \<leftarrow> current_mappings s;
     (r, s) \<leftarrow> (case find_mapping ms brk of
        None \<Rightarrow> vmm_create_user_mapping thr brk increment (VMM_PROT_USER OR VMM_PROT_WRITE) 0 s
      | Some _ \<Rightarrow> vmm_extend_user_mapping fuel thr brk increment s);
     (case r of Inl e \<Rightarrow> Some (- 1, brk, s) | Inr _ \<Rightarrow> Some (brk, brk + increment, s)) }"

fun update_pages_prot :: "nat \<Rightarrow> v_addr \<Rightarrow> 32 word \<Rightarrow> mmu \<Rightarrow> (unit result \<times> mmu) option" where
  "update_pages_prot 0 addr prot m = Some (Inr (), m)"
| "update_pages_prot (Suc n) addr prot m = do {
     (r, m) \<leftarrow> paging_update_prot addr prot m;
     (case r of Inl e \<Rightarrow> Some (Inl e, m) | Inr _ \<Rightarrow> update_pages_prot n (addr + PAGE_SIZE) prot m) }"

definition update_user_mapping_prot :: "mapping \<Rightarrow> 32 word \<Rightarrow> vm \<Rightarrow> (unit result \<times> vm) option" where
  "update_user_mapping_prot mp prot s = do {
     (r, m) \<leftarrow> update_pages_prot (unat (mapping_size_in_pages mp)) (mp_start mp) prot (vm_mmu s);
     let s = s\<lparr>vm_mmu := m\<rparr>;
     (case r of
        Inl e \<Rightarrow> Some (Inl e, s)
      | Inr _ \<Rightarrow> do {
          rg \<leftarrow> vm_regions s (mp_region mp);
          Some (Inr (), set_region (mp_region mp) (Some (rg\<lparr>rg_prot := prot\<rparr>)) s) }) }"

definition vmm_update_user_mapping_prot :: "v_addr \<Rightarrow> 32 word \<Rightarrow> vm \<Rightarrow> (unit result \<times> vm) option" where
  "vmm_update_user_mapping_prot addr prot s = do {
     ms \<leftarrow> current_mappings s;
     (case find_mapping ms addr of None \<Rightarrow> Some (Inl ENOENT, s) | Some mp \<Rightarrow> update_user_mapping_prot mp prot s) }"

fun copy_pages :: "nat \<Rightarrow> v_addr \<Rightarrow> v_addr \<Rightarrow> p_addr list \<Rightarrow> mmu \<Rightarrow> (unit result \<times> mmu) option" where
  "copy_pages i start addr [] m = Some (Inr (), m)"
| "copy_pages i start addr (f # fs) m = do {
     (r, m) \<leftarrow> paging_copy_page addr f m;
     (case r of
        Inl e \<Rightarrow> do { (_, m) \<leftarrow> unmap_pages i start m; Some (Inl e, m) }
      | Inr _ \<Rightarrow> copy_pages (Suc i) start (addr + PAGE_SIZE) fs m) }"

definition copy_mapping_pages :: "mapping \<Rightarrow> region \<Rightarrow> mmu \<Rightarrow> (unit result \<times> mmu) option" where
  "copy_mapping_pages mp copy m =
     (if unat (mapping_size_in_pages mp) < length (rg_frames copy) then Some (Inl EINVAL, m)
      else copy_pages 0 (mp_start mp) (mp_start mp) (rg_frames copy) m)"

definition reset_user_mapping_prot :: "mapping \<Rightarrow> vm \<Rightarrow> (unit result \<times> vm) option" where
  "reset_user_mapping_prot mp s = do {
     rg \<leftarrow> vm_regions s (mp_region mp);
     update_user_mapping_prot mp (rg_prot rg) s }"

definition handle_cow_fault :: "mapping \<Rightarrow> vm \<Rightarrow> (unit result \<times> vm) option" where
  "handle_cow_fault mp s = do {
     n \<leftarrow> region_get_ref (mp_region mp) s;
     if n = 1 then reset_user_mapping_prot mp s
     else do {
       rg \<leftarrow> vm_regions s (mp_region mp);
       (r, s) \<leftarrow> region_create (mapping_size_in_pages mp) (rg_prot rg) s;
       (case r of
          Inl e \<Rightarrow> Some (Inl e, s)
        | Inr copy \<Rightarrow> do {
            cp \<leftarrow> vm_regions s copy;
            (r, m) \<leftarrow> copy_mapping_pages mp cp (vm_mmu s);
            let s = s\<lparr>vm_mmu := m\<rparr>;
            (case r of
               Inl e \<Rightarrow> do { s \<leftarrow> region_unref copy s; Some (Inl e, s) }
             | Inr _ \<Rightarrow> do {
                 (r, m) \<leftarrow> unmap_mapping mp (vm_mmu s);
                 let s = s\<lparr>vm_mmu := m\<rparr>;
                 (case r of
                    Inl e \<Rightarrow> do { s \<leftarrow> region_unref copy s; Some (Inl e, s) }
                  | Inr _ \<Rightarrow> do {
                      s \<leftarrow> region_unref (mp_region mp) s;
                      let mp' = mp\<lparr>mp_region := copy\<rparr>;
                      ms \<leftarrow> current_mappings s;
                      s \<leftarrow> set_current_mappings (map (\<lambda>x. if x = mp then mp' else x) ms) s;
                      (r, m) \<leftarrow> map_mapping mp' cp (vm_mmu s);
                      let s = s\<lparr>vm_mmu := m\<rparr>;
                      (case r of
                         Inl e \<Rightarrow> do {
                           ms \<leftarrow> current_mappings s;
                           s \<leftarrow> set_current_mappings (remove1 mp' ms) s;
                           s \<leftarrow> mapping_destroy mp' s;
                           Some (Inl e, s) }
                       | Inr _ \<Rightarrow> Some (Inr (), s)) }) }) }) } }"

text \<open>
  How a page fault ends: the handler returned (to the faulting instruction, or to the fixup address of an access to user memory), or the
  current process was sent SIGSEGV and the processor given away.  \<open>None\<close> is a panic.
\<close>

datatype fault_outcome = Fault_resolved | Fault_fixup v_addr | Fault_killed v_addr

definition vmm_handle_page_fault :: "v_addr \<Rightarrow> 32 word \<Rightarrow> vm \<Rightarrow> (fault_outcome \<times> vm) option" where
  "vmm_handle_page_fault fault_addr flags s =
     (if flags AND VMM_FAULT_USER \<noteq> 0 then do {
        ms \<leftarrow> current_mappings s;
        (case find_mapping ms fault_addr of
           None \<Rightarrow> Some (Fault_killed fault_addr, s)
         | Some mp \<Rightarrow> do {
             rg \<leftarrow> vm_regions s (mp_region mp);
             if flags AND VMM_FAULT_WRITE \<noteq> 0 \<and> rg_prot rg AND VMM_PROT_WRITE \<noteq> 0 \<and> flags AND VMM_FAULT_ALIGNMENT = 0
             then do {
               (r, s) \<leftarrow> handle_cow_fault mp s;
               (case r of Inl e \<Rightarrow> None | Inr _ \<Rightarrow> Some (Fault_resolved, s)) }
             else Some (Fault_killed fault_addr, s) }) }
      else if vm_fixup_addr s \<noteq> 0 then Some (Fault_fixup (vm_fixup_addr s), s\<lparr>vm_fixup_addr := 0\<rparr>)
      else None)"

end
