(* ===== verification/Vmm_Props.thy ===== *)
theory Vmm_Props
  imports Mm_Vmm
begin

text \<open>
  Correctness of the virtual memory operations of \<^verbatim>\<open>Mm_Vmm\<close>: ranges of pages are mapped and unmapped completely or not at all, the frames
  of regions are returned, and creating a user mapping either maps fresh frames or changes nothing.  Two theorems show what goes
  wrong in \<open>vmm_create_user_mapping\<close> and \<open>sys_sbrk\<close>.
\<close>

section \<open>Ranges of pages\<close>

definition page :: "v_addr \<Rightarrow> nat \<Rightarrow> v_addr" where
  "page start i = start + of_nat i * PAGE_SIZE"

definition pages :: "v_addr \<Rightarrow> nat \<Rightarrow> v_addr set" where
  "pages start n = page start ` {..<n}"

lemma page_0 [simp]: "page start 0 = start"
  by (simp add: page_def)

lemma page_Suc: "page (start + PAGE_SIZE) i = page start (Suc i)"
  by (simp add: page_def algebra_simps)

text \<open>A range of \<open>n\<close> pages below the windows of paging.\<close>

definition page_range :: "v_addr \<Rightarrow> nat \<Rightarrow> bool" where
  "page_range start n \<longleftrightarrow> 4096 dvd unat start \<and> unat start + n * 4096 \<le> 0xff800000"

lemma unat_page:
  assumes "page_range start n" and "i < n"
  shows "unat (page start i) = unat start + i * 4096"
proof -
  have b: "unat start + i * 4096 < 0xff800000" using assms by (auto simp: page_range_def)
  then have "unat (of_nat i * 0x1000 :: 32 word) = i * 4096" by (intro unat_page_addr) simp
  then show ?thesis using b unat_add_no_wrap [of start "of_nat i * 0x1000"] by (simp add: page_def)
qed

lemma page_facts:
  assumes "page_range start n" and "i < n"
  shows "pdi (page start i) < 1022" and "page_align_down (page start i) = page start i"
proof -
  note u = unat_page [OF assms]
  have "unat start + i * 4096 < 0xff800000" using assms by (auto simp: page_range_def)
  then show "pdi (page start i) < 1022" using u by (simp add: pdi_def less_mult_imp_div_less)
  have "4096 dvd unat (page start i)" using u assms(1) by (simp add: page_range_def)
  then show "page_align_down (page start i) = page start i" by (simp add: word_unat_eq_iff unat_page_align_down)
qed

lemma page_inj:
  assumes "page_range start n" and "i < n" and "j < n" and "page start i = page start j"
  shows "i = j"
proof -
  have "unat (page start i) = unat (page start j)" using assms(4) by (rule arg_cong)
  then show ?thesis unfolding unat_page [OF assms(1,2)] unat_page [OF assms(1,3)] by linarith
qed

lemma page_range_less: "page_range start n \<Longrightarrow> k \<le> n \<Longrightarrow> page_range start k"
  by (auto simp: page_range_def)

lemma page_range_tail: "page_range start (Suc n) \<Longrightarrow> page_range (start + PAGE_SIZE) n"
proof -
  assume r: "page_range start (Suc n)"
  then have "unat (start + 0x1000) = unat start + 4096"
    by (intro unat_add_no_wrap [of start "0x1000", simplified]) (simp add: page_range_def)
  then show ?thesis using r by (simp add: page_range_def)
qed

lemma pages_Suc: "pages start (Suc n) = insert start (pages (start + PAGE_SIZE) n)"
  unfolding pages_def lessThan_Suc_eq_insert_0 by (simp add: image_image page_Suc)

lemma pages_Suc_end: "pages start (Suc n) = pages start n \<union> {page start n}"
  by (auto simp: pages_def lessThan_Suc)

lemma keeps_walks_trans:
  "keeps_walks m m1 P \<Longrightarrow> keeps_walks m1 m2 Q \<Longrightarrow> cur m1 = cur m \<Longrightarrow> keeps_walks m m2 (P \<union> Q)"
  by (simp add: keeps_walks_def)

lemma keeps_walks_mono: "keeps_walks m m' P \<Longrightarrow> P \<subseteq> Q \<Longrightarrow> keeps_walks m m' Q"
  by (auto simp: keeps_walks_def)

lemma walk_same_page: "page_align_down va = page_align_down wa \<Longrightarrow> walk m f va = walk m f wa"
  using same_page_indices [of va wa] by (simp add: walk_def)

text \<open>If both states agree on each page of a set, they agree there too.\<close>

lemma keeps_walks_less:
  assumes "keeps_walks m m' (P \<union> Q)" and "\<And>p. p \<in> Q \<Longrightarrow> page_align_down p = p \<and> walk m' (cur m) p = walk m (cur m) p"
  shows "keeps_walks m m' P"
  unfolding keeps_walks_def
proof (intro allI impI)
  fix wa assume wa: "pdi wa < 1022" "page_align_down wa \<notin> P"
  show "walk m' (cur m) wa = walk m (cur m) wa"
  proof (cases "page_align_down wa \<in> Q")
    case True
    then show ?thesis using assms(2) [OF True] walk_same_page [of wa "page_align_down wa"] by simp
  next
    case False
    then show ?thesis using assms(1) wa by (simp add: keeps_walks_def)
  qed
qed

lemma page_notin: "page_range start (Suc i) \<Longrightarrow> page start i \<notin> pages start i"
  unfolding pages_def using page_inj [of start "Suc i" i] by (metis imageE lessI lessThan_iff less_SucI less_irrefl)

section \<open>Mapping and unmapping ranges\<close>

lemma unmap_pages_spec:
  assumes "space_rep m fs us ts" and "page_range start n" and "\<forall>i < n. walk m (cur m) (page start i) \<noteq> None"
  shows "\<exists>m'. unmap_pages n start m = Some (Inr (), m') \<and> space_rep m' fs us ts \<and> cur m' = cur m \<and> others m' = others m
    \<and> (\<forall>i < n. walk m' (cur m) (page start i) = None) \<and> keeps_walks m m' (pages start n)"
  using assms
proof (induction n arbitrary: start m)
  case 0
  then show ?case by (auto simp: keeps_walks_def)
next
  case (Suc n)
  have f: "pdi start < 1022" "page_align_down start = start" using page_facts [OF Suc.prems(2), of 0] by simp_all
  obtain m1 where m1: "paging_unmap start m = Some (Inr (), m1)" "space_rep m1 fs us ts" "cur m1 = cur m" "others m1 = others m"
    "walk m1 (cur m) start = None" "keeps_walks m m1 {start}"
    using paging_unmap_mapped [OF Suc.prems(1) f(1)] Suc.prems(3) [rule_format, of 0] f(2) by auto
  have w1: "walk m1 (cur m) (page start (Suc i)) = walk m (cur m) (page start (Suc i))" if "i < n" for i
    using m1(6) page_facts [OF Suc.prems(2), of "Suc i"] page_inj [OF Suc.prems(2), of "Suc i" 0] that
    by (auto simp: keeps_walks_def)
  obtain m2 where m2: "unmap_pages n (start + PAGE_SIZE) m1 = Some (Inr (), m2)" "space_rep m2 fs us ts" "cur m2 = cur m1"
    "others m2 = others m1" "\<forall>i < n. walk m2 (cur m1) (page (start + PAGE_SIZE) i) = None"
    "keeps_walks m1 m2 (pages (start + PAGE_SIZE) n)"
    using Suc.IH [OF m1(2) page_range_tail [OF Suc.prems(2)]] w1 Suc.prems(3) m1(3) unfolding page_Suc by auto
  have "keeps_walks m m2 (pages start (Suc n))"
    using keeps_walks_trans [OF m1(6) m2(6) m1(3)] by (simp add: pages_Suc)
  moreover have "walk m2 (cur m) (page start i) = None" if "i < Suc n" for i
  proof (cases i)
    case 0
    have "start \<notin> pages (start + PAGE_SIZE) n"
      unfolding pages_def page_Suc using page_inj [OF Suc.prems(2), of 0] by force
    then have "walk m2 (cur m) start = walk m1 (cur m) start" using m2(6) f m1(3) by (simp add: keeps_walks_def)
    then show ?thesis using m1(5) 0 by simp
  next
    case (Suc k)
    then show ?thesis using m2(5) m1(3) that unfolding page_Suc by simp
  qed
  ultimately show ?case using m1(1,3,4) m2(1-4) by auto
qed

text \<open>The first \<open>i\<close> pages of a range have been mapped since \<open>m\<close>.\<close>

definition mapped_so_far :: "mmu \<Rightarrow> mmu \<Rightarrow> v_addr \<Rightarrow> nat \<Rightarrow> p_addr list \<Rightarrow> 32 word \<Rightarrow> bool" where
  "mapped_so_far m m' start i frames prot \<longleftrightarrow> cur m' = cur m \<and> others m' = others m \<and> keeps_walks m m' (pages start i)
     \<and> (\<forall>j < i. walk m (cur m) (page start j) = None \<and> mapped_as m' (page start j) (frames ! j) prot)"

lemma map_pages_undo:
  assumes "space_rep m' fs us ts" and "page_range start i" and "mapped_so_far m m' start i frames prot"
  shows "\<exists>m''. unmap_pages i start m' = Some (Inr (), m'') \<and> space_rep m'' fs us ts \<and> cur m'' = cur m \<and> others m'' = others m
    \<and> keeps_walks m m'' {}"
proof -
  have s: "cur m' = cur m" "others m' = others m" "keeps_walks m m' (pages start i)"
    "\<forall>j < i. walk m (cur m) (page start j) = None \<and> mapped_as m' (page start j) (frames ! j) prot"
    using assms(3) by (simp_all add: mapped_so_far_def)
  obtain m'' where m'': "unmap_pages i start m' = Some (Inr (), m'')" "space_rep m'' fs us ts" "cur m'' = cur m'"
    "others m'' = others m'" "\<forall>j < i. walk m'' (cur m') (page start j) = None" "keeps_walks m' m'' (pages start i)"
    using unmap_pages_spec [OF assms(1,2)] s(4) by (auto simp: mapped_as_def)
  have "keeps_walks m m'' (pages start i)" using keeps_walks_trans [OF s(3) m''(6) s(1)] by simp
  then have "keeps_walks m m'' {}"
    by (intro keeps_walks_less [of m m'' "{}" "pages start i"])
      (use m''(5) s(1,4) page_facts(2) [OF assms(2)] in \<open>auto simp: pages_def\<close>)
  then show ?thesis using m'' s(1,2) by auto
qed

lemma mapped_so_far_keep:
  assumes "mapped_so_far m m1 start i frames prot" and "page_range start i" and "cur m2 = cur m1" and "others m2 = others m1"
    and "keeps_walks m1 m2 {}"
  shows "mapped_so_far m m2 start i frames prot"
proof -
  have s: "cur m1 = cur m" "others m1 = others m" "keeps_walks m m1 (pages start i)"
    "\<forall>j < i. walk m (cur m) (page start j) = None \<and> mapped_as m1 (page start j) (frames ! j) prot"
    using assms(1) by (simp_all add: mapped_so_far_def)
  have "keeps_walks m m2 (pages start i)" using keeps_walks_trans [OF s(3) assms(5) s(1)] by simp
  moreover have "mapped_as m2 (page start j) (frames ! j) prot" if "j < i" for j
    using s(4) that assms(3,5) page_facts(1) [OF assms(2) that] by (simp add: mapped_as_def keeps_walks_def)
  ultimately show ?thesis using s assms(3,4) by (simp add: mapped_so_far_def)
qed

lemma mapped_so_far_before:
  assumes "mapped_so_far m1 m2 start n frames prot" and "page_range start n" and "cur m1 = cur m" and "others m1 = others m"
    and "keeps_walks m m1 {}"
  shows "mapped_so_far m m2 start n frames prot"
  using assms page_facts(1) [OF assms(2)] unfolding mapped_so_far_def by (auto simp: keeps_walks_def)

lemma mapped_so_far_step:
  assumes "mapped_so_far m m1 start i frames prot" and "page_range start (Suc i)" and "cur m2 = cur m1" and "others m2 = others m1"
    and "walk m1 (cur m1) (page start i) = None" and "mapped_as m2 (page start i) (frames ! i) prot"
    and "keeps_walks m1 m2 {page start i}"
  shows "mapped_so_far m m2 start (Suc i) frames prot"
proof -
  have s: "cur m1 = cur m" "others m1 = others m" "keeps_walks m m1 (pages start i)"
    "\<forall>j < i. walk m (cur m) (page start j) = None \<and> mapped_as m1 (page start j) (frames ! j) prot"
    using assms(1) by (simp_all add: mapped_so_far_def)
  have pf: "pdi (page start j) < 1022" "page_align_down (page start j) = page start j" if "j < Suc i" for j
    using page_facts [OF assms(2) that] by simp_all
  have ne: "page start j \<noteq> page start i" if "j < i" for j using page_inj [OF assms(2), of j i] that by auto
  have "mapped_as m2 (page start j) (frames ! j) prot" if "j < Suc i" for j
  proof (cases "j = i")
    case False
    then have "walk m2 (cur m1) (page start j) = walk m1 (cur m1) (page start j)"
      using assms(7) pf [OF that] ne [of j] that by (simp add: keeps_walks_def)
    then show ?thesis using s(4) False that assms(3) by (simp add: mapped_as_def)
  qed (use assms(6) in simp)
  moreover have "page start i \<notin> pages start i" using page_notin [OF assms(2)] .
  then have "walk m (cur m) (page start i) = None" using s(1,3) pf [of i] assms(5) by (simp add: keeps_walks_def)
  moreover have "keeps_walks m m2 (pages start (Suc i))"
    using keeps_walks_trans [OF s(3) assms(7) s(1)] by (simp add: pages_Suc_end)
  ultimately show ?thesis using assms(3,4) s(1,2,4) by (auto simp: mapped_so_far_def less_Suc_eq)
qed

declare map_pages.simps [simp del]

lemmas map_pages_simps = map_pages.simps [folded page_def]

lemma map_pages_from:
  assumes "space_rep m1 fs us ts" and "page_range start (i + n)" and "mapped_so_far m m1 start i frames prot" and "i + n \<le> length frames"
  shows "\<exists>r m' N fs'. map_pages start i n frames prot m1 = Some (r, m') \<and> fs = N @ fs' \<and> space_rep m' fs' (us \<union> set N) (ts \<union> set N)
    \<and> cur m' = cur m \<and> others m' = others m
    \<and> (case r of
         Inl e \<Rightarrow> (e = EFAULT \<and> (\<exists>j < i + n. walk m (cur m) (page start j) \<noteq> None) \<or> e = ENOMEM \<and> fs' = []) \<and> keeps_walks m m' {}
       | Inr _ \<Rightarrow> mapped_so_far m m' start (i + n) frames prot)"
  using assms
proof (induction n arbitrary: i m1 fs us ts)
  case 0
  show ?case
    by (rule exI [of _ "Inr ()"], rule exI [of _ m1], rule exI [of _ "[]"], rule exI [of _ fs])
      (use 0 in \<open>auto simp: map_pages_simps mapped_so_far_def\<close>)
next
  case (Suc n)
  have r: "page_range start (Suc i)" "page_range start i" using page_range_less [OF Suc.prems(2)] by simp_all
  have s: "cur m1 = cur m" "others m1 = others m" "keeps_walks m m1 (pages start i)" using Suc.prems(3) by (simp_all add: mapped_so_far_def)
  have pf: "pdi (page start i) < 1022" "page_align_down (page start i) = page start i" using page_facts [OF r(1), of i] by simp_all
  obtain r m2 N fs1 where m2: "paging_map (frames ! i) (page start i) prot m1 = Some (r, m2)" "fs = N @ fs1"
    "space_rep m2 fs1 (us \<union> set N) (ts \<union> set N)" "cur m2 = cur m1" "others m2 = others m1"
    and res: "case r of
         Inl e \<Rightarrow> (e = EFAULT \<and> walk m1 (cur m1) (page start i) \<noteq> None \<or> e = ENOMEM \<and> fs = []) \<and> keeps_walks m1 m2 {}
       | Inr _ \<Rightarrow> walk m1 (cur m1) (page start i) = None \<and> mapped_as m2 (page start i) (frames ! i) prot \<and> keeps_walks m1 m2 {page start i}"
    using paging_map_spec [OF Suc.prems(1) pf(1), of "frames ! i" prot] unfolding pf(2) by blast
  have lt: "i < length frames" using Suc.prems(4) by simp
  show ?case
  proof (cases r)
    case (Inl e)
    have "mapped_so_far m m2 start i frames prot"
      using mapped_so_far_keep [OF Suc.prems(3) r(2) m2(4,5)] res Inl by simp
    then obtain m3 where m3: "unmap_pages i start m2 = Some (Inr (), m3)" "space_rep m3 fs1 (us \<union> set N) (ts \<union> set N)" "cur m3 = cur m"
      "others m3 = others m" "keeps_walks m m3 {}"
      using map_pages_undo [OF m2(3) r(2)] by blast
    have "walk m1 (cur m1) (page start i) = walk m (cur m) (page start i)"
      using s page_notin [OF r(1)] pf by (simp add: keeps_walks_def)
    then have "e = EFAULT \<and> (\<exists>j < i + Suc n. walk m (cur m) (page start j) \<noteq> None) \<or> e = ENOMEM \<and> fs1 = []"
      using res Inl m2(2) by (auto intro!: exI [of _ i])
    with m2(1,2) m3 Inl lt show ?thesis
      by - (rule exI [of _ "Inl e"], rule exI [of _ m3], rule exI [of _ N], rule exI [of _ fs1], simp add: map_pages_simps)
  next
    case (Inr x)
    have "mapped_so_far m m2 start (Suc i) frames prot"
      using mapped_so_far_step [OF Suc.prems(3) r(1) m2(4,5)] res Inr by simp
    from Suc.IH [OF m2(3) _ this] Suc.prems(2,4) obtain r' m3 N' fs2 where
      "map_pages start (Suc i) n frames prot m2 = Some (r', m3)" "fs1 = N' @ fs2"
      "space_rep m3 fs2 (us \<union> set N \<union> set N') (ts \<union> set N \<union> set N')" "cur m3 = cur m" "others m3 = others m"
      "case r' of
         Inl e \<Rightarrow> (e = EFAULT \<and> (\<exists>j < Suc i + n. walk m (cur m) (page start j) \<noteq> None) \<or> e = ENOMEM \<and> fs2 = []) \<and> keeps_walks m m3 {}
       | Inr _ \<Rightarrow> mapped_so_far m m3 start (Suc i + n) frames prot" by auto
    with m2(1,2) Inr lt show ?thesis
      by - (rule exI [of _ r'], rule exI [of _ m3], rule exI [of _ "N @ N'"], rule exI [of _ fs2], simp add: map_pages_simps Un_assoc split: sum.splits)
  qed
qed

lemma map_pages_spec:
  assumes "space_rep m fs us ts" and "page_range start n" and "length frames = n"
  shows "\<exists>r m' N fs'. map_pages start 0 n frames prot m = Some (r, m') \<and> fs = N @ fs' \<and> space_rep m' fs' (us \<union> set N) (ts \<union> set N)
    \<and> cur m' = cur m \<and> others m' = others m
    \<and> (case r of
         Inl e \<Rightarrow> (e = EFAULT \<and> (\<exists>j < n. walk m (cur m) (page start j) \<noteq> None) \<or> e = ENOMEM \<and> fs' = []) \<and> keeps_walks m m' {}
       | Inr _ \<Rightarrow> mapped_so_far m m' start n frames prot)"
  using map_pages_from [OF assms(1), of start 0 n m frames prot] assms(2,3)
  unfolding add_0 by (simp add: mapped_so_far_def keeps_walks_def pages_def)

text \<open>Paging does not change which address spaces there are and which is the current one.\<close>

abbreviation spaces :: "mmu \<Rightarrow> p_addr option \<times> p_addr list" where
  "spaces m \<equiv> (mmu_current m, mmu_vmms m)"

lemma foreach_preserves:
  "(\<And>x s s'. f x s = Some s' \<Longrightarrow> P s' = P s) \<Longrightarrow> foreach f xs s = Some s' \<Longrightarrow> P s' = P s"
proof (induction xs arbitrary: s)
  case (Cons x xs)
  obtain s1 where s1: "f x s = Some s1" "foreach f xs s1 = Some s'" using Cons.prems(2) by (auto split: Option.bind_splits)
  have "P s' = P s1" using Cons.IH Cons.prems(1) s1(2) by blast
  then show ?case using Cons.prems(1) [OF s1(1)] by simp
qed simp

lemma store_spaces: "store va v m = Some m' \<Longrightarrow> spaces m' = spaces m"
  by (auto simp: store_def)

lemma clear_page_spaces: "clear_page va m = Some m' \<Longrightarrow> spaces m' = spaces m"
  by (auto simp: clear_page_def)

lemma recursive_entry_spaces:
  "make_recursive_entry pd p va m = Some m' \<Longrightarrow> spaces m' = spaces m"
  "clear_recursive_entry pd va m = Some m' \<Longrightarrow> spaces m' = spaces m"
  by (auto simp: make_recursive_entry_def clear_recursive_entry_def Let_def dest: store_spaces split: Option.bind_splits)

lemma sync_spaces: "vmm_sync_kernel_space i m = Some m' \<Longrightarrow> spaces m' = spaces m"
proof -
  have one: "spaces m' = spaces m" if "paging_sync_kernel_space c i m = Some m'" for c m m'
    using that
    by (auto simp: paging_sync_kernel_space_def setup_temp_recursive_entry_def reset_temp_recursive_entry_def
        split: Option.bind_splits dest!: store_spaces recursive_entry_spaces)
  have step: "spaces s' = spaces s" if "(if mmu_current s \<noteq> Some c then paging_sync_kernel_space c i s else Some s) = Some s'" for c s s'
    using that one by (auto split: if_splits)
  assume "vmm_sync_kernel_space i m = Some m'"
  then show ?thesis unfolding vmm_sync_kernel_space_def by (rule foreach_preserves [where P = spaces, rotated]) (rule step)
qed

lemma paging_map_spaces: "paging_map paddr va prot m = Some (r, m') \<Longrightarrow> spaces m' = spaces m"
  by (auto simp: paging_map_def paging_set_entry_def paging_add_table_def Let_def split: Option.bind_splits if_splits prod.splits
      dest!: store_spaces clear_page_spaces sync_spaces)

lemma paging_unmap_spaces: "paging_unmap va m = Some (r, m') \<Longrightarrow> spaces m' = spaces m"
  by (auto simp: paging_unmap_def split: Option.bind_splits option.splits dest!: store_spaces)

lemma unmap_pages_spaces: "unmap_pages n va m = Some (r, m') \<Longrightarrow> spaces m' = spaces m"
  by (induction n arbitrary: va m) (auto split: Option.bind_splits sum.splits dest!: paging_unmap_spaces)

lemma map_pages_spaces: "map_pages start i n frames prot m = Some (r, m') \<Longrightarrow> spaces m' = spaces m"
  by (induction n arbitrary: i m)
    (auto simp: map_pages.simps split: if_splits Option.bind_splits sum.splits dest!: paging_map_spaces unmap_pages_spaces)

section \<open>Regions\<close>

abbreviation vm_rep :: "vm \<Rightarrow> p_addr list \<Rightarrow> p_addr set \<Rightarrow> p_addr set \<Rightarrow> bool" where
  "vm_rep s \<equiv> space_rep (vm_mmu s)"

lemma space_rep_frames_update:
  "space_rep m fs us ts \<Longrightarrow> frame_rep fr fs' us' \<Longrightarrow> ts \<subseteq> us' \<Longrightarrow> space_rep (m\<lparr>mmu_frames := fr\<rparr>) fs' us' ts"
  by (simp add: space_rep_def)

text \<open>Only the frame allocator differs.\<close>

definition same_but_frames :: "vm \<Rightarrow> vm \<Rightarrow> bool" where
  "same_but_frames s s' \<longleftrightarrow> (\<exists>fr. s' = set_frames fr s)"

lemma same_but_frames_refl: "same_but_frames s s"
  unfolding same_but_frames_def by (intro exI [of _ "mmu_frames (vm_mmu s)"]) simp

lemma same_but_frames_trans: "same_but_frames s s1 \<Longrightarrow> same_but_frames s1 s2 \<Longrightarrow> same_but_frames s s2"
  by (auto simp: same_but_frames_def)

lemma same_but_framesD:
  assumes "same_but_frames s s'"
  shows "vm_regions s' = vm_regions s" "vm_next s' = vm_next s" "vm_spaces s' = vm_spaces s" "vm_allocs s' = vm_allocs s"
    "vm_fixup_addr s' = vm_fixup_addr s" "mmu_current (vm_mmu s') = mmu_current (vm_mmu s)" "cur (vm_mmu s') = cur (vm_mmu s)"
    "others (vm_mmu s') = others (vm_mmu s)" "keeps_walks (vm_mmu s) (vm_mmu s') {}"
  using assms by (auto simp: same_but_frames_def others_def keeps_walks_def)

lemma free_frames:
  assumes "vm_rep s fs us ts" and "distinct ps" and "set ps \<subseteq> us - ts"
  shows "\<exists>s'. foreach free_frame (ps @ replicate k 0) s = Some s' \<and> same_but_frames s s' \<and> vm_rep s' (rev ps @ fs) (us - set ps) ts"
  using assms
proof (induction ps arbitrary: s fs us)
  case Nil
  have "foreach free_frame (replicate k 0) s = Some s" by (induction k) (simp_all add: free_frame_def)
  then show ?case using Nil by (auto simp: same_but_frames_refl)
next
  case (Cons p ps)
  have rep: "frame_rep (mmu_frames (vm_mmu s)) fs us" and ts: "ts \<subseteq> us" using Cons.prems(1) by (simp_all add: space_rep_def)
  obtain fr where fr: "memory_page_frame_free p (mmu_frames (vm_mmu s)) = Some (Inr (), fr)" "frame_rep fr (p # fs) (us - {p})"
    using frame_rep_free [OF rep, of p] Cons.prems(3) by auto
  have p: "p \<noteq> 0" using frame_rep_frames [OF rep] Cons.prems(3) by auto
  have "vm_rep (set_frames fr s) (p # fs) (us - {p}) ts"
    using space_rep_frames_update [OF Cons.prems(1) fr(2)] ts Cons.prems(3) by auto
  from Cons.IH [OF this] Cons.prems(2,3) obtain s' where
    "foreach free_frame (ps @ replicate k 0) (set_frames fr s) = Some s'" "same_but_frames (set_frames fr s) s'"
    "vm_rep s' (rev ps @ p # fs) (us - {p} - set ps) ts" by auto
  moreover have "us - {p} - set ps = us - set (p # ps)" by auto
  moreover have "free_frame p s = Some (set_frames fr s)" using fr(1) p by (simp add: free_frame_def)
  ultimately show ?case by (auto simp: same_but_frames_def)
qed

lemma alloc_frames_spec:
  assumes "vm_rep s fs us ts"
  shows "\<exists>s'. alloc_frames n s = (n \<le> length fs, take n fs @ replicate (n - length fs) 0, s') \<and> same_but_frames s s'
    \<and> vm_rep s' (drop n fs) (us \<union> set (take n fs)) ts"
  using assms
proof (induction n arbitrary: s fs us)
  case 0
  then show ?case by (auto simp: same_but_frames_refl)
next
  case (Suc n)
  have rep: "frame_rep (mmu_frames (vm_mmu s)) fs us" and ts: "ts \<subseteq> us" using Suc.prems by (simp_all add: space_rep_def)
  show ?case
  proof (cases fs)
    case Nil
    then show ?thesis using frame_rep_alloc_none [of "mmu_frames (vm_mmu s)" us] rep Suc.prems
      by (auto simp: same_but_frames_refl)
  next
    case (Cons p fs')
    obtain fr where fr: "memory_page_frame_alloc (mmu_frames (vm_mmu s)) = (p, fr)" "frame_rep fr fs' (insert p us)"
      using frame_rep_alloc_some rep Cons by blast
    have p: "p \<noteq> 0" using frame_rep_frames [OF rep] Cons by auto
    have "vm_rep (set_frames fr s) fs' (insert p us) ts"
      using space_rep_frames_update [OF Suc.prems fr(2)] ts by auto
    from Suc.IH [OF this] obtain s' where
      "alloc_frames n (set_frames fr s) = (n \<le> length fs', take n fs' @ replicate (n - length fs') 0, s')"
      "same_but_frames (set_frames fr s) s'" "vm_rep s' (drop n fs') (insert p us \<union> set (take n fs')) ts" by blast
    then show ?thesis using fr(1) p Cons by (auto simp: same_but_frames_def)
  qed
qed

text \<open>The current address space and its mappings are the same.\<close>

definition same_space :: "vm \<Rightarrow> vm \<Rightarrow> bool" where
  "same_space s s' \<longleftrightarrow> vm_spaces s' = vm_spaces s \<and> mmu_current (vm_mmu s') = mmu_current (vm_mmu s)
     \<and> cur (vm_mmu s') = cur (vm_mmu s) \<and> others (vm_mmu s') = others (vm_mmu s) \<and> keeps_walks (vm_mmu s) (vm_mmu s') {}"

lemma same_space_refl [simp]: "same_space s s"
  by (simp add: same_space_def keeps_walks_def)

lemma same_space_trans: "same_space s s1 \<Longrightarrow> same_space s1 s2 \<Longrightarrow> same_space s s2"
  by (simp add: same_space_def keeps_walks_def)

lemma same_but_frames_space: "same_but_frames s s' \<Longrightarrow> same_space s s'"
  using same_but_framesD by (simp add: same_space_def)

lemma same_space_updates [simp]:
  "same_space s (s'\<lparr>vm_regions := x\<rparr>) = same_space s s'" "same_space s (s'\<lparr>vm_next := k\<rparr>) = same_space s s'"
  "same_space s (s'\<lparr>vm_allocs := a\<rparr>) = same_space s s'"
  "same_space (s\<lparr>vm_allocs := a\<rparr>) s' = same_space s s'"
  by (simp_all add: same_space_def)

lemma region_create_spec:
  assumes "vm_rep s fs us ts" and "0 < unat nr" and "unat nr \<le> 0x100000"
  shows "\<exists>r s' fs'. region_create nr prot s = Some (r, s') \<and> same_space s s'
    \<and> (case r of
         Inl e \<Rightarrow> e = ENOMEM \<and> vm_regions s' = vm_regions s \<and> vm_rep s' fs' us ts
       | Inr i \<Rightarrow> unat nr \<le> length fs \<and> i = vm_next s \<and> fs' = drop (unat nr) fs
           \<and> vm_regions s' = (vm_regions s)(i \<mapsto> \<lparr>rg_prot = prot, rg_frames = take (unat nr) fs, rg_refcnt = 1\<rparr>)
           \<and> vm_rep s' fs' (us \<union> set (take (unat nr) fs)) ts)"
proof -
  have nz: "nr \<noteq> 0" using assms(2) by auto
  have "unat (- 1 div nr) = unat (- 1 :: 32 word) div unat nr" by (rule unat_div)
  moreover have "unat (- 1 :: 32 word) = 4294967295"
  proof -
    have "(- 1 :: 32 word) = 0xffffffff" by simp
    then show ?thesis by (simp only:) simp
  qed
  moreover have "4 * unat nr \<le> 4294967295" using assms(3) by simp
  then have "4 \<le> 4294967295 div unat nr" using assms(2) by (simp add: less_eq_div_iff_mult_less_eq)
  ultimately have "\<not> - 1 div nr < (4 :: 32 word)" by (simp add: word_less_nat_alt)
  then have kc: "vm_kcalloc nr 4 x = Some (vm_kmalloc x)" for x using nz by (simp add: vm_kcalloc_def)
  let ?s1 = "s\<lparr>vm_allocs := (\<lambda>n. vm_allocs s (Suc n))\<rparr>"
  let ?s2 = "s\<lparr>vm_allocs := (\<lambda>n. vm_allocs s (Suc (Suc n)))\<rparr>"
  show ?thesis
  proof (cases "vm_allocs s 0 \<and> vm_allocs s (Suc 0)")
    case False
    then have "region_create nr prot s = Some (Inl ENOMEM, if vm_allocs s 0 then ?s2 else ?s1)"
      by (auto simp: region_create_def region_init_def kc vm_kmalloc_def Let_def)
    then show ?thesis using assms(1) by auto
  next
    case True
    have "vm_rep ?s2 fs us ts" using assms(1) by simp
    from alloc_frames_spec [OF this, of "unat nr"] obtain s3 where
      a: "alloc_frames (unat nr) ?s2 = (unat nr \<le> length fs, take (unat nr) fs @ replicate (unat nr - length fs) 0, s3)"
      "same_but_frames ?s2 s3" "vm_rep s3 (drop (unat nr) fs) (us \<union> set (take (unat nr) fs)) ts" by blast
    note D = same_but_framesD [OF a(2)] and sp = same_but_frames_space [OF a(2)]
    have start: "region_create nr prot s = do {
        (r, s) \<leftarrow> region_init_frames nr prot ?s2;
        (case r of Inl e \<Rightarrow> Some (Inl e, s) | Inr rg \<Rightarrow> let (i, s) = new_region rg s in Some (Inr i, s)) }"
      using True by (simp add: region_create_def region_init_def kc vm_kmalloc_def)
    show ?thesis
    proof (cases "unat nr \<le> length fs")
      case True
      then show ?thesis
        using start a D sp
        by (intro exI [of _ "Inr (vm_next s)"])
          (simp add: region_init_frames_def new_region_def region_init_from_frames_def refcount_init_def)
    next
      case False
      have rep: "frame_rep (mmu_frames (vm_mmu s)) fs us" and ts: "ts \<subseteq> us" using assms(1) by (simp_all add: space_rep_def)
      have d: "distinct fs" "set fs \<inter> us = {}" using frame_rep_frames [OF rep] by simp_all
      have "vm_rep s3 [] (us \<union> set fs) ts" using a(3) False by simp
      from free_frames [OF this d(1), of "unat nr - length fs"] d(2) ts obtain s4 where
        f: "foreach free_frame (fs @ replicate (unat nr - length fs) 0) s3 = Some s4" "same_but_frames s3 s4"
        "vm_rep s4 (rev fs @ []) (us \<union> set fs - set fs) ts" by blast
      have "us \<union> set fs - set fs = us" using d(2) by auto
      then show ?thesis
        using start a(1) f same_space_trans [OF sp same_but_frames_space [OF f(2)]] same_but_framesD [OF f(2)] D False
        by (intro exI [of _ "Inl ENOMEM"]) (auto simp: region_init_frames_def region_reset_def)
    qed
  qed
qed

lemma mapping_create_spec:
  assumes "vm_rep s fs us ts" and "4096 dvd unat sz" and "0 < unat sz" and "unat start + unat sz < 2 ^ 32"
  defines "n \<equiv> unat sz div 4096"
  shows "\<exists>r s' fs'. mapping_create start sz prot flags s = Some (r, s') \<and> same_space s s'
    \<and> (case r of
         Inl e \<Rightarrow> e = ENOMEM \<and> vm_regions s' = vm_regions s \<and> vm_rep s' fs' us ts
       | Inr mp \<Rightarrow> mp = \<lparr>mp_flags = flags, mp_start = start, mp_size = sz, mp_region = vm_next s\<rparr> \<and> n \<le> length fs \<and> fs' = drop n fs
           \<and> vm_regions s' = (vm_regions s)(vm_next s \<mapsto> \<lparr>rg_prot = prot, rg_frames = take n fs, rg_refcnt = 1\<rparr>)
           \<and> vm_rep s' fs' (us \<union> set (take n fs)) ts)"
proof -
  let ?s1 = "s\<lparr>vm_allocs := (\<lambda>n. vm_allocs s (Suc n))\<rparr>"
  let ?nr = "sz div PAGE_SIZE"
  have "unat (start + sz) = unat start + unat sz" using assms(4) by (rule unat_add_no_wrap)
  then have no: "\<not> start + sz < start" by (simp add: word_less_nat_alt)
  have nr: "unat ?nr = n" by (simp add: unat_div n_def)
  have n: "0 < n" "n \<le> 0x100000" using assms(2,3) unat_32_bound [of sz] by (auto simp: n_def)
  show ?thesis
  proof (cases "vm_allocs s 0")
    case False
    then show ?thesis using assms(1) by (intro exI [of _ "Inl ENOMEM"]) (auto simp: mapping_create_def vm_kmalloc_def)
  next
    case True
    have rep: "vm_rep ?s1 fs us ts" using assms(1) by simp
    have n': "0 < unat ?nr" "unat ?nr \<le> 0x100000" using nr n by simp_all
    from region_create_spec [OF rep n', of prot] obtain r s2 fs' where r: "region_create ?nr prot ?s1 = Some (r, s2)" "same_space ?s1 s2"
      and raw: "case r of
         Inl e \<Rightarrow> e = ENOMEM \<and> vm_regions s2 = vm_regions ?s1 \<and> vm_rep s2 fs' us ts
       | Inr i \<Rightarrow> unat ?nr \<le> length fs \<and> i = vm_next ?s1 \<and> fs' = drop (unat ?nr) fs
           \<and> vm_regions s2 = (vm_regions ?s1)(i \<mapsto> \<lparr>rg_prot = prot, rg_frames = take (unat ?nr) fs, rg_refcnt = 1\<rparr>)
           \<and> vm_rep s2 fs' (us \<union> set (take (unat ?nr) fs)) ts" by blast
    have res: "case r of
         Inl e \<Rightarrow> e = ENOMEM \<and> vm_regions s2 = vm_regions s \<and> vm_rep s2 fs' us ts
       | Inr i \<Rightarrow> n \<le> length fs \<and> i = vm_next s \<and> fs' = drop n fs
           \<and> vm_regions s2 = (vm_regions s)(i \<mapsto> \<lparr>rg_prot = prot, rg_frames = take n fs, rg_refcnt = 1\<rparr>)
           \<and> vm_rep s2 fs' (us \<union> set (take n fs)) ts"
      using raw unfolding nr by (cases r) auto
    show ?thesis
    proof (cases r)
      case (Inl e)
      then show ?thesis using r res True no
        by (intro exI [of _ "Inl e"]) (auto simp: mapping_create_def mapping_init_def vm_kmalloc_def)
    next
      case (Inr i)
      let ?mp = "\<lparr>mp_flags = flags, mp_start = start, mp_size = sz, mp_region = vm_next s\<rparr>"
      have "mapping_create start sz prot flags s = Some (Inr ?mp, s2\<lparr>vm_regions := vm_regions s2\<rparr>)"
        using r res Inr True no
        by (simp add: mapping_create_def mapping_init_def vm_kmalloc_def mapping_init_region_def region_ref_def region_unref_def
            refcount_inc_def refcount_dec_def Let_def)
      then show ?thesis using r res Inr by (intro exI [of _ "Inr ?mp"]) auto
    qed
  qed
qed

text \<open>Dropping the last reference of a region returns its frames.\<close>

lemma mapping_destroy_last:
  assumes "vm_rep s fs us ts" and "vm_regions s (mp_region mp) = Some rg" and "rg_refcnt rg = 1" and "distinct (rg_frames rg)"
    and "set (rg_frames rg) \<subseteq> us - ts"
  shows "\<exists>s'. mapping_destroy mp s = Some s' \<and> same_space s s' \<and> vm_regions s' = (vm_regions s)(mp_region mp := None)
    \<and> vm_rep s' (rev (rg_frames rg) @ fs) (us - set (rg_frames rg)) ts"
proof -
  let ?s1 = "set_region (mp_region mp) (Some (rg\<lparr>rg_refcnt := 0\<rparr>)) s"
  have "vm_rep ?s1 fs us ts" using assms(1) by simp
  from free_frames [OF this assms(4,5), of 0] obtain s2 where
    s2: "foreach free_frame (rg_frames rg) ?s1 = Some s2" "same_but_frames ?s1 s2"
    "vm_rep s2 (rev (rg_frames rg) @ fs) (us - set (rg_frames rg)) ts" by auto
  have "mapping_destroy mp s = Some (set_region (mp_region mp) None s2)"
    using assms(2,3) s2(1) by (simp add: mapping_destroy_def region_unref_def refcount_dec_def region_destroy_def region_reset_def)
  moreover have "same_space s s2" using same_but_frames_space [OF s2(2)] by (simp add: same_space_def)
  ultimately show ?thesis using s2(3) same_but_framesD(1) [OF s2(2)] by simp
qed

text \<open>The mappings of the current address space.\<close>

lemma find_added: "mapping_contains_addr mp addr \<Longrightarrow> find_mapping (add_mapping ms mp) addr \<noteq> None"
  by (induction ms) auto

lemma set_add_mapping: "set (add_mapping ms mp) = insert mp (set ms)"
  by (induction ms) auto

lemma mapping_create_aligned:
  assumes "4096 dvd unat sz" and "unat sz < 0xffff0000"
  shows "unat (mapping_size_in_pages \<lparr>mp_flags = f, mp_start = a, mp_size = sz, mp_region = r\<rparr>) = unat sz div 4096"
proof -
  have "unat (page_align_up sz) = (unat sz + 4095) div 4096 * 4096" using assms(2) by (intro unat_page_align_up) simp
  moreover have "(unat sz + 4095) div 4096 = unat sz div 4096" using assms(1) by (elim dvdE) simp
  ultimately show ?thesis by (simp add: mapping_size_in_pages_def unat_div)
qed

lemma vmm_create_user_mapping_spec:
  fixes s :: vm and flags prot :: "32 word"
  assumes "vm_rep s fs us ts" and "mmu_current (vm_mmu s) = Some v" and "vm_spaces s v = Some x" and "thr = None \<or> thr = Some v"
    and "vm_regions s (vm_next s) = None" and "4096 dvd unat addr" and "0 < unat (page_align_up size0)"
    and "unat addr + unat (page_align_up size0) \<le> 0xff800000"
  defines "n \<equiv> unat (page_align_up size0) div 4096"
    and "mp \<equiv> \<lparr>mp_flags = flags, mp_start = addr, mp_size = page_align_up size0, mp_region = vm_next s\<rparr>"
  shows "\<exists>r s' N fs'. vmm_create_user_mapping thr addr size0 prot flags s = Some (r, s')
    \<and> (case r of
         Inl e \<Rightarrow> (e = EFAULT \<and> (\<exists>j < n. walk (vm_mmu s) (cur (vm_mmu s)) (page addr j) \<noteq> None) \<or> e = ENOMEM)
           \<and> same_space s s' \<and> vm_regions s' = vm_regions s \<and> set N \<inter> us = {} \<and> vm_rep s' fs' (us \<union> set N) (ts \<union> set N)
       | Inr _ \<Rightarrow> n \<le> length fs \<and> set N \<inter> (us \<union> set (take n fs)) = {}
           \<and> vm_rep s' fs' (us \<union> set (take n fs) \<union> set N) (ts \<union> set N)
           \<and> vm_regions s' = (vm_regions s)(vm_next s \<mapsto> \<lparr>rg_prot = prot OR VMM_PROT_USER, rg_frames = take n fs, rg_refcnt = 1\<rparr>)
           \<and> vm_spaces s' = (vm_spaces s)(v \<mapsto> x\<lparr>vmm_mappings := add_mapping (vmm_mappings x) mp\<rparr>)
           \<and> mapped_so_far (vm_mmu s) (vm_mmu s') addr n (take n fs) (prot OR VMM_PROT_USER))"
proof -
  let ?sz = "page_align_up size0"
  let ?prot = "prot OR VMM_PROT_USER"
  let ?rg = "\<lparr>rg_prot = ?prot, rg_frames = take n fs, rg_refcnt = 1\<rparr>"
  have dvd: "4096 dvd unat ?sz" unfolding page_align_up_def align_up_def
    using unat_page_align_down [of "size0 + PAGE_SIZE - 1"] by (simp add: page_align_down_def)
  have range: "page_range addr n" using assms(6,8) dvd by (auto simp: page_range_def n_def)
  have "is_aligned addr PAGE_SIZE" using assms(6) page_is_aligned_iff [of addr] by (simp add: page_is_aligned_def)
  then have start: "vmm_create_user_mapping thr addr size0 prot flags s = do {
      (r, s) \<leftarrow> mapping_create addr ?sz ?prot flags s;
      (case r of
         Inl e \<Rightarrow> Some (Inl e, s)
       | Inr mp \<Rightarrow> do {
           rg \<leftarrow> vm_regions s (mp_region mp);
           (r, m) \<leftarrow> map_mapping mp rg (vm_mmu s);
           let s = s\<lparr>vm_mmu := m\<rparr>;
           (case r of
              Inl e \<Rightarrow> do { s \<leftarrow> mapping_destroy mp s; Some (Inl e, s) }
            | Inr _ \<Rightarrow> do {
                ms \<leftarrow> current_mappings s;
                s \<leftarrow> set_current_mappings (add_mapping ms mp) s;
                Some (Inr (), s) }) }) }"
    using assms(2,4) by (auto simp: vmm_create_user_mapping_def vmm_uaccess_setup_def vmm_switch_to_def Let_def)
  have "unat addr + unat ?sz < 2 ^ 32" using assms(8) by simp
  from mapping_create_spec [OF assms(1) dvd assms(7) this, of ?prot flags] obtain r s1 fs1 where
    r: "mapping_create addr ?sz ?prot flags s = Some (r, s1)" "same_space s s1"
    and res: "case r of
         Inl e \<Rightarrow> e = ENOMEM \<and> vm_regions s1 = vm_regions s \<and> vm_rep s1 fs1 us ts
       | Inr mp' \<Rightarrow> mp' = mp \<and> n \<le> length fs \<and> fs1 = drop n fs \<and> vm_regions s1 = (vm_regions s)(vm_next s \<mapsto> ?rg)
           \<and> vm_rep s1 fs1 (us \<union> set (take n fs)) ts"
    unfolding n_def [symmetric] mp_def [symmetric] by blast
  show ?thesis
  proof (cases r)
    case (Inl e)
    with start r res show ?thesis
      by - (rule exI [of _ "Inl e"], rule exI [of _ s1], rule exI [of _ "[]"], rule exI [of _ fs1], auto)
  next
    case (Inr mp')
    have s1: "n \<le> length fs" "fs1 = drop n fs" "vm_regions s1 = (vm_regions s)(vm_next s \<mapsto> ?rg)"
      "vm_rep s1 fs1 (us \<union> set (take n fs)) ts" "mp' = mp"
      using res Inr by auto
    have "unat ?sz < 0xffff0000" using assms(8) by simp
    then have mm: "map_mapping mp ?rg m = map_pages addr 0 n (take n fs) ?prot m" for m
      using mapping_create_aligned [OF dvd, of flags addr "vm_next s"] by (simp add: map_mapping_def mp_def n_def)
    let ?fr = "take n fs"
    have "length ?fr = n" using s1(1) by simp
    from map_pages_spec [OF s1(4) range this, of ?prot] obtain r2 m2 N fs2 where
      m2: "map_pages addr 0 n ?fr ?prot (vm_mmu s1) = Some (r2, m2)" "fs1 = N @ fs2"
      "space_rep m2 fs2 (us \<union> set ?fr \<union> set N) (ts \<union> set N)" "cur m2 = cur (vm_mmu s1)" "others m2 = others (vm_mmu s1)"
      and res2: "case r2 of
         Inl e \<Rightarrow> (e = EFAULT \<and> (\<exists>j < n. walk (vm_mmu s1) (cur (vm_mmu s1)) (page addr j) \<noteq> None) \<or> e = ENOMEM \<and> fs2 = [])
           \<and> keeps_walks (vm_mmu s1) m2 {}
       | Inr _ \<Rightarrow> mapped_so_far (vm_mmu s1) m2 addr n ?fr ?prot" by blast
    note sp = r(2) [unfolded same_space_def]
    have cu: "mmu_current m2 = Some v" using map_pages_spaces [OF m2(1)] sp assms(2) by simp
    have rep1: "frame_rep (mmu_frames (vm_mmu s1)) fs1 (us \<union> set ?fr)" "frame_rep (mmu_frames (vm_mmu s)) fs us" "ts \<subseteq> us"
      using s1(4) assms(1) by (simp_all add: space_rep_def)
    have dis: "set N \<inter> (us \<union> set ?fr) = {}" "distinct ?fr" "set ?fr \<inter> us = {}"
      using frame_rep_frames [OF rep1(1)] frame_rep_frames [OF rep1(2)] m2(2) by (auto dest: in_set_takeD)
    have w: "walk (vm_mmu s1) (cur (vm_mmu s1)) (page addr j) = walk (vm_mmu s) (cur (vm_mmu s)) (page addr j)" if "j < n" for j
      using sp page_facts(1) [OF range that] by (simp add: keeps_walks_def)
    let ?s2 = "s1\<lparr>vm_mmu := m2\<rparr>"
    have step: "vmm_create_user_mapping thr addr size0 prot flags s = (case r2 of
         Inl e \<Rightarrow> do { s \<leftarrow> mapping_destroy mp ?s2; Some (Inl e, s) }
       | Inr _ \<Rightarrow> do {
           ms \<leftarrow> current_mappings ?s2;
           s \<leftarrow> set_current_mappings (add_mapping ms mp) ?s2;
           Some (Inr (), s) })"
    proof -
      have "mp_region mp = vm_next s" by (simp add: mp_def)
      then show ?thesis using start r(1) Inr s1(3,5) m2(1) mm by (simp add: Let_def)
    qed
    show ?thesis
    proof (cases r2)
      case (Inl e)
      have "vm_regions ?s2 (mp_region mp) = Some ?rg" "set (rg_frames ?rg) \<subseteq> us \<union> set ?fr \<union> set N - (ts \<union> set N)"
        using s1(3) dis rep1(3) by (auto simp: mp_def)
      from mapping_destroy_last [of ?s2, OF _ this(1) _ _ this(2)] m2(3) dis(2) obtain s3 where
        s3: "mapping_destroy mp ?s2 = Some s3" "same_space ?s2 s3" "vm_regions s3 = (vm_regions s1)(mp_region mp := None)"
        "vm_rep s3 (rev ?fr @ fs2) (us \<union> set ?fr \<union> set N - set ?fr) (ts \<union> set N)" by auto
      have "us \<union> set ?fr \<union> set N - set ?fr = us \<union> set N" using dis by auto
      moreover have "vm_regions s3 = vm_regions s" using s3(3) s1(3) assms(5) by (auto simp: mp_def)
      moreover have "same_space s s3"
        using s3(2) r(2) m2(4,5) cu res2 Inl assms(2) by (simp add: same_space_def keeps_walks_def)
      ultimately show ?thesis
        using step Inl s3(1,4) res2 w dis(1)
        by - (rule exI [of _ "Inl e"], rule exI [of _ s3], rule exI [of _ N], rule exI [of _ "rev ?fr @ fs2"], auto)
    next
      case (Inr u)
      have "mapped_so_far (vm_mmu s) m2 addr n ?fr ?prot"
        using mapped_so_far_before [OF _ range, of "vm_mmu s1" m2 ?fr ?prot "vm_mmu s"] res2 Inr sp by simp
      moreover have "vmm_create_user_mapping thr addr size0 prot flags s
          = Some (Inr (), set_space v (Some (x\<lparr>vmm_mappings := add_mapping (vmm_mappings x) mp\<rparr>)) ?s2)" (is "_ = Some (_, ?s3)")
        using step Inr cu sp assms(3) by (simp add: current_mappings_def set_current_mappings_def)
      ultimately show ?thesis
        using sp m2(3) dis(1) s1(1,3)
        by - (rule exI [of _ "Inr ()"], rule exI [of _ ?s3], rule exI [of _ N], rule exI [of _ fs2], simp add: set_space_def)
    qed
  qed
qed

section \<open>Properties\<close>


definition sample_vm :: vm where
  "sample_vm = \<lparr>vm_mmu = sample_space, vm_regions = (\<lambda>_. None), vm_next = 0,
     vm_spaces = (\<lambda>_. None)(0x3000 \<mapsto> \<lparr>vmm_mappings = [], vmm_refcnt = 1\<rparr>), vm_allocs = (\<lambda>_. True), vm_fixup_addr = 0\<rparr>"

lemma sample_vm_current:
  "mmu_current (vm_mmu sample_vm) = Some 0x3000" "vm_spaces sample_vm 0x3000 = Some \<lparr>vmm_mappings = [], vmm_refcnt = 1\<rparr>"
  "vm_regions sample_vm (vm_next sample_vm) = None" "vm_allocs sample_vm k"
  by (simp_all add: sample_vm_def sample_space_def)

lemma sample_vm_rep: "vm_rep sample_vm [0x2000] {0x3000, 0x4000, 0x5000, 0x6000} {0x3000, 0x4000, 0x5000, 0x6000}"
  using sample_space_rep by (simp add: sample_vm_def)

lemma page_align_up_one: "page_align_up 0x1000 = 0x1000" "page_align_up 0 = 0"
  by (simp_all add: page_align_up_def align_up_def align_down_def)


text \<open>
  The check of the range joins its two conditions with "and", so a page-aligned address of the kernel's space is not refused:
  \<open>vmm_create_user_mapping\<close> never returns EINVAL for it, and when it succeeds the pages there, above USER_SPACE_END, are accessible to user programs.
\<close>

theorem user_mapping_in_kernel_space:
  fixes s :: vm and flags prot :: "32 word"
  assumes "vm_rep s fs us ts" and "mmu_current (vm_mmu s) = Some v" and "vm_spaces s v = Some x"
    and "vm_regions s (vm_next s) = None" and "4096 dvd unat addr" and "0 < unat (page_align_up size0)"
    and "unat addr + unat (page_align_up size0) \<le> 0xff800000" and "\<not> vmm_is_userspace_address addr"
  shows "\<exists>r s'. vmm_create_user_mapping (Some v) addr size0 prot flags s = Some (r, s') \<and> r \<noteq> Inl EINVAL
    \<and> (\<forall>u. r = Inr u \<longrightarrow> (\<exists>e. walk (vm_mmu s') (cur (vm_mmu s')) addr = Some e \<and> user e))"
proof -
  let ?n = "unat (page_align_up size0) div 4096"
  from vmm_create_user_mapping_spec [of s fs us ts v x "Some v" addr size0 prot flags] assms(1-7) obtain r s' N fs' where
    k: "vmm_create_user_mapping (Some v) addr size0 prot flags s = Some (r, s')"
    and res: "case r of Inl e \<Rightarrow> e = EFAULT \<or> e = ENOMEM
       | Inr _ \<Rightarrow> mapped_so_far (vm_mmu s) (vm_mmu s') addr ?n (take ?n fs) (prot OR VMM_PROT_USER)"
    by (fastforce split: sum.splits)
  have "4096 dvd unat (page_align_up size0)" unfolding page_align_up_def align_up_def
    using unat_page_align_down [of "size0 + PAGE_SIZE - 1"] by (simp add: page_align_down_def)
  then have n: "0 < ?n" using assms(6) by (auto elim!: dvdE)
  have "VMM_PROT_USER AND (prot OR VMM_PROT_USER) = VMM_PROT_USER" by (rule bit_word_eqI) (auto simp: bit_simps)
  moreover have "VMM_PROT_USER \<noteq> 0" by (simp add: VMM_PROT_USER_def word_unat_eq_iff del: unsigned_eq_0_iff)
  ultimately have us: "(prot OR VMM_PROT_USER) AND VMM_PROT_USER \<noteq> 0" by (metis and.commute)
  have "\<exists>e. walk (vm_mmu s') (cur (vm_mmu s')) addr = Some e \<and> user e" if "r = Inr u" for u
    using res that n us by (auto simp: mapped_so_far_def mapped_as_def dest: spec [of _ 0])
  then show ?thesis using k res by (auto split: sum.splits)
qed

text \<open>
  \<open>sys_sbrk(0)\<close>, which asks for the current break, divides by zero when no mapping contains the break: the empty mapping has a region of 0
  frames, whose array is allocated by \<open>kcalloc\<close>.
\<close>

theorem sys_sbrk_zero_traps:
  assumes "mmu_current (vm_mmu s) = Some v" and "vm_spaces s v = Some x" and "find_mapping (vmm_mappings x) brk = None"
    and "page_is_aligned brk" and "vm_allocs s 0" and "vm_allocs s 1"
  shows "sys_sbrk fuel (Some v) 0 brk s = None"
  using assms
  by (simp add: sys_sbrk_def vmm_uaccess_setup_def vmm_switch_to_def current_mappings_def vmm_create_user_mapping_def page_align_up_one
      page_is_aligned_def mapping_create_def mapping_init_def vm_kmalloc_def region_create_def region_init_def vm_kcalloc_def)

theorem sys_sbrk_zero_traps_witness:
  "\<forall>fuel. sys_sbrk fuel (Some 0x3000) 0 0x8000 sample_vm = None"
proof
  have "page_is_aligned 0x8000" by (simp add: page_is_aligned_iff)
  then show "sys_sbrk fuel (Some 0x3000) 0 0x8000 sample_vm = None" for fuel
    using sys_sbrk_zero_traps [OF sample_vm_current(1,2)] sample_vm_current(4) by simp
qed

theorem user_mapping_in_kernel_space_witness:
  "\<exists>r s'. vmm_create_user_mapping (Some 0x3000) 0xc0002000 0x1000 VMM_PROT_WRITE 0 sample_vm = Some (r, s') \<and> r \<noteq> Inl EINVAL
     \<and> (\<forall>u. r = Inr u \<longrightarrow> (\<exists>e. walk (vm_mmu s') (cur (vm_mmu s')) 0xc0002000 = Some e \<and> user e))"
proof -
  have "unat (page_align_up 0x1000) = 4096" "unat (0xc0002000 :: v_addr) = 0xc0002000" "\<not> vmm_is_userspace_address 0xc0002000"
    by (simp_all add: page_align_up_one vmm_is_userspace_address_def KERNEL_SPACE_START_def)
  then show ?thesis
    using user_mapping_in_kernel_space [OF sample_vm_rep sample_vm_current(1-3), of "0xc0002000" "0x1000" VMM_PROT_WRITE 0] by simp
qed

end
