(* ===== verification/Mm_Uaccess.thy ===== *)
theory Mm_Uaccess
  imports Prelude "HOL-Library.Monad_Syntax"
begin

text \<open>
  Access to user memory: \<^verbatim>\<open>kernel/mm/uaccess.c\<close>.

  The memory is the one that the kernel sees once \<^verbatim>\<open>vmm_uaccess_setup\<close> has switched to the address space
  of the running process: \<open>u_mem a = None\<close> says that an access to \<open>a\<close> ends in a page fault that the handler
  does not resolve, and then execution continues at the fixup label, which returns \<^verbatim>\<open>-EFAULT\<close>.  Kernel
  buffers are part of this memory.  \<open>u_fixup\<close> says that \<^verbatim>\<open>__fixup_addr\<close> is set.
\<close>

section \<open>The model\<close>

type_synonym umem = "v_addr \<Rightarrow> byte option"

record uspace =
  u_mem :: umem
  u_fixup :: bool

definition uaccess_setup :: "uspace \<Rightarrow> uspace" where
  "uaccess_setup u = u\<lparr>u_fixup := True\<rparr>"

definition uaccess_reset :: "uspace \<Rightarrow> uspace" where
  "uaccess_reset u = u\<lparr>u_fixup := False\<rparr>"

text \<open>The loop of \<^verbatim>\<open>uaccess_memcpy\<close>: whether it ran to its end, and the memory it left.\<close>

fun memcpy_loop :: "nat \<Rightarrow> v_addr \<Rightarrow> v_addr \<Rightarrow> umem \<Rightarrow> bool \<times> umem" where
  "memcpy_loop 0 dst s m = (True, m)"
| "memcpy_loop (Suc n) dst s m =
     (case m s of
        None \<Rightarrow> (False, m)
      | Some b \<Rightarrow> if m dst = None then (False, m) else memcpy_loop n (dst + 1) (s + 1) (m(dst \<mapsto> b)))"

definition uaccess_memcpy :: "v_addr \<Rightarrow> v_addr \<Rightarrow> size_t \<Rightarrow> uspace \<Rightarrow> unit result \<times> uspace" where
  "uaccess_memcpy to from n u =
     (let u = uaccess_setup u;
          (ok, m) = memcpy_loop (unat n) to from (u_mem u)
      in (if ok then Inr () else Inl EFAULT, uaccess_reset (u\<lparr>u_mem := m\<rparr>)))"

definition copy_to_user :: "v_addr \<Rightarrow> v_addr \<Rightarrow> size_t \<Rightarrow> uspace \<Rightarrow> unit result \<times> uspace" where
  "copy_to_user to from n = uaccess_memcpy to from n"

definition copy_from_user :: "v_addr \<Rightarrow> v_addr \<Rightarrow> size_t \<Rightarrow> uspace \<Rightarrow> unit result \<times> uspace" where
  "copy_from_user to from n = uaccess_memcpy to from n"

fun strnlen_loop :: "nat \<Rightarrow> v_addr \<Rightarrow> umem \<Rightarrow> nat option" where
  "strnlen_loop 0 s m = Some 0"
| "strnlen_loop (Suc n) s m =
     (case m s of
        None \<Rightarrow> None
      | Some c \<Rightarrow> if c = 0 then Some 0 else map_option Suc (strnlen_loop n (s + 1) m))"

definition strnlen_user :: "v_addr \<Rightarrow> int \<Rightarrow> uspace \<Rightarrow> int result \<times> uspace" where
  "strnlen_user str n u =
     (let u = uaccess_setup u
      in (case strnlen_loop (nat n) str (u_mem u) of
            None \<Rightarrow> (Inl EFAULT, uaccess_reset u)
          | Some k \<Rightarrow> (Inr (int k), uaccess_reset u)))"

text \<open>
  The copying loop of \<^verbatim>\<open>uaccess_strlcpy\<close>: the remaining \<open>n\<close>, the two pointers and the memory, or \<open>Inl\<close> the memory at a fault.
\<close>

fun ustrlcpy_loop :: "nat \<Rightarrow> v_addr \<Rightarrow> v_addr \<Rightarrow> umem \<Rightarrow> umem + nat \<times> v_addr \<times> v_addr \<times> umem" where
  "ustrlcpy_loop 0 dest src m = Inr (0, dest, src, m)"
| "ustrlcpy_loop (Suc 0) dest src m = Inr (1, dest, src, m)"
| "ustrlcpy_loop (Suc (Suc n)) dest src m =
     (case m src of
        None \<Rightarrow> Inl m
      | Some c \<Rightarrow>
          if c = 0 then Inr (Suc (Suc n), dest, src, m)
          else if m dest = None then Inl m
          else ustrlcpy_loop (Suc n) (dest + 1) (src + 1) (m(dest \<mapsto> c)))"

text \<open>The loop that runs to the end of the source: \<open>None\<close> when the fuel runs out, \<open>Some None\<close> at a fault.\<close>

fun skip_string :: "nat \<Rightarrow> v_addr \<Rightarrow> umem \<Rightarrow> v_addr option option" where
  "skip_string 0 src m = None"
| "skip_string (Suc fuel) src m =
     (case m src of
        None \<Rightarrow> Some None
      | Some c \<Rightarrow> if c = 0 then Some (Some src) else skip_string fuel (src + 1) m)"

definition strlcpy_finish :: "nat \<Rightarrow> v_addr \<Rightarrow> v_addr \<Rightarrow> umem \<Rightarrow> (v_addr option \<times> umem) option" where
  "strlcpy_finish fuel dest src m =
     (if m dest = None then Some (None, m)
      else map_option (\<lambda>r. (r, m(dest \<mapsto> 0))) (skip_string fuel src (m(dest \<mapsto> 0))))"

text \<open>
  When \<open>n\<close> is 0 nothing is written, but the end of the source is looked for; when \<open>n\<close> is negative neither
  loop runs.  A difference of pointers of \<open>2 ^ 31\<close> or more is undefined.
\<close>

definition strlcpy_return :: "v_addr \<Rightarrow> v_addr option \<Rightarrow> umem \<Rightarrow> uspace \<Rightarrow> (int result \<times> uspace) option" where
  "strlcpy_return src0 r m u =
     (case r of
        None \<Rightarrow> Some (Inl EFAULT, uaccess_reset (u\<lparr>u_mem := m\<rparr>))
      | Some src \<Rightarrow>
          if unat (src - src0) < 2 ^ 31 then Some (Inr (uint (src - src0)), uaccess_reset (u\<lparr>u_mem := m\<rparr>)) else None)"

definition uaccess_strlcpy :: "nat \<Rightarrow> v_addr \<Rightarrow> v_addr \<Rightarrow> int \<Rightarrow> uspace \<Rightarrow> (int result \<times> uspace) option" where
  "uaccess_strlcpy fuel dest src0 n u =
     (let u = uaccess_setup u
      in if n < 0 then strlcpy_return src0 (Some src0) (u_mem u) u
         else (case ustrlcpy_loop (nat n) dest src0 (u_mem u) of
            Inl m \<Rightarrow> strlcpy_return src0 None m u
          | Inr (k, dest, src, m) \<Rightarrow>
              if k = 0 then do { r \<leftarrow> skip_string fuel src m; strlcpy_return src0 r m u }
              else if k = 1 then do { (r, m) \<leftarrow> strlcpy_finish fuel dest src m; strlcpy_return src0 r m u }
              else strlcpy_return src0 (Some src) m u))"

definition strlcpy_to_user :: "nat \<Rightarrow> v_addr \<Rightarrow> v_addr \<Rightarrow> int \<Rightarrow> uspace \<Rightarrow> (int result \<times> uspace) option" where
  "strlcpy_to_user = uaccess_strlcpy"

definition strlcpy_from_user :: "nat \<Rightarrow> v_addr \<Rightarrow> v_addr \<Rightarrow> int \<Rightarrow> uspace \<Rightarrow> (int result \<times> uspace) option" where
  "strlcpy_from_user = uaccess_strlcpy"

text \<open>
  \<open>copy\<close> is what \<^verbatim>\<open>kmalloc\<close> returns.  The result is the error, or the value stored in \<^verbatim>\<open>*dup\<close>: \<open>Inr None\<close> when the
  function returns 0 and leaves \<^verbatim>\<open>*dup\<close> as it was.
\<close>

definition strndup_from_user ::
  "nat \<Rightarrow> v_addr option \<Rightarrow> v_addr \<Rightarrow> int \<Rightarrow> uspace \<Rightarrow> (v_addr option result \<times> uspace) option" where
  "strndup_from_user fuel copy str n u =
     (case strnlen_user str n u of
        (Inl e, u) \<Rightarrow> Some (Inl e, u)
      | (Inr sz, u) \<Rightarrow>
          if sz \<le> 0 then Some (Inr None, u)
          else (case copy of
              None \<Rightarrow> Some (Inl ENOMEM, u)
            | Some copy \<Rightarrow> do {
                (r, u) \<leftarrow> strlcpy_from_user fuel copy str (sz + 1) u;
                Some (case r of Inl e \<Rightarrow> (Inl e, u) | Inr _ \<Rightarrow> (Inr (Some copy), u)) }))"

fun memset_loop :: "nat \<Rightarrow> v_addr \<Rightarrow> byte \<Rightarrow> umem \<Rightarrow> bool \<times> umem" where
  "memset_loop 0 s c m = (True, m)"
| "memset_loop (Suc n) s c m = (if m s = None then (False, m) else memset_loop n (s + 1) c (m(s \<mapsto> c)))"

definition memset_user :: "v_addr \<Rightarrow> byte \<Rightarrow> size_t \<Rightarrow> uspace \<Rightarrow> unit result \<times> uspace" where
  "memset_user s c n u =
     (let u = uaccess_setup u;
          (ok, m) = memset_loop (unat n) s c (u_mem u)
      in if ok then (Inr (), u\<lparr>u_mem := m\<rparr>) else (Inl EFAULT, uaccess_reset (u\<lparr>u_mem := m\<rparr>)))"

section \<open>Copying\<close>

definition at :: "v_addr \<Rightarrow> nat \<Rightarrow> v_addr" where
  "at a i = a + of_nat i"

definition apart :: "v_addr \<Rightarrow> v_addr \<Rightarrow> nat \<Rightarrow> bool" where
  "apart a b n \<longleftrightarrow> (\<forall>i<n. \<forall>j<n. at a i \<noteq> at b j)"

lemma apart_code: "apart a b n \<longleftrightarrow> list_all (\<lambda>i. list_all (\<lambda>j. at a i \<noteq> at b j) [0..<n]) [0..<n]"
  by (auto simp: apart_def list_all_iff)

definition both_mapped :: "umem \<Rightarrow> v_addr \<Rightarrow> v_addr \<Rightarrow> nat \<Rightarrow> bool" where
  "both_mapped m a b i \<longleftrightarrow> m (at a i) \<noteq> None \<and> m (at b i) \<noteq> None"

text \<open>\<open>copied k to from m m'\<close>: from \<open>m\<close> to \<open>m'\<close>, the first \<open>k\<close> bytes of \<open>from\<close> were copied to \<open>to\<close>, and nothing else changed.\<close>

definition copied :: "nat \<Rightarrow> v_addr \<Rightarrow> v_addr \<Rightarrow> umem \<Rightarrow> umem \<Rightarrow> bool" where
  "copied k to from m m' \<longleftrightarrow>
     (\<forall>i<k. m' (at to i) = m (at from i)) \<and> (\<forall>a. (\<forall>i<k. a \<noteq> at to i) \<longrightarrow> m' a = m a)"

lemma at_0 [simp]: "at a 0 = a"
  by (simp add: at_def)

lemma at_Suc: "at a (Suc i) = at (a + 1) i"
  by (simp add: at_def)

lemma at_inj: "i < 2 ^ 32 \<Longrightarrow> j < 2 ^ 32 \<Longrightarrow> at a i = at a j \<longleftrightarrow> i = j"
  by (simp add: at_def word_of_nat_eq_iff take_bit_nat_eq_self)

lemma apart_Suc: "apart a b (Suc n) \<Longrightarrow> apart (a + 1) (b + 1) n"
  unfolding apart_def by (metis Suc_less_eq at_Suc)

lemma apart_first:
  assumes "apart a b (Suc n)"
  shows "\<And>i. i \<le> n \<Longrightarrow> a \<noteq> at b i" and "\<And>i. i \<le> n \<Longrightarrow> at a i \<noteq> b"
  using assms unfolding apart_def by (metis at_0 less_Suc_eq_le zero_less_Suc)+

lemma copied_Suc:
  assumes ap: "apart to from (Suc n)" and k: "k \<le> n" and n: "n < 2 ^ 32"
    and m: "m from = Some b" and c: "copied k (to + 1) (from + 1) (m(to \<mapsto> b)) m'"
  shows "copied (Suc k) to from m m'"
proof -
  have to: "to \<noteq> at (to + 1) i" if "i < k" for i
    using at_inj [of 0 "Suc i" to] that k n by (simp add: at_Suc)
  have "m' (at to i) = m (at from i)" if "i < Suc k" for i
  proof (cases i)
    case 0
    then show ?thesis
      using c to m by (simp add: copied_def)
  next
    case (Suc j)
    then show ?thesis
      using c that k apart_first(1) [OF ap, of i] by (simp add: copied_def at_Suc)
  qed
  moreover have "m' a = m a" if "\<forall>i<Suc k. a \<noteq> at to i" for a
  proof -
    have "a \<noteq> to" "\<forall>i<k. a \<noteq> at (to + 1) i"
      using that by (auto simp: at_Suc [symmetric] dest: spec [of _ 0])
    then show ?thesis
      using c by (simp add: copied_def)
  qed
  ultimately show ?thesis
    by (simp add: copied_def)
qed

lemma memcpy_loop_spec:
  assumes "apart to from n" "n \<le> 2 ^ 32"
  shows "\<exists>k m'. memcpy_loop n to from m = (k = n, m') \<and> k \<le> n \<and> (\<forall>i<k. both_mapped m to from i)
           \<and> (k < n \<longrightarrow> \<not> both_mapped m to from k) \<and> copied k to from m m'"
  using assms
proof (induction n arbitrary: to "from" m)
  case 0
  then show ?case
    by (simp add: copied_def)
next
  case (Suc n)
  show ?case
  proof (cases "both_mapped m to from 0")
    case False
    then have "memcpy_loop (Suc n) to from m = (False, m)"
      by (auto simp: both_mapped_def split: option.split)
    then show ?thesis
      using False by (intro exI [of _ 0] exI [of _ m]) (simp add: copied_def)
  next
    case True
    then obtain b where b: "m from = Some b" and to: "m to \<noteq> None"
      by (auto simp: both_mapped_def)
    obtain k m' where IH: "memcpy_loop n (to + 1) (from + 1) (m(to \<mapsto> b)) = (k = n, m')" "k \<le> n"
        "\<forall>i<k. both_mapped (m(to \<mapsto> b)) (to + 1) (from + 1) i"
        "k < n \<longrightarrow> \<not> both_mapped (m(to \<mapsto> b)) (to + 1) (from + 1) k"
        "copied k (to + 1) (from + 1) (m(to \<mapsto> b)) m'"
      using Suc.IH [OF apart_Suc [OF Suc.prems(1)] Suc_leD [OF Suc.prems(2)], of "m(to \<mapsto> b)"] by blast
    have same: "both_mapped (m(to \<mapsto> b)) (to + 1) (from + 1) i = both_mapped m to from (Suc i)" for i
      using to by (auto simp: both_mapped_def at_Suc)
    have "\<forall>i<Suc k. both_mapped m to from i"
      using IH(3) True unfolding same by (metis less_Suc_eq_0_disj)
    then show ?thesis
      using IH b to copied_Suc [OF Suc.prems(1) IH(2) _ b IH(5)] Suc.prems(2) unfolding same
      by (intro exI [of _ "Suc k"] exI [of _ m']) auto
  qed
qed

text \<open>
  C20: Copying between kernel and user memory (\<^verbatim>\<open>copy_to_user\<close> and \<^verbatim>\<open>copy_from_user\<close>).  For buffers that do not overlap, the first
  \<open>k\<close> bytes are copied and nothing else in memory changes, where \<open>k\<close> is the whole length or the index of the
  first byte that cannot be accessed on one of the two sides.  The result is \<^verbatim>\<open>EFAULT\<close> exactly when such a
  byte exists, and in both cases the fixup address is cleared.
\<close>

theorem uaccess_memcpy_correct:
  assumes "apart to from (unat n)"
  shows "\<exists>k m'. uaccess_memcpy to from n u = (if k = unat n then Inr () else Inl EFAULT, \<lparr>u_mem = m', u_fixup = False\<rparr>)
           \<and> k \<le> unat n \<and> (\<forall>i<k. both_mapped (u_mem u) to from i)
           \<and> (k < unat n \<longrightarrow> \<not> both_mapped (u_mem u) to from k) \<and> copied k to from (u_mem u) m'"
proof -
  have "unat n \<le> 2 ^ 32"
    using unsigned_less [of n, where ?'a = nat] by simp
  from memcpy_loop_spec [OF assms this, of "u_mem u"] obtain k m' where
      "memcpy_loop (unat n) to from (u_mem u) = (k = unat n, m')" and k: "k \<le> unat n"
      "\<forall>i<k. both_mapped (u_mem u) to from i" "k < unat n \<longrightarrow> \<not> both_mapped (u_mem u) to from k"
      "copied k to from (u_mem u) m'"
    by blast
  then have "uaccess_memcpy to from n u = (if k = unat n then Inr () else Inl EFAULT, \<lparr>u_mem = m', u_fixup = False\<rparr>)"
    by (simp add: uaccess_memcpy_def uaccess_setup_def uaccess_reset_def)
  with k show ?thesis
    by blast
qed

definition sample_umem :: umem where
  "sample_umem a = (if a < 16 then Some (ucast a) else if 100 \<le> a \<and> a < 102 then Some 0 else None)"

theorem uaccess_memcpy_correct_witness:
  "\<exists>k m'. uaccess_memcpy 100 4 3 \<lparr>u_mem = sample_umem, u_fixup = False\<rparr>
       = (if k = unat (3 :: size_t) then Inr () else Inl EFAULT, \<lparr>u_mem = m', u_fixup = False\<rparr>)
     \<and> k \<le> unat (3 :: size_t) \<and> (\<forall>i<k. both_mapped sample_umem 100 4 i)
     \<and> (k < unat (3 :: size_t) \<longrightarrow> \<not> both_mapped sample_umem 100 4 k) \<and> copied k 100 4 sample_umem m'"
proof -
  have "apart 100 4 (unat (3 :: size_t))"
    by (simp add: apart_code at_def upt_rec)
  from uaccess_memcpy_correct [OF this, of "\<lparr>u_mem = sample_umem, u_fixup = False\<rparr>"] show ?thesis
    by simp
qed

section \<open>Strings\<close>

definition bytes_at :: "umem \<Rightarrow> v_addr \<Rightarrow> byte list \<Rightarrow> bool" where
  "bytes_at m a s \<longleftrightarrow> (\<forall>i<length s. m (at a i) = Some (s ! i))"

definition string_at :: "umem \<Rightarrow> v_addr \<Rightarrow> byte list \<Rightarrow> bool" where
  "string_at m a s \<longleftrightarrow> 0 \<notin> set s \<and> bytes_at m a (s @ [0])"

definition writable :: "umem \<Rightarrow> v_addr \<Rightarrow> nat \<Rightarrow> bool" where
  "writable m a n \<longleftrightarrow> (\<forall>i<n. m (at a i) \<noteq> None)"

lemma bytes_at_Cons: "bytes_at m a (c # s) \<longleftrightarrow> m a = Some c \<and> bytes_at m (a + 1) s"
  unfolding bytes_at_def by (auto simp: All_less_Suc2 at_Suc)

lemma string_at_Cons: "string_at m a (c # s) \<longleftrightarrow> c \<noteq> 0 \<and> m a = Some c \<and> string_at m (a + 1) s"
  by (auto simp: string_at_def bytes_at_Cons)

lemma string_at_Nil: "string_at m a [] \<longleftrightarrow> m a = Some 0"
  by (simp add: string_at_def bytes_at_Cons) (simp add: bytes_at_def)

lemma writable_Suc: "writable m a (Suc n) \<longleftrightarrow> m a \<noteq> None \<and> writable m (a + 1) n"
  unfolding writable_def by (auto simp: All_less_Suc2 at_Suc)

lemma strnlen_loop_string: "string_at m a s \<Longrightarrow> length s \<le> n \<Longrightarrow> strnlen_loop n a m = Some (length s)"
proof (induction s arbitrary: a n)
  case Nil
  then show ?case
    by (cases n) (auto simp: string_at_Nil)
next
  case (Cons c s)
  then show ?case
    by (cases n) (auto simp: string_at_Cons)
qed

lemma string_at_upd:
  assumes "string_at m a s" "\<And>i. i \<le> length s \<Longrightarrow> d \<noteq> at a i"
  shows "string_at (m(d \<mapsto> c)) a s"
  using assms unfolding string_at_def bytes_at_def by (auto simp: less_Suc_eq_le)

lemma strlcpy_loop_string:
  assumes "string_at m src s" "writable m dest (Suc (length s))" "apart dest src (Suc (length s))" "length s < 2 ^ 32"
  shows "\<exists>m'. ustrlcpy_loop (Suc (length s)) dest src m = Inr (1, at dest (length s), at src (length s), m')
           \<and> copied (length s) dest src m m'"
  using assms
proof (induction s arbitrary: m src dest)
  case Nil
  then show ?case
    by (simp add: copied_def)
next
  case (Cons c s)
  have c: "c \<noteq> 0" "m src = Some c" "m dest \<noteq> None" and src: "string_at m (src + 1) s"
    and dst: "writable m (dest + 1) (Suc (length s))"
    using Cons.prems(1,2) by (simp_all add: string_at_Cons writable_Suc)
  let ?m = "m(dest \<mapsto> c)"
  have "string_at ?m (src + 1) s"
    using src apart_first(1) [OF Cons.prems(3)] by (intro string_at_upd) (auto simp: at_Suc [symmetric])
  moreover have "writable ?m (dest + 1) (Suc (length s))"
    using dst by (simp add: writable_def)
  moreover have "apart (dest + 1) (src + 1) (Suc (length s))"
    using apart_Suc [OF Cons.prems(3) [unfolded list.size(4)]] by simp
  ultimately obtain m' where "ustrlcpy_loop (Suc (length s)) (dest + 1) (src + 1) ?m
        = Inr (1, at (dest + 1) (length s), at (src + 1) (length s), m')"
      and m': "copied (length s) (dest + 1) (src + 1) ?m m'"
    using Cons.IH Cons.prems(4) by fastforce
  moreover have "copied (Suc (length s)) dest src m m'"
  proof (rule copied_Suc [OF _ order_refl _ c(2) m'])
    show "apart dest src (Suc (length s))"
      using Cons.prems(3) by (auto simp: apart_def)
    show "length s < 2 ^ 32"
      using Cons.prems(4) by simp
  qed
  ultimately show ?case
    using c by (auto simp: at_Suc)
qed

lemma copied_string:
  assumes c: "copied n dest src m m'" and s: "string_at m src s" and n: "n = length s" "n < 2 ^ 32"
    and ap: "apart dest src (Suc n)"
  shows "string_at (m'(at dest n \<mapsto> 0)) dest s" and "m' (at src n) = Some 0"
    and "\<forall>a. (\<forall>i<Suc n. a \<noteq> at dest i) \<longrightarrow> (m'(at dest n \<mapsto> 0)) a = m a"
proof -
  have "at dest i \<noteq> at dest n" if "i < n" for i
    using at_inj [of i n dest] that n by simp
  then show "string_at (m'(at dest n \<mapsto> 0)) dest s"
    using c s n by (auto simp: string_at_def bytes_at_def copied_def nth_append less_Suc_eq)
  have "\<forall>i<n. at src n \<noteq> at dest i"
    using ap unfolding apart_def by (metis lessI less_SucI)
  then have "m' (at src n) = m (at src n)"
    using c by (simp add: copied_def)
  also have "\<dots> = Some 0"
    using s n(1) by (auto simp: string_at_def bytes_at_def nth_append)
  finally show "m' (at src n) = Some 0" .
  show "\<forall>a. (\<forall>i<Suc n. a \<noteq> at dest i) \<longrightarrow> (m'(at dest n \<mapsto> 0)) a = m a"
    using c by (auto simp: copied_def)
qed

text \<open>
  C35: Duplicating a string of user space (\<^verbatim>\<open>strndup_from_user\<close>).  A string that is not empty and not longer than the limit is copied
  with its terminator to the buffer that \<^verbatim>\<open>kmalloc\<close> returned, and nothing else in memory changes.  For the
  empty string the function returns 0 as for a success, but allocates nothing and leaves the caller's pointer
  as it was (\<open>Inr None\<close>), whatever it contained.
\<close>

theorem strndup_from_user_outcomes:
  assumes s: "string_at (u_mem u) str s" "int (length s) \<le> n" "length s < 2 ^ 31" and fuel: "0 < fuel"
    and buf: "writable (u_mem u) copy (Suc (length s))" "apart copy str (Suc (length s))"
  shows "if s = [] then strndup_from_user fuel (Some copy) str n u = Some (Inr None, u\<lparr>u_fixup := False\<rparr>)
         else \<exists>m'. strndup_from_user fuel (Some copy) str n u = Some (Inr (Some copy), \<lparr>u_mem = m', u_fixup = False\<rparr>)
           \<and> string_at m' copy s \<and> (\<forall>a. (\<forall>i<Suc (length s). a \<noteq> at copy i) \<longrightarrow> m' a = u_mem u a)"
proof -
  have len: "strnlen_user str n u = (Inr (int (length s)), u\<lparr>u_fixup := False\<rparr>)"
    using strnlen_loop_string [OF s(1), of "nat n"] s(2)
    by (simp add: strnlen_user_def uaccess_setup_def uaccess_reset_def)
  obtain m' where loop: "ustrlcpy_loop (Suc (length s)) copy str (u_mem u)
        = Inr (1, at copy (length s), at str (length s), m')"
      and m': "copied (length s) copy str (u_mem u) m'"
    using strlcpy_loop_string [OF s(1) buf] s(3) by fastforce
  have lt: "length s < 2 ^ 32"
    using s(3) by simp
  note string = copied_string [OF m' s(1) refl lt buf(2)]
  have "m' (at copy (length s)) \<noteq> None"
  proof -
    have "\<forall>i<length s. at copy (length s) \<noteq> at copy i"
      using at_inj [of _ "length s" copy] lt by (metis less_irrefl less_trans)
    then have "m' (at copy (length s)) = u_mem u (at copy (length s))"
      using m' by (simp add: copied_def)
    then show ?thesis
      using buf(1) by (simp add: writable_def)
  qed
  moreover have "at str (length s) \<noteq> at copy (length s)"
    using buf(2) unfolding apart_def by (metis lessI)
  ultimately have fin: "strlcpy_finish fuel (at copy (length s)) (at str (length s)) m'
        = Some (Some (at str (length s)), m'(at copy (length s) \<mapsto> 0))"
    using string(2) fuel by (cases fuel) (auto simp: strlcpy_finish_def)
  have "unat (at str (length s) - str) = length s"
    using lt by (simp add: at_def unat_of_nat take_bit_nat_eq_self)
  moreover have "uint (at str (length s) - str) = int (unat (at str (length s) - str))"
    by simp
  ultimately have "uaccess_strlcpy fuel copy str (int (length s) + 1) (u\<lparr>u_fixup := False\<rparr>)
        = Some (Inr (int (length s)), \<lparr>u_mem = m'(at copy (length s) \<mapsto> 0), u_fixup = False\<rparr>)"
    using loop fin s(3)
    by (simp add: uaccess_strlcpy_def uaccess_setup_def uaccess_reset_def strlcpy_return_def nat_add_distrib)
  then show ?thesis
    using len string(1,3) by (auto simp: strndup_from_user_def strlcpy_from_user_def)
qed

definition sample_string :: uspace where
  "sample_string = \<lparr>u_mem = [100 \<mapsto> 5, 101 \<mapsto> 6, 102 \<mapsto> 0, 4 \<mapsto> 1, 5 \<mapsto> 1, 6 \<mapsto> 1], u_fixup = False\<rparr>"

theorem strndup_from_user_outcomes_witness:
  "(\<exists>m'. strndup_from_user 1 (Some 4) 100 64 sample_string = Some (Inr (Some 4), \<lparr>u_mem = m', u_fixup = False\<rparr>)
     \<and> string_at m' 4 [5, 6] \<and> (\<forall>a. (\<forall>i<Suc 2. a \<noteq> at 4 i) \<longrightarrow> m' a = u_mem sample_string a))
   \<and> strndup_from_user 1 (Some 4) 102 64 sample_string = Some (Inr None, sample_string\<lparr>u_fixup := False\<rparr>)"
proof -
  have s: "string_at (u_mem sample_string) 100 [5, 6]" "string_at (u_mem sample_string) 102 []"
    by (simp_all add: string_at_Cons string_at_Nil sample_string_def)
  have w: "writable (u_mem sample_string) 4 (Suc (length [5, 6 :: byte]))" "writable (u_mem sample_string) 4 (Suc (length ([] :: byte list)))"
    by (simp_all add: writable_Suc sample_string_def) (simp_all add: writable_def)
  have a: "apart 4 100 (Suc (length [5, 6 :: byte]))" "apart 4 102 (Suc (length ([] :: byte list)))"
    by (simp_all add: apart_code at_def upt_rec)
  note r = strndup_from_user_outcomes [where n = 64 and fuel = 1, OF _ _ _ _ w(1) a(1)]
    strndup_from_user_outcomes [where n = 64 and fuel = 1, OF _ _ _ _ w(2) a(2)]
  show ?thesis
    using r(1) [OF s(1)] r(2) [OF s(2)] by (simp add: numeral_2_eq_2 [symmetric])
qed

end
