(* ===== verification/Fs_Cache.thy ===== *)
theory Fs_Cache
  imports Fs_Path
begin

text \<open>
  Inodes and the cache of file system nodes: \<^verbatim>\<open>fs/inode.c\<close>, \<^verbatim>\<open>fs/cache_node.c\<close>.

  Inodes and cache nodes are found by address.  A freed object is no longer in its map, so any access to
  it, like an access through a null pointer, is \<open>None\<close>.  The embedded list nodes are lists of addresses.
  The names of the cache nodes are paths of \<^verbatim>\<open>Fs_Path\<close>, whose strings live in the store \<open>strings\<close>.  The
  locks of the nodes are not modelled: every operation is one step.
\<close>

section \<open>The model\<close>

subsection \<open>State\<close>

datatype vfs_node_type = REGULAR | DIRECTORY | SYMLINK | CHARDEV | BLOCKDEV | FIFO

text \<open>
  The only inode operations of the sources are those of ramfs: \<open>i_op\<close> says that they are set (they are not
  for the root of the cache).  \<open>i_private\<close> is the pipe or the device behind the inode.  An inode of ramfs is
  enclosed in a structure that has the header of its file; \<open>i_header\<close> is that header, an offset in the archive.
\<close>

record vfs_inode =
  i_type :: vfs_node_type
  i_sb :: "nat option"
  i_op :: bool
  i_private :: "nat option"
  i_header :: "32 word option"
  i_cnodes :: "nat list"
  i_refcnt :: refcount

record vfs_cache_node =
  c_name :: vpath
  c_inode :: "nat option"
  c_parent :: "nat option"
  c_children :: "nat list"
  c_mountpoint :: "nat option"
  c_mounted :: "nat option"
  c_refcnt :: refcount

record vcache =
  inodes :: "nat \<Rightarrow> vfs_inode option"
  cnodes :: "nat \<Rightarrow> vfs_cache_node option"
  strings :: pstore
  cache_node_root :: "nat option"

definition set_inode :: "nat \<Rightarrow> vfs_inode \<Rightarrow> vcache \<Rightarrow> vcache" where
  "set_inode i x v = v\<lparr>inodes := (inodes v)(i \<mapsto> x)\<rparr>"

definition set_cnode :: "nat \<Rightarrow> vfs_cache_node \<Rightarrow> vcache \<Rightarrow> vcache" where
  "set_cnode n x v = v\<lparr>cnodes := (cnodes v)(n \<mapsto> x)\<rparr>"

subsection \<open>Inodes\<close>

text \<open>Initialising an inode leaves the enclosing structure as it is.\<close>

definition vfs_inode_init :: "nat \<Rightarrow> vfs_node_type \<Rightarrow> nat option \<Rightarrow> bool \<Rightarrow> vcache \<Rightarrow> vcache" where
  "vfs_inode_init i ty sb op v = set_inode i
     \<lparr>i_type = ty, i_sb = sb, i_op = op, i_private = None, i_header = (case inodes v i of None \<Rightarrow> None | Some x \<Rightarrow> i_header x),
      i_cnodes = [], i_refcnt = refcount_init\<rparr> v"

definition vfs_inode_ref :: "nat \<Rightarrow> vcache \<Rightarrow> vcache option" where
  "vfs_inode_ref i v = do {
     x \<leftarrow> inodes v i;
     Some (set_inode i (x\<lparr>i_refcnt := snd (refcount_inc (i_refcnt x))\<rparr>) v) }"

text \<open>The operation \<^verbatim>\<open>destroy\<close> of ramfs frees the inode.\<close>

definition vfs_inode_unref :: "nat \<Rightarrow> vcache \<Rightarrow> vcache option" where
  "vfs_inode_unref i v = do {
     x \<leftarrow> inodes v i;
     let (n, rc) = refcount_dec (i_refcnt x);
     if n = 0 then (if i_op x then Some (v\<lparr>inodes := (inodes v)(i := None)\<rparr>) else None)
     else Some (set_inode i (x\<lparr>i_refcnt := rc\<rparr>) v) }"

definition vfs_inode_release :: "nat \<Rightarrow> vcache \<Rightarrow> vcache option" where
  "vfs_inode_release i v = do {
     x \<leftarrow> inodes v i;
     Some (set_inode i (x\<lparr>i_refcnt := snd (refcount_dec (i_refcnt x))\<rparr>) v) }"

definition vfs_inode_add_cnode :: "nat \<Rightarrow> nat \<Rightarrow> vcache \<Rightarrow> vcache option" where
  "vfs_inode_add_cnode i n v = do {
     x \<leftarrow> inodes v i;
     Some (set_inode i (x\<lparr>i_cnodes := i_cnodes x @ [n]\<rparr>) v) }"

definition vfs_inode_remove_cnode :: "nat \<Rightarrow> nat \<Rightarrow> vcache \<Rightarrow> vcache option" where
  "vfs_inode_remove_cnode i n v = do {
     x \<leftarrow> inodes v i;
     Some (set_inode i (x\<lparr>i_cnodes := remove1 n (i_cnodes x)\<rparr>) v) }"

subsection \<open>Cache nodes\<close>

definition vfs_cache_node_init :: "nat \<Rightarrow> nat option \<Rightarrow> vpath option \<Rightarrow> vcache \<Rightarrow> vcache option" where
  "vfs_cache_node_init n inode name v = do {
     (nm, st) \<leftarrow> (case name of None \<Rightarrow> Some (null_path, strings v) | Some p \<Rightarrow> vfs_path_copy_init p (strings v));
     let v = v\<lparr>strings := st\<rparr>;
     v \<leftarrow> (case inode of
            None \<Rightarrow> Some v
          | Some i \<Rightarrow> do { v \<leftarrow> vfs_inode_ref i v; vfs_inode_add_cnode i n v });
     Some (set_cnode n \<lparr>c_name = nm, c_inode = inode, c_parent = None, c_children = [], c_mountpoint = None,
                        c_mounted = None, c_refcnt = refcount_init\<rparr> v) }"

text \<open>\<open>m\<close> says whether \<^verbatim>\<open>kmalloc\<close> succeeds, and \<open>n\<close> is the address it then returns.\<close>

definition vfs_cache_node_create ::
  "bool \<Rightarrow> nat \<Rightarrow> nat option \<Rightarrow> vpath option \<Rightarrow> vcache \<Rightarrow> (nat result \<times> vcache) option" where
  "vfs_cache_node_create m n inode name v =
     (if \<not> m then Some (Inl ENOMEM, v) else map_option (Pair (Inr n)) (vfs_cache_node_init n inode name v))"

text \<open>The root of the cache; its inode is a static object at address \<open>i\<close>.\<close>

definition vfs_cache_init ::
  "nat \<Rightarrow> bool \<Rightarrow> bool \<Rightarrow> bool \<Rightarrow> nat \<Rightarrow> nat \<Rightarrow> vcache \<Rightarrow> (unit result \<times> vcache) option" where
  "vfs_cache_init new m1 m2 m n i v = do {
     let v = vfs_inode_init i DIRECTORY None False v;
     (r, st) \<leftarrow> vfs_path_init new m1 m2 [47, 0] 1 (strings v);
     let v = v\<lparr>strings := st\<rparr>;
     case r of
       Inl e \<Rightarrow> Some (Inl e, v)
     | Inr root_path \<Rightarrow> do {
         (r, v) \<leftarrow> vfs_cache_node_create m n (Some i) (Some root_path) v;
         (_, st) \<leftarrow> vfs_path_reset root_path (strings v);
         let v = v\<lparr>strings := st\<rparr>;
         Some (case r of Inl e \<Rightarrow> (Inl e, v\<lparr>cache_node_root := None\<rparr>)
                       | Inr n \<Rightarrow> (Inr (), v\<lparr>cache_node_root := Some n\<rparr>)) } }"

definition vfs_cache_node_ref :: "nat option \<Rightarrow> vcache \<Rightarrow> vcache option" where
  "vfs_cache_node_ref node v =
     (case node of
        None \<Rightarrow> Some v
      | Some n \<Rightarrow> do {
          x \<leftarrow> cnodes v n;
          Some (set_cnode n (x\<lparr>c_refcnt := snd (refcount_inc (c_refcnt x))\<rparr>) v) })"

definition vfs_cache_node_get_ref :: "nat \<Rightarrow> vcache \<Rightarrow> int option" where
  "vfs_cache_node_get_ref n v = map_option (\<lambda>x. refcount_get (c_refcnt x)) (cnodes v n)"

text \<open>
  Dropping the last reference of a node destroys it, which drops the references it has on its inode, on
  its parent and on its children.  The recursion is bounded by fuel; \<open>unref\<close> is the recursive call.
  The children are read from the list of the node, which is not changed by the loop itself.
\<close>

fun unref_nodes :: "(nat \<Rightarrow> vcache \<Rightarrow> vcache option) \<Rightarrow> nat list \<Rightarrow> vcache \<Rightarrow> vcache option" where
  "unref_nodes unref [] v = Some v"
| "unref_nodes unref (n # ns) v = do { v \<leftarrow> unref n v; unref_nodes unref ns v }"

definition erase_child :: "nat \<Rightarrow> nat \<Rightarrow> vcache \<Rightarrow> vcache option" where
  "erase_child p n v = do {
     x \<leftarrow> cnodes v p;
     Some (set_cnode p (x\<lparr>c_children := remove1 n (c_children x)\<rparr>) v) }"

definition vfs_cache_node_reset :: "(nat \<Rightarrow> vcache \<Rightarrow> vcache option) \<Rightarrow> nat \<Rightarrow> vcache \<Rightarrow> vcache option" where
  "vfs_cache_node_reset unref n v = do {
     x \<leftarrow> cnodes v n;
     (_, st) \<leftarrow> vfs_path_reset (c_name x) (strings v);
     let v = v\<lparr>strings := st\<rparr>;
     v \<leftarrow> (case c_inode x of
            None \<Rightarrow> Some v
          | Some i \<Rightarrow> do { v \<leftarrow> vfs_inode_remove_cnode i n v; vfs_inode_unref i v });
     v \<leftarrow> (case c_parent x of
            None \<Rightarrow> Some v
          | Some p \<Rightarrow> do { v \<leftarrow> erase_child p n v; unref p v });
     unref_nodes unref (c_children x) v }"

definition vfs_cache_node_destroy :: "(nat \<Rightarrow> vcache \<Rightarrow> vcache option) \<Rightarrow> nat \<Rightarrow> vcache \<Rightarrow> vcache option" where
  "vfs_cache_node_destroy unref n v = do {
     v \<leftarrow> vfs_cache_node_reset unref n v;
     Some (v\<lparr>cnodes := (cnodes v)(n := None)\<rparr>) }"

primrec unref_node :: "nat \<Rightarrow> nat \<Rightarrow> vcache \<Rightarrow> vcache option" where
  "unref_node 0 = (\<lambda>n v. None)"
| "unref_node (Suc fuel) = (\<lambda>n v. do {
     x \<leftarrow> cnodes v n;
     let (cnt, rc) = refcount_dec (c_refcnt x);
     let v = set_cnode n (x\<lparr>c_refcnt := rc\<rparr>) v;
     if cnt = 0 then vfs_cache_node_destroy (unref_node fuel) n v else Some v })"

definition vfs_cache_node_unref :: "nat \<Rightarrow> nat option \<Rightarrow> vcache \<Rightarrow> vcache option" where
  "vfs_cache_node_unref fuel node v = (case node of None \<Rightarrow> Some v | Some n \<Rightarrow> unref_node fuel n v)"

definition insert_child :: "nat \<Rightarrow> nat \<Rightarrow> vcache \<Rightarrow> vcache option" where
  "insert_child p child v = do {
     c \<leftarrow> cnodes v child;
     let v = set_cnode child (c\<lparr>c_parent := Some p\<rparr>) v;
     v \<leftarrow> vfs_cache_node_ref (Some p) v;
     x \<leftarrow> cnodes v p;
     Some (set_cnode p (x\<lparr>c_children := c_children x @ [child]\<rparr>) v) }"

text \<open>
  \<open>fuel\<close> bounds the comparison of two paths; \<open>tmp\<close> is the address of the string made for the comparisons
  with \<^verbatim>\<open>"."\<close> and \<^verbatim>\<open>".."\<close>, whose allocations succeed or not as \<open>m1\<close> and \<open>m2\<close> say.
\<close>

fun lookup_children :: "nat \<Rightarrow> vpath \<Rightarrow> nat list \<Rightarrow> vcache \<Rightarrow> (nat option \<times> vcache) option" where
  "lookup_children fuel name [] v = Some (None, v)"
| "lookup_children fuel name (c # cs) v = do {
     x \<leftarrow> cnodes v c;
     (same, st) \<leftarrow> vfs_path_same fuel name (c_name x) (strings v);
     let v = v\<lparr>strings := st\<rparr>;
     if same then map_option (Pair (Some c)) (vfs_cache_node_ref (Some c) v)
     else lookup_children fuel name cs v }"

definition vfs_cache_node_lookup_child ::
  "nat \<Rightarrow> nat \<Rightarrow> bool \<Rightarrow> bool \<Rightarrow> nat option \<Rightarrow> vpath \<Rightarrow> vcache \<Rightarrow> (nat option \<times> vcache) option" where
  "vfs_cache_node_lookup_child fuel tmp m1 m2 parent name v = do {
     (dot, st) \<leftarrow> vfs_path_str_same fuel tmp m1 m2 name [46, 46, 0] 1 (strings v);
     let v = v\<lparr>strings := st\<rparr>;
     if dot then map_option (Pair parent) (vfs_cache_node_ref parent v)
     else do {
       (dotdot, st) \<leftarrow> vfs_path_str_same fuel tmp m1 m2 name [46, 46, 0] 2 (strings v);
       let v = v\<lparr>strings := st\<rparr>;
       p \<leftarrow> parent;
       x \<leftarrow> cnodes v p;
       if dotdot then map_option (Pair (c_parent x)) (vfs_cache_node_ref (c_parent x) v)
       else lookup_children fuel name (c_children x) v } }"

text \<open>\<open>want\<close> says whether the caller asks for the inserted child (\<^verbatim>\<open>inserted_child\<close> is not null).\<close>

definition vfs_cache_node_insert_child ::
  "nat \<Rightarrow> nat \<Rightarrow> bool \<Rightarrow> bool \<Rightarrow> bool \<Rightarrow> nat \<Rightarrow> nat option \<Rightarrow> nat option \<Rightarrow> vpath \<Rightarrow> bool \<Rightarrow> vcache
     \<Rightarrow> (nat option result \<times> vcache) option" where
  "vfs_cache_node_insert_child fuel tmp m1 m2 m new parent child_inode name want v = do {
     (child, v) \<leftarrow> vfs_cache_node_lookup_child fuel tmp m1 m2 parent name v;
     if child \<noteq> None then map_option (Pair (Inl EEXIST)) (vfs_cache_node_unref fuel child v)
     else do {
       (r, v) \<leftarrow> vfs_cache_node_create m new child_inode (Some name) v;
       case r of
         Inl e \<Rightarrow> Some (Inl e, v)
       | Inr child \<Rightarrow> do {
           v \<leftarrow> (case parent of None \<Rightarrow> Some v | Some p \<Rightarrow> insert_child p child v);
           v \<leftarrow> (if want then vfs_cache_node_ref (Some child) v else Some v);
           v \<leftarrow> vfs_cache_node_unref fuel (Some child) v;
           Some (Inr (if want then Some child else None), v) } } }"

definition vfs_cache_node_get_parent :: "nat \<Rightarrow> vcache \<Rightarrow> (nat option \<times> vcache) option" where
  "vfs_cache_node_get_parent n v = do {
     x \<leftarrow> cnodes v n;
     map_option (Pair (c_parent x)) (vfs_cache_node_ref (c_parent x) v) }"

fun mounted_root :: "nat \<Rightarrow> nat \<Rightarrow> vcache \<Rightarrow> nat option" where
  "mounted_root 0 n v = None"
| "mounted_root (Suc fuel) n v = do {
     x \<leftarrow> cnodes v n;
     case c_mounted x of None \<Rightarrow> Some n | Some m \<Rightarrow> mounted_root fuel m v }"

definition vfs_cache_node_resolve_mounted_fs :: "nat \<Rightarrow> nat \<Rightarrow> vcache \<Rightarrow> (nat \<times> vcache) option" where
  "vfs_cache_node_resolve_mounted_fs fuel mountpoint v = do {
     n \<leftarrow> mounted_root fuel mountpoint v;
     map_option (Pair n) (vfs_cache_node_ref (Some n) v) }"

section \<open>Reference counts\<close>

text \<open>
  The references on a node are those of its children (each child refers to its parent) and those of the
  rest of the kernel, which \<open>ext\<close> counts; \<open>iext\<close> and \<open>sext\<close> count the references on inodes and strings
  that do not come from cache nodes.  \<open>D\<close> is the set of nodes that are being destroyed: they no longer
  take part in the accounting, but are not freed yet.
\<close>

definition ino_of :: "(nat \<Rightarrow> vfs_cache_node option) \<Rightarrow> nat \<Rightarrow> nat option" where
  "ino_of cn n = (case cn n of None \<Rightarrow> None | Some x \<Rightarrow> c_inode x)"

definition str_of :: "(nat \<Rightarrow> vfs_cache_node option) \<Rightarrow> nat \<Rightarrow> nat option" where
  "str_of cn n = (case cn n of None \<Rightarrow> None | Some x \<Rightarrow> if base_str (c_name x) = 0 then None else Some (base_str (c_name x)))"

definition counts :: "refcount \<Rightarrow> nat \<Rightarrow> bool" where
  "counts r k \<longleftrightarrow> r = of_nat k \<and> 0 < k \<and> k < 2 ^ 31"

definition node_ok :: "nat set \<Rightarrow> (nat \<Rightarrow> vfs_cache_node option) \<Rightarrow> nat \<Rightarrow> vfs_cache_node \<Rightarrow> bool" where
  "node_ok D cn n x \<longleftrightarrow>
     (\<forall>p. c_parent x = Some p \<longrightarrow> p \<notin> D \<and> (\<exists>y. cn p = Some y \<and> n \<in> set (c_children y)))
   \<and> distinct (c_children x) \<and> (\<forall>c\<in>set (c_children x). c \<notin> D \<and> (\<exists>y. cn c = Some y \<and> c_parent y = Some n))"

definition nodes_inv :: "nat set \<Rightarrow> (nat \<Rightarrow> vfs_cache_node option) \<Rightarrow> (nat \<Rightarrow> nat) \<Rightarrow> bool" where
  "nodes_inv D cn ext \<longleftrightarrow>
     (\<forall>n x. cn n = Some x \<longrightarrow> n \<notin> D \<longrightarrow> node_ok D cn n x \<and> counts (c_refcnt x) (length (c_children x) + ext n))
   \<and> (\<forall>n. 0 < ext n \<longrightarrow> n \<notin> D \<and> cn n \<noteq> None) \<and> finite (dom cn)"

definition inode_ok :: "nat set \<Rightarrow> (nat \<Rightarrow> nat option) \<Rightarrow> nat \<Rightarrow> nat \<Rightarrow> vfs_inode \<Rightarrow> bool" where
  "inode_ok D ino e i z \<longleftrightarrow>
     distinct (i_cnodes z) \<and> (\<forall>n\<in>set (i_cnodes z). n \<notin> D \<and> ino n = Some i)
   \<and> counts (i_refcnt z) (length (i_cnodes z) + e) \<and> (i_op z \<or> 0 < e)"

definition inodes_inv ::
  "nat set \<Rightarrow> (nat \<Rightarrow> nat option) \<Rightarrow> (nat \<Rightarrow> vfs_inode option) \<Rightarrow> (nat \<Rightarrow> nat) \<Rightarrow> bool" where
  "inodes_inv D ino ins iext \<longleftrightarrow>
     (\<forall>n i. n \<notin> D \<longrightarrow> ino n = Some i \<longrightarrow> (\<exists>z. ins i = Some z \<and> n \<in> set (i_cnodes z)))
   \<and> (\<forall>i z. ins i = Some z \<longrightarrow> inode_ok D ino (iext i) i z) \<and> (\<forall>i. 0 < iext i \<longrightarrow> ins i \<noteq> None)"

lemma inodesD:
  assumes "inodes_inv D ino ins iext"
  shows "\<And>n i. n \<notin> D \<Longrightarrow> ino n = Some i \<Longrightarrow> \<exists>z. ins i = Some z \<and> n \<in> set (i_cnodes z)"
    and "\<And>i z. ins i = Some z \<Longrightarrow> inode_ok D ino (iext i) i z" and "\<And>i. 0 < iext i \<Longrightarrow> ins i \<noteq> None"
  using assms unfolding inodes_inv_def by blast+

definition users :: "nat set \<Rightarrow> (nat \<Rightarrow> nat option) \<Rightarrow> nat \<Rightarrow> nat set" where
  "users D str b = {n. n \<notin> D \<and> str n = Some b}"

definition strings_inv :: "nat set \<Rightarrow> (nat \<Rightarrow> nat option) \<Rightarrow> pstore \<Rightarrow> (nat \<Rightarrow> nat) \<Rightarrow> bool" where
  "strings_inv D str st sext \<longleftrightarrow>
     (\<forall>b. finite (users D str b))
   \<and> (\<forall>b s. st b = Some s \<longrightarrow> counts (ps_refcnt s) (card (users D str b) + sext b))
   \<and> (\<forall>b. st b = None \<longrightarrow> users D str b = {} \<and> sext b = 0)"

definition cache_inv :: "nat set \<Rightarrow> vcache \<Rightarrow> (nat \<Rightarrow> nat) \<Rightarrow> (nat \<Rightarrow> nat) \<Rightarrow> (nat \<Rightarrow> nat) \<Rightarrow> bool" where
  "cache_inv D v ext iext sext \<longleftrightarrow>
     nodes_inv D (cnodes v) ext \<and> inodes_inv D (ino_of (cnodes v)) (inodes v) iext
   \<and> strings_inv D (str_of (cnodes v)) (strings v) sext"

subsection \<open>Counting\<close>

lemma counts_dec:
  assumes "counts r (Suc k)"
  shows "refcount_dec r = (int k, of_nat k)" and "0 < k \<Longrightarrow> counts (r - 1) k"
proof -
  have r: "r - 1 = of_nat k" and k: "k < 2 ^ 31"
    using assms by (simp_all add: counts_def)
  have "sint (of_nat k :: refcount) = int k"
    using k by (simp add: signed_of_nat signed_take_bit_int_eq_self)
  then show "refcount_dec r = (int k, of_nat k)"
    by (simp add: refcount_dec_def r)
  show "0 < k \<Longrightarrow> counts (r - 1) k"
    using r k by (simp add: counts_def)
qed

lemma counts_inc: "counts r k \<Longrightarrow> Suc k < 2 ^ 31 \<Longrightarrow> counts (r + 1) (Suc k)"
  by (simp add: counts_def add.commute)

lemma counts_of_nat: "0 < k \<Longrightarrow> k < 2 ^ 31 \<Longrightarrow> counts (of_nat k) k"
  by (simp add: counts_def)

subsection \<open>One node less\<close>

lemma users_insert: "users (insert n D) str b = users D str b - {n}"
  by (auto simp: users_def)

lemma strings_step:
  assumes inv: "strings_inv D (str_of cn) st sext" and n: "n \<notin> D" "cn n = Some x"
  shows "\<exists>st'. vfs_path_reset (c_name x) st = Some (null_path, st') \<and> strings_inv (insert n D) (str_of cn) st' sext"
proof (cases "base_str (c_name x) = 0")
  case True
  then have "users (insert n D) (str_of cn) b = users D (str_of cn) b" for b
    using n by (auto simp: users_def str_of_def)
  then show ?thesis
    using True inv by (simp add: vfs_path_reset_def strings_inv_def)
next
  case False
  define b where "b = base_str (c_name x)"
  have u: "n \<in> users D (str_of cn) b" "\<And>c. c \<noteq> b \<Longrightarrow> n \<notin> users D (str_of cn) c"
    using n False by (auto simp: users_def str_of_def b_def)
  then obtain s where s: "st b = Some s"
    using inv unfolding strings_inv_def by (metis empty_iff not_Some_eq)
  define k where "k = card (users D (str_of cn) b - {n}) + sext b"
  have fin: "finite (users D (str_of cn) c)" for c
    using inv by (simp add: strings_inv_def)
  have "counts (ps_refcnt s) (Suc k)"
  proof -
    have "counts (ps_refcnt s) (card (users D (str_of cn) b) + sext b)"
      using inv s by (simp add: strings_inv_def)
    then show ?thesis
      by (simp add: k_def card.remove [OF fin u(1)])
  qed
  note k = counts_dec [OF this]
  let ?st = "if k = 0 then st(b := None) else st(b \<mapsto> s\<lparr>ps_refcnt := of_nat k\<rparr>)"
  have "vfs_path_reset (c_name x) st = Some (null_path, ?st)"
    using False s k(1) by (simp add: vfs_path_reset_def vfs_path_string_destroy_def b_def)
  moreover have "strings_inv (insert n D) (str_of cn) ?st sext"
    unfolding strings_inv_def users_insert
  proof (intro conjI allI impI)
    fix c t
    assume t: "?st c = Some t"
    show "counts (ps_refcnt t) (card (users D (str_of cn) c - {n}) + sext c)"
    proof (cases "c = b")
      case True
      then have "0 < k" "t = s\<lparr>ps_refcnt := of_nat k\<rparr>"
        using t by (auto split: if_splits)
      then show ?thesis
        using k True by (simp add: k_def refcount_dec_def)
    next
      case False
      then have "st c = Some t"
        using t by (auto split: if_splits)
      then show ?thesis
        using inv u(2) [OF False] by (simp add: strings_inv_def)
    qed
  next
    fix c
    assume c: "?st c = None"
    show "users D (str_of cn) c - {n} = {}" "sext c = 0"
      using c inv fin [of b] by (auto simp: strings_inv_def k_def split: if_splits)
  qed (simp add: fin)
  ultimately show ?thesis
    by blast
qed

definition drop_inode :: "nat \<Rightarrow> nat option \<Rightarrow> vcache \<Rightarrow> vcache option" where
  "drop_inode n inode v =
     (case inode of None \<Rightarrow> Some v | Some i \<Rightarrow> do { v \<leftarrow> vfs_inode_remove_cnode i n v; vfs_inode_unref i v })"

lemma inodes_step:
  assumes inv: "inodes_inv D (ino_of cn) (inodes v) iext" and n: "n \<notin> D" "cn n = Some x"
  shows "\<exists>ins. drop_inode n (c_inode x) v = Some (v\<lparr>inodes := ins\<rparr>) \<and> inodes_inv (insert n D) (ino_of cn) ins iext"
proof (cases "c_inode x")
  case None
  then have "ino_of cn n = None"
    using n by (simp add: ino_of_def)
  then have "inode_ok (insert n D) (ino_of cn) (iext i) i z" if "inodes v i = Some z" for i z
    using inodesD(2) [OF inv that] by (auto simp: inode_ok_def)
  then have "inodes_inv (insert n D) (ino_of cn) (inodes v) iext"
    using inodesD(1,3) [OF inv] by (simp add: inodes_inv_def)
  then show ?thesis
    using None by (intro exI [of _ "inodes v"]) (simp add: drop_inode_def)
next
  case (Some i)
  then have ino: "ino_of cn n = Some i"
    using n by (simp add: ino_of_def)
  then obtain z where z: "inodes v i = Some z" "n \<in> set (i_cnodes z)"
    using inodesD(1) [OF inv n(1)] by blast
  define l where "l = remove1 n (i_cnodes z)"
  define k where "k = length l + iext i"
  have d: "inode_ok D (ino_of cn) (iext i) i z"
    by (rule inodesD(2) [OF inv z(1)])
  have "counts (i_refcnt z) (Suc k)"
  proof -
    have "length (i_cnodes z) = Suc (length l)"
      using z(2) length_pos_if_in_set [OF z(2)] by (simp add: l_def length_remove1)
    then show ?thesis
      using d by (simp add: inode_ok_def k_def)
  qed
  note k = counts_dec [OF this]
  let ?ins = "if k = 0 then (inodes v)(i := None) else (inodes v)(i \<mapsto> z\<lparr>i_cnodes := l, i_refcnt := of_nat k\<rparr>)"
  have "i_op z" if "k = 0"
    using d that by (simp add: inode_ok_def k_def)
  then have "drop_inode n (c_inode x) v = Some (v\<lparr>inodes := ?ins\<rparr>)"
    using z Some k(1)
    by (simp add: drop_inode_def vfs_inode_remove_cnode_def vfs_inode_unref_def set_inode_def l_def)
  moreover have "inodes_inv (insert n D) (ino_of cn) ?ins iext"
  proof -
    have 1: "\<exists>y. ?ins j = Some y \<and> c \<in> set (i_cnodes y)" if c: "c \<notin> insert n D" "ino_of cn c = Some j" for c j
    proof (cases "j = i")
      case True
      then have "c \<in> set l"
        using inodesD(1) [OF inv, of c i] c z(1) by (simp add: l_def)
      then show ?thesis
        using True by (cases l) (auto simp: k_def)
    next
      case False
      then show ?thesis
        using inodesD(1) [OF inv, of c j] c by simp
    qed
    have 2: "inode_ok (insert n D) (ino_of cn) (iext j) j y" if y: "?ins j = Some y" for j y
    proof (cases "j = i")
      case True
      then have "0 < k" "y = z\<lparr>i_cnodes := l, i_refcnt := of_nat k\<rparr>"
        using y by (auto split: if_splits)
      then show ?thesis
        using k d True by (auto simp: inode_ok_def k_def refcount_dec_def l_def)
    next
      case False
      then have "inodes v j = Some y"
        using y by (auto split: if_splits)
      then show ?thesis
        using inodesD(2) [OF inv, of j y] ino False by (auto simp: inode_ok_def)
    qed
    have 3: "?ins j \<noteq> None" if "0 < iext j" for j
      using inodesD(3) [OF inv that] that by (auto simp: k_def)
    show ?thesis
      unfolding inodes_inv_def using 1 2 3 by blast
  qed
  ultimately show ?thesis
    by blast
qed

text \<open>The node itself and its parent.\<close>

definition drop_parent :: "nat \<Rightarrow> nat \<Rightarrow> (nat \<Rightarrow> vfs_cache_node option) \<Rightarrow> (nat \<Rightarrow> vfs_cache_node option)" where
  "drop_parent n p cn = (case cn p of None \<Rightarrow> cn | Some y \<Rightarrow> cn(p \<mapsto> y\<lparr>c_children := remove1 n (c_children y)\<rparr>))"

lemma nodesD:
  assumes "nodes_inv D cn ext" "cn n = Some x" "n \<notin> D"
  shows "node_ok D cn n x" and "counts (c_refcnt x) (length (c_children x) + ext n)"
  using assms unfolding nodes_inv_def by blast+

lemma node_ok_refcnt: "node_ok D cn n (x\<lparr>c_refcnt := r\<rparr>) = node_ok D cn n x"
  by (simp add: node_ok_def)

lemma nodes_refcnt:
  assumes inv: "nodes_inv D cn ext" and n: "n \<notin> D" "cn n = Some x"
    and c: "counts r (length (c_children x) + e)"
  shows "nodes_inv D (cn(n \<mapsto> x\<lparr>c_refcnt := r\<rparr>)) (ext(n := e))"
proof -
  let ?cn = "cn(n \<mapsto> x\<lparr>c_refcnt := r\<rparr>)"
  have ok: "node_ok D ?cn q y" if "node_ok D cn q y" for q y
  proof -
    have "(\<exists>z. ?cn p = Some z \<and> c \<in> set (c_children z)) = (\<exists>z. cn p = Some z \<and> c \<in> set (c_children z))"
      "(\<exists>z. ?cn p = Some z \<and> c_parent z = d) = (\<exists>z. cn p = Some z \<and> c_parent z = d)" for p c d
      using n by auto
    then show ?thesis
      using that by (simp add: node_ok_def)
  qed
  have "node_ok D ?cn q y \<and> counts (c_refcnt y) (length (c_children y) + (ext(n := e)) q)"
    if q: "?cn q = Some y" "q \<notin> D" for q y
  proof (cases "q = n")
    case True
    then show ?thesis
      using q(1) ok [OF nodesD(1) [OF inv n(2,1)]] c by (auto simp: node_ok_refcnt)
  next
    case False
    then show ?thesis
      using q ok nodesD [OF inv, of q y] by simp
  qed
  moreover have "finite (dom ?cn)" "\<And>q. 0 < (ext(n := e)) q \<Longrightarrow> q \<notin> D \<and> ?cn q \<noteq> None"
    using inv n by (auto simp: nodes_inv_def)
  ultimately show ?thesis
    unfolding nodes_inv_def by blast
qed

lemma node_ok_leave:
  assumes ok: "node_ok D cn q y" and n: "cn n = Some x" "c_children x = []"
    and cn': "\<And>k z. k \<noteq> n \<Longrightarrow> cn k = Some z \<Longrightarrow>
      \<exists>z'. cn' k = Some z' \<and> c_parent z' = c_parent z \<and> set (c_children z) - {n} \<subseteq> set (c_children z')"
    and y': "c_parent y' = c_parent y" "c_children y' = remove1 n (c_children y)" and q: "q \<noteq> n"
  shows "node_ok (insert n D) cn' q y'"
proof -
  have "p \<notin> insert n D \<and> (\<exists>z. cn' p = Some z \<and> q \<in> set (c_children z))" if p: "c_parent y' = Some p" for p
  proof -
    obtain z where z: "p \<notin> D" "cn p = Some z" "q \<in> set (c_children z)"
      using ok p y'(1) by (auto simp: node_ok_def)
    then have "p \<noteq> n"
      using n by auto
    then show ?thesis
      using z cn' [OF _ z(2)] q by blast
  qed
  moreover have "c \<notin> insert n D \<and> (\<exists>z. cn' c = Some z \<and> c_parent z = Some q)" if c: "c \<in> set (c_children y')" for c
  proof -
    have "c \<in> set (c_children y)" "c \<noteq> n"
      using ok c y'(2) by (auto simp: node_ok_def)
    then obtain z where "c \<notin> D" "cn c = Some z" "c_parent z = Some q"
      using ok by (auto simp: node_ok_def)
    then show ?thesis
      using cn' \<open>c \<noteq> n\<close> by fastforce
  qed
  ultimately show ?thesis
    using ok y'(2) by (simp add: node_ok_def)
qed

lemma nodes_leave:
  assumes inv: "nodes_inv D cn ext" and n: "n \<notin> D" "cn n = Some x" "c_children x = []" "ext n = 1"
    and p: "c_parent x = None"
  shows "nodes_inv (insert n D) (cn(n \<mapsto> x\<lparr>c_refcnt := 0\<rparr>)) (ext(n := 0))"
proof -
  let ?cn = "cn(n \<mapsto> x\<lparr>c_refcnt := 0\<rparr>)"
  have "node_ok (insert n D) ?cn q y \<and> counts (c_refcnt y) (length (c_children y) + (ext(n := 0)) q)"
    if q: "?cn q = Some y" "q \<notin> insert n D" for q y
  proof -
    have y: "node_ok D cn q y" "counts (c_refcnt y) (length (c_children y) + ext q)"
      using nodesD [OF inv, of q y] q by auto
    have "n \<notin> set (c_children y)"
      using y(1) n(2) p by (auto simp: node_ok_def)
    then have "node_ok (insert n D) ?cn q y"
      using q by (intro node_ok_leave [OF y(1) n(2,3)]) (auto simp: remove1_idem)
    then show ?thesis
      using y(2) q by simp
  qed
  moreover have "finite (dom ?cn)" "\<And>q. 0 < (ext(n := 0)) q \<Longrightarrow> q \<notin> insert n D \<and> ?cn q \<noteq> None"
    using inv n by (auto simp: nodes_inv_def split: if_splits)
  ultimately show ?thesis
    unfolding nodes_inv_def by blast
qed

lemma nodes_leave_parent:
  assumes inv: "nodes_inv D cn ext" and n: "n \<notin> D" "cn n = Some x" "c_children x = []" "ext n = 1"
    and p: "c_parent x = Some p"
  obtains z where "p \<noteq> n" "p \<notin> D" "cn p = Some z"
    "nodes_inv (insert n D) (cn(n \<mapsto> x\<lparr>c_refcnt := 0\<rparr>, p \<mapsto> z\<lparr>c_children := remove1 n (c_children z)\<rparr>))
       (ext(n := 0, p := Suc (ext p)))"
proof -
  obtain z where z: "p \<notin> D" "cn p = Some z" "n \<in> set (c_children z)"
    using nodesD(1) [OF inv n(2,1)] p by (auto simp: node_ok_def)
  have pn: "p \<noteq> n"
    using z n by auto
  let ?cn = "cn(n \<mapsto> x\<lparr>c_refcnt := 0\<rparr>, p \<mapsto> z\<lparr>c_children := remove1 n (c_children z)\<rparr>)"
  have rel: "\<exists>z'. ?cn k = Some z' \<and> c_parent z' = c_parent y \<and> set (c_children y) - {n} \<subseteq> set (c_children z')"
    if "k \<noteq> n" "cn k = Some y" for k y
  proof (cases "k = p")
    case True
    then show ?thesis
      using that z pn by (auto intro: in_set_remove1 [THEN iffD2])
  next
    case False
    then show ?thesis
      using that by auto
  qed
  have "node_ok (insert n D) ?cn q y \<and> counts (c_refcnt y) (length (c_children y) + (ext(n := 0, p := Suc (ext p))) q)"
    if q: "?cn q = Some y" "q \<notin> insert n D" for q y
  proof (cases "q = p")
    case True
    then have y: "y = z\<lparr>c_children := remove1 n (c_children z)\<rparr>"
      using q by simp
    have "node_ok (insert n D) ?cn p y"
      by (rule node_ok_leave [OF nodesD(1) [OF inv z(2,1)] n(2,3) rel]) (simp_all add: y pn)
    moreover have "length (c_children z) = Suc (length (remove1 n (c_children z)))"
      using z(3) length_pos_if_in_set [OF z(3)] by (simp add: length_remove1)
    ultimately show ?thesis
      using nodesD(2) [OF inv z(2,1)] True pn by (simp add: y)
  next
    case False
    then have cq: "cn q = Some y" "q \<notin> D" "q \<noteq> n"
      using q by (auto split: if_splits)
    have "n \<notin> set (c_children y)"
      using nodesD(1) [OF inv cq(1,2)] n(2) p False by (auto simp: node_ok_def)
    then have "node_ok (insert n D) ?cn q y"
      using cq by (intro node_ok_leave [OF nodesD(1) [OF inv cq(1,2)] n(2,3) rel]) (simp_all add: remove1_idem)
    then show ?thesis
      using nodesD(2) [OF inv cq(1,2)] cq False by simp
  qed
  moreover have "finite (dom ?cn)" "\<And>q. 0 < (ext(n := 0, p := Suc (ext p))) q \<Longrightarrow> q \<notin> insert n D \<and> ?cn q \<noteq> None"
    using inv z(1) pn by (auto simp: nodes_inv_def split: if_splits)
  ultimately have "nodes_inv (insert n D) ?cn (ext(n := 0, p := Suc (ext p)))"
    unfolding nodes_inv_def by blast
  then show thesis
    using that [OF pn z(1,2)] by blast
qed

subsection \<open>Dropping a reference\<close>

lemma of_upd [simp]:
  "cn n = Some x \<Longrightarrow> c_inode y = c_inode x \<Longrightarrow> ino_of (cn(n \<mapsto> y)) = ino_of cn"
  "cn n = Some x \<Longrightarrow> c_name y = c_name x \<Longrightarrow> str_of (cn(n \<mapsto> y)) = str_of cn"
  by (auto simp: ino_of_def str_of_def)

lemma cache_free:
  assumes inv: "cache_inv (insert n D) v ext iext sext" and n: "n \<notin> D"
  shows "cache_inv D (v\<lparr>cnodes := (cnodes v)(n := None)\<rparr>) ext iext sext"
proof -
  let ?cn = "(cnodes v)(n := None)"
  have of: "ino_of ?cn q = (if q = n then None else ino_of (cnodes v) q)"
    "str_of ?cn q = (if q = n then None else str_of (cnodes v) q)" for q
    by (simp_all add: ino_of_def str_of_def)
  have nodes: "nodes_inv (insert n D) (cnodes v) ext" and ins: "inodes_inv (insert n D) (ino_of (cnodes v)) (inodes v) iext"
    using inv by (simp_all add: cache_inv_def)
  have "node_ok D ?cn q y" if "node_ok (insert n D) (cnodes v) q y" for q y
    using that by (auto simp: node_ok_def)
  then have "nodes_inv D ?cn ext"
    using nodes by (auto simp: nodes_inv_def)
  moreover have "inode_ok D (ino_of ?cn) (iext i) i z" if "inodes v i = Some z" for i z
    using inodesD(2) [OF ins that] by (auto simp: inode_ok_def of)
  then have "inodes_inv D (ino_of ?cn) (inodes v) iext"
    using inodesD(1,3) [OF ins] by (auto simp: inodes_inv_def of)
  moreover have "users D (str_of ?cn) b = users (insert n D) (str_of (cnodes v)) b" for b
    using n by (auto simp: users_def of)
  then have "strings_inv D (str_of ?cn) (strings v) sext"
    using inv by (simp add: cache_inv_def strings_inv_def)
  ultimately show ?thesis
    by (simp add: cache_inv_def)
qed

lemma bind_unref_none: "Option.bind m (unref_nodes f []) = m"
  by (cases m) simp_all

lemma unref_node_spec:
  assumes "cache_inv D v ext iext sext" "0 < ext n" "card (dom (cnodes v) - D) < fuel"
  shows "\<exists>v'. unref_node fuel n v = Some v' \<and> cache_inv D v' (ext(n := ext n - 1)) iext sext"
  using assms
proof (induction fuel arbitrary: D v ext n)
  case (Suc fuel)
  note inv = Suc.prems(1)
  have nodes: "nodes_inv D (cnodes v) ext" and ins: "inodes_inv D (ino_of (cnodes v)) (inodes v) iext"
    and str: "strings_inv D (str_of (cnodes v)) (strings v) sext"
    using inv by (simp_all add: cache_inv_def)
  obtain x where n: "n \<notin> D" "cnodes v n = Some x"
    using nodes Suc.prems(2) by (fastforce simp: nodes_inv_def)
  define k where "k = length (c_children x) + (ext n - 1)"
  have "counts (c_refcnt x) (Suc k)"
    using nodesD(2) [OF nodes n(2,1)] Suc.prems(2) by (simp add: k_def)
  note k = counts_dec [OF this]
  show ?case
  proof (cases "k = 0")
    case False
    then have "counts (of_nat k) k"
      using k by (simp add: refcount_dec_def)
    then have "nodes_inv D ((cnodes v)(n \<mapsto> x\<lparr>c_refcnt := of_nat k\<rparr>)) (ext(n := ext n - 1))"
      using nodes_refcnt [OF nodes n, of "of_nat k" "ext n - 1"] unfolding k_def by simp
    then have "cache_inv D (set_cnode n (x\<lparr>c_refcnt := of_nat k\<rparr>) v) (ext(n := ext n - 1)) iext sext"
      using n ins str by (simp add: set_cnode_def cache_inv_def)
    then show ?thesis
      using False n k(1) by (simp del: fun_upd_apply)
  next
    case True
    then have x: "c_children x = []" "ext n = 1"
      using Suc.prems(2) unfolding k_def by (simp_all flip: length_0_conv)
    obtain st where st: "vfs_path_reset (c_name x) (strings v) = Some (null_path, st)"
        "strings_inv (insert n D) (str_of (cnodes v)) st sext"
      using strings_step [OF str n] by blast
    let ?cn = "(cnodes v)(n \<mapsto> x\<lparr>c_refcnt := 0\<rparr>)"
    let ?v = "v\<lparr>cnodes := ?cn, strings := st\<rparr>"
    obtain ns where is': "drop_inode n (c_inode x) ?v = Some (?v\<lparr>inodes := ns\<rparr>)"
        "inodes_inv (insert n D) (ino_of (cnodes v)) ns iext"
      using inodes_step [of D "cnodes v" ?v iext, OF _ n] ins by auto
    have unref: "unref_node (Suc fuel) n v = do {
        v \<leftarrow> (case c_parent x of None \<Rightarrow> Some (?v\<lparr>inodes := ns\<rparr>)
              | Some p \<Rightarrow> do { v \<leftarrow> erase_child p n (?v\<lparr>inodes := ns\<rparr>); unref_node fuel p v });
        Some (v\<lparr>cnodes := (cnodes v)(n := None)\<rparr>) }"
      using n k(1) True st(1) is'(1) x(1)
      by (simp add: set_cnode_def vfs_cache_node_destroy_def vfs_cache_node_reset_def drop_inode_def Let_def
          bind_unref_none cong: option.case_cong)
    show ?thesis
    proof (cases "c_parent x")
      case None
      then have "cache_inv (insert n D) (?v\<lparr>inodes := ns\<rparr>) (ext(n := 0)) iext sext"
        using nodes_leave [OF nodes n x None] st(2) is'(2) n by (simp add: cache_inv_def)
      then have "cache_inv D (v\<lparr>strings := st, inodes := ns, cnodes := (cnodes v)(n := None)\<rparr>) (ext(n := ext n - 1)) iext sext"
        using x(2) cache_free [OF _ n(1), of "?v\<lparr>inodes := ns\<rparr>" "ext(n := 0)" iext sext] by simp
      then show ?thesis
        unfolding unref using None by (simp del: fun_upd_apply)
    next
      case (Some p)
      obtain z where z: "p \<noteq> n" "p \<notin> D" "cnodes v p = Some z"
          "nodes_inv (insert n D) (?cn(p \<mapsto> z\<lparr>c_children := remove1 n (c_children z)\<rparr>)) (ext(n := 0, p := Suc (ext p)))"
        using nodes_leave_parent [OF nodes n x Some] by blast
      let ?cn' = "?cn(p \<mapsto> z\<lparr>c_children := remove1 n (c_children z)\<rparr>)"
      let ?w = "?v\<lparr>cnodes := ?cn', inodes := ns\<rparr>"
      have erase: "erase_child p n (?v\<lparr>inodes := ns\<rparr>) = Some ?w"
        using z by (simp add: erase_child_def set_cnode_def)
      have w: "cache_inv (insert n D) ?w (ext(n := 0, p := Suc (ext p))) iext sext"
        using z st(2) is'(2) n by (simp add: cache_inv_def)
      have fin: "finite (dom (cnodes v))"
        using nodes by (simp add: nodes_inv_def)
      have "dom ?cn' - insert n D = (dom (cnodes v) - D) - {n}"
        using z n by auto
      then have "card (dom (cnodes ?w) - insert n D) < fuel"
        using Suc.prems(3) card_Diff1_less [of "dom (cnodes v) - D" n] fin n
        by (simp add: domI del: card_Diff_insert)
      moreover have "0 < (ext(n := 0, p := Suc (ext p))) p"
        by simp
      ultimately obtain v' where v': "unref_node fuel p ?w = Some v'"
          "cache_inv (insert n D) v' ((ext(n := 0, p := Suc (ext p)))(p := (ext(n := 0, p := Suc (ext p))) p - 1)) iext sext"
        using Suc.IH [OF w] by blast
      have "(ext(n := 0, p := Suc (ext p)))(p := (ext(n := 0, p := Suc (ext p))) p - 1) = ext(n := ext n - 1)"
        using x(2) z(1) by auto
      then have "cache_inv D (v'\<lparr>cnodes := (cnodes v')(n := None)\<rparr>) (ext(n := ext n - 1)) iext sext"
        using v'(2) cache_free [OF _ n(1)] by simp
      then show ?thesis
        unfolding unref using Some erase v'(1) by (simp del: fun_upd_apply)
    qed
  qed
qed simp

subsection \<open>Taking a reference\<close>

definition ref_room :: "vcache \<Rightarrow> (nat \<Rightarrow> nat) \<Rightarrow> nat \<Rightarrow> bool" where
  "ref_room v ext n \<longleftrightarrow> (case cnodes v n of None \<Rightarrow> False | Some x \<Rightarrow> Suc (length (c_children x) + ext n) < 2 ^ 31)"

lemma ref_spec:
  assumes inv: "cache_inv {} v ext iext sext" and room: "ref_room v ext n"
  obtains x v' where "cnodes v n = Some x" "vfs_cache_node_ref (Some n) v = Some v'"
    "v' = set_cnode n (x\<lparr>c_refcnt := c_refcnt x + 1\<rparr>) v" "cache_inv {} v' (ext(n := Suc (ext n))) iext sext"
proof -
  obtain x where x: "cnodes v n = Some x" "Suc (length (c_children x) + ext n) < 2 ^ 31"
    using room by (auto simp: ref_room_def split: option.splits)
  have nodes: "nodes_inv {} (cnodes v) ext"
    using inv by (simp add: cache_inv_def)
  have "counts (c_refcnt x + 1) (length (c_children x) + Suc (ext n))"
    using counts_inc [OF nodesD(2) [OF nodes x(1)]] x(2) by simp
  from nodes_refcnt [OF nodes _ x(1) this]
  have "cache_inv {} (set_cnode n (x\<lparr>c_refcnt := c_refcnt x + 1\<rparr>) v) (ext(n := Suc (ext n))) iext sext"
    using inv x(1) by (simp add: cache_inv_def set_cnode_def)
  moreover have "vfs_cache_node_ref (Some n) v = Some (set_cnode n (x\<lparr>c_refcnt := c_refcnt x + 1\<rparr>) v)"
    using x(1) by (simp add: vfs_cache_node_ref_def refcount_inc_def)
  ultimately show thesis
    using that x(1) by blast
qed

text \<open>
  C8: the references on the nodes of the cache.  While the reference counts agree with the references held
  (\<open>cache_inv\<close>), the kernel may take a reference on any live node, and may drop any reference it holds: neither
  operation touches a freed node, inode or string, the recursion of the destruction ends within as many steps as there are
  nodes, and the counts agree again.  In particular no node is freed while a reference on it or a child of it remains.
\<close>

theorem cache_references_balance:
  assumes "cache_inv {} v ext iext sext"
  shows "(ref_room v ext n \<longrightarrow>
      (\<exists>v'. vfs_cache_node_ref (Some n) v = Some v' \<and> cache_inv {} v' (ext(n := Suc (ext n))) iext sext))
    \<and> (0 < ext n \<and> card (dom (cnodes v)) < fuel \<longrightarrow>
      (\<exists>v'. vfs_cache_node_unref fuel (Some n) v = Some v' \<and> cache_inv {} v' (ext(n := ext n - 1)) iext sext))"
proof (intro conjI impI)
  show "\<exists>v'. vfs_cache_node_ref (Some n) v = Some v' \<and> cache_inv {} v' (ext(n := Suc (ext n))) iext sext"
    if "ref_room v ext n"
    using ref_spec [OF assms that] by blast
  show "\<exists>v'. vfs_cache_node_unref fuel (Some n) v = Some v' \<and> cache_inv {} v' (ext(n := ext n - 1)) iext sext"
    if "0 < ext n \<and> card (dom (cnodes v)) < fuel"
    using unref_node_spec [OF assms] that by (simp add: vfs_cache_node_unref_def)
qed

section \<open>Looking up and inserting children\<close>

subsection \<open>Names\<close>

definition node_name :: "vcache \<Rightarrow> nat \<Rightarrow> byte list" where
  "node_name v n = (case cnodes v n of None \<Rightarrow> [] | Some x \<Rightarrow> path_bytes (strings v) (c_name x))"

definition names_ok :: "vcache \<Rightarrow> bool" where
  "names_ok v \<longleftrightarrow> (\<forall>n x. cnodes v n = Some x \<longrightarrow> c_parent x \<noteq> None \<longrightarrow> is_component (strings v) (c_name x))"

lemma store_upd:
  assumes "base_str p \<noteq> t"
  shows "path_wf (st(t \<mapsto> s)) p = path_wf st p" "path_bytes (st(t \<mapsto> s)) p = path_bytes st p"
    "is_component (st(t \<mapsto> s)) p = is_component st p"
  using assms by (simp_all add: path_wf_def path_bytes_def base_bytes_def is_component_def)

lemma counts_live: "counts r k \<Longrightarrow> r \<noteq> 0 \<and> r \<noteq> - 1"
proof -
  assume c: "counts r k"
  then have r: "unat r = k" and k: "0 < k" "k < 2 ^ 31"
    by (auto simp: counts_def unat_of_nat take_bit_nat_eq_self)
  have "unat (- 1 :: refcount) = 2 ^ 32 - 1"
    by (simp add: unsigned_minus_1_eq_mask mask_eq_exp_minus_1)
  then show ?thesis
    using r k by auto
qed

lemma strings_live: "strings_inv D str st sext \<Longrightarrow> live st"
  unfolding strings_inv_def live_def using counts_live by blast

lemma dots_eval:
  "replicate 2 c = [c, c]" "strncpy [0] [46, 46, 0] (Suc 0) = Some [46]" "strncpy [0, 0] [46, 46, 0] 2 = Some [46, 46]"
  by (simp_all add: numeral_2_eq_2)

lemma str_same_dots:
  assumes "is_component st name" "live st" "st tmp = None" "tmp \<noteq> 0" "0 < fuel" and sz: "sz = 1 \<or> sz = 2"
  shows "vfs_path_str_same fuel tmp m1 m2 name [46, 46, 0] sz st
           = Some (m1 \<and> m2 \<and> path_bytes st name = replicate (unat sz) 46, st)"
proof (cases "m1 \<and> m2")
  case True
  let ?p = "\<lparr>base_str = tmp, p_offset = 0, p_size = sz\<rparr>"
  let ?st = "st(tmp \<mapsto> \<lparr>ps_str = replicate (unat sz) 46, ps_size = sz, ps_refcnt = 1\<rparr>)"
  have init: "vfs_path_init tmp m1 m2 [46, 46, 0] sz st = Some (Inr ?p, ?st)"
    using True sz
    by (auto simp: vfs_path_init_def vfs_path_string_create_def copy_path_str_def refcount_init_def dots_eval)
  have name: "base_str name \<noteq> tmp"
    using assms(1,3) by (auto simp: is_component_def path_wf_def)
  have bytes: "path_bytes ?st ?p = replicate (unat sz) 46"
    by (simp add: path_bytes_def base_bytes_def)
  have "is_component ?st ?p"
    using sz assms(4) bytes by (auto simp: is_component_def path_wf_def)
  moreover have "live ?st"
    using assms(2) by (auto simp: live_def)
  ultimately have "vfs_path_same fuel name ?p ?st = Some (path_bytes st name = replicate (unat sz) 46, ?st)"
    using component_same [of ?st name ?p fuel] assms(1,5) bytes store_upd [OF name] by simp
  moreover have "vfs_path_reset ?p ?st = Some (null_path, st)"
    using assms(3,4) by (simp add: vfs_path_reset_def vfs_path_string_destroy_def refcount_dec_def fun_upd_idem)
  ultimately show ?thesis
    using True init by (simp add: vfs_path_str_same_def)
next
  case False
  then show ?thesis
    using sz by (auto simp: vfs_path_str_same_def vfs_path_init_def vfs_path_string_create_def copy_path_str_def)
qed

lemma lookup_children_spec:
  assumes "\<And>c. c \<in> set cs \<Longrightarrow> \<exists>x. cnodes v c = Some x \<and> is_component (strings v) (c_name x)"
    and "is_component (strings v) name" "live (strings v)" "0 < fuel"
  shows "lookup_children fuel name cs v =
    (case find (\<lambda>c. node_name v c = path_bytes (strings v) name) cs of
       None \<Rightarrow> Some (None, v)
     | Some c \<Rightarrow> map_option (Pair (Some c)) (vfs_cache_node_ref (Some c) v))"
  using assms(1)
proof (induction cs)
  case (Cons c cs)
  obtain x where x: "cnodes v c = Some x" "is_component (strings v) (c_name x)"
    using Cons.prems by auto
  have "vfs_path_same fuel name (c_name x) (strings v) = Some (node_name v c = path_bytes (strings v) name, strings v)"
    using component_same [OF assms(2) x(2) assms(3,4)] x(1) by (auto simp: node_name_def)
  then show ?case
    using x(1) Cons.IH Cons.prems by simp
qed simp

definition dot :: "byte list" where "dot = [46]"
definition dotdot :: "byte list" where "dotdot = [46, 46]"

text \<open>The node that a name denotes in a directory, for a name that is neither \<^verbatim>\<open>.\<close> nor \<^verbatim>\<open>..\<close>.\<close>

definition child_named :: "vcache \<Rightarrow> nat \<Rightarrow> byte list \<Rightarrow> nat option" where
  "child_named v p b = (case cnodes v p of None \<Rightarrow> None | Some x \<Rightarrow> find (\<lambda>c. node_name v c = b) (c_children x))"

lemma lookup_child_spec:
  assumes inv: "cache_inv {} v ext iext sext" "names_ok v" and name: "is_component (strings v) name"
    and tmp: "strings v tmp = None" "tmp \<noteq> 0" and fuel: "0 < fuel" and p: "cnodes v p = Some x"
    and b: "path_bytes (strings v) name \<noteq> dot" "path_bytes (strings v) name \<noteq> dotdot"
  shows "vfs_cache_node_lookup_child fuel tmp m1 m2 (Some p) name v =
    (case child_named v p (path_bytes (strings v) name) of
       None \<Rightarrow> Some (None, v)
     | Some c \<Rightarrow> map_option (Pair (Some c)) (vfs_cache_node_ref (Some c) v))"
proof -
  have live: "live (strings v)"
    using inv(1) by (auto simp: cache_inv_def intro: strings_live)
  have same: "vfs_path_str_same fuel tmp m1 m2 name [46, 46, 0] 1 (strings v) = Some (False, strings v)"
    "vfs_path_str_same fuel tmp m1 m2 name [46, 46, 0] 2 (strings v) = Some (False, strings v)"
    using str_same_dots [OF name live tmp fuel, of 1 m1 m2] str_same_dots [OF name live tmp fuel, of 2 m1 m2] b
    by (simp_all add: dot_def dotdot_def dots_eval)
  have "\<exists>y. cnodes v c = Some y \<and> is_component (strings v) (c_name y)" if "c \<in> set (c_children x)" for c
    using nodesD(1) [of "{}" "cnodes v" ext p x] inv p that by (fastforce simp: cache_inv_def node_ok_def names_ok_def)
  from lookup_children_spec [OF this name live fuel] show ?thesis
    using same p by (simp add: vfs_cache_node_lookup_child_def child_named_def)
qed

subsection \<open>Creating and inserting a node\<close>

lemma strings_copy:
  assumes inv: "strings_inv {} (str_of cn) st sext" and name: "path_wf st name"
    and room: "Suc (card (users {} (str_of cn) (base_str name)) + sext (base_str name)) < 2 ^ 31"
    and new: "cn new = None" and x: "c_name x = name"
  shows "strings_inv {} (str_of (cn(new \<mapsto> x))) (bump (base_str name) st) sext"
proof -
  let ?b = "base_str name"
  obtain s where s: "st ?b = Some s" "?b \<noteq> 0"
    using name by (auto simp: path_wf_def split: option.splits)
  have u: "users {} (str_of (cn(new \<mapsto> x))) c = (if c = ?b then insert new (users {} (str_of cn) c) else users {} (str_of cn) c)" for c
    using new x s(2) by (auto simp: users_def str_of_def)
  have nu: "new \<notin> users {} (str_of cn) c" for c
    using new by (simp add: users_def str_of_def)
  have fin: "finite (users {} (str_of cn) c)" for c
    using inv by (simp add: strings_inv_def)
  have cnt: "counts (ps_refcnt t) (card (users {} (str_of cn) c) + sext c)" if "st c = Some t" for c t
    using inv that by (simp add: strings_inv_def)
  have "counts (ps_refcnt t) (card (users {} (str_of (cn(new \<mapsto> x))) c) + sext c)" if t: "bump ?b st c = Some t" for c t
  proof (cases "c = ?b")
    case True
    then have "t = s\<lparr>ps_refcnt := ps_refcnt s + 1\<rparr>"
      using t s by (simp add: bump_def)
    then show ?thesis
      using counts_inc [OF cnt [OF s(1)]] room True u nu fin by simp
  next
    case False
    then show ?thesis
      using t s cnt u by (simp add: bump_def)
  qed
  moreover have "users {} (str_of (cn(new \<mapsto> x))) c = {} \<and> sext c = 0" if "bump ?b st c = None" for c
    using that inv s u by (auto simp: bump_def strings_inv_def split: if_splits)
  ultimately show ?thesis
    using u fin unfolding strings_inv_def by simp
qed

lemma inodes_add:
  assumes inv: "inodes_inv {} (ino_of cn) ins iext" and z: "ins i = Some z"
    and room: "Suc (length (i_cnodes z) + iext i) < 2 ^ 31" and new: "cn new = None" and x: "c_inode x = Some i"
  shows "inodes_inv {} (ino_of (cn(new \<mapsto> x)))
           (ins(i \<mapsto> z\<lparr>i_refcnt := i_refcnt z + 1, i_cnodes := i_cnodes z @ [new]\<rparr>)) iext"
proof -
  have of: "ino_of (cn(new \<mapsto> x)) q = (if q = new then Some i else ino_of cn q)" for q
    using x by (simp add: ino_of_def)
  have none: "ino_of cn new = None"
    using new by (simp add: ino_of_def)
  note ok = inodesD(2) [OF inv]
  have fresh: "new \<notin> set (i_cnodes y)" if "ins j = Some y" for j y
    using ok [OF that] none by (auto simp: inode_ok_def)
  have "inode_ok {} (ino_of (cn(new \<mapsto> x))) (iext j) j y" if "ins j = Some y" "j \<noteq> i" for j y
    using ok [OF that(1)] fresh [OF that(1)] by (auto simp: inode_ok_def of)
  moreover have "inode_ok {} (ino_of (cn(new \<mapsto> x))) (iext i) i (z\<lparr>i_refcnt := i_refcnt z + 1, i_cnodes := i_cnodes z @ [new]\<rparr>)"
    using ok [OF z] fresh [OF z] counts_inc [of "i_refcnt z" "length (i_cnodes z) + iext i"] room
    by (auto simp: inode_ok_def of)
  moreover have "\<exists>y. (ins(i \<mapsto> z\<lparr>i_refcnt := i_refcnt z + 1, i_cnodes := i_cnodes z @ [new]\<rparr>)) j = Some y \<and> q \<in> set (i_cnodes y)"
    if "ino_of (cn(new \<mapsto> x)) q = Some j" for q j
    using that inodesD(1) [OF inv, of q j] z by (auto simp: of split: if_splits)
  ultimately show ?thesis
    using inodesD(3) [OF inv] unfolding inodes_inv_def by simp
qed

lemma nodes_add:
  assumes inv: "nodes_inv {} cn ext" and new: "cn new = None"
    and x: "c_parent x = None" "c_children x = []" "c_refcnt x = 1"
  shows "nodes_inv {} (cn(new \<mapsto> x)) (ext(new := 1))"
proof -
  have other: "node_ok {} (cn(new \<mapsto> x)) q y" if "cn q = Some y" for q y
  proof -
    have y: "node_ok {} cn q y"
      using nodesD(1) [OF inv that] by simp
    have "p \<noteq> new" if "c_parent y = Some p" for p
      using y that new by (auto simp: node_ok_def)
    moreover have "c \<noteq> new" if "c \<in> set (c_children y)" for c
      using y that new by (auto simp: node_ok_def)
    ultimately show ?thesis
      using y by (simp add: node_ok_def)
  qed
  have "counts 1 (Suc 0)"
    by (simp add: counts_def)
  moreover have "node_ok {} (cn(new \<mapsto> x)) new x"
    using x by (simp add: node_ok_def)
  ultimately show ?thesis
    using inv other new x by (auto simp: nodes_inv_def)
qed

lemma insert_link:
  assumes inv: "nodes_inv {} cn ext" and c: "cn child = Some c" "c_parent c = None"
    and p: "cn p = Some x" "p \<noteq> child" "Suc (length (c_children x) + ext p) < 2 ^ 31"
  shows "nodes_inv {} (cn(child \<mapsto> c\<lparr>c_parent := Some p\<rparr>,
      p \<mapsto> x\<lparr>c_refcnt := c_refcnt x + 1, c_children := c_children x @ [child]\<rparr>)) ext"
proof -
  let ?c = "c\<lparr>c_parent := Some p\<rparr>" and ?x = "x\<lparr>c_refcnt := c_refcnt x + 1, c_children := c_children x @ [child]\<rparr>"
  let ?cn = "cn(child \<mapsto> ?c, p \<mapsto> ?x)"
  have link: "\<exists>z'. ?cn k = Some z' \<and> set (c_children z) \<subseteq> set (c_children z') \<and> (k \<noteq> child \<longrightarrow> c_parent z' = c_parent z)"
    if "cn k = Some z" for k z
    using that c p by auto
  have nochild: "child \<notin> set (c_children y)" if "cn q = Some y" for q y
    using nodesD(1) [OF inv that] c by (auto simp: node_ok_def)
  have ok: "node_ok {} ?cn q y" if "cn q = Some y" for q y
  proof -
    have y: "node_ok {} cn q y"
      using nodesD(1) [OF inv that] by simp
    have "\<exists>z. ?cn k = Some z \<and> q \<in> set (c_children z)" if "c_parent y = Some k" for k
      using y that link by (fastforce simp: node_ok_def)
    moreover have "\<exists>z. ?cn k = Some z \<and> c_parent z = Some q" if "k \<in> set (c_children y)" for k
      using y that link nochild [OF \<open>cn q = Some y\<close>] by (fastforce simp: node_ok_def)
    ultimately show ?thesis
      using y by (simp add: node_ok_def)
  qed
  have "node_ok {} ?cn child ?c"
    using ok [OF c(1)] p by (simp add: node_ok_def)
  moreover have "node_ok {} ?cn p ?x"
    using ok [OF p(1)] nochild [OF p(1)] p(2) by (auto simp: node_ok_def)
  moreover have "counts (c_refcnt x + 1) (Suc (length (c_children x) + ext p))"
    using counts_inc [OF nodesD(2) [OF inv p(1)]] p(3) by simp
  moreover have "counts (c_refcnt c) (length (c_children c) + ext child)"
    using nodesD(2) [OF inv c(1)] by simp
  ultimately show ?thesis
    using inv ok p(2) by (auto simp: nodes_inv_def)
qed

lemma ref_unref:
  assumes "cnodes v n = Some x" "counts (c_refcnt x) k" "Suc k < 2 ^ 31" "0 < fuel"
  shows "vfs_cache_node_ref (Some n) v = Some (set_cnode n (x\<lparr>c_refcnt := c_refcnt x + 1\<rparr>) v)"
    and "vfs_cache_node_unref fuel (Some n) (set_cnode n (x\<lparr>c_refcnt := c_refcnt x + 1\<rparr>) v) = Some v"
proof -
  have k: "refcount_dec (c_refcnt x + 1) = (int k, c_refcnt x)" "0 < k"
    using counts_dec(1) [OF counts_inc [OF assms(2,3)]] assms(2) by (simp_all add: counts_def)
  show "vfs_cache_node_ref (Some n) v = Some (set_cnode n (x\<lparr>c_refcnt := c_refcnt x + 1\<rparr>) v)"
    using assms(1) by (simp add: vfs_cache_node_ref_def refcount_inc_def)
  obtain f where "fuel = Suc f"
    using assms(4) by (cases fuel) auto
  then show "vfs_cache_node_unref fuel (Some n) (set_cnode n (x\<lparr>c_refcnt := c_refcnt x + 1\<rparr>) v) = Some v"
    using assms(1) k by (simp add: vfs_cache_node_unref_def set_cnode_def fun_upd_idem)
qed

text \<open>What the references to the strings, the inode and the parent of a new node need.\<close>

definition insert_room :: "vcache \<Rightarrow> (nat \<Rightarrow> nat) \<Rightarrow> (nat \<Rightarrow> nat) \<Rightarrow> (nat \<Rightarrow> nat) \<Rightarrow> nat \<Rightarrow> nat \<Rightarrow> vpath \<Rightarrow> bool" where
  "insert_room v ext iext sext p i name \<longleftrightarrow> ref_room v ext p
     \<and> (case inodes v i of None \<Rightarrow> False | Some z \<Rightarrow> Suc (length (i_cnodes z) + iext i) < 2 ^ 31)
     \<and> Suc (card (users {} (str_of (cnodes v)) (base_str name)) + sext (base_str name)) < 2 ^ 31"

lemma insert_new:
  assumes inv: "cache_inv {} v ext iext sext" "names_ok v" and name: "is_component (strings v) name"
    and new: "cnodes v new = None" and room: "insert_room v ext iext sext p i name" and p: "cnodes v p = Some x"
  obtains v1 v2 where
    "vfs_cache_node_create True new (Some i) (Some name) v = Some (Inr new, v1)" "insert_child p new v1 = Some v2"
    "cache_inv {} v2 (ext(new := 1)) iext sext" "names_ok v2"
    "strings v2 = bump (base_str name) (strings v)"
    "\<exists>y. cnodes v2 new = Some y \<and> c_name y = name \<and> c_inode y = Some i \<and> counts (c_refcnt y) 1 \<and> c_children y = []"
    "\<exists>z. inodes v i = Some z \<and> inodes v2 = (inodes v)(i \<mapsto> z\<lparr>i_refcnt := i_refcnt z + 1, i_cnodes := i_cnodes z @ [new]\<rparr>)"
    "\<exists>y. cnodes v2 p = Some y \<and> c_children y = c_children x @ [new] \<and> c_name y = c_name x"
    "\<And>q. q \<noteq> new \<Longrightarrow> q \<noteq> p \<Longrightarrow> cnodes v2 q = cnodes v q"
proof -
  let ?b = "base_str name" and ?cn = "cnodes v"
  obtain z where z: "inodes v i = Some z" "Suc (length (i_cnodes z) + iext i) < 2 ^ 31"
    using room by (auto simp: insert_room_def split: option.splits)
  have room': "Suc (card (users {} (str_of ?cn) ?b) + sext ?b) < 2 ^ 31" "Suc (length (c_children x) + ext p) < 2 ^ 31"
    using room p by (simp_all add: insert_room_def ref_room_def)
  have wf: "path_wf (strings v) name"
    using name by (simp add: is_component_def)
  have pn: "p \<noteq> new"
    using p new by auto
  define y where "y = \<lparr>c_name = name, c_inode = Some i, c_parent = None, c_children = [], c_mountpoint = None,
    c_mounted = None, c_refcnt = 1\<rparr>"
  define ins where "ins = (inodes v)(i \<mapsto> z\<lparr>i_refcnt := i_refcnt z + 1, i_cnodes := i_cnodes z @ [new]\<rparr>)"
  define v1 where "v1 = v\<lparr>strings := bump ?b (strings v), inodes := ins, cnodes := ?cn(new \<mapsto> y)\<rparr>"
  define cn2 where "cn2 = (?cn(new \<mapsto> y))(new \<mapsto> y\<lparr>c_parent := Some p\<rparr>,
    p \<mapsto> x\<lparr>c_refcnt := c_refcnt x + 1, c_children := c_children x @ [new]\<rparr>)"
  have create: "vfs_cache_node_create True new (Some i) (Some name) v = Some (Inr new, v1)"
    using z(1) copy_init_bump [OF wf]
    by (simp add: vfs_cache_node_create_def vfs_cache_node_init_def vfs_inode_ref_def vfs_inode_add_cnode_def set_inode_def
        set_cnode_def refcount_inc_def refcount_init_def v1_def y_def ins_def)
  have ins_child: "insert_child p new v1 = Some (v1\<lparr>cnodes := cn2\<rparr>)"
    using p pn by (simp add: insert_child_def v1_def cn2_def set_cnode_def vfs_cache_node_ref_def refcount_inc_def y_def)
  have "nodes_inv {} (?cn(new \<mapsto> y)) (ext(new := 1))"
    using nodes_add [of ?cn ext new y] new inv(1) by (simp add: cache_inv_def y_def)
  then have "nodes_inv {} cn2 (ext(new := 1))"
    unfolding cn2_def by (rule insert_link) (use p pn room'(2) in \<open>simp_all add: y_def\<close>)
  moreover have of: "ino_of cn2 = ino_of (?cn(new \<mapsto> y))" "str_of cn2 = str_of (?cn(new \<mapsto> y))"
    using p pn by (auto simp: cn2_def ino_of_def str_of_def fun_eq_iff)
  have "inodes_inv {} (ino_of cn2) ins iext"
    using inodes_add [of ?cn "inodes v" iext i z new y] z new inv(1) unfolding of ins_def by (simp add: cache_inv_def y_def)
  moreover have "strings_inv {} (str_of cn2) (bump ?b (strings v)) sext"
    using strings_copy [of ?cn "strings v" sext name new y] wf room'(1) new inv(1) unfolding of by (simp add: cache_inv_def y_def)
  ultimately have inv2: "cache_inv {} (v1\<lparr>cnodes := cn2\<rparr>) (ext(new := 1)) iext sext"
    by (simp add: cache_inv_def v1_def)
  have comp: "is_component (bump b st) q = is_component st q" for b st q
    by (simp add: is_component_def)
  have names: "names_ok (v1\<lparr>cnodes := cn2\<rparr>)"
    using inv(2) name p unfolding names_ok_def by (auto simp: v1_def cn2_def y_def comp)
  show thesis
    by (rule that [OF create ins_child inv2 names]) (use pn z(1) in \<open>auto simp: v1_def cn2_def y_def counts_def ins_def\<close>)
qed

lemma find_append: "find P (xs @ ys) = (case find P xs of None \<Rightarrow> find P ys | Some x \<Rightarrow> Some x)"
  by (induction xs) auto

lemma insert_lookup_cases:
  assumes inv: "cache_inv {} v ext iext sext" "names_ok v" and name: "is_component (strings v) name"
    and tmp: "strings v tmp = None" "tmp \<noteq> 0" and fuel: "0 < fuel" and p: "cnodes v p \<noteq> None"
    and b: "b = path_bytes (strings v) name" "b \<noteq> dot" "b \<noteq> dotdot"
  shows "child_named v p b = None \<Longrightarrow>
      vfs_cache_node_lookup_child fuel tmp m1 m2 (Some p) name v = Some (None, v)"
    and "child_named v p b = Some c \<Longrightarrow> ref_room v ext c \<Longrightarrow>
      (\<exists>v'. vfs_cache_node_lookup_child fuel tmp m1 m2 (Some p) name v = Some (Some c, v')
         \<and> cache_inv {} v' (ext(c := Suc (ext c))) iext sext)
      \<and> vfs_cache_node_insert_child fuel tmp m1 m2 m new (Some p) (Some i) name True v = Some (Inl EEXIST, v)"
    and "child_named v p b = None \<Longrightarrow> cnodes v new = None \<Longrightarrow> insert_room v ext iext sext p i name \<Longrightarrow>
      \<exists>v'. vfs_cache_node_insert_child fuel tmp m1 m2 True new (Some p) (Some i) name True v = Some (Inr (Some new), v')
         \<and> cache_inv {} v' (ext(new := 1)) iext sext \<and> names_ok v'
         \<and> child_named v' p = (child_named v p)(b \<mapsto> new) \<and> (\<forall>q. q \<noteq> p \<longrightarrow> child_named v' q = child_named v q)
         \<and> (\<exists>y. cnodes v' new = Some y \<and> c_inode y = Some i)
         \<and> (\<exists>z. inodes v i = Some z \<and> inodes v' = (inodes v)(i \<mapsto> z\<lparr>i_refcnt := i_refcnt z + 1, i_cnodes := i_cnodes z @ [new]\<rparr>))"
proof -
  obtain x where x: "cnodes v p = Some x"
    using p by blast
  note look = lookup_child_spec [OF inv name tmp fuel x, of m1 m2, folded b(1), OF b(2,3)]
  show "vfs_cache_node_lookup_child fuel tmp m1 m2 (Some p) name v = Some (None, v)" if "child_named v p b = None"
    using look that by simp
  show "(\<exists>v'. vfs_cache_node_lookup_child fuel tmp m1 m2 (Some p) name v = Some (Some c, v')
         \<and> cache_inv {} v' (ext(c := Suc (ext c))) iext sext)
      \<and> vfs_cache_node_insert_child fuel tmp m1 m2 m new (Some p) (Some i) name True v = Some (Inl EEXIST, v)"
    if c: "child_named v p b = Some c" and room: "ref_room v ext c"
  proof -
    obtain y v' where y: "cnodes v c = Some y" "vfs_cache_node_ref (Some c) v = Some v'"
        "v' = set_cnode c (y\<lparr>c_refcnt := c_refcnt y + 1\<rparr>) v" "cache_inv {} v' (ext(c := Suc (ext c))) iext sext"
      by (rule ref_spec [OF inv(1) room])
    have "counts (c_refcnt y) (length (c_children y) + ext c)"
      using nodesD(2) [of "{}" "cnodes v" ext c y] inv(1) y(1) by (simp add: cache_inv_def)
    then have "vfs_cache_node_unref fuel (Some c) v' = Some v"
      using ref_unref(2) [OF y(1) _ _ fuel] room y(1,3) by (simp add: ref_room_def)
    then show ?thesis
      using look c y(2,4) by (auto simp: vfs_cache_node_insert_child_def simp del: fun_upd_apply)
  qed
  show "\<exists>v'. vfs_cache_node_insert_child fuel tmp m1 m2 True new (Some p) (Some i) name True v = Some (Inr (Some new), v')
         \<and> cache_inv {} v' (ext(new := 1)) iext sext \<and> names_ok v'
         \<and> child_named v' p = (child_named v p)(b \<mapsto> new) \<and> (\<forall>q. q \<noteq> p \<longrightarrow> child_named v' q = child_named v q)
         \<and> (\<exists>y. cnodes v' new = Some y \<and> c_inode y = Some i)
         \<and> (\<exists>z. inodes v i = Some z \<and> inodes v' = (inodes v)(i \<mapsto> z\<lparr>i_refcnt := i_refcnt z + 1, i_cnodes := i_cnodes z @ [new]\<rparr>))"
    if none: "child_named v p b = None" and new: "cnodes v new = None" and room: "insert_room v ext iext sext p i name"
  proof (rule insert_new [OF inv name new room x])
    fix v1 v2
    assume create: "vfs_cache_node_create True new (Some i) (Some name) v = Some (Inr new, v1)" "insert_child p new v1 = Some v2"
      and inv2: "cache_inv {} v2 (ext(new := 1)) iext sext" "names_ok v2"
      and st: "strings v2 = bump (base_str name) (strings v)"
      and n: "\<exists>y. cnodes v2 new = Some y \<and> c_name y = name \<and> c_inode y = Some i \<and> counts (c_refcnt y) 1 \<and> c_children y = []"
      and ins: "\<exists>z. inodes v i = Some z \<and> inodes v2 = (inodes v)(i \<mapsto> z\<lparr>i_refcnt := i_refcnt z + 1, i_cnodes := i_cnodes z @ [new]\<rparr>)"
      and pp: "\<exists>y. cnodes v2 p = Some y \<and> c_children y = c_children x @ [new] \<and> c_name y = c_name x"
      and other: "\<And>q. q \<noteq> new \<Longrightarrow> q \<noteq> p \<Longrightarrow> cnodes v2 q = cnodes v q"
    have np: "new \<noteq> p"
      using new p by auto
    obtain y where y: "cnodes v2 new = Some y" "counts (c_refcnt y) 1" "c_name y = name" "c_children y = []"
      using n by blast
    have "vfs_cache_node_insert_child fuel tmp m1 m2 True new (Some p) (Some i) name True v = Some (Inr (Some new), v2)"
      using look none create ref_unref [OF y(1,2) _ fuel] by (simp add: vfs_cache_node_insert_child_def)
    moreover have name2: "node_name v2 q = (if q = new then b else node_name v q)" for q
    proof -
      have "path_bytes (strings v2) w = path_bytes (strings v) w" for w
        by (simp add: st)
      then show ?thesis
        using other [of q] y(1,3) pp x b(1) np by (cases "q = p"; cases "q = new") (auto simp: node_name_def split: option.splits)
    qed
    have noc: "new \<notin> set (c_children w)" if "cnodes v q = Some w" for q w
      using nodesD(1) [of "{}" "cnodes v" ext q w] inv(1) that new by (auto simp: cache_inv_def node_ok_def)
    have find: "find (\<lambda>c. node_name v2 c = b') (c_children w) = find (\<lambda>c. node_name v c = b') (c_children w)"
      if "cnodes v q = Some w" for q w b'
      using noc [OF that] name2 by (intro find_cong) auto
    have "child_named v2 p b' = ((child_named v p)(b \<mapsto> new)) b'" for b'
      using pp x none find [OF x, of b'] name2 [of new] by (auto simp: child_named_def find_append split: option.splits)
    moreover have "child_named v2 q = child_named v q" if "q \<noteq> p" for q
      using that other [of q] y(1,4) new find by (cases "q = new") (auto simp: child_named_def fun_eq_iff split: option.splits)
    ultimately show ?thesis
      using inv2 n ins by (auto simp: fun_eq_iff simp del: fun_upd_apply)
  qed
qed

text \<open>
  C21: inserting a node and looking it up.  In a directory of the cache, a name of one component (other than
  the two dots) is inserted exactly when no child has that name, and \<^verbatim>\<open>EEXIST\<close> is returned with the cache unchanged
  otherwise.  After the insertion the name denotes the new node, whose only reference is the caller's, every
  other name denotes what it did before, and the reference counts of nodes, inodes and strings agree.  Looking
  up returns the node that the name denotes, with one reference more.
\<close>

theorem cache_insert_lookup:
  assumes inv: "cache_inv {} v ext iext sext" "names_ok v" and name: "is_component (strings v) name"
    and tmp: "strings v tmp = None" "tmp \<noteq> 0" and fuel: "0 < fuel" and p: "cnodes v p \<noteq> None"
    and b: "b = path_bytes (strings v) name" "b \<noteq> dot" "b \<noteq> dotdot"
    and new: "cnodes v new = None" and room: "insert_room v ext iext sext p i name" "\<forall>c. child_named v p b = Some c \<longrightarrow> ref_room v ext c"
  shows "case child_named v p b of
      Some c \<Rightarrow>
        (\<exists>v'. vfs_cache_node_lookup_child fuel tmp m1 m2 (Some p) name v = Some (Some c, v')
           \<and> cache_inv {} v' (ext(c := Suc (ext c))) iext sext)
        \<and> vfs_cache_node_insert_child fuel tmp m1 m2 m new (Some p) (Some i) name True v = Some (Inl EEXIST, v)
    | None \<Rightarrow>
        vfs_cache_node_lookup_child fuel tmp m1 m2 (Some p) name v = Some (None, v)
        \<and> vfs_cache_node_insert_child fuel tmp m1 m2 False new (Some p) (Some i) name True v = Some (Inl ENOMEM, v)
        \<and> (\<exists>v'. vfs_cache_node_insert_child fuel tmp m1 m2 True new (Some p) (Some i) name True v = Some (Inr (Some new), v')
           \<and> cache_inv {} v' (ext(new := 1)) iext sext \<and> names_ok v'
           \<and> child_named v' p = (child_named v p)(b \<mapsto> new) \<and> (\<forall>q. q \<noteq> p \<longrightarrow> child_named v' q = child_named v q))"
proof (cases "child_named v p b")
  case None
  note r = insert_lookup_cases [OF inv name tmp fuel p b]
  have "vfs_cache_node_insert_child fuel tmp m1 m2 False new (Some p) (Some i) name True v = Some (Inl ENOMEM, v)"
    using r(1) [OF None] by (simp add: vfs_cache_node_insert_child_def vfs_cache_node_create_def)
  moreover obtain v' where "vfs_cache_node_insert_child fuel tmp m1 m2 True new (Some p) (Some i) name True v = Some (Inr (Some new), v')
      \<and> cache_inv {} v' (ext(new := 1)) iext sext \<and> names_ok v'
      \<and> child_named v' p = (child_named v p)(b \<mapsto> new) \<and> (\<forall>q. q \<noteq> p \<longrightarrow> child_named v' q = child_named v q)"
    using r(3) [OF None new room(1)] by blast
  ultimately show ?thesis
    using None r(1) [OF None] by auto
next
  case (Some c)
  then show ?thesis
    using insert_lookup_cases(2) [OF inv name tmp fuel p b Some] room(2) by simp
qed

text \<open>
  A cache with a root directory (node 1, inode 10) that has one child \<^verbatim>\<open>a\<close> (node 2, inode 11).  The kernel
  holds one reference on each node and on the string \<^verbatim>\<open>ab\<close>, a prefix of which names the child.
\<close>

definition sample_cache :: vcache where
  "sample_cache = \<lparr>
     inodes = [10 \<mapsto> \<lparr>i_type = DIRECTORY, i_sb = None, i_op = False, i_private = None, i_header = None, i_cnodes = [1], i_refcnt = 2\<rparr>,
               11 \<mapsto> \<lparr>i_type = REGULAR, i_sb = Some 5, i_op = True, i_private = None, i_header = None, i_cnodes = [2], i_refcnt = 1\<rparr>],
     cnodes = [1 \<mapsto> \<lparr>c_name = \<lparr>base_str = 20, p_offset = 0, p_size = 1\<rparr>, c_inode = Some 10, c_parent = None,
                     c_children = [2], c_mountpoint = None, c_mounted = None, c_refcnt = 2\<rparr>,
               2 \<mapsto> \<lparr>c_name = \<lparr>base_str = 21, p_offset = 0, p_size = 1\<rparr>, c_inode = Some 11, c_parent = Some 1,
                     c_children = [], c_mountpoint = None, c_mounted = None, c_refcnt = 1\<rparr>],
     strings = [20 \<mapsto> \<lparr>ps_str = [47], ps_size = 1, ps_refcnt = 1\<rparr>, 21 \<mapsto> \<lparr>ps_str = [97, 98], ps_size = 2, ps_refcnt = 2\<rparr>],
     cache_node_root = Some 1\<rparr>"

definition sample_ext :: "nat \<Rightarrow> nat" where "sample_ext n = (if n = 1 \<or> n = 2 then 1 else 0)"
definition sample_iext :: "nat \<Rightarrow> nat" where "sample_iext n = (if n = 10 then 1 else 0)"
definition sample_sext :: "nat \<Rightarrow> nat" where "sample_sext n = (if n = 21 then 1 else 0)"

lemma sample_users:
  "users {} (str_of (cnodes sample_cache)) b = (if b = 20 then {1} else if b = 21 then {2} else {})"
  by (auto simp: users_def str_of_def sample_cache_def split: if_splits)

lemma sample_inv: "cache_inv {} sample_cache sample_ext sample_iext sample_sext"
  unfolding cache_inv_def
proof (intro conjI)
  show "nodes_inv {} (cnodes sample_cache) sample_ext"
    by (auto simp: nodes_inv_def node_ok_def counts_def sample_cache_def sample_ext_def split: if_splits)
  show "inodes_inv {} (ino_of (cnodes sample_cache)) (inodes sample_cache) sample_iext"
    by (auto simp: inodes_inv_def inode_ok_def counts_def sample_cache_def sample_iext_def ino_of_def split: if_splits)
  show "strings_inv {} (str_of (cnodes sample_cache)) (strings sample_cache) sample_sext"
    unfolding strings_inv_def sample_users by (auto simp: counts_def sample_cache_def sample_sext_def split: if_splits)
qed

theorem cache_references_balance_witness:
  "(\<exists>v'. vfs_cache_node_ref (Some 2) sample_cache = Some v'
      \<and> cache_inv {} v' (sample_ext(2 := Suc (sample_ext 2))) sample_iext sample_sext)
   \<and> (\<exists>v'. vfs_cache_node_unref 3 (Some 2) sample_cache = Some v'
      \<and> cache_inv {} v' (sample_ext(2 := sample_ext 2 - 1)) sample_iext sample_sext)"
proof -
  have "dom (cnodes sample_cache) = {1, 2}"
    by (auto simp: sample_cache_def split: if_splits)
  then have "card (dom (cnodes sample_cache)) < 3"
    by simp
  moreover have "ref_room sample_cache sample_ext 2" "0 < sample_ext 2"
    by (simp_all add: ref_room_def sample_cache_def sample_ext_def)
  ultimately show ?thesis
    using cache_references_balance [OF sample_inv, of 2] by blast
qed

text \<open>The path \<open>ab\<close>, inserted below the root.\<close>

theorem cache_insert_lookup_witness:
  "\<exists>v'. vfs_cache_node_insert_child 1 30 True True True 3 (Some 1) (Some 11)
         \<lparr>base_str = 21, p_offset = 0, p_size = 2\<rparr> True sample_cache = Some (Inr (Some 3), v')
     \<and> cache_inv {} v' (sample_ext(3 := 1)) sample_iext sample_sext \<and> names_ok v'
     \<and> child_named v' 1 = (child_named sample_cache 1)([97, 98] \<mapsto> 3)
     \<and> (\<forall>q. q \<noteq> 1 \<longrightarrow> child_named v' q = child_named sample_cache q)"
proof -
  let ?name = "\<lparr>base_str = 21, p_offset = 0, p_size = 2\<rparr>"
  have b: "path_bytes (strings sample_cache) ?name = [97, 98]"
    by (simp add: path_bytes_def base_bytes_def sample_cache_def)
  have c: "is_component (strings sample_cache) ?name" "names_ok sample_cache"
    by (auto simp: is_component_def names_ok_def path_wf_def path_bytes_def base_bytes_def sample_cache_def split: if_splits)
  have "child_named sample_cache 1 [97, 98] = None" "strings sample_cache 30 = None" "cnodes sample_cache 3 = None"
    "cnodes sample_cache 1 \<noteq> None"
    by (simp_all add: child_named_def node_name_def path_bytes_def base_bytes_def sample_cache_def)
  moreover have "insert_room sample_cache sample_ext sample_iext sample_sext 1 11 ?name"
    unfolding insert_room_def sample_users
    by (simp add: ref_room_def sample_cache_def sample_ext_def sample_iext_def sample_sext_def)
  ultimately show ?thesis
    using cache_insert_lookup [OF sample_inv c(2,1), of 30 1 1 "[97, 98]" 3 11 True True] b
    by (simp add: dot_def dotdot_def)
qed

end
