(* ===== verification/Fs_File.thy ===== *)
theory Fs_File
  imports Fs_Cache Fs_Pipe Fs_Tty
begin

text \<open>
  Open files and file descriptors: \<^verbatim>\<open>fs/file.c\<close>, \<^verbatim>\<open>vfs_close\<close> of \<^verbatim>\<open>fs/vfs.c\<close>, \<^verbatim>\<open>sys_close\<close> of \<^verbatim>\<open>fs/io.c\<close>, \<^verbatim>\<open>sys_pipe\<close> of
  \<^verbatim>\<open>fs/pipe.c\<close>, and the descriptor table of \<^verbatim>\<open>kernel/process.c\<close>.

  Files, pipes and terminals are found by address; a freed object is not in its map.  The table of a process
  is a list of \<open>PROCESS_MAX_FD\<close> entries; an access outside it is \<open>None\<close>.  The operations of a file are
  identified by the structure that \<^verbatim>\<open>op\<close> points to.  Interrupts are off inside the critical sections of the
  table, so each operation on it is one step.
\<close>

section \<open>The model\<close>

subsection \<open>Open files\<close>

datatype fops = No_fops | Pipe_fops | Fifo_fops | Ramfs_fops | Tty_fops

record vfs_file =
  f_cnode :: "nat option"
  f_cur :: int
  f_flags :: int
  f_readdir :: "nat list"
  f_op :: fops
  f_pipe :: "nat option"
  f_refcnt :: refcount

record fstate =
  files :: "nat \<Rightarrow> vfs_file option"
  pipes :: "nat \<Rightarrow> pipe option"
  ttys :: "nat \<Rightarrow> tty option"
  vfs :: vcache

definition set_file :: "nat \<Rightarrow> vfs_file \<Rightarrow> fstate \<Rightarrow> fstate" where
  "set_file f x s = s\<lparr>files := (files s)(f \<mapsto> x)\<rparr>"

definition vfs_file_init_data_fields :: "int \<Rightarrow> fops \<Rightarrow> vfs_file \<Rightarrow> vfs_file" where
  "vfs_file_init_data_fields cur op x = x\<lparr>f_cur := cur, f_op := op\<rparr>"

definition vfs_file_init :: "nat \<Rightarrow> nat option \<Rightarrow> int \<Rightarrow> fstate \<Rightarrow> fstate option" where
  "vfs_file_init f cnode flags s = do {
     v \<leftarrow> vfs_cache_node_ref cnode (vfs s);
     Some (set_file f (vfs_file_init_data_fields 0 No_fops
       \<lparr>f_cnode = cnode, f_cur = 0, f_flags = flags, f_readdir = [], f_op = No_fops, f_pipe = None,
        f_refcnt = refcount_init\<rparr>) (s\<lparr>vfs := v\<rparr>)) }"

text \<open>\<open>new\<close> is what \<^verbatim>\<open>kmalloc\<close> returns.\<close>

definition vfs_file_create :: "nat option \<Rightarrow> nat option \<Rightarrow> int \<Rightarrow> fstate \<Rightarrow> (nat result \<times> fstate) option" where
  "vfs_file_create new cnode flags s =
     (case new of
        None \<Rightarrow> Some (Inl ENOMEM, s)
      | Some f \<Rightarrow> map_option (Pair (Inr f)) (vfs_file_init f cnode flags s))"

definition vfs_file_ref :: "nat \<Rightarrow> fstate \<Rightarrow> fstate option" where
  "vfs_file_ref f s = do {
     x \<leftarrow> files s f;
     Some (set_file f (x\<lparr>f_refcnt := snd (refcount_inc (f_refcnt x))\<rparr>) s) }"

definition vfs_file_release :: "nat \<Rightarrow> fstate \<Rightarrow> fstate option" where
  "vfs_file_release f s = do {
     x \<leftarrow> files s f;
     Some (set_file f (x\<lparr>f_refcnt := snd (refcount_dec (f_refcnt x))\<rparr>) s) }"

definition vfs_file_get_ref :: "nat \<Rightarrow> fstate \<Rightarrow> int option" where
  "vfs_file_get_ref f s = map_option (\<lambda>x. refcount_get (f_refcnt x)) (files s f)"

definition clear_readdir_cache :: "nat \<Rightarrow> vfs_file \<Rightarrow> vcache \<Rightarrow> vcache option" where
  "clear_readdir_cache fuel x v = unref_nodes (unref_node fuel) (f_readdir x) v"

definition vfs_file_reset :: "nat \<Rightarrow> nat \<Rightarrow> fstate \<Rightarrow> fstate option" where
  "vfs_file_reset fuel f s = do {
     x \<leftarrow> files s f;
     v \<leftarrow> vfs_cache_node_unref fuel (f_cnode x) (vfs s);
     v \<leftarrow> clear_readdir_cache fuel x v;
     Some (s\<lparr>vfs := v\<rparr>) }"

definition vfs_file_destroy :: "nat \<Rightarrow> nat \<Rightarrow> fstate \<Rightarrow> fstate option" where
  "vfs_file_destroy fuel f s = do {
     s \<leftarrow> vfs_file_reset fuel f s;
     Some (s\<lparr>files := (files s)(f := None)\<rparr>) }"

definition vfs_file_unref :: "nat \<Rightarrow> nat \<Rightarrow> fstate \<Rightarrow> fstate option" where
  "vfs_file_unref fuel f s = do {
     x \<leftarrow> files s f;
     let (n, rc) = refcount_dec (f_refcnt x);
     let s = set_file f (x\<lparr>f_refcnt := rc\<rparr>) s;
     if n = 0 then vfs_file_destroy fuel f s else Some s }"

definition vfs_file_get_inode :: "nat \<Rightarrow> fstate \<Rightarrow> nat option option" where
  "vfs_file_get_inode f s = do {
     x \<leftarrow> files s f;
     case f_cnode x of None \<Rightarrow> Some None | Some n \<Rightarrow> map_option c_inode (cnodes (vfs s) n) }"

definition vfs_file_add_readdir_entry :: "nat \<Rightarrow> nat \<Rightarrow> fstate \<Rightarrow> fstate option" where
  "vfs_file_add_readdir_entry f entry s = do {
     x \<leftarrow> files s f;
     v \<leftarrow> vfs_cache_node_ref (Some entry) (vfs s);
     Some (set_file f (x\<lparr>f_readdir := f_readdir x @ [entry]\<rparr>) (s\<lparr>vfs := v\<rparr>)) }"

text \<open>
  Copying a file for a child process.  The copy of a FIFO may have to wait for another process; then the
  result is \<open>Block\<close>.
\<close>

definition file_copy_create :: "nat option \<Rightarrow> nat \<Rightarrow> fstate \<Rightarrow> (nat result \<times> fstate) option" where
  "file_copy_create new f s = do {
     x \<leftarrow> files s f;
     (r, s) \<leftarrow> vfs_file_create new (f_cnode x) (f_flags x) s;
     case r of
       Inl e \<Rightarrow> Some (Inl e, s)
     | Inr c \<Rightarrow> do {
         y \<leftarrow> files s c;
         Some (Inr c, set_file c (vfs_file_init_data_fields (f_cur x) (f_op x) y) s) } }"

definition copy_end :: "nat \<Rightarrow> nat \<Rightarrow> fstate \<Rightarrow> (unit result outcome \<times> fstate) option" where
  "copy_end f c s = do {
     x \<leftarrow> files s f;
     y \<leftarrow> files s c;
     i \<leftarrow> vfs_file_get_inode f s;
     case i of
       Some i \<Rightarrow> do {
         z \<leftarrow> inodes (vfs s) i;
         if i_type z = FIFO then do {
           p \<leftarrow> i_private z;
           q \<leftarrow> pipes s p;
           let (r, q) = fifo_copy q (f_flags x);
           Some (r, s\<lparr>pipes := (pipes s)(p \<mapsto> q)\<rparr>) }
         else Some (Done (Inr ()), s) }
     | None \<Rightarrow> do {
         p \<leftarrow> f_pipe x;
         q \<leftarrow> pipes s p;
         let (r, q) = pipe_copy q (f_flags x);
         Some (r, set_file c (y\<lparr>f_pipe := Some p\<rparr>) (s\<lparr>pipes := (pipes s)(p \<mapsto> q)\<rparr>)) } }"

definition vfs_file_copy_create :: "nat \<Rightarrow> nat option \<Rightarrow> nat \<Rightarrow> fstate \<Rightarrow> (nat result outcome \<times> fstate) option" where
  "vfs_file_copy_create fuel new f s = do {
     (r, s) \<leftarrow> file_copy_create new f s;
     case r of
       Inl e \<Rightarrow> Some (Done (Inl e), s)
     | Inr c \<Rightarrow> do {
         (r, s) \<leftarrow> copy_end f c s;
         case r of
           Block \<Rightarrow> Some (Block, s)
         | Done (Inr _) \<Rightarrow> Some (Done (Inr c), s)
         | Done (Inl e) \<Rightarrow> map_option (Pair (Done (Inl e))) (vfs_file_unref fuel c s) } }"

text \<open>
  Closing calls the \<^verbatim>\<open>close\<close> of the file: \<^verbatim>\<open>pipe_close\<close>, \<^verbatim>\<open>fifo_close\<close>, \<^verbatim>\<open>ramfs_close\<close> (which does nothing) or \<^verbatim>\<open>tty_close\<close>.
\<close>

definition pipe_close :: "nat \<Rightarrow> fstate \<Rightarrow> fstate option" where
  "pipe_close f s = do {
     x \<leftarrow> files s f;
     p \<leftarrow> f_pipe x;
     q \<leftarrow> pipes s p;
     (_, q) \<leftarrow> pipe_close_ends q (f_flags x);
     Some (set_file f (x\<lparr>f_pipe := None\<rparr>) (s\<lparr>pipes := (pipes s)(p := q)\<rparr>)) }"

definition fifo_close_file :: "nat \<Rightarrow> fstate \<Rightarrow> fstate option" where
  "fifo_close_file f s = do {
     x \<leftarrow> files s f;
     i \<leftarrow> vfs_file_get_inode f s;
     i \<leftarrow> i;
     z \<leftarrow> inodes (vfs s) i;
     p \<leftarrow> i_private z;
     q \<leftarrow> pipes s p;
     (ret, q) \<leftarrow> pipe_close_ends q (f_flags x);
     let s = s\<lparr>pipes := (pipes s)(p := q)\<rparr>;
     Some (if ret = 0 then s\<lparr>vfs := set_inode i (z\<lparr>i_private := None\<rparr>) (vfs s)\<rparr> else s) }"

definition tty_close_file :: "nat \<Rightarrow> fstate \<Rightarrow> (unit result \<times> fstate) option" where
  "tty_close_file f s = do {
     i \<leftarrow> vfs_file_get_inode f s;
     i \<leftarrow> i;
     z \<leftarrow> inodes (vfs s) i;
     case i_private z of
       None \<Rightarrow> Some (Inl EIO, s)
     | Some t \<Rightarrow> do { tty \<leftarrow> ttys s t; Some (Inr (), s\<lparr>ttys := (ttys s)(t \<mapsto> tty_close tty)\<rparr>) } }"

definition vfs_close :: "nat \<Rightarrow> fstate \<Rightarrow> (unit result \<times> fstate) option" where
  "vfs_close f s = do {
     x \<leftarrow> files s f;
     case f_op x of
       No_fops \<Rightarrow> Some (Inr (), s)
     | Pipe_fops \<Rightarrow> map_option (Pair (Inr ())) (pipe_close f s)
     | Fifo_fops \<Rightarrow> map_option (Pair (Inr ())) (fifo_close_file f s)
     | Ramfs_fops \<Rightarrow> Some (Inr (), s)
     | Tty_fops \<Rightarrow> tty_close_file f s }"

subsection \<open>The descriptor table\<close>

abbreviation PROCESS_MAX_FD :: nat where "PROCESS_MAX_FD \<equiv> 16"

type_synonym fdtab = "nat option list"

fun add_file_from :: "nat \<Rightarrow> nat \<Rightarrow> nat \<Rightarrow> fdtab \<Rightarrow> fstate \<Rightarrow> (nat result \<times> fdtab \<times> fstate) option" where
  "add_file_from 0 i f fds s = Some (Inl EMFILE, fds, s)"
| "add_file_from (Suc k) i f fds s =
     (if i < length fds then
        if fds ! i = None then do { s \<leftarrow> vfs_file_ref f s; Some (Inr i, fds[i := Some f], s) }
        else add_file_from k (Suc i) f fds s
      else None)"

definition process_add_file :: "nat \<Rightarrow> fdtab \<Rightarrow> fstate \<Rightarrow> (nat result \<times> fdtab \<times> fstate) option" where
  "process_add_file f fds s = add_file_from PROCESS_MAX_FD 0 f fds s"

definition process_add_file_at :: "nat \<Rightarrow> int \<Rightarrow> fdtab \<Rightarrow> fstate \<Rightarrow> (unit result \<times> fdtab \<times> fstate) option" where
  "process_add_file_at f fd fds s =
     (if fd < 0 \<or> fd \<ge> int PROCESS_MAX_FD then Some (Inl EBADF, fds, s)
      else if nat fd < length fds then
        if fds ! nat fd \<noteq> None then Some (Inl EBADF, fds, s)
        else do { s \<leftarrow> vfs_file_ref f s; Some (Inr (), fds[nat fd := Some f], s) }
      else None)"

text \<open>
  \<open>want\<close>: the caller asks for the removed file.  The second component is what is stored for the caller: nothing if the descriptor is
  too large.  A negative descriptor is not refused.
\<close>

definition process_remove_file ::
  "int \<Rightarrow> bool \<Rightarrow> fdtab \<Rightarrow> fstate \<Rightarrow> (unit result \<times> nat option \<times> fdtab \<times> fstate) option" where
  "process_remove_file fd want fds s =
     (if fd < int PROCESS_MAX_FD then
        if 0 \<le> fd \<and> nat fd < length fds then
          (case fds ! nat fd of
             None \<Rightarrow> Some (Inl EBADF, None, fds, s)
           | Some f \<Rightarrow> do {
               s \<leftarrow> (if want then vfs_file_release f s else Some s);
               Some (Inr (), if want then Some f else None, fds[nat fd := None], s) })
        else None
      else Some (Inr (), None, fds, s))"

definition process_get_file :: "int \<Rightarrow> fdtab \<Rightarrow> nat option option" where
  "process_get_file fd fds =
     (if fd < int PROCESS_MAX_FD then if 0 \<le> fd \<and> nat fd < length fds then Some (fds ! nat fd) else None
      else Some None)"

fun copy_fds_from ::
  "nat \<Rightarrow> nat list \<Rightarrow> nat list \<Rightarrow> fdtab \<Rightarrow> fdtab \<Rightarrow> fstate \<Rightarrow> (unit result outcome \<times> fdtab \<times> fstate) option" where
  "copy_fds_from fuel [] news fds child s = Some (Done (Inr ()), child, s)"
| "copy_fds_from fuel (i # is) news fds child s =
     (if i < length fds \<and> i < length child then
        (case fds ! i of
           None \<Rightarrow> copy_fds_from fuel is news fds child s
         | Some f \<Rightarrow> do {
             (r, s) \<leftarrow> vfs_file_copy_create fuel (case news of [] \<Rightarrow> None | c # _ \<Rightarrow> Some c) f s;
             case r of
               Block \<Rightarrow> Some (Block, child, s)
             | Done (Inl e) \<Rightarrow> Some (Done (Inl e), child, s)
             | Done (Inr c) \<Rightarrow> copy_fds_from fuel is (tl news) fds (child[i := Some c]) s })
      else None)"

text \<open>\<open>news\<close> are the addresses that the successive calls of \<^verbatim>\<open>kmalloc\<close> return; it fails when they are used up.\<close>

definition copy_fds ::
  "nat \<Rightarrow> nat list \<Rightarrow> fdtab \<Rightarrow> fdtab \<Rightarrow> fstate \<Rightarrow> (unit result outcome \<times> fdtab \<times> fstate) option" where
  "copy_fds fuel news fds child s = copy_fds_from fuel [0..<PROCESS_MAX_FD] news fds child s"

text \<open>Closing all files of a process; the entries of the table are not cleared.\<close>

definition close_file :: "nat \<Rightarrow> nat \<Rightarrow> fstate \<Rightarrow> fstate option" where
  "close_file fuel f s = do {
     n \<leftarrow> vfs_file_get_ref f s;
     s \<leftarrow> (if n = 1 then map_option snd (vfs_close f s) else Some s);
     vfs_file_unref fuel f s }"

fun close_fds :: "nat \<Rightarrow> fdtab \<Rightarrow> fstate \<Rightarrow> fstate option" where
  "close_fds fuel [] s = Some s"
| "close_fds fuel (fd # fds) s = do {
     s \<leftarrow> (case fd of None \<Rightarrow> Some s | Some f \<Rightarrow> close_file fuel f s);
     close_fds fuel fds s }"

subsection \<open>System calls\<close>

definition sys_close :: "nat \<Rightarrow> int \<Rightarrow> fdtab \<Rightarrow> fstate \<Rightarrow> (unit result \<times> fdtab \<times> fstate) option" where
  "sys_close fuel fd fds s = do {
     (r, removed, fds, s) \<leftarrow> process_remove_file fd True fds s;
     case r of
       Inl e \<Rightarrow> Some (Inl e, fds, s)
     | Inr _ \<Rightarrow> do {
         f \<leftarrow> removed;
         s \<leftarrow> vfs_file_ref f s;
         n \<leftarrow> vfs_file_get_ref f s;
         (r, s) \<leftarrow> (if n = 1 then vfs_close f s else Some (Inr (), s));
         s \<leftarrow> vfs_file_unref fuel f s;
         Some (r, fds, s) } }"

definition sys_dup :: "int \<Rightarrow> fdtab \<Rightarrow> fstate \<Rightarrow> (nat result \<times> fdtab \<times> fstate) option" where
  "sys_dup oldfd fds s = do {
     old \<leftarrow> process_get_file oldfd fds;
     case old of
       None \<Rightarrow> Some (Inl EBADF, fds, s)
     | Some f \<Rightarrow> process_add_file f fds s }"

definition sys_dup2 :: "nat \<Rightarrow> int \<Rightarrow> int \<Rightarrow> fdtab \<Rightarrow> fstate \<Rightarrow> (int result \<times> fdtab \<times> fstate) option" where
  "sys_dup2 fuel oldfd newfd fds s = do {
     old \<leftarrow> process_get_file oldfd fds;
     case old of
       None \<Rightarrow> Some (Inl EBADF, fds, s)
     | Some f \<Rightarrow>
         if oldfd = newfd then Some (Inr newfd, fds, s)
         else do {
           new \<leftarrow> process_get_file newfd fds;
           (fds, s) \<leftarrow> (case new of
               None \<Rightarrow> Some (fds, s)
             | Some g \<Rightarrow> do {
                 s \<leftarrow> vfs_file_ref g s;
                 s \<leftarrow> vfs_file_ref g s;
                 (_, _, fds, s) \<leftarrow> process_remove_file newfd False fds s;
                 n \<leftarrow> vfs_file_get_ref g s;
                 s \<leftarrow> (if n = 1 then map_option snd (vfs_close g s) else Some s);
                 s \<leftarrow> vfs_file_unref fuel g s;
                 Some (fds, s) });
           (r, fds, s) \<leftarrow> process_add_file_at f newfd fds s;
           Some (map_sum id (\<lambda>_. newfd) r, fds, s) } }"

text \<open>
  The two ends of a pipe.  \<open>mem\<close> is the memory of the new pipe at address \<open>p\<close>, \<open>r\<close> and \<open>w\<close> are the new files (or
  nothing when \<^verbatim>\<open>kmalloc\<close> fails), and \<open>copy_ok\<close> says whether the two descriptors can be stored for the caller.
\<close>

definition create_pipe_file :: "nat option \<Rightarrow> nat \<Rightarrow> int \<Rightarrow> fstate \<Rightarrow> (nat result \<times> fstate) option" where
  "create_pipe_file new p flags s = do {
     (r, s) \<leftarrow> vfs_file_create new None flags s;
     case r of
       Inl e \<Rightarrow> Some (Inl e, s)
     | Inr f \<Rightarrow> do {
         x \<leftarrow> files s f;
         q \<leftarrow> pipes s p;
         let (_, q) = pipe_acquire q flags False;
         Some (Inr f, set_file f (x\<lparr>f_pipe := Some p, f_op := Pipe_fops\<rparr>) (s\<lparr>pipes := (pipes s)(p \<mapsto> q)\<rparr>)) } }"

definition pipe_destroy :: "nat \<Rightarrow> fstate \<Rightarrow> fstate" where
  "pipe_destroy p s = s\<lparr>pipes := (pipes s)(p := None)\<rparr>"

definition sys_pipe_add ::
  "nat \<Rightarrow> bool \<Rightarrow> nat \<Rightarrow> nat \<Rightarrow> fdtab \<Rightarrow> fstate \<Rightarrow> ((nat \<times> nat) result \<times> fdtab \<times> fstate) option" where
  "sys_pipe_add fuel copy_ok r w fds s = do {
     (r0, fds, s) \<leftarrow> process_add_file r fds s;
     case r0 of
       Inl e \<Rightarrow> Some (Inl e, fds, s)
     | Inr k0 \<Rightarrow> do {
         (r1, fds, s) \<leftarrow> process_add_file w fds s;
         case r1 of
           Inl e \<Rightarrow> do {
             (_, _, fds, s) \<leftarrow> process_remove_file (int k0) False fds s;
             Some (Inl e, fds, s) }
         | Inr k1 \<Rightarrow>
             if copy_ok then Some (Inr (k0, k1), fds, s)
             else do {
               (_, _, fds, s) \<leftarrow> process_remove_file (int k1) False fds s;
               (_, _, fds, s) \<leftarrow> process_remove_file (int k0) False fds s;
               Some (Inl EFAULT, fds, s) } } }"

definition sys_pipe ::
  "nat \<Rightarrow> byte list option \<Rightarrow> nat \<Rightarrow> nat option \<Rightarrow> nat option \<Rightarrow> bool \<Rightarrow> fdtab \<Rightarrow> fstate
     \<Rightarrow> ((nat \<times> nat) result \<times> fdtab \<times> fstate) option" where
  "sys_pipe fuel mem p new_r new_w copy_ok fds s =
     (case pipe_create mem of
        Inl e \<Rightarrow> Some (Inl e, fds, s)
      | Inr q \<Rightarrow> do {
          let s = s\<lparr>pipes := (pipes s)(p \<mapsto> q)\<rparr>;
          (r, s) \<leftarrow> create_pipe_file new_r p O_RDONLY s;
          case r of
            Inl e \<Rightarrow> Some (Inl e, fds, pipe_destroy p s)
          | Inr r \<Rightarrow> do {
              (w, s) \<leftarrow> create_pipe_file new_w p O_WRONLY s;
              case w of
                Inl e \<Rightarrow> do {
                  s \<leftarrow> vfs_file_unref fuel r s;
                  Some (Inl e, fds, pipe_destroy p s) }
              | Inr w \<Rightarrow> do {
                  (res, fds, s) \<leftarrow> sys_pipe_add fuel copy_ok r w fds s;
                  case res of
                    Inl e \<Rightarrow> do {
                      s \<leftarrow> vfs_file_unref fuel w s;
                      s \<leftarrow> vfs_file_unref fuel r s;
                      Some (Inl e, fds, pipe_destroy p s) }
                  | Inr ks \<Rightarrow> do {
                      s \<leftarrow> vfs_file_unref fuel r s;
                      s \<leftarrow> vfs_file_unref fuel w s;
                      Some (Inr ks, fds, s) } } } })"

end
