(* ===== verification/Fs_Desc.thy ===== *)
theory Fs_Desc
  imports Fs_File
begin

text \<open>
  The reference counts of open files: the descriptors that refer to a file, the pipe ends and the cache
  nodes that the open files hold, and how the system calls on descriptors keep them in balance.
\<close>

section \<open>Dropping several references on cache nodes\<close>

lemma unref_nodes_dom:
  assumes "\<And>n v v'. unref n v = Some v' \<Longrightarrow> dom (cnodes v') \<subseteq> dom (cnodes v)"
    and "unref_nodes unref ns v = Some v'"
  shows "dom (cnodes v') \<subseteq> dom (cnodes v)"
  using assms(2)
proof (induction ns arbitrary: v)
  case (Cons n ns)
  then obtain w where "unref n v = Some w" "unref_nodes unref ns w = Some v'"
    by (auto split: bind_splits)
  then show ?case
    using assms(1) Cons.IH by blast
qed simp

lemma inode_ops_cnodes:
  "vfs_inode_remove_cnode i n v = Some v' \<Longrightarrow> cnodes v' = cnodes v"
  "vfs_inode_unref i v = Some v' \<Longrightarrow> cnodes v' = cnodes v"
  by (auto simp: vfs_inode_remove_cnode_def vfs_inode_unref_def set_inode_def split: bind_splits if_splits prod.splits)

lemma unref_node_dom: "unref_node fuel n v = Some v' \<Longrightarrow> dom (cnodes v') \<subseteq> dom (cnodes v)"
proof (induction fuel arbitrary: n v v')
  case (Suc fuel)
  obtain x where x: "cnodes v n = Some x"
    using Suc.prems by (auto split: bind_splits)
  obtain cnt rc where rc: "refcount_dec (c_refcnt x) = (cnt, rc)"
    by (cases "refcount_dec (c_refcnt x)")
  let ?v = "set_cnode n (x\<lparr>c_refcnt := rc\<rparr>) v"
  have v: "dom (cnodes ?v) = dom (cnodes v)"
    using x by (auto simp: set_cnode_def)
  have cn: "cnodes ?v n = Some (x\<lparr>c_refcnt := rc\<rparr>)"
    by (simp add: set_cnode_def)
  show ?case
  proof (cases "cnt = 0")
    case False
    then show ?thesis
      using Suc.prems x rc v by simp
  next
    case True
    then obtain w where w: "vfs_cache_node_reset (unref_node fuel) n ?v = Some w" "v' = w\<lparr>cnodes := (cnodes w)(n := None)\<rparr>"
      using Suc.prems x rc by (auto simp: vfs_cache_node_destroy_def split: bind_splits)
    then obtain st a b where a: "(case c_inode x of None \<Rightarrow> Some (?v\<lparr>strings := st\<rparr>)
          | Some i \<Rightarrow> do { v \<leftarrow> vfs_inode_remove_cnode i n (?v\<lparr>strings := st\<rparr>); vfs_inode_unref i v }) = Some a"
        and b: "(case c_parent x of None \<Rightarrow> Some a | Some p \<Rightarrow> do { v \<leftarrow> erase_child p n a; unref_node fuel p v }) = Some b"
        and c: "unref_nodes (unref_node fuel) (c_children x) b = Some w"
      using cn by (auto simp: vfs_cache_node_reset_def Let_def split: bind_splits)
    have "cnodes a = cnodes ?v"
      using a by (auto simp: inode_ops_cnodes split: option.splits bind_splits)
    moreover have "dom (cnodes b) \<subseteq> dom (cnodes a)"
    proof (cases "c_parent x")
      case (Some p)
      then obtain d where d: "erase_child p n a = Some d" "unref_node fuel p d = Some b"
        using b by (auto split: bind_splits)
      have "dom (cnodes d) = dom (cnodes a)"
        using d(1) by (auto simp: erase_child_def set_cnode_def split: bind_splits if_splits)
      then show ?thesis
        using Suc.IH [OF d(2)] by simp
    qed (use b in simp)
    moreover have "dom (cnodes w) \<subseteq> dom (cnodes b)"
      using unref_nodes_dom [OF Suc.IH c] .
    moreover have "dom (cnodes v') \<subseteq> dom (cnodes w)"
      by (auto simp: w(2) split: if_splits)
    ultimately show ?thesis
      using v by auto
  qed
qed simp

lemma unref_nodes_spec:
  assumes "cache_inv {} v ext iext sext" "\<And>n. count_list ns n \<le> ext n" "card (dom (cnodes v)) < fuel"
  shows "\<exists>v'. unref_nodes (unref_node fuel) ns v = Some v' \<and> cache_inv {} v' (\<lambda>n. ext n - count_list ns n) iext sext
           \<and> dom (cnodes v') \<subseteq> dom (cnodes v)"
  using assms
proof (induction ns arbitrary: v ext)
  case (Cons n ns)
  have "0 < ext n"
    using Cons.prems(2) [of n] by simp
  then obtain w where w: "unref_node fuel n v = Some w" "cache_inv {} w (ext(n := ext n - 1)) iext sext"
    using unref_node_spec [OF Cons.prems(1)] Cons.prems(3) by auto
  have dom: "dom (cnodes w) \<subseteq> dom (cnodes v)"
    using unref_node_dom [OF w(1)] .
  moreover have "finite (dom (cnodes v))"
    using Cons.prems(1) by (simp add: cache_inv_def nodes_inv_def)
  ultimately have card: "card (dom (cnodes w)) < fuel"
    using card_mono Cons.prems(3) le_less_trans by blast
  have "count_list ns k \<le> (ext(n := ext n - 1)) k" for k
    using Cons.prems(2) [of k] by (auto split: if_splits)
  then obtain v' where v': "unref_nodes (unref_node fuel) ns w = Some v'"
      "cache_inv {} v' (\<lambda>k. (ext(n := ext n - 1)) k - count_list ns k) iext sext" "dom (cnodes v') \<subseteq> dom (cnodes w)"
    using Cons.IH [OF w(2) _ card] by blast
  have "(\<lambda>k. (ext(n := ext n - 1)) k - count_list ns k) = (\<lambda>k. ext k - count_list (n # ns) k)"
    by (auto simp: fun_eq_iff)
  then show ?case
    using w(1) v' dom by auto
qed simp

section \<open>The invariant\<close>

text \<open>How often a file is in the table, and how often an open file refers to a node of the cache.\<close>

definition slots :: "fdtab \<Rightarrow> nat \<Rightarrow> nat" where
  "slots fds f = count_list fds (Some f)"

definition refs_of :: "vfs_file \<Rightarrow> nat \<Rightarrow> nat" where
  "refs_of x n = (if f_cnode x = Some n then 1 else 0) + count_list (f_readdir x) n"

definition node_refs :: "(nat \<Rightarrow> vfs_file option) \<Rightarrow> nat \<Rightarrow> nat" where
  "node_refs fm n = (\<Sum>f\<in>dom fm. refs_of (the (fm f)) n)"

text \<open>The files that are an end of a pipe: the reading (\<open>O_RDONLY\<close>) and the writing (\<open>O_WRONLY\<close>) ends.\<close>

definition ends :: "(nat \<Rightarrow> vfs_file option) \<Rightarrow> nat \<Rightarrow> int \<Rightarrow> nat set" where
  "ends fm p flags = {f. \<exists>x. fm f = Some x \<and> f_op x = Pipe_fops \<and> f_pipe x = Some p \<and> f_flags x = flags}"

definition ends_ok :: "(nat \<Rightarrow> vfs_file option) \<Rightarrow> nat \<Rightarrow> pipe \<Rightarrow> bool" where
  "ends_ok fm p q \<longleftrightarrow> p_readers q = of_nat (card (ends fm p O_RDONLY)) \<and> p_writers q = of_nat (card (ends fm p O_WRONLY))
     \<and> card (ends fm p O_RDONLY) < 2 ^ 31 \<and> card (ends fm p O_WRONLY) < 2 ^ 31"

text \<open>\<open>F\<close> are the pipes of FIFOs, which the ends of other pipes do not count.\<close>

definition pipes_inv :: "nat set \<Rightarrow> (nat \<Rightarrow> vfs_file option) \<Rightarrow> (nat \<Rightarrow> pipe option) \<Rightarrow> bool" where
  "pipes_inv F fm pm \<longleftrightarrow>
     (\<forall>f x. fm f = Some x \<longrightarrow> f_op x = Pipe_fops \<longrightarrow> (f_flags x = O_RDONLY \<or> f_flags x = O_WRONLY)
        \<and> (\<exists>p. f_pipe x = Some p \<and> p \<notin> F \<and> pm p \<noteq> None))
   \<and> (\<forall>p q. pm p = Some q \<longrightarrow> p \<notin> F \<longrightarrow> ends_ok fm p q \<and> ends fm p O_RDONLY \<union> ends fm p O_WRONLY \<noteq> {})"

definition fd_inv ::
  "nat set \<Rightarrow> fdtab \<Rightarrow> (nat \<Rightarrow> nat) \<Rightarrow> (nat \<Rightarrow> nat) \<Rightarrow> (nat \<Rightarrow> nat) \<Rightarrow> (nat \<Rightarrow> nat) \<Rightarrow> fstate \<Rightarrow> bool" where
  "fd_inv F fds fext cext iext sext s \<longleftrightarrow>
     length fds = PROCESS_MAX_FD \<and> finite (dom (files s))
   \<and> (\<forall>f x. files s f = Some x \<longrightarrow> counts (f_refcnt x) (slots fds f + fext f))
   \<and> (\<forall>f. 0 < slots fds f + fext f \<longrightarrow> files s f \<noteq> None)
   \<and> pipes_inv F (files s) (pipes s)
   \<and> cache_inv {} (vfs s) (\<lambda>n. node_refs (files s) n + cext n) iext sext"

lemma fd_invD:
  assumes "fd_inv F fds fext cext iext sext s"
  shows "length fds = PROCESS_MAX_FD" "finite (dom (files s))"
    "\<And>f x. files s f = Some x \<Longrightarrow> counts (f_refcnt x) (slots fds f + fext f)"
    "\<And>f. 0 < slots fds f + fext f \<Longrightarrow> files s f \<noteq> None" "pipes_inv F (files s) (pipes s)"
    "cache_inv {} (vfs s) (\<lambda>n. node_refs (files s) n + cext n) iext sext"
  using assms by (auto simp: fd_inv_def)

subsection \<open>Slots\<close>

lemma slots_set: "Some f \<in> set fds \<longleftrightarrow> 0 < slots fds f"
  by (induction fds) (auto simp: slots_def)

lemma slots_upd:
  assumes "i < length fds"
  shows "slots (fds[i := e]) f + (if fds ! i = Some f then 1 else 0) = slots fds f + (if e = Some f then 1 else 0)"
  using assms
proof (induction fds arbitrary: i)
  case (Cons a fds)
  show ?case
  proof (cases i)
    case (Suc j)
    then show ?thesis
      using Cons.IH [of j] Cons.prems by (simp add: slots_def split: if_splits)
  qed (simp add: slots_def)
qed simp

lemma node_refs_upd:
  assumes "finite (dom fm)" "fm f = Some x" "refs_of y = refs_of x"
  shows "node_refs (fm(f \<mapsto> y)) n = node_refs fm n"
proof -
  have "dom (fm(f \<mapsto> y)) = dom fm"
    using assms(2) by auto
  then show ?thesis
    unfolding node_refs_def using assms by (intro sum.cong) auto
qed

lemma node_refs_remove:
  assumes "finite (dom fm)" "fm f = Some x"
  shows "node_refs fm n = refs_of x n + node_refs (fm(f := None)) n"
proof -
  have "node_refs fm n = refs_of (the (fm f)) n + (\<Sum>g\<in>dom fm - {f}. refs_of (the (fm g)) n)"
    unfolding node_refs_def using assms by (intro sum.remove) auto
  also have "(\<Sum>g\<in>dom fm - {f}. refs_of (the (fm g)) n) = node_refs (fm(f := None)) n"
    unfolding node_refs_def by (intro sum.cong) auto
  finally show ?thesis
    using assms(2) by simp
qed

lemma node_refs_add:
  assumes "finite (dom fm)" "fm f = None"
  shows "node_refs (fm(f \<mapsto> x)) n = refs_of x n + node_refs fm n"
proof -
  have "(fm(f \<mapsto> x))(f := None) = fm"
    using assms(2) by auto
  then show ?thesis
    using node_refs_remove [of "fm(f \<mapsto> x)" f x n] assms(1) by simp
qed

subsection \<open>Changing only a count\<close>

lemma ends_refcnt: "fm f = Some x \<Longrightarrow> ends (fm(f \<mapsto> x\<lparr>f_refcnt := r\<rparr>)) p flags = ends fm p flags"
  by (auto simp: ends_def)

lemma pipes_refcnt: "fm f = Some x \<Longrightarrow> pipes_inv F fm pm \<Longrightarrow> pipes_inv F (fm(f \<mapsto> x\<lparr>f_refcnt := r\<rparr>)) pm"
  unfolding pipes_inv_def ends_ok_def by (auto simp: ends_refcnt)

lemma fd_refcnt:
  assumes inv: "fd_inv F fds fext cext iext sext s" and f: "files s f = Some x" and len: "length fds' = length fds"
    and r: "counts r (slots fds' f + fext' f)" and other: "\<And>g. g \<noteq> f \<Longrightarrow> slots fds' g + fext' g = slots fds g + fext g"
  shows "fd_inv F fds' fext' cext iext sext (set_file f (x\<lparr>f_refcnt := r\<rparr>) s)"
proof -
  note D = fd_invD [OF inv]
  have "node_refs ((files s)(f \<mapsto> x\<lparr>f_refcnt := r\<rparr>)) = node_refs (files s)"
    using node_refs_upd [OF D(2) f] by (auto simp: fun_eq_iff refs_of_def)
  then show ?thesis
  proof -
    let ?fm = "(files s)(f \<mapsto> x\<lparr>f_refcnt := r\<rparr>)"
    have "counts (f_refcnt y) (slots fds' g + fext' g)" if "?fm g = Some y" for g y
      using that r other [of g] D(3) [of g y] by (auto split: if_splits)
    moreover have "?fm g \<noteq> None" if "0 < slots fds' g + fext' g" for g
      using that other [of g] D(4) [of g] by (cases "g = f") auto
    ultimately show ?thesis
      unfolding fd_inv_def set_file_def
      using D(1,2,6) len pipes_refcnt [OF f D(5)] \<open>node_refs ?fm = node_refs (files s)\<close> by simp
  qed
qed

section \<open>Closing the last reference\<close>

lemma ends_remove: "ends (fm(f := None)) p flags = ends fm p flags - {f}"
  by (auto simp: ends_def split: if_splits)

lemma flags_eval:
  "vfs_file_flags_read O_RDONLY" "\<not> vfs_file_flags_write O_RDONLY" "\<not> vfs_file_flags_read O_WRONLY" "vfs_file_flags_write O_WRONLY"
  "O_RDONLY \<noteq> O_WRONLY"
  by (simp_all add: vfs_file_flags_read_def vfs_file_flags_write_def O_RDONLY_def O_WRONLY_def)

lemma small_sint: "k < 2 ^ 31 \<Longrightarrow> sint (of_nat k :: refcount) = int k"
  by (simp add: signed_of_nat signed_take_bit_int_eq_self)

lemma small_dec: "k < 2 ^ 31 \<Longrightarrow> 0 < k \<Longrightarrow> refcount_dec (of_nat k) = (int (k - 1), of_nat (k - 1))"
  using counts_dec(1) [of "of_nat k" "k - 1"] by (simp add: counts_def)

text \<open>What remains of a pipe after one of its ends, given by its flags, has been closed.\<close>

lemma close_end:
  assumes "p_readers q = of_nat r" "p_writers q = of_nat w" "r < 2 ^ 31" "w < 2 ^ 31"
    and "flags = O_RDONLY \<and> 0 < r \<or> flags = O_WRONLY \<and> 0 < w"
  shows "\<exists>n q'. pipe_close_ends q flags = Some (n, q') \<and>
    (let r' = (if flags = O_RDONLY then r - 1 else r); w' = (if flags = O_RDONLY then w else w - 1)
     in case q' of None \<Rightarrow> r' + w' = 0
        | Some q' \<Rightarrow> 0 < r' + w' \<and> p_readers q' = of_nat r' \<and> p_writers q' = of_nat w')"
proof (cases "flags = O_RDONLY")
  case True
  then have "pipe_close_ends q flags = Some (pipe_remove_reader q)" "0 < r"
    using assms(5) flags_eval by (auto simp: pipe_close_ends_def)
  then show ?thesis
    using True assms(1-4) small_dec [OF assms(3)] small_sint [OF assms(4)]
    by (auto simp: pipe_remove_reader_def pipe_removed_def refcount_get_def pipe_wake_def)
next
  case False
  then have "pipe_close_ends q flags = Some (pipe_remove_writer q)" "0 < w"
    using assms(5) flags_eval by (auto simp: pipe_close_ends_def)
  then show ?thesis
    using False assms(1-4) small_dec [OF assms(4)] small_sint [OF assms(3)]
    by (auto simp: pipe_remove_writer_def pipe_removed_def refcount_get_def pipe_wake_def)
qed

lemma pipes_invD:
  assumes "pipes_inv F fm pm"
  shows "\<And>f x. fm f = Some x \<Longrightarrow> f_op x = Pipe_fops \<Longrightarrow> f_flags x = O_RDONLY \<or> f_flags x = O_WRONLY"
    "\<And>f x. fm f = Some x \<Longrightarrow> f_op x = Pipe_fops \<Longrightarrow> \<exists>p q. f_pipe x = Some p \<and> p \<notin> F \<and> pm p = Some q"
    "\<And>p q. pm p = Some q \<Longrightarrow> p \<notin> F \<Longrightarrow> ends_ok fm p q"
    "\<And>p q. pm p = Some q \<Longrightarrow> p \<notin> F \<Longrightarrow> ends fm p O_RDONLY \<union> ends fm p O_WRONLY \<noteq> {}"
  using assms unfolding pipes_inv_def by blast+

lemma finite_ends: "finite (dom fm) \<Longrightarrow> finite (ends fm p flags)"
  by (rule finite_subset [of _ "dom fm"]) (auto simp: ends_def)

lemma pipe_close_spec:
  assumes inv: "pipes_inv F (files s) (pipes s)" and fin: "finite (dom (files s))"
    and f: "files s f = Some x" "f_op x = Pipe_fops"
  obtains p q' where "pipe_close f s = Some (set_file f (x\<lparr>f_pipe := None\<rparr>) (s\<lparr>pipes := (pipes s)(p := q')\<rparr>))"
    "pipes_inv F ((files s)(f := None)) ((pipes s)(p := q'))"
proof -
  note D = pipes_invD [OF inv]
  obtain p q where p: "f_pipe x = Some p" "p \<notin> F" "pipes s p = Some q"
    using D(2) [OF f] by blast
  let ?r = "ends (files s) p O_RDONLY" and ?w = "ends (files s) p O_WRONLY"
  have ok: "ends_ok (files s) p q"
    using D(3) p by blast
  have mem: "f \<in> ends (files s) p (f_flags x)" "f \<notin> ends (files s) p fl" if "fl \<noteq> f_flags x" for fl
    using f p that by (auto simp: ends_def)
  have fin': "finite ?r" "finite ?w"
    using finite_ends [OF fin] by auto
  have self: "f \<in> ends (files s) p (f_flags x)"
    using f p by (auto simp: ends_def)
  then have "f_flags x = O_RDONLY \<and> 0 < card ?r \<or> f_flags x = O_WRONLY \<and> 0 < card ?w"
    using D(1) [OF f] fin' by (auto simp: card_gt_0_iff)
  then obtain n q' where q': "pipe_close_ends q (f_flags x) = Some (n, q')"
      "let r' = (if f_flags x = O_RDONLY then card ?r - 1 else card ?r); w' = (if f_flags x = O_RDONLY then card ?w else card ?w - 1)
       in case q' of None \<Rightarrow> r' + w' = 0
          | Some q' \<Rightarrow> 0 < r' + w' \<and> p_readers q' = of_nat r' \<and> p_writers q' = of_nat w'"
    using close_end [of q "card ?r" "card ?w" "f_flags x"] ok unfolding ends_ok_def by blast
  have card: "card (?r - {f}) = (if f_flags x = O_RDONLY then card ?r - 1 else card ?r)"
    "card (?w - {f}) = (if f_flags x = O_RDONLY then card ?w else card ?w - 1)"
    using self mem(2) D(1) [OF f] fin' flags_eval(5) by (auto simp: card_Diff_singleton_if)
  have q2: "case q' of None \<Rightarrow> card (?r - {f}) + card (?w - {f}) = 0
      | Some q' \<Rightarrow> 0 < card (?r - {f}) + card (?w - {f}) \<and> p_readers q' = of_nat (card (?r - {f})) \<and> p_writers q' = of_nat (card (?w - {f}))"
    using q'(2) unfolding card Let_def .
  have le: "card (?r - {f}) < 2 ^ 31" "card (?w - {f}) < 2 ^ 31"
    using ok card by (auto simp: ends_ok_def)
  have pipe: "pipe_close f s = Some (set_file f (x\<lparr>f_pipe := None\<rparr>) (s\<lparr>pipes := (pipes s)(p := q')\<rparr>))"
    using f p q'(1) by (simp add: pipe_close_def)
  have other: "ends ((files s)(f := None)) k fl = ends (files s) k fl" if "k \<noteq> p" for k fl
    using f p that by (auto simp: ends_def)
  have none: "q' \<noteq> None" if "g \<noteq> f" "files s g = Some y" "f_op y = Pipe_fops" "f_pipe y = Some p" for g y
  proof -
    have "g \<in> (?r - {f}) \<union> (?w - {f})"
      using that D(1) [of g y] by (auto simp: ends_def)
    then have "0 < card (?r - {f}) + card (?w - {f})"
      using fin' by (auto simp: card_gt_0_iff)
    then show ?thesis
      using q2 by (cases q') auto
  qed
  have "pipes_inv F ((files s)(f := None)) ((pipes s)(p := q'))"
    unfolding pipes_inv_def
  proof (intro conjI allI impI)
    fix g y
    assume g: "((files s)(f := None)) g = Some y" "f_op y = Pipe_fops"
    then have g': "files s g = Some y" "g \<noteq> f"
      by (auto split: if_splits)
    show "f_flags y = O_RDONLY \<or> f_flags y = O_WRONLY"
      using D(1) [OF g'(1) g(2)] .
    show "\<exists>k. f_pipe y = Some k \<and> k \<notin> F \<and> ((pipes s)(p := q')) k \<noteq> None"
      using D(2) [OF g'(1) g(2)] none [OF g'(2,1) g(2)] by auto
  next
    fix k r
    assume k: "((pipes s)(p := q')) k = Some r" "k \<notin> F"
    show "ends_ok ((files s)(f := None)) k r"
    proof (cases "k = p")
      case True
      then show ?thesis
        using k q2 le by (simp add: ends_ok_def ends_remove)
    next
      case False
      then show ?thesis
        using D(3) [of k r] k other [OF False] by (simp add: ends_ok_def)
    qed
    show "ends ((files s)(f := None)) k O_RDONLY \<union> ends ((files s)(f := None)) k O_WRONLY \<noteq> {}"
    proof (cases "k = p")
      case True
      then have "0 < card (?r - {f}) + card (?w - {f})"
        using k q2 by simp
      then show ?thesis
        using True by (auto simp: ends_remove card_gt_0_iff)
    next
      case False
      then show ?thesis
        using D(4) [of k r] k other [OF False] by simp
    qed
  qed
  then show thesis
    using that pipe by blast
qed

lemma destroy_spec:
  assumes fin: "finite (dom (files s))" and f: "files s f = Some x" and refs: "refs_of x = refs_of x0"
    and cache: "cache_inv {} (vfs s) (\<lambda>n. node_refs (fm(f \<mapsto> x0)) n + cext n) iext sext" and fm: "fm f = None" "finite (dom fm)"
    and fuel: "card (dom (cnodes (vfs s))) < fuel"
  obtains v' where "vfs_file_destroy fuel f s = Some (s\<lparr>vfs := v', files := (files s)(f := None)\<rparr>)"
    "cache_inv {} v' (\<lambda>n. node_refs fm n + cext n) iext sext"
proof -
  define ns where "ns = (case f_cnode x of None \<Rightarrow> [] | Some n \<Rightarrow> [n]) @ f_readdir x"
  have ns: "count_list ns n = refs_of x n" for n
    by (auto simp: ns_def refs_of_def split: option.splits)
  have total: "node_refs (fm(f \<mapsto> x0)) n + cext n = refs_of x n + (node_refs fm n + cext n)" for n
    using node_refs_add [OF fm(2,1), of x0 n] refs by (simp add: fun_eq_iff)
  obtain v' where v': "unref_nodes (unref_node fuel) ns (vfs s) = Some v'"
      "cache_inv {} v' (\<lambda>n. (node_refs (fm(f \<mapsto> x0)) n + cext n) - count_list ns n) iext sext"
    using unref_nodes_spec [OF cache _ fuel, of ns] total ns by auto
  have "unref_nodes u (ms @ ks) v = do { v \<leftarrow> unref_nodes u ms v; unref_nodes u ks v }" for u ms ks v
    by (induction ms arbitrary: v) (auto split: bind_split)
  then have "do { v \<leftarrow> vfs_cache_node_unref fuel (f_cnode x) (vfs s); clear_readdir_cache fuel x v } = Some v'"
    using v'(1) by (auto simp: ns_def vfs_cache_node_unref_def clear_readdir_cache_def split: option.splits bind_splits)
  then have "vfs_file_destroy fuel f s = Some (s\<lparr>vfs := v', files := (files s)(f := None)\<rparr>)"
    using f by (auto simp: vfs_file_destroy_def vfs_file_reset_def split: bind_splits)
  moreover have "(\<lambda>n. (node_refs (fm(f \<mapsto> x0)) n + cext n) - count_list ns n) = (\<lambda>n. node_refs fm n + cext n)"
    using total ns by (simp add: fun_eq_iff)
  ultimately show thesis
    using that v'(2) by simp
qed

text \<open>The close operations that the theorem covers: not those of a FIFO, and a terminal that is still there.\<close>

definition closable :: "nat \<Rightarrow> fstate \<Rightarrow> bool" where
  "closable f s \<longleftrightarrow> (case files s f of
       None \<Rightarrow> False
     | Some x \<Rightarrow> f_op x \<noteq> Fifo_fops \<and> (f_op x = Tty_fops \<longrightarrow> tty_close_file f s \<noteq> None))"

lemma pipes_remove_other:
  assumes "pipes_inv F fm pm" "fm f = Some x" "f_op x \<noteq> Pipe_fops"
  shows "pipes_inv F (fm(f := None)) pm"
proof -
  have "ends (fm(f := None)) p fl = ends fm p fl" for p fl
    using assms(2,3) by (auto simp: ends_def)
  then show ?thesis
    using assms(1) unfolding pipes_inv_def ends_ok_def by (auto split: if_splits)
qed

lemma close_last:
  assumes pipes: "pipes_inv F (files s) (pipes s)" and fin: "finite (dom (files s))" and f: "files s f = Some x"
    and cl: "closable f s" and cache: "cache_inv {} (vfs s) (\<lambda>n. node_refs (files s) n + cext n) iext sext"
    and fuel: "card (dom (cnodes (vfs s))) < fuel" and rc: "counts (f_refcnt x) 1"
  obtains r s1 s2 where "vfs_close f s = Some (r, s1)" "vfs_file_unref fuel f s1 = Some s2"
    "files s2 = (files s)(f := None)" "pipes_inv F (files s2) (pipes s2)"
    "cache_inv {} (vfs s2) (\<lambda>n. node_refs (files s2) n + cext n) iext sext"
proof -
  note result = that
  let ?fm = "(files s)(f := None)"
  have fm: "?fm(f \<mapsto> x) = files s" "?fm f = None" "finite (dom ?fm)"
    using f fin by auto
  have dec: "refcount_dec (f_refcnt x) = (0, 0)"
    using counts_dec(1) [of "f_refcnt x" 0] rc by simp
  have finish: thesis
    if c: "vfs_close f s = Some (r, s1)" and s1: "files s1 = (files s)(f \<mapsto> y)" "vfs s1 = vfs s"
      and y: "refs_of y = refs_of x" "f_refcnt y = f_refcnt x" and p: "pipes_inv F ?fm (pipes s1)" for r s1 y
  proof -
    let ?s = "set_file f (y\<lparr>f_refcnt := 0\<rparr>) s1"
    have "refs_of (y\<lparr>f_refcnt := 0\<rparr>) = refs_of x"
      using y(1) by (simp add: refs_of_def fun_eq_iff)
    then obtain v' where v': "vfs_file_destroy fuel f ?s = Some (?s\<lparr>vfs := v', files := (files ?s)(f := None)\<rparr>)"
        "cache_inv {} v' (\<lambda>n. node_refs ?fm n + cext n) iext sext"
      using destroy_spec [of ?s f "y\<lparr>f_refcnt := 0\<rparr>" x ?fm cext iext sext fuel] cache fm fin fuel s1
      by (auto simp: set_file_def)
    have "vfs_file_unref fuel f s1 = Some (?s\<lparr>vfs := v', files := (files ?s)(f := None)\<rparr>)"
      using s1(1) y(2) dec v'(1) by (simp add: vfs_file_unref_def)
    then show thesis
      by (rule result [OF c]) (use s1 p v'(2) in \<open>simp_all add: set_file_def\<close>)
  qed
  show thesis
  proof (cases "f_op x")
    case Pipe_fops
    obtain p q' where "pipe_close f s = Some (set_file f (x\<lparr>f_pipe := None\<rparr>) (s\<lparr>pipes := (pipes s)(p := q')\<rparr>))"
        "pipes_inv F ?fm ((pipes s)(p := q'))"
      by (rule pipe_close_spec [OF pipes fin f Pipe_fops])
    then show thesis
      using f Pipe_fops
      by (intro finish [of "Inr ()" "set_file f (x\<lparr>f_pipe := None\<rparr>) (s\<lparr>pipes := (pipes s)(p := q')\<rparr>)" "x\<lparr>f_pipe := None\<rparr>"])
        (auto simp: vfs_close_def set_file_def refs_of_def fun_eq_iff)
  next
    case Tty_fops
    then obtain r s1 where "tty_close_file f s = Some (r, s1)"
      using cl f by (auto simp: closable_def)
    moreover from this have "files s1 = files s" "vfs s1 = vfs s" "pipes s1 = pipes s"
      by (auto simp: tty_close_file_def split: bind_splits option.splits)
    ultimately show thesis
      using f Tty_fops pipes_remove_other [OF pipes f]
      by (intro finish [of r s1 x]) (auto simp: vfs_close_def)
  qed (use f cl pipes_remove_other [OF pipes f] in
      \<open>auto simp: vfs_close_def closable_def intro!: finish [of "Inr ()" s x]\<close>)
qed

section \<open>The system calls on descriptors\<close>

definition free_fd :: "fdtab \<Rightarrow> nat option" where
  "free_fd fds = find (\<lambda>i. fds ! i = None) [0..<PROCESS_MAX_FD]"

lemma add_file_from_find:
  "i + k \<le> length fds \<Longrightarrow> add_file_from k i f fds s =
     (case find (\<lambda>j. fds ! j = None) [i..<i + k] of
        None \<Rightarrow> Some (Inl EMFILE, fds, s)
      | Some j \<Rightarrow> do { s \<leftarrow> vfs_file_ref f s; Some (Inr j, fds[j := Some f], s) })"
proof (induction k arbitrary: i)
  case (Suc k)
  have "[i..<i + Suc k] = i # [Suc i..<Suc i + k]"
    by (simp add: upt_conv_Cons)
  then show ?case
    using Suc by simp
qed simp

lemma free_fdD:
  assumes "free_fd fds = Some i" "length fds = PROCESS_MAX_FD"
  shows "i < length fds" "fds ! i = None"
  using assms by (auto simp: free_fd_def find_Some_iff)

lemma process_add_file_eq:
  assumes "length fds = PROCESS_MAX_FD"
  shows "process_add_file f fds s =
    (case free_fd fds of
       None \<Rightarrow> Some (Inl EMFILE, fds, s)
     | Some j \<Rightarrow> do { s \<leftarrow> vfs_file_ref f s; Some (Inr j, fds[j := Some f], s) })"
  using add_file_from_find [of 0 PROCESS_MAX_FD fds f s] assms by (simp add: process_add_file_def free_fd_def)

lemma add_ref:
  assumes inv: "fd_inv F fds fext cext iext sext s" and f: "files s f = Some x"
    and room: "Suc (slots fds f + fext f) < 2 ^ 31" and i: "i < length fds" "fds ! i = None"
  shows "vfs_file_ref f s = Some (set_file f (x\<lparr>f_refcnt := f_refcnt x + 1\<rparr>) s)"
    and "fd_inv F (fds[i := Some f]) fext cext iext sext (set_file f (x\<lparr>f_refcnt := f_refcnt x + 1\<rparr>) s)"
proof -
  show "vfs_file_ref f s = Some (set_file f (x\<lparr>f_refcnt := f_refcnt x + 1\<rparr>) s)"
    using f by (simp add: vfs_file_ref_def refcount_inc_def)
  show "fd_inv F (fds[i := Some f]) fext cext iext sext (set_file f (x\<lparr>f_refcnt := f_refcnt x + 1\<rparr>) s)"
  proof (rule fd_refcnt [OF inv f])
    show "counts (f_refcnt x + 1) (slots (fds[i := Some f]) f + fext f)"
      using counts_inc [OF fd_invD(3) [OF inv f] room] slots_upd [OF i(1), of "Some f" f] i(2) by simp
    show "slots (fds[i := Some f]) g + fext g = slots fds g + fext g" if "g \<noteq> f" for g
      using slots_upd [OF i(1), of "Some f" g] i(2) that by simp
  qed simp
qed

lemma close_spec:
  assumes inv: "fd_inv F fds fext cext iext sext s" and fuel: "card (dom (cnodes (vfs s))) < fuel"
    and fd: "0 \<le> fd" "fd < int PROCESS_MAX_FD" "fds ! nat fd = Some f" and cl: "closable f s"
  shows "\<exists>r s'. sys_close fuel fd fds s = Some (r, fds[nat fd := None], s')
    \<and> fd_inv F (fds[nat fd := None]) fext cext iext sext s' \<and> (\<forall>g. g \<noteq> f \<longrightarrow> files s' g = files s g)
    \<and> (files s' f = None \<longleftrightarrow> slots fds f + fext f = 1)
    \<and> (slots fds f + fext f \<noteq> 1 \<longrightarrow> r = Inr () \<and> pipes s' = pipes s \<and> vfs s' = vfs s)"
proof -
  note D = fd_invD [OF inv]
  have i: "nat fd < length fds"
    using fd D(1) by simp
  obtain x where f: "files s f = Some x"
    using cl by (auto simp: closable_def split: option.splits)
  have down: "slots fds f = Suc (slots (fds[nat fd := None]) f)"
    "\<And>g. g \<noteq> f \<Longrightarrow> slots (fds[nat fd := None]) g = slots fds g"
    subgoal using slots_upd [OF i, of None f] fd(3) by simp
    subgoal for g using slots_upd [OF i, of None g] fd(3) by simp
    done
  define k where "k = slots (fds[nat fd := None]) f + fext f"
  have cnt: "counts (f_refcnt x) (Suc k)"
    using D(3) [OF f] down(1) by (simp add: k_def)
  have k31: "Suc k < 2 ^ 31"
    using cnt by (simp add: counts_def)
  let ?s = "set_file f x s"
  have same: "?s = s"
    using f by (simp add: set_file_def fun_upd_idem)
  have get: "refcount_get (f_refcnt x) = int (Suc k)"
    using cnt small_sint [OF k31] by (simp add: counts_def refcount_get_def del: of_nat_Suc)
  have close: "sys_close fuel fd fds s = do {
      (r, s) \<leftarrow> (if k = 0 then vfs_close f s else Some (Inr (), s));
      s \<leftarrow> vfs_file_unref fuel f s;
      Some (r, fds[nat fd := None], s) }"
    using fd i f get same
    by (simp add: sys_close_def process_remove_file_def vfs_file_release_def vfs_file_ref_def vfs_file_get_ref_def
        set_file_def refcount_inc_def refcount_dec_def cong: if_cong)
  show ?thesis
  proof (cases "k = 0")
    case True
    have "counts (f_refcnt x) 1"
      using cnt True by simp
    then obtain r s1 s2 where s2: "vfs_close f s = Some (r, s1)" "vfs_file_unref fuel f s1 = Some s2"
        "files s2 = (files s)(f := None)" "pipes_inv F (files s2) (pipes s2)"
        "cache_inv {} (vfs s2) (\<lambda>n. node_refs (files s2) n + cext n) iext sext"
      by (rule close_last [OF D(5,2) f cl D(6) fuel])
    have "counts (f_refcnt y) (slots (fds[nat fd := None]) g + fext g)" if "files s2 g = Some y" for g y
      using that s2(3) D(3) [of g y] down(2) [of g] by (auto split: if_splits)
    moreover have "files s2 g \<noteq> None" if "0 < slots (fds[nat fd := None]) g + fext g" for g
      using that s2(3) D(4) [of g] down(2) [of g] True by (cases "g = f") (auto simp: k_def)
    ultimately have "fd_inv F (fds[nat fd := None]) fext cext iext sext s2"
      using D(1,2) s2(3-5) by (simp add: fd_inv_def)
    then show ?thesis
      using close True s2 down(1) by (simp add: k_def)
  next
    case False
    note dec = counts_dec [OF cnt]
    have "fd_inv F (fds[nat fd := None]) fext cext iext sext (set_file f (x\<lparr>f_refcnt := of_nat k\<rparr>) s)"
    proof (rule fd_refcnt [OF inv f])
      show "counts (of_nat k) (slots (fds[nat fd := None]) f + fext f)"
        using dec False by (simp add: k_def refcount_dec_def)
    qed (use down(2) in auto)
    moreover have "vfs_file_unref fuel f s = Some (set_file f (x\<lparr>f_refcnt := of_nat k\<rparr>) s)"
      using f dec(1) False by (simp add: vfs_file_unref_def)
    ultimately show ?thesis
      using close False down(1) by (auto simp: set_file_def k_def)
  qed
qed

lemma dup_spec:
  assumes inv: "fd_inv F fds fext cext iext sext s" and fd: "0 \<le> fd" "fd < int PROCESS_MAX_FD" "fds ! nat fd = Some f"
    and room: "Suc (slots fds f + fext f) < 2 ^ 31"
  shows "case free_fd fds of
      None \<Rightarrow> sys_dup fd fds s = Some (Inl EMFILE, fds, s)
    | Some i \<Rightarrow> \<exists>s'. sys_dup fd fds s = Some (Inr i, fds[i := Some f], s') \<and> fd_inv F (fds[i := Some f]) fext cext iext sext s'
        \<and> pipes s' = pipes s \<and> vfs s' = vfs s"
proof -
  note D = fd_invD [OF inv]
  have i: "nat fd < length fds"
    using fd D(1) by simp
  have "Some f \<in> set fds"
    using i fd(3) nth_mem by metis
  then obtain x where f: "files s f = Some x"
    using D(4) [of f] by (auto simp: slots_set)
  have "sys_dup fd fds s = process_add_file f fds s"
    using fd i by (simp add: sys_dup_def process_get_file_def)
  then show ?thesis
    using process_add_file_eq [OF D(1), of f s] add_ref [OF inv f room] free_fdD [OF _ D(1)]
    by (auto simp: set_file_def split: option.splits)
qed

lemma pipe_ends_fresh:
  assumes inv: "pipes_inv F (files s) (pipes s)" and p: "pipes s p = None"
  shows "ends (files s) p fl = {}"
  using pipes_invD(2) [OF inv] p by (fastforce simp: ends_def)

definition pipe_file :: "nat \<Rightarrow> int \<Rightarrow> vfs_file" where
  "pipe_file p flags = \<lparr>f_cnode = None, f_cur = 0, f_flags = flags, f_readdir = [], f_op = Pipe_fops, f_pipe = Some p, f_refcnt = 1\<rparr>"

lemma pipe_spec:
  assumes inv: "fd_inv F fds fext cext iext sext s" and fresh: "pipes s p = None" "p \<notin> F" "files s r = None" "files s w = None" "r \<noteq> w"
    and fd: "free_fd fds = Some i" "free_fd (fds[i := Some r]) = Some j"
  shows "\<exists>s'. sys_pipe fuel (Some m) p (Some r) (Some w) True fds s = Some (Inr (i, j), fds[i := Some r, j := Some w], s')
    \<and> fd_inv F (fds[i := Some r, j := Some w]) fext cext iext sext s'
    \<and> ends (files s') p O_RDONLY = {r} \<and> ends (files s') p O_WRONLY = {w} \<and> vfs s' = vfs s"
proof -
  note D = fd_invD [OF inv]
  let ?q = "\<lparr>p_buffer = deque_init m PIPE_BUFFER_SIZE, p_readers = 1, p_writers = 1, p_wakes = 0\<rparr>"
  let ?fm = "(files s)(r \<mapsto> pipe_file p O_RDONLY, w \<mapsto> pipe_file p O_WRONLY)"
  let ?s = "s\<lparr>files := ?fm, pipes := (pipes s)(p \<mapsto> ?q)\<rparr>" and ?fds = "fds[i := Some r, j := Some w]"
  have i: "i < length fds" "fds ! i = None" and j: "j < length fds" "fds[i := Some r] ! j = None"
    using free_fdD [OF fd(1) D(1)] free_fdD [OF fd(2)] D(1) by simp_all
  have "sys_pipe fuel (Some m) p (Some r) (Some w) True fds s = Some (Inr (i, j), ?fds, ?s)"
    using fresh(5) fd D(1) flags_eval
    by (simp add: sys_pipe_def sys_pipe_add_def pipe_create_def pipe_init_def create_pipe_file_def vfs_file_create_def
        vfs_file_init_def vfs_cache_node_ref_def vfs_file_init_data_fields_def set_file_def pipe_acquire_def pipe_add_reader_def
        pipe_add_writer_def process_add_file_eq vfs_file_ref_def vfs_file_unref_def refcount_init_def refcount_init_zero_def refcount_inc_def
        refcount_dec_def pipe_file_def fun_upd_twist)
  moreover have zero: "slots fds r + fext r = 0" "slots fds w + fext w = 0"
    using D(4) fresh(3,4) by blast+
  have sl: "slots ?fds g = slots fds g + (if g = r then 1 else 0) + (if g = w then 1 else 0)" for g
    using slots_upd [of j "fds[i := Some r]" "Some w" g] slots_upd [of i fds "Some r" g] i j by (auto split: if_splits)
  have ends: "ends ?fm k fl = (if k = p \<and> fl = O_RDONLY then {r} else if k = p \<and> fl = O_WRONLY then {w} else ends (files s) k fl)"
    for k fl
    using pipe_ends_fresh [OF D(5) fresh(1), of fl] fresh(3-5) flags_eval(5) by (auto simp: ends_def pipe_file_def split: if_splits)
  have "pipes_inv F ?fm ((pipes s)(p \<mapsto> ?q))"
    unfolding pipes_inv_def
  proof (intro conjI allI impI)
    fix g y
    assume g: "?fm g = Some y" "f_op y = Pipe_fops"
    show "f_flags y = O_RDONLY \<or> f_flags y = O_WRONLY"
      using g pipes_invD(1) [OF D(5), of g y] by (auto simp: pipe_file_def split: if_splits)
    show "\<exists>k. f_pipe y = Some k \<and> k \<notin> F \<and> ((pipes s)(p \<mapsto> ?q)) k \<noteq> None"
      using g pipes_invD(2) [OF D(5), of g y] fresh(2) by (auto simp: pipe_file_def split: if_splits)
  next
    fix k q
    assume k: "((pipes s)(p \<mapsto> ?q)) k = Some q" "k \<notin> F"
    show "ends_ok ?fm k q"
      using k pipes_invD(3) [OF D(5), of k q] flags_eval(5) unfolding ends_ok_def ends by (auto split: if_splits)
    show "ends ?fm k O_RDONLY \<union> ends ?fm k O_WRONLY \<noteq> {}"
      using k pipes_invD(4) [OF D(5), of k q] unfolding ends by (auto split: if_splits)
  qed
  moreover have "node_refs ?fm = node_refs (files s)"
    using node_refs_add [of "files s" r] node_refs_add [of "(files s)(r \<mapsto> pipe_file p O_RDONLY)" w] D(2) fresh(3-5)
    by (simp add: fun_eq_iff pipe_file_def refs_of_def)
  moreover have "counts (f_refcnt y) (slots ?fds g + fext g)" if "?fm g = Some y" for g y
    using that D(3) [of g y] sl [of g] zero fresh(5) by (auto simp: pipe_file_def counts_def split: if_splits)
  moreover have "?fm g \<noteq> None" if "0 < slots ?fds g + fext g" for g
    using that D(4) [of g] sl [of g] by (auto split: if_splits)
  ultimately have "fd_inv F ?fds fext cext iext sext ?s"
    using D(1,2,6) by (simp add: fd_inv_def)
  then show ?thesis
    using \<open>sys_pipe fuel (Some m) p (Some r) (Some w) True fds s = Some (Inr (i, j), ?fds, ?s)\<close> ends flags_eval(5) by simp
qed


text \<open>A process with the two ends of a pipe in its first two descriptors.\<close>

definition sample_fs :: fstate where
  "sample_fs = \<lparr>files = [1 \<mapsto> pipe_file 7 O_RDONLY, 2 \<mapsto> pipe_file 7 O_WRONLY],
     pipes = [7 \<mapsto> \<lparr>p_buffer = deque_init [] PIPE_BUFFER_SIZE, p_readers = 1, p_writers = 1, p_wakes = 0\<rparr>],
     ttys = Map.empty, vfs = sample_cache\<rparr>"

definition sample_fds :: fdtab where
  "sample_fds = [Some 1, Some 2] @ replicate 14 None"

lemma sample_fd_inv: "fd_inv {} sample_fds (\<lambda>_. 0) sample_ext sample_iext sample_sext sample_fs"
proof -
  have e: "ends (files sample_fs) p fl = (if p = 7 then if fl = O_RDONLY then {1} else if fl = O_WRONLY then {2} else {} else {})" for p fl
    using flags_eval(5) by (auto simp: ends_def sample_fs_def pipe_file_def split: if_splits)
  have "pipes_inv {} (files sample_fs) (pipes sample_fs)"
    using flags_eval(5) unfolding pipes_inv_def ends_ok_def e
    by (auto simp: sample_fs_def pipe_file_def split: if_splits)
  moreover have "node_refs (files sample_fs) n = 0" for n
    by (auto simp: node_refs_def sample_fs_def pipe_file_def refs_of_def intro!: sum.neutral)
  moreover have "slots sample_fds f = (if f = 1 \<or> f = 2 then 1 else 0)" for f
    by (auto simp: slots_def sample_fds_def count_list_append)
  ultimately show ?thesis
    using sample_inv by (auto simp: fd_inv_def sample_fds_def sample_fs_def pipe_file_def counts_def split: if_splits)
qed


text \<open>
  Duplicating onto an open descriptor never closes the file it replaces.  When \<^verbatim>\<open>sys_dup2\<close> replaces a file, it leaves the count of
  that file two references above its owners (one reference is taken twice, and the one of the table is not dropped), so the file,
  and the pipe end or cache node it holds, is never released.
\<close>

theorem dup2_leaks_replaced_file:
  assumes inv: "fd_inv F fds fext cext iext sext s" and old: "0 \<le> oldfd" "oldfd < int PROCESS_MAX_FD" "fds ! nat oldfd = Some f"
    and new: "0 \<le> newfd" "newfd < int PROCESS_MAX_FD" "fds ! nat newfd = Some g" "oldfd \<noteq> newfd"
    and room: "slots fds f + fext f + 4 < 2 ^ 31" "slots fds g + fext g + 4 < 2 ^ 31"
  shows "\<exists>s'. sys_dup2 fuel oldfd newfd fds s = Some (Inr newfd, fds[nat newfd := Some f], s')
    \<and> fd_inv F (fds[nat newfd := Some f]) (fext(g := fext g + 2)) cext iext sext s'"
proof -
  note D = fd_invD [OF inv]
  have i: "nat oldfd < length fds" "nat newfd < length fds"
    using old new D(1) by simp_all
  have "Some g \<in> set fds" "Some f \<in> set fds"
    using i new(3) old(3) nth_mem by metis+
  then obtain x where g: "files s g = Some x"
    using D(4) [of g] by (auto simp: slots_set)
  let ?fds = "fds[nat newfd := None]"
  have slots: "slots fds g = Suc (slots ?fds g)" "h \<noteq> g \<Longrightarrow> slots ?fds h = slots fds h" for h
    using slots_upd [OF i(2), of None g] slots_upd [OF i(2), of None h] new(3) by auto
  define k where "k = slots fds g + fext g"
  have k: "counts (f_refcnt x) k" "k + 4 < 2 ^ 31"
    using D(3) [OF g] room(2) by (simp_all add: k_def)
  have c: "counts (f_refcnt x + 1) (k + 1)" "counts (f_refcnt x + 2) (k + 2)"
    using k by (auto simp: counts_def)
  define s1 where "s1 = set_file g (x\<lparr>f_refcnt := f_refcnt x + 1\<rparr>) s"
  have inv1: "fd_inv F ?fds (fext(g := fext g + 2)) cext iext sext s1"
    unfolding s1_def by (rule fd_refcnt [OF inv g]) (use c slots in \<open>auto simp: k_def\<close>)
  have get: "refcount_get (f_refcnt x + 2) = int k + 2" "refcount_dec (f_refcnt x + 2) = (int k + 1, f_refcnt x + 1)"
    using c(2) small_sint [of "k + 2"] small_sint [of "k + 1"] k c
    by (auto simp: counts_def refcount_get_def refcount_dec_def add.commute)
  have f: "files s1 f \<noteq> None"
    using D(4) [of f] \<open>Some f \<in> set fds\<close> by (auto simp: s1_def set_file_def slots_set)
  then obtain y where y: "files s1 f = Some y"
    by blast
  have "Suc (slots ?fds f + (fext(g := fext g + 2)) f) < 2 ^ 31"
    using room slots(2) [of f] slots(1) by (cases "f = g") auto
  note add = add_ref [OF inv1 y this, of "nat newfd"]
  have "sys_dup2 fuel oldfd newfd fds s = Some (Inr newfd, fds[nat newfd := Some f], set_file f (y\<lparr>f_refcnt := f_refcnt y + 1\<rparr>) s1)"
    using old new i g get y
    by (simp add: sys_dup2_def process_get_file_def vfs_file_ref_def set_file_def process_remove_file_def vfs_file_get_ref_def
        vfs_file_unref_def process_add_file_at_def refcount_inc_def s1_def add.assoc)
  moreover have "fd_inv F (fds[nat newfd := Some f]) (fext(g := fext g + 2)) cext iext sext (set_file f (y\<lparr>f_refcnt := f_refcnt y + 1\<rparr>) s1)"
    using add(2) i by (simp del: fun_upd_apply)
  ultimately show ?thesis
    by blast
qed

theorem dup2_leaks_replaced_file_witness:
  "\<exists>s'. sys_dup2 3 0 1 sample_fds sample_fs = Some (Inr 1, sample_fds[nat 1 := Some 1], s')
     \<and> fd_inv {} (sample_fds[nat 1 := Some 1]) ((\<lambda>_. 0)(2 := 0 + 2)) sample_ext sample_iext sample_sext s'"
  by (rule dup2_leaks_replaced_file [OF sample_fd_inv]) (simp_all add: sample_fds_def slots_def)

end
