(* ===== verification/X86_Context.thy ===== *)
theory X86_Context
  imports Prelude "HOL-Library.Word"
begin

unbundle bit_operations_syntax

text \<open>
  Saved processor contexts on kernel stacks: \<^verbatim>\<open>arch/x86/cpu_context.c\<close>, \<^verbatim>\<open>arch/x86/cpu_context.h\<close> and the selectors of
  \<^verbatim>\<open>arch/x86/segment.h\<close>.

  A context is sixteen 32-bit words at consecutive addresses.  The processor pushes the last two, the user stack pointer
  and segment, only when it comes from user mode, so a context of the kernel has fourteen words and is directly below
  the words of the context saved before it.  Kernel memory is therefore a function from word addresses to words,
  and contexts that overlap share words.  Contexts lie at word-aligned addresses.
\<close>

section \<open>The model\<close>

type_synonym kmem = "v_addr \<Rightarrow> 32 word"

abbreviation CTX_EBX :: v_addr where "CTX_EBX \<equiv> 0"
abbreviation CTX_ECX :: v_addr where "CTX_ECX \<equiv> 4"
abbreviation CTX_EDX :: v_addr where "CTX_EDX \<equiv> 8"
abbreviation CTX_ESI :: v_addr where "CTX_ESI \<equiv> 12"
abbreviation CTX_EDI :: v_addr where "CTX_EDI \<equiv> 16"
abbreviation CTX_EBP :: v_addr where "CTX_EBP \<equiv> 20"
abbreviation CTX_EAX :: v_addr where "CTX_EAX \<equiv> 24"
abbreviation CTX_DS_ES :: v_addr where "CTX_DS_ES \<equiv> 28"
abbreviation CTX_FS_GS :: v_addr where "CTX_FS_GS \<equiv> 32"
abbreviation CTX_SS :: v_addr where "CTX_SS \<equiv> 36"
abbreviation CTX_EIP :: v_addr where "CTX_EIP \<equiv> 44"
abbreviation CTX_CS :: v_addr where "CTX_CS \<equiv> 48"
abbreviation CTX_EFLAGS :: v_addr where "CTX_EFLAGS \<equiv> 52"
abbreviation CTX_USER_ESP :: v_addr where "CTX_USER_ESP \<equiv> 56"
abbreviation CTX_USER_SS :: v_addr where "CTX_USER_SS \<equiv> 60"

abbreviation CPU_CONTEXT_SIZE :: v_addr where "CPU_CONTEXT_SIZE \<equiv> 64"
abbreviation CPU_CONTEXT_KERNEL_SIZE :: v_addr where "CPU_CONTEXT_KERNEL_SIZE \<equiv> 56"

subsection \<open>Segment selectors\<close>

abbreviation KCODE :: "16 word" where "KCODE \<equiv> 1"
abbreviation KDATA :: "16 word" where "KDATA \<equiv> 2"
abbreviation UCODE :: "16 word" where "UCODE \<equiv> 3"
abbreviation UDATA :: "16 word" where "UDATA \<equiv> 4"
abbreviation PRIVILEGE_KERNEL :: "16 word" where "PRIVILEGE_KERNEL \<equiv> 0"
abbreviation PRIVILEGE_USER :: "16 word" where "PRIVILEGE_USER \<equiv> 3"

definition make_segment_selector :: "16 word \<Rightarrow> 16 word \<Rightarrow> 16 word" where
  "make_segment_selector rpl index = push_bit 3 index OR (rpl AND 3)"

definition segment_is_user :: "16 word \<Rightarrow> bool" where
  "segment_is_user segment \<longleftrightarrow> segment AND 3 = PRIVILEGE_USER"

subsection \<open>Contexts\<close>

text \<open>\<^verbatim>\<open>memset(p, 0, 4 n)\<close> and \<^verbatim>\<open>memcpy(d, s, 4 n)\<close> on words.\<close>

fun zero_words :: "nat \<Rightarrow> v_addr \<Rightarrow> kmem \<Rightarrow> kmem" where
  "zero_words 0 a m = m"
| "zero_words (Suc n) a m = zero_words n (a + 4) (m(a := 0))"

fun copy_words :: "nat \<Rightarrow> v_addr \<Rightarrow> v_addr \<Rightarrow> kmem \<Rightarrow> kmem" where
  "copy_words 0 d s m = m"
| "copy_words (Suc n) d s m = copy_words n (d + 4) (s + 4) (m(d := m s))"

text \<open>The words with the 16-bit fields \<open>ds\<close>, \<open>es\<close>, \<open>fs\<close>, \<open>gs\<close>, and the lower half of the word with \<open>ss\<close>.\<close>

definition halves :: "16 word \<Rightarrow> 16 word \<Rightarrow> 32 word" where
  "halves lo hi = ucast lo OR push_bit 16 (ucast hi)"

definition set_ss :: "v_addr \<Rightarrow> 16 word \<Rightarrow> kmem \<Rightarrow> kmem" where
  "set_ss ctx v m = m(ctx + CTX_SS := (m (ctx + CTX_SS) AND 0xFFFF0000) OR ucast v)"

definition cpu_context_init :: "v_addr \<Rightarrow> v_addr \<Rightarrow> 16 word \<Rightarrow> 16 word \<Rightarrow> kmem \<Rightarrow> kmem" where
  "cpu_context_init ctx pc code_segment data_segment m =
     (let m = m(ctx + CTX_EIP := pc);
          m = m(ctx + CTX_CS := ucast code_segment);
          m = m(ctx + CTX_DS_ES := halves data_segment data_segment);
          m = m(ctx + CTX_FS_GS := halves data_segment data_segment);
          m = set_ss ctx data_segment m
      in m(ctx + CTX_EFLAGS := push_bit 9 1 OR push_bit 1 1))"

definition cpu_context_kernel_init :: "v_addr \<Rightarrow> v_addr \<Rightarrow> kmem \<Rightarrow> kmem" where
  "cpu_context_kernel_init ctx pc m =
     cpu_context_init ctx pc (make_segment_selector PRIVILEGE_KERNEL KCODE) (make_segment_selector PRIVILEGE_KERNEL KDATA)
       (zero_words 14 ctx m)"

definition cpu_context_user_init :: "v_addr \<Rightarrow> v_addr \<Rightarrow> v_addr \<Rightarrow> kmem \<Rightarrow> kmem" where
  "cpu_context_user_init ctx user_pc user_stack m =
     (let user_data_seg = make_segment_selector PRIVILEGE_USER UDATA;
          m = zero_words 16 ctx m;
          m = cpu_context_init ctx user_pc (make_segment_selector PRIVILEGE_USER UCODE) user_data_seg m;
          m = set_ss ctx (make_segment_selector PRIVILEGE_KERNEL KDATA) m;
          m = m(ctx + CTX_USER_ESP := user_stack)
      in m(ctx + CTX_USER_SS := ucast user_data_seg))"

definition cpu_context_is_usermode :: "v_addr \<Rightarrow> kmem \<Rightarrow> bool" where
  "cpu_context_is_usermode ctx m \<longleftrightarrow> segment_is_user (ucast (m (ctx + CTX_CS)))"

definition cpu_context_copy :: "v_addr \<Rightarrow> v_addr \<Rightarrow> kmem \<Rightarrow> kmem" where
  "cpu_context_copy ctx copy m = (if cpu_context_is_usermode ctx m then copy_words 16 copy ctx m else copy_words 14 copy ctx m)"

definition cpu_context_get_previous :: "v_addr \<Rightarrow> kmem \<Rightarrow> v_addr" where
  "cpu_context_get_previous ctx m =
     (if cpu_context_is_usermode ctx m then ctx + CPU_CONTEXT_SIZE else ctx + CPU_CONTEXT_KERNEL_SIZE)"

definition cpu_context_get_next_user :: "v_addr \<Rightarrow> v_addr" where
  "cpu_context_get_next_user ctx = ctx - CPU_CONTEXT_SIZE"

definition cpu_context_get_next_kernel :: "v_addr \<Rightarrow> v_addr" where
  "cpu_context_get_next_kernel ctx = ctx - CPU_CONTEXT_KERNEL_SIZE"

definition cpu_context_set_syscall_return_value :: "v_addr \<Rightarrow> 32 word \<Rightarrow> kmem \<Rightarrow> kmem" where
  "cpu_context_set_syscall_return_value ctx ret m = m(ctx + CTX_EAX := ret)"

definition cpu_context_copy_syscall_regs :: "v_addr \<Rightarrow> v_addr \<Rightarrow> kmem \<Rightarrow> kmem" where
  "cpu_context_copy_syscall_regs ctx s m =
     (let m = m(ctx + CTX_EAX := m (s + CTX_EAX));
          m = m(ctx + CTX_EBX := m (s + CTX_EBX));
          m = m(ctx + CTX_ECX := m (s + CTX_ECX));
          m = m(ctx + CTX_EDX := m (s + CTX_EDX));
          m = m(ctx + CTX_ESI := m (s + CTX_ESI))
      in m(ctx + CTX_EDI := m (s + CTX_EDI)))"

definition cpu_context_set_pc :: "v_addr \<Rightarrow> v_addr \<Rightarrow> kmem \<Rightarrow> kmem" where
  "cpu_context_set_pc ctx pc m = m(ctx + CTX_EIP := pc)"

definition cpu_context_set_user_sp :: "v_addr \<Rightarrow> v_addr \<Rightarrow> kmem \<Rightarrow> kmem" where
  "cpu_context_set_user_sp ctx sp m = m(ctx + CTX_USER_ESP := sp)"

definition cpu_context_get_user_sp :: "v_addr \<Rightarrow> kmem \<Rightarrow> v_addr" where
  "cpu_context_get_user_sp ctx m = m (ctx + CTX_USER_ESP)"

definition cpu_context_get_syscall_nr :: "v_addr \<Rightarrow> kmem \<Rightarrow> int" where
  "cpu_context_get_syscall_nr ctx m = sint (m (ctx + CTX_EAX))"

definition cpu_context_get_syscall_arg_2 :: "v_addr \<Rightarrow> kmem \<Rightarrow> 32 word" where
  "cpu_context_get_syscall_arg_2 ctx m = m (ctx + CTX_ECX)"

text \<open>The stack pointer that the task state segment holds for the next entry from user mode.\<close>

definition cpu_context_update_tss :: "v_addr \<Rightarrow> kmem \<Rightarrow> v_addr" where
  "cpu_context_update_tss ctx m = cpu_context_get_previous ctx m"

section \<open>Which words the operations write\<close>

text \<open>\<open>m'\<close> is \<open>m\<close> outside of the \<open>n\<close> bytes that start at \<open>ctx\<close>.\<close>

definition only_within :: "nat \<Rightarrow> v_addr \<Rightarrow> kmem \<Rightarrow> kmem \<Rightarrow> bool" where
  "only_within n ctx m m' \<longleftrightarrow> (\<forall>a. n \<le> unat (a - ctx) \<longrightarrow> m' a = m a)"

lemma only_within_refl [simp]: "only_within n ctx m m"
  by (simp add: only_within_def)

lemma only_within_trans: "only_within n ctx m m' \<Longrightarrow> only_within n ctx m' m'' \<Longrightarrow> only_within n ctx m m''"
  by (simp add: only_within_def)

lemma only_within_mono: "only_within n ctx m m' \<Longrightarrow> n \<le> n' \<Longrightarrow> only_within n' ctx m m'"
  by (simp add: only_within_def)

lemma only_within_upd: "unat d < n \<Longrightarrow> only_within n ctx m m' \<Longrightarrow> only_within n ctx m (m'(ctx + d := v))"
  unfolding only_within_def by (metis add_diff_cancel_left' fun_upd_other linorder_not_le)

lemma only_within_at: "only_within n ctx m m' \<Longrightarrow> n \<le> unat d \<Longrightarrow> m' (ctx + d) = m (ctx + d)"
  by (simp add: only_within_def)

lemma zero_words_other:
  "(\<forall>i < n. b \<noteq> a + 4 * of_nat i) \<Longrightarrow> zero_words n a m b = m b"
proof (induction n arbitrary: a m)
  case (Suc n)
  have "b \<noteq> a"
    using Suc.prems [rule_format, of 0] by simp
  moreover have "\<forall>i < n. b \<noteq> a + 4 + 4 * of_nat i"
  proof (intro allI impI)
    fix i
    assume "i < n"
    then have "b \<noteq> a + 4 * of_nat (Suc i)"
      using Suc.prems [rule_format, of "Suc i"] by blast
    then show "b \<noteq> a + 4 + 4 * of_nat i"
      by (simp add: algebra_simps)
  qed
  ultimately show ?case
    using Suc.IH by simp
qed simp

lemma zero_words_within: "4 * n \<le> k \<Longrightarrow> k < 2 ^ 32 \<Longrightarrow> only_within k ctx m (zero_words n ctx m)"
  unfolding only_within_def
proof (intro allI impI zero_words_other)
  fix a i
  assume *: "4 * n \<le> k" "k < 2 ^ 32" "k \<le> unat (a - ctx)" "i < n"
  have "unat (4 * of_nat i :: 32 word) = 4 * i"
    using * by (simp add: unat_word_ariths unat_of_nat take_bit_nat_eq_self)
  with * show "a \<noteq> ctx + 4 * of_nat i"
    by auto
qed

lemma set_ss_within: "only_within n ctx m m' \<Longrightarrow> 36 < n \<Longrightarrow> only_within n ctx m (set_ss ctx v m')"
  by (simp add: set_ss_def only_within_upd)

lemma init_within: "only_within n ctx m m' \<Longrightarrow> 52 < n \<Longrightarrow> only_within n ctx m (cpu_context_init ctx pc cs ds m')"
  by (simp add: cpu_context_init_def Let_def only_within_upd set_ss_within)

lemma kernel_init_within: "only_within 56 ctx m (cpu_context_kernel_init ctx pc m)"
  by (simp add: cpu_context_kernel_init_def init_within zero_words_within)

lemma user_init_within: "only_within 64 ctx m (cpu_context_user_init ctx pc sp m)"
  by (simp add: cpu_context_user_init_def Let_def init_within zero_words_within set_ss_within only_within_upd)

lemma copy_syscall_regs_within: "only_within 56 ctx m (cpu_context_copy_syscall_regs ctx s m)"
  using only_within_upd [of 0 56 ctx m "m(ctx + CTX_EAX := m (s + CTX_EAX))"]
  by (simp add: cpu_context_copy_syscall_regs_def Let_def only_within_upd)

lemma user_init_usermode: "cpu_context_is_usermode ctx (cpu_context_user_init ctx pc sp m)"
  by (simp add: cpu_context_is_usermode_def cpu_context_user_init_def cpu_context_init_def set_ss_def Let_def
      make_segment_selector_def segment_is_user_def)

lemma kernel_init_not_usermode: "\<not> cpu_context_is_usermode ctx (cpu_context_kernel_init ctx pc m)"
  by (simp add: cpu_context_is_usermode_def cpu_context_kernel_init_def cpu_context_init_def set_ss_def Let_def
      make_segment_selector_def segment_is_user_def)

end
