(* ===== verification/Kernel_Signal.thy ===== *)
theory Kernel_Signal
  imports Prelude "HOL-Library.Word" "HOL-Library.Monad_Syntax"
begin

unbundle bit_operations_syntax

text \<open>
  The signal manager of a process: the queue of pending signals, the mask and the actions
  (\<^verbatim>\<open>kernel/signal.c\<close>, \<^verbatim>\<open>include/kernel/signal.h\<close>, \<^verbatim>\<open>include/dummyos/signal.h\<close>).  The delivery of
  signals, which builds contexts on the kernel stack, is in \<^verbatim>\<open>Signal_Delivery\<close>.

  The array of actions is a list of \<open>NSIG\<close> elements; indexing it outside, and shifting by a negative amount, is
  \<open>None\<close>.  An argument that points to user memory is given by the outcome of the copy: the copied value or \<^verbatim>\<open>EFAULT\<close>.
\<close>

section \<open>The model\<close>

abbreviation SIGKILL :: int where "SIGKILL \<equiv> 9"
abbreviation SIGCHLD :: int where "SIGCHLD \<equiv> 17"
abbreviation SIGSTOP :: int where "SIGSTOP \<equiv> 19"
abbreviation NSIG :: nat where "NSIG \<equiv> 20"

abbreviation SIG_DFL :: v_addr where "SIG_DFL \<equiv> 0"
abbreviation SIG_IGN :: v_addr where "SIG_IGN \<equiv> 1"
abbreviation SIG_ERR :: v_addr where "SIG_ERR \<equiv> - 1"

abbreviation SA_NODEFER :: "32 word" where "SA_NODEFER \<equiv> 1"
abbreviation SA_ONSTACK :: "32 word" where "SA_ONSTACK \<equiv> 2"
abbreviation SA_RESETHAND :: "32 word" where "SA_RESETHAND \<equiv> 4"
abbreviation SA_SIGINFO :: "32 word" where "SA_SIGINFO \<equiv> 8"
abbreviation SA_RESTART :: "32 word" where "SA_RESTART \<equiv> 16"

type_synonym sigset = "32 word"

text \<open>\<^verbatim>\<open>sa_handler\<close> and \<^verbatim>\<open>sa_sigaction\<close> are the members of one union.\<close>

record sigaction =
  sa_handler :: v_addr
  sa_mask :: sigset
  sa_flags :: "32 word"

record siginfo =
  si_signo :: int
  si_code :: int
  si_pid :: int

record queued_siginfo =
  sinfo :: siginfo
  saved_mask :: sigset

record signal_manager =
  sig_queue :: "queued_siginfo list"
  sig_mask :: sigset
  actions :: "sigaction list"
  altstack_sp :: v_addr
  handled_stack :: "queued_siginfo list"

definition sig_is_valid :: "int \<Rightarrow> bool" where
  "sig_is_valid sig \<longleftrightarrow> sig > 0 \<and> sig < int NSIG"

definition sig_is_settable :: "int \<Rightarrow> bool" where
  "sig_is_settable sig \<longleftrightarrow> sig_is_valid sig \<and> sig \<noteq> SIGKILL \<and> sig \<noteq> SIGSTOP"

definition sigset_contains :: "sigset \<Rightarrow> int \<Rightarrow> bool" where
  "sigset_contains st sig \<longleftrightarrow> st AND push_bit (nat sig) 1 \<noteq> 0"

text \<open>\<open>1 << (sig - 1)\<close>; the shift is undefined for a negative amount and for 31 or more.\<close>

definition sig_bit :: "int \<Rightarrow> sigset option" where
  "sig_bit sig = (if 1 \<le> sig \<and> sig \<le> 31 then Some (push_bit (nat (sig - 1)) 1) else None)"

text \<open>\<open>actions[sig - 1]\<close>, read and written.\<close>

definition get_action :: "signal_manager \<Rightarrow> int \<Rightarrow> sigaction option" where
  "get_action sigm sig =
     (if 1 \<le> sig \<and> nat (sig - 1) < length (actions sigm) then Some (actions sigm ! nat (sig - 1)) else None)"

definition set_action :: "int \<Rightarrow> sigaction \<Rightarrow> signal_manager \<Rightarrow> signal_manager option" where
  "set_action sig act sigm =
     (if 1 \<le> sig \<and> nat (sig - 1) < length (actions sigm)
      then Some (sigm\<lparr>actions := (actions sigm)[nat (sig - 1) := act]\<rparr>) else None)"

datatype sig_how = SIG_SETMASK | SIG_BLOCK | SIG_UNBLOCK | How_other int

text \<open>
  \<open>uset\<close> is the outcome of copying the new set; \<open>oset\<close> says whether the old mask is asked for and, if so, whether it can be
  stored.  The result carries the stored mask.
\<close>

definition sys_sigprocmask ::
  "sig_how \<Rightarrow> sigset result \<Rightarrow> bool option \<Rightarrow> signal_manager \<Rightarrow> sigset option result \<times> signal_manager" where
  "sys_sigprocmask how uset oset sigm =
     (case uset of
        Inl e \<Rightarrow> (Inl e, sigm)
      | Inr uset \<Rightarrow>
          if (how = SIG_BLOCK \<or> how = SIG_SETMASK) \<and> (sigset_contains uset SIGKILL \<or> sigset_contains uset SIGSTOP)
          then (Inl EINVAL, sigm)
          else (case (case how of
                        SIG_BLOCK \<Rightarrow> Some (sig_mask sigm OR uset)
                      | SIG_UNBLOCK \<Rightarrow> Some (sig_mask sigm AND NOT uset)
                      | SIG_SETMASK \<Rightarrow> Some uset
                      | How_other _ \<Rightarrow> None) of
              None \<Rightarrow> (Inl EINVAL, sigm)
            | Some new \<Rightarrow>
                (case oset of
                   None \<Rightarrow> (Inr None, sigm\<lparr>sig_mask := new\<rparr>)
                 | Some ok \<Rightarrow> if \<not> ok then (Inl EFAULT, sigm)
                     else (Inr (Some (sig_mask sigm)), sigm\<lparr>sig_mask := new\<rparr>))))"

definition sigaction_set :: "int \<Rightarrow> sigaction \<Rightarrow> signal_manager \<Rightarrow> (sigaction \<times> signal_manager) option" where
  "sigaction_set sig act sigm = do {
     old \<leftarrow> get_action sigm sig;
     sigm \<leftarrow> set_action sig act sigm;
     Some (old, sigm) }"

definition sys_sigaction ::
  "int \<Rightarrow> sigaction result \<Rightarrow> bool option \<Rightarrow> signal_manager \<Rightarrow> (sigaction option result \<times> signal_manager) option" where
  "sys_sigaction sig act oact sigm =
     (if \<not> sig_is_settable sig then Some (Inl EINVAL, sigm)
      else (case act of
          Inl e \<Rightarrow> Some (Inl EFAULT, sigm)
        | Inr act \<Rightarrow> do {
            (old, sigm) \<leftarrow> sigaction_set sig act sigm;
            Some (case oact of
                None \<Rightarrow> (Inr None, sigm)
              | Some ok \<Rightarrow> (if ok then Inr (Some old) else Inl EFAULT, sigm)) }))"

definition sys_signal :: "int \<Rightarrow> v_addr \<Rightarrow> signal_manager \<Rightarrow> (v_addr \<times> signal_manager) option" where
  "sys_signal sig handler sigm = do {
     bit \<leftarrow> sig_bit sig;
     let act = \<lparr>sa_handler = handler, sa_mask = bit, sa_flags = 0\<rparr>;
     if \<not> sig_is_settable sig then Some (SIG_ERR, sigm)
     else do { (_, sigm) \<leftarrow> sigaction_set sig act sigm; Some (0, sigm) } }"

definition sigaction_is :: "sigaction \<Rightarrow> v_addr \<Rightarrow> bool" where
  "sigaction_is act hdlr \<longleftrightarrow>
     (if sa_flags act AND SA_SIGINFO \<noteq> 0 then sa_handler act = hdlr else sa_handler act = hdlr)"

definition siginfo_init :: "int \<Rightarrow> int option \<Rightarrow> siginfo" where
  "siginfo_init sig sender =
     \<lparr>si_signo = sig, si_code = sig, si_pid = (case sender of None \<Rightarrow> 0 | Some pid \<Rightarrow> pid)\<rparr>"

definition queued_siginfo_init :: "int \<Rightarrow> int option \<Rightarrow> queued_siginfo" where
  "queued_siginfo_init sig sender = \<lparr>sinfo = siginfo_init sig sender, saved_mask = 0\<rparr>"

definition queued_siginfo_create :: "bool \<Rightarrow> int \<Rightarrow> int option \<Rightarrow> queued_siginfo result" where
  "queued_siginfo_create m sig sender = (if m then Inr (queued_siginfo_init sig sender) else Inl ENOMEM)"

definition zero_action :: sigaction where
  "zero_action = \<lparr>sa_handler = 0, sa_mask = 0, sa_flags = 0\<rparr>"

definition signal_init :: signal_manager where
  "signal_init = \<lparr>sig_queue = [], sig_mask = 0, actions = replicate NSIG zero_action, altstack_sp = 0, handled_stack = []\<rparr>"

definition signal_create :: "bool \<Rightarrow> signal_manager result" where
  "signal_create m = (if m then Inr signal_init else Inl ENOMEM)"

definition signal_copy :: "signal_manager \<Rightarrow> signal_manager" where
  "signal_copy src = src\<lparr>sig_queue := [], handled_stack := []\<rparr>"

definition signal_reset_dispositions :: "signal_manager \<Rightarrow> signal_manager" where
  "signal_reset_dispositions sigm = signal_init\<lparr>sig_mask := sig_mask sigm\<rparr>"

definition signal_pending :: "signal_manager \<Rightarrow> bool" where
  "signal_pending sigm \<longleftrightarrow> sig_queue sigm \<noteq> []"

definition signal_is :: "int \<Rightarrow> signal_manager \<Rightarrow> v_addr \<Rightarrow> bool option" where
  "signal_is sig sigm hdlr = map_option (\<lambda>act. sigaction_is act hdlr) (get_action sigm sig)"

definition signal_is_dlf :: "int \<Rightarrow> signal_manager \<Rightarrow> bool option" where
  "signal_is_dlf sig sigm = signal_is sig sigm SIG_DFL"

definition signal_is_ign :: "int \<Rightarrow> signal_manager \<Rightarrow> bool option" where
  "signal_is_ign sig sigm = signal_is sig sigm SIG_IGN"

definition signal_send :: "bool \<Rightarrow> int \<Rightarrow> int option \<Rightarrow> signal_manager \<Rightarrow> unit result \<times> signal_manager" where
  "signal_send m sig sender sigm =
     (case queued_siginfo_create m sig sender of
        Inl e \<Rightarrow> (Inl e, sigm)
      | Inr qs \<Rightarrow> (Inr (), sigm\<lparr>sig_queue := sig_queue sigm @ [qs]\<rparr>))"

definition signal_reset_handler :: "int \<Rightarrow> signal_manager \<Rightarrow> signal_manager option" where
  "signal_reset_handler sig sigm = set_action sig (zero_action\<lparr>sa_handler := SIG_DFL\<rparr>) sigm"

definition signal_pop :: "signal_manager \<Rightarrow> queued_siginfo option \<times> signal_manager" where
  "signal_pop sigm =
     (if \<not> signal_pending sigm then (None, sigm)
      else (Some (hd (sig_queue sigm)), sigm\<lparr>sig_queue := tl (sig_queue sigm)\<rparr>))"

section \<open>Reachable managers\<close>

text \<open>
  Every change of a signal manager that the program makes: the system calls, a signal that is sent, taken from the
  queue or whose handler is reset when it is delivered, the changes of the mask and of the stack of handled signals by delivery and
  \<^verbatim>\<open>sigreturn\<close>, and the changes at fork and exec.
\<close>

inductive sig_step :: "signal_manager \<Rightarrow> signal_manager \<Rightarrow> bool" where
  step_sigprocmask: "sys_sigprocmask how uset oset s = (r, s') \<Longrightarrow> sig_step s s'"
| step_sigaction: "sys_sigaction sig act oact s = Some (r, s') \<Longrightarrow> sig_step s s'"
| step_signal: "sys_signal sig h s = Some (v, s') \<Longrightarrow> sig_step s s'"
| step_send: "signal_send m sig sender s = (r, s') \<Longrightarrow> sig_step s s'"
| step_pop: "signal_pop s = (q, s') \<Longrightarrow> sig_step s s'"
| step_reset_handler: "signal_reset_handler sig s = Some s' \<Longrightarrow> sig_step s s'"
| step_delivery: "sig_step s (s\<lparr>sig_mask := m, handled_stack := h\<rparr>)"
| step_copy: "sig_step s (signal_copy s)"
| step_exec: "sig_step s (signal_reset_dispositions s)"

inductive sig_reachable :: "signal_manager \<Rightarrow> bool" where
  reach_init: "sig_reachable signal_init"
| reach_step: "sig_reachable s \<Longrightarrow> sig_step s s' \<Longrightarrow> sig_reachable s'"

text \<open>
  There is an action for each signal, and the actions of \<^verbatim>\<open>SIGKILL\<close> and \<^verbatim>\<open>SIGSTOP\<close> are the default ones.
\<close>

definition sig_wf :: "signal_manager \<Rightarrow> bool" where
  "sig_wf s \<longleftrightarrow> length (actions s) = NSIG \<and> actions s ! 8 = zero_action \<and> actions s ! 18 = zero_action"

lemma sig_wf_mask [simp]: "sig_wf (s\<lparr>sig_mask := m\<rparr>) = sig_wf s"
  by (simp add: sig_wf_def)

lemma sig_wf_queue [simp]: "sig_wf (s\<lparr>sig_queue := q\<rparr>) = sig_wf s"
  by (simp add: sig_wf_def)

lemma sig_wf_handled [simp]: "sig_wf (s\<lparr>handled_stack := q\<rparr>) = sig_wf s"
  by (simp add: sig_wf_def)

lemma sig_wf_init: "sig_wf signal_init"
  by (simp add: sig_wf_def signal_init_def nth_replicate)

lemma set_action_wf:
  assumes "set_action sig act s = Some s'" "sig_wf s" "sig = SIGKILL \<or> sig = SIGSTOP \<Longrightarrow> act = zero_action"
  shows "sig_wf s'"
proof -
  have "nat (sig - 1) = 8 \<Longrightarrow> sig = SIGKILL" "nat (sig - 1) = 18 \<Longrightarrow> sig = SIGSTOP"
    by arith+
  with assms show ?thesis
    by (auto simp: set_action_def sig_wf_def nth_list_update split: if_splits)
qed

lemma sigaction_set_wf:
  "sigaction_set sig act s = Some (old, s') \<Longrightarrow> sig_is_settable sig \<Longrightarrow> sig_wf s \<Longrightarrow> sig_wf s'"
  by (auto simp: sigaction_set_def sig_is_settable_def split: Option.bind_splits intro: set_action_wf)

lemma sigprocmask_wf: "sys_sigprocmask how uset oset s = (r, s') \<Longrightarrow> sig_wf s \<Longrightarrow> sig_wf s'"
  by (auto simp: sys_sigprocmask_def split: sum.splits if_splits option.splits sig_how.splits)

lemma sys_sigaction_wf: "sys_sigaction sig act oact s = Some (r, s') \<Longrightarrow> sig_wf s \<Longrightarrow> sig_wf s'"
  by (auto simp: sys_sigaction_def split: sum.splits if_splits option.splits Option.bind_splits dest: sigaction_set_wf)

lemma sys_signal_wf: "sys_signal sig h s = Some (v, s') \<Longrightarrow> sig_wf s \<Longrightarrow> sig_wf s'"
  by (auto simp: sys_signal_def Let_def split: if_splits Option.bind_splits dest: sigaction_set_wf)

lemma sig_step_wf: "sig_step s s' \<Longrightarrow> sig_wf s \<Longrightarrow> sig_wf s'"
proof (induction rule: sig_step.induct)
  case (step_reset_handler sig s s')
  then show ?case
    by (auto simp: signal_reset_handler_def zero_action_def intro: set_action_wf)
qed (auto simp: signal_send_def signal_pop_def signal_copy_def signal_reset_dispositions_def queued_siginfo_create_def
       sig_wf_init split: if_splits dest: sigprocmask_wf sys_sigaction_wf sys_signal_wf)

lemma sig_reachable_wf: "sig_reachable s \<Longrightarrow> sig_wf s"
  by (induction rule: sig_reachable.induct) (auto simp: sig_wf_init intro: sig_step_wf)

lemma wf_signal_is:
  assumes "sig_wf s"
  shows "signal_is SIGKILL s h = Some (h = 0)" "signal_is SIGSTOP s h = Some (h = 0)"
    "sig_is_valid sig \<Longrightarrow> \<exists>a. get_action s sig = Some a"
  using assms by (auto simp: sig_wf_def signal_is_def get_action_def sigaction_is_def zero_action_def sig_is_valid_def)

text \<open>
  C32: in every signal manager that the program can reach from a new one, by its system calls, by sending, taking and
  delivering signals, and by fork and exec, \<^verbatim>\<open>SIGKILL\<close> and \<^verbatim>\<open>SIGSTOP\<close> have the default action, so they are neither ignored
  nor caught; and the table of actions has an entry for each valid signal number.
\<close>

theorem kill_and_stop_keep_default:
  assumes "sig_reachable s"
  shows "signal_is_dlf SIGKILL s = Some True \<and> signal_is_ign SIGKILL s = Some False \<and>
    signal_is_dlf SIGSTOP s = Some True \<and> signal_is_ign SIGSTOP s = Some False \<and>
    (\<forall>sig. sig_is_valid sig \<longrightarrow> (\<exists>a. get_action s sig = Some a))"
  using wf_signal_is [OF sig_reachable_wf [OF assms]] by (simp add: signal_is_dlf_def signal_is_ign_def)

text \<open>A manager in which \<^verbatim>\<open>SIGTERM\<close> is ignored by \<^verbatim>\<open>signal(15, SIG_IGN)\<close>.\<close>

definition ignoring_term :: signal_manager where
  "ignoring_term = signal_init\<lparr>actions := (replicate NSIG zero_action)[14 := \<lparr>sa_handler = 1, sa_mask = 16384, sa_flags = 0\<rparr>]\<rparr>"

lemma ignoring_term_reachable: "sig_reachable ignoring_term"
proof (rule reach_step [OF reach_init step_signal])
  show "sys_signal 15 SIG_IGN signal_init = Some (0, ignoring_term)"
    by (simp add: sys_signal_def sig_bit_def sig_is_settable_def sig_is_valid_def sigaction_set_def get_action_def
        set_action_def signal_init_def ignoring_term_def push_bit_eq_mult)
qed

theorem kill_and_stop_keep_default_witness:
  "signal_is_ign 15 ignoring_term = Some True \<and> signal_is_ign SIGKILL ignoring_term = Some False"
  using kill_and_stop_keep_default [OF ignoring_term_reachable] by (simp add: signal_is_ign_def signal_is_def get_action_def ignoring_term_def sigaction_is_def)

section \<open>The mask\<close>

text \<open>
  The set that holds the one signal \<open>sig\<close> is refused by \<^verbatim>\<open>sigprocmask\<close> exactly for the signals 10 and 20, those that follow
  \<^verbatim>\<open>SIGKILL\<close> and \<^verbatim>\<open>SIGSTOP\<close>: \<^verbatim>\<open>sigset_contains\<close> looks at the bit \<open>sig\<close>, while the bit of a signal in a mask is \<open>sig - 1\<close>.
\<close>

lemma sig_bit_contains:
  assumes "sig_bit sig = Some b" "0 \<le> n" "n \<le> 31"
  shows "sigset_contains b n \<longleftrightarrow> n = sig - 1"
proof -
  have "sigset_contains b n \<longleftrightarrow> bit b (nat n)"
    by (simp add: sigset_contains_def and_exp_eq_0_iff_not_bit)
  then show ?thesis
    using assms by (auto simp: sig_bit_def bit_simps split: if_splits)
qed

lemma sigprocmask_refuses:
  assumes "sig_bit sig = Some b"
  shows "sys_sigprocmask SIG_BLOCK (Inr b) None s =
    (if sig = 10 \<or> sig = 20 then (Inl EINVAL, s) else (Inr None, s\<lparr>sig_mask := sig_mask s OR b\<rparr>))"
  using sig_bit_contains [OF assms, of SIGKILL] sig_bit_contains [OF assms, of SIGSTOP]
  by (simp add: sys_sigprocmask_def)

end
