(* ===== verification/Kernel_Process.thy ===== *)
theory Kernel_Process
  imports Kernel_Sched Kernel_Signal Fs_File Mm_Vmm X86_Context
begin

text \<open>
  Processes: \<^verbatim>\<open>kernel/process.c\<close>, \<^verbatim>\<open>kernel/sys.c\<close>, \<^verbatim>\<open>kernel/fork.c\<close> and \<^verbatim>\<open>kernel/exit.c\<close>.

  The state of the kernel is the state of the scheduler extended with the processes, the process table, the state of files
  (\<^verbatim>\<open>Fs_File\<close>) and the state of virtual memory (\<^verbatim>\<open>Mm_Vmm\<close>).  A process is found by the address of its object; the
  threads of a process are \<open>proc_threads\<close> of the scheduler, and the scheduler's \<open>locked\<close> follows the state of the process.
  Each process owns one signal manager, which is a field of it.  Accesses to freed processes and outside of the process table are \<open>None\<close>.
\<close>

section \<open>The model\<close>

subsection \<open>State\<close>

datatype process_state = PROC_RUNNABLE | PROC_LOCKED | PROC_ZOMBIE

record process =
  pr_pid :: int
  pr_session :: int
  pr_session_leader :: bool
  pr_pgrp :: int
  pr_ctrl_tty :: "nat option"
  pr_name :: "byte list"
  pr_state :: process_state
  pr_entry_point :: v_addr
  pr_brk :: v_addr
  pr_exit_status :: int
  pr_fds :: fdtab
  pr_cwd :: "nat option"
  pr_root :: "nat option"
  pr_parent :: "nat option"
  pr_children :: "nat list"
  pr_vmm :: p_addr
  pr_signals :: signal_manager
  pr_wait_wq :: nat

text \<open>
  The objects that signal delivery copies to user memory: the trampoline, the information on the signal, the
  arguments of the handler or its return address, and the remaining time of an interrupted sleep.
\<close>

datatype ucopy = Trampoline | Siginfo siginfo | Args "v_addr list" | Remainder timespec

text \<open>
  The kernel stacks are part of the memory \<open>k_mem\<close>; the fields \<^verbatim>\<open>kstack\<close> and \<^verbatim>\<open>syscall_ctx\<close> of a thread are \<open>kstack_sp\<close>,
  \<open>kstack_size\<close> and \<open>syscall_ctx\<close>.  \<open>user_copies\<close> are the successful copies, in order.
\<close>

record kernel = sched +
  procs :: "nat \<Rightarrow> process option"
  process_table :: "nat \<Rightarrow> nat option"
  k_fs :: fstate
  k_vm :: vm
  k_mem :: kmem
  kstack_sp :: "tid \<Rightarrow> v_addr"
  kstack_size :: "tid \<Rightarrow> size_t"
  syscall_ctx :: "tid \<Rightarrow> v_addr"
  user_copies :: "(v_addr \<times> ucopy) list"

abbreviation PROCESS_TABLE_SIZE :: nat where "PROCESS_TABLE_SIZE \<equiv> 64"
abbreviation PROCESS_NAME_MAX_LENGTH :: size_t where "PROCESS_NAME_MAX_LENGTH \<equiv> 16"

text \<open>
  What the operations take from outside of the model: whether \<^verbatim>\<open>kmalloc\<close> succeeds for a signal, the wait queues a thread may
  be on, and the bound on the destruction of cache nodes.
\<close>

record kenv =
  ke_malloc :: bool
  ke_wqs :: "nat list"
  ke_fuel :: nat

definition set_proc :: "nat \<Rightarrow> process \<Rightarrow> 'a kernel_scheme \<Rightarrow> 'a kernel_scheme" where
  "set_proc p x k = k\<lparr>procs := (procs k)(p \<mapsto> x), locked := (locked k)(p := (pr_state x = PROC_LOCKED))\<rparr>"

subsection \<open>Process numbers\<close>

definition find_free_pid :: "'a kernel_scheme \<Rightarrow> int" where
  "find_free_pid k =
     (case find (\<lambda>pid. process_table k pid = None) [1..<Suc PROCESS_TABLE_SIZE] of None \<Rightarrow> - 1 | Some pid \<Rightarrow> int pid)"

definition process_register_pid :: "nat \<Rightarrow> int \<Rightarrow> 'a kernel_scheme \<Rightarrow> (int result \<times> 'a kernel_scheme) option" where
  "process_register_pid p pid k =
     (if pid > 0 \<and> pid \<le> int PROCESS_TABLE_SIZE \<and> process_table k (nat pid) = None then do {
        x \<leftarrow> procs k p;
        Some (Inr pid, set_proc p (x\<lparr>pr_pid := pid\<rparr>) (k\<lparr>process_table := (process_table k)(nat pid \<mapsto> p)\<rparr>)) }
      else Some (Inl ENOSPC, k))"

definition process_register :: "nat \<Rightarrow> 'a kernel_scheme \<Rightarrow> (int result \<times> 'a kernel_scheme) option" where
  "process_register p k = process_register_pid p (find_free_pid k) k"

definition unregister_process :: "nat \<Rightarrow> 'a kernel_scheme \<Rightarrow> 'a kernel_scheme option" where
  "unregister_process p k = do {
     x \<leftarrow> procs k p;
     if 0 \<le> pr_pid x \<and> pr_pid x \<le> int PROCESS_TABLE_SIZE
     then Some (k\<lparr>process_table := (process_table k)(nat (pr_pid x) := None)\<rparr>) else None }"

definition process_get :: "int \<Rightarrow> 'a kernel_scheme \<Rightarrow> nat option" where
  "process_get pid k = (if pid > 0 \<and> pid \<le> int PROCESS_TABLE_SIZE then process_table k (nat pid) else None)"

subsection \<open>Creation\<close>

text \<open>
  \<open>sig_ok\<close>: the signal manager can be allocated; \<open>wq\<close> is the wait queue inside the new process.  The root
  of the cache is stored without a reference.
\<close>

definition process_init :: "nat \<Rightarrow> bool \<Rightarrow> nat \<Rightarrow> byte list \<Rightarrow> 'a kernel_scheme \<Rightarrow> (unit result \<times> 'a kernel_scheme) option" where
  "process_init p sig_ok wq name k = do {
     (r, vm) \<leftarrow> vmm_create (k_vm k);
     let k = k\<lparr>k_vm := vm\<rparr>;
     case r of
       Inl e \<Rightarrow> Some (Inl e, k)
     | Inr v \<Rightarrow>
         (case signal_create sig_ok of
            Inl e \<Rightarrow> Some (Inl e, k)
          | Inr sigm \<Rightarrow> do {
              (nm, _) \<leftarrow> strlcpy (replicate (unat PROCESS_NAME_MAX_LENGTH) 0) name PROCESS_NAME_MAX_LENGTH;
              let k = wait_init wq k;
              Some (Inr (), set_proc p
                \<lparr>pr_pid = 0, pr_session = 0, pr_session_leader = False, pr_pgrp = 0, pr_ctrl_tty = None, pr_name = nm,
                 pr_state = PROC_RUNNABLE, pr_entry_point = 0, pr_brk = 0, pr_exit_status = 0,
                 pr_fds = replicate PROCESS_MAX_FD None, pr_cwd = None, pr_root = cache_node_root (vfs (k_fs k)),
                 pr_parent = None, pr_children = [], pr_vmm = v, pr_signals = sigm, pr_wait_wq = wq\<rparr>
                (k\<lparr>proc_threads := (proc_threads k)(p := [])\<rparr>)) }) }"

definition process_create ::
  "nat option \<Rightarrow> bool \<Rightarrow> nat \<Rightarrow> byte list \<Rightarrow> 'a kernel_scheme \<Rightarrow> (nat result \<times> 'a kernel_scheme) option" where
  "process_create new sig_ok wq name k =
     (case new of
        None \<Rightarrow> Some (Inl ENOMEM, k)
      | Some p \<Rightarrow> do {
          (r, k) \<leftarrow> process_init p sig_ok wq name k;
          Some (case r of Inl e \<Rightarrow> (Inl e, k) | Inr _ \<Rightarrow> (Inr p, k)) })"

definition process_add_thread :: "nat \<Rightarrow> tid \<Rightarrow> 'a kernel_scheme \<Rightarrow> 'a kernel_scheme option" where
  "process_add_thread p t k = do {
     th \<leftarrow> threads k t;
     if th_type th \<noteq> UTHREAD then None
     else do {
       k \<leftarrow> thread_ref t (k\<lparr>proc_threads := (proc_threads k)(p := proc_threads k p @ [t])\<rparr>);
       th \<leftarrow> threads k t;
       Some (set_thread t (th\<lparr>th_process := p\<rparr>) k) } }"

definition process_remove_thread :: "nat \<Rightarrow> tid \<Rightarrow> 'a kernel_scheme \<Rightarrow> 'a kernel_scheme" where
  "process_remove_thread p t k = k\<lparr>proc_threads := (proc_threads k)(p := remove1 t (proc_threads k p))\<rparr>"

subsection \<open>Locking\<close>

fun lock_threads :: "tid list \<Rightarrow> tid option \<Rightarrow> 'a kernel_scheme \<Rightarrow> (unit result \<times> 'a kernel_scheme) option" where
  "lock_threads [] me k = Some (Inr (), k)"
| "lock_threads (t # ts) me k =
     (if me \<noteq> Some t then do {
        (r, k) \<leftarrow> sched_remove_thread t k;
        case r of Inl e \<Rightarrow> Some (Inl e, k) | Inr _ \<Rightarrow> lock_threads ts me k }
      else lock_threads ts me k)"

definition set_proc_state :: "nat \<Rightarrow> process_state \<Rightarrow> 'a kernel_scheme \<Rightarrow> 'a kernel_scheme option" where
  "set_proc_state p st k = map_option (\<lambda>x. set_proc p (x\<lparr>pr_state := st\<rparr>) k) (procs k p)"

definition process_lock :: "nat \<Rightarrow> tid option \<Rightarrow> 'a kernel_scheme \<Rightarrow> (unit result \<times> 'a kernel_scheme) option" where
  "process_lock p me k = do {
     (r, k) \<leftarrow> lock_threads (proc_threads k p) me k;
     case r of Inl e \<Rightarrow> Some (Inl e, k) | Inr _ \<Rightarrow> map_option (Pair (Inr ())) (set_proc_state p PROC_LOCKED k) }"

fun unlock_threads :: "tid list \<Rightarrow> 'a kernel_scheme \<Rightarrow> 'a kernel_scheme option" where
  "unlock_threads [] k = Some k"
| "unlock_threads (t # ts) k = do {
     th \<leftarrow> threads k t;
     k \<leftarrow> (if th_state th = THREAD_READY then sched_add_thread t k else Some k);
     unlock_threads ts k }"

definition process_unlock :: "nat \<Rightarrow> 'a kernel_scheme \<Rightarrow> 'a kernel_scheme option" where
  "process_unlock p k = do {
     k \<leftarrow> set_proc_state p PROC_RUNNABLE k;
     unlock_threads (proc_threads k p) k }"

subsection \<open>Fields\<close>

definition process_set_vmm :: "nat \<Rightarrow> p_addr \<Rightarrow> 'a kernel_scheme \<Rightarrow> 'a kernel_scheme option" where
  "process_set_vmm p v k = map_option (\<lambda>x. set_proc p (x\<lparr>pr_vmm := v\<rparr>) k) (procs k p)"

definition process_set_name :: "nat \<Rightarrow> byte list \<Rightarrow> 'a kernel_scheme \<Rightarrow> 'a kernel_scheme option" where
  "process_set_name p name k = do {
     x \<leftarrow> procs k p;
     (nm, _) \<leftarrow> strlcpy (pr_name x) name PROCESS_NAME_MAX_LENGTH;
     Some (set_proc p (x\<lparr>pr_name := nm\<rparr>) k) }"

definition process_set_process_image :: "nat \<Rightarrow> v_addr \<Rightarrow> v_addr \<Rightarrow> 'a kernel_scheme \<Rightarrow> 'a kernel_scheme option" where
  "process_set_process_image p pc bk k =
     map_option (\<lambda>x. set_proc p (x\<lparr>pr_entry_point := pc, pr_brk := bk\<rparr>) k) (procs k p)"

definition process_signal_pending :: "nat option \<Rightarrow> 'a kernel_scheme \<Rightarrow> bool option" where
  "process_signal_pending proc k =
     (case proc of None \<Rightarrow> Some False | Some p \<Rightarrow> map_option (\<lambda>x. signal_pending (pr_signals x)) (procs k p))"

definition process_set_tty_for_pgrp :: "int \<Rightarrow> nat option \<Rightarrow> 'a kernel_scheme \<Rightarrow> 'a kernel_scheme option" where
  "process_set_tty_for_pgrp pgrp tty k =
     (if pgrp = 0 then Some k
      else foreach (\<lambda>i k. case process_table k i of
               None \<Rightarrow> Some k
             | Some p \<Rightarrow> do {
                 x \<leftarrow> procs k p;
                 Some (if pr_pgrp x = pgrp then set_proc p (x\<lparr>pr_ctrl_tty := tty\<rparr>) k else k) })
             [1..<Suc PROCESS_TABLE_SIZE] k)"

subsection \<open>Sending signals\<close>

fun has_ready_thread :: "tid list \<Rightarrow> 'a kernel_scheme \<Rightarrow> bool option" where
  "has_ready_thread [] k = Some False"
| "has_ready_thread (t # ts) k = do {
     th \<leftarrow> threads k t;
     if th_state th = THREAD_READY then Some True else has_ready_thread ts k }"

definition process_has_ready_thread :: "nat \<Rightarrow> 'a kernel_scheme \<Rightarrow> bool option" where
  "process_has_ready_thread p k = has_ready_thread (proc_threads k p) k"

text \<open>The assertions of \<^verbatim>\<open>thread_intr_sleep\<close> on the contexts of the thread.\<close>

definition intr_asserts :: "tid \<Rightarrow> thread \<Rightarrow> 'a kernel_scheme \<Rightarrow> bool" where
  "intr_asserts t th k \<longleftrightarrow>
     \<not> cpu_context_is_usermode (th_cpu_context th) (k_mem k) \<and>
     syscall_ctx k t > kstack_sp k t \<and> syscall_ctx k t \<le> kstack_sp k t + kstack_size k t \<and>
     cpu_context_is_usermode (syscall_ctx k t) (k_mem k)"

fun intr_sleeping_thread :: "kenv \<Rightarrow> tid list \<Rightarrow> 'a kernel_scheme \<Rightarrow> (unit result \<times> 'a kernel_scheme) option" where
  "intr_sleeping_thread env [] k = Some (Inl ESRCH, k)"
| "intr_sleeping_thread env (t # ts) k = do {
     th \<leftarrow> threads k t;
     if th_state th = THREAD_SLEEPING then thread_intr_sleep (ke_wqs env) (intr_asserts t th k) t k
     else intr_sleeping_thread env ts k }"

definition process_intr_sleeping_thread :: "kenv \<Rightarrow> nat \<Rightarrow> 'a kernel_scheme \<Rightarrow> (unit result \<times> 'a kernel_scheme) option" where
  "process_intr_sleeping_thread env p k = intr_sleeping_thread env (proc_threads k p) k"

text \<open>The number of the current process, if there is one.\<close>

definition current_pid :: "'a kernel_scheme \<Rightarrow> int option option" where
  "current_pid k = do {
     me \<leftarrow> sched_get_current_process k;
     case me of None \<Rightarrow> Some None | Some p \<Rightarrow> map_option (\<lambda>x. Some (pr_pid x)) (procs k p) }"

definition process_send :: "bool \<Rightarrow> nat \<Rightarrow> int \<Rightarrow> int option \<Rightarrow> 'a kernel_scheme \<Rightarrow> 'a kernel_scheme option" where
  "process_send m p sig sender k = do {
     x \<leftarrow> procs k p;
     Some (set_proc p (x\<lparr>pr_signals := snd (signal_send m sig sender (pr_signals x))\<rparr>) k) }"

definition process_kill :: "kenv \<Rightarrow> int \<Rightarrow> int \<Rightarrow> 'a kernel_scheme \<Rightarrow> (unit result \<times> 'a kernel_scheme) option" where
  "process_kill env pid sig k =
     (if 0 \<le> pid \<and> pid \<le> int PROCESS_TABLE_SIZE then
        (case process_table k (nat pid) of
           None \<Rightarrow> Some (Inl EINVAL, k)
         | Some p \<Rightarrow>
             if proc_threads k p = [] then Some (Inl EINVAL, k)
             else do {
               x \<leftarrow> procs k p;
               ign \<leftarrow> signal_is_ign sig (pr_signals x);
               if ign then Some (Inr (), k)
               else do {
                 ready \<leftarrow> process_has_ready_thread p k;
                 k \<leftarrow> (if ready then Some k else map_option snd (process_intr_sleeping_thread env p k));
                 sender \<leftarrow> current_pid k;
                 k \<leftarrow> process_send (ke_malloc env) p sig sender k;
                 Some (Inr (), k) } })
      else None)"

definition process_pgrp_kill :: "kenv \<Rightarrow> int \<Rightarrow> int \<Rightarrow> 'a kernel_scheme \<Rightarrow> (unit result \<times> 'a kernel_scheme) option" where
  "process_pgrp_kill env pgrp sig k =
     (if pgrp \<le> 0 then Some (Inl EINVAL, k)
      else map_option (Pair (Inr ()))
        (foreach (\<lambda>i k. case process_table k i of
             None \<Rightarrow> Some k
           | Some p \<Rightarrow> do {
               x \<leftarrow> procs k p;
               if pr_pgrp x = pgrp then map_option snd (process_kill env (int i) sig k) else Some k })
           [1..<Suc PROCESS_TABLE_SIZE] k))"

subsection \<open>Exit\<close>

definition exit_thread :: "tid \<Rightarrow> 'a kernel_scheme \<Rightarrow> 'a kernel_scheme option" where
  "exit_thread t k = do {
     k \<leftarrow> thread_set_state t THREAD_DEAD k;
     map_option snd (sched_remove_thread t k) }"

definition exit_threads :: "nat \<Rightarrow> 'a kernel_scheme \<Rightarrow> 'a kernel_scheme option" where
  "exit_threads p k = foreach exit_thread (proc_threads k p) k"

definition process_exit_quiet :: "kenv \<Rightarrow> nat \<Rightarrow> 'a kernel_scheme \<Rightarrow> 'a kernel_scheme option" where
  "process_exit_quiet env p k = do {
     k \<leftarrow> exit_threads p k;
     x \<leftarrow> procs k p;
     fs \<leftarrow> close_fds (ke_fuel env) (pr_fds x) (k_fs k);
     Some (k\<lparr>k_fs := fs\<rparr>) }"

definition process_exit :: "kenv \<Rightarrow> nat \<Rightarrow> int \<Rightarrow> 'a kernel_scheme \<Rightarrow> 'a kernel_scheme option" where
  "process_exit env p status k = do {
     k \<leftarrow> process_exit_quiet env p k;
     x \<leftarrow> procs k p;
     let k = set_proc p (x\<lparr>pr_state := PROC_ZOMBIE, pr_exit_status := status\<rparr>) k;
     k \<leftarrow> (case pr_parent x of
            None \<Rightarrow> Some k
          | Some q \<Rightarrow> do {
              y \<leftarrow> procs k q;
              (_, k) \<leftarrow> process_kill env (pr_pid y) SIGCHLD k;
              (_, k) \<leftarrow> wait_wake_all (pr_wait_wq y) k;
              Some k });
     (case pr_ctrl_tty x of
        Some t \<Rightarrow> if pr_session_leader x then do {
            tty \<leftarrow> ttys (k_fs k) t;
            Some (k\<lparr>k_fs := (k_fs k)\<lparr>ttys := (ttys (k_fs k))(t \<mapsto> tty_reset_pgrp tty)\<rparr>\<rparr>) }
          else Some k
      | None \<Rightarrow> Some k) }"

fun destroy_threads :: "tid list \<Rightarrow> nat \<Rightarrow> 'a kernel_scheme \<Rightarrow> 'a kernel_scheme option" where
  "destroy_threads [] p k = Some k"
| "destroy_threads (t # ts) p k = do {
     k \<leftarrow> thread_unref t (process_remove_thread p t k);
     destroy_threads ts p k }"

definition remove_from_parent_list :: "nat \<Rightarrow> 'a kernel_scheme \<Rightarrow> 'a kernel_scheme option" where
  "remove_from_parent_list p k = do {
     x \<leftarrow> procs k p;
     case pr_parent x of
       None \<Rightarrow> Some k
     | Some q \<Rightarrow> do {
         y \<leftarrow> procs k q;
         Some (set_proc q (y\<lparr>pr_children := remove1 p (pr_children y)\<rparr>) k) } }"

definition unref_cnode :: "kenv \<Rightarrow> nat option \<Rightarrow> 'a kernel_scheme \<Rightarrow> 'a kernel_scheme option" where
  "unref_cnode env n k = do {
     v \<leftarrow> vfs_cache_node_unref (ke_fuel env) n (vfs (k_fs k));
     Some (k\<lparr>k_fs := (k_fs k)\<lparr>vfs := v\<rparr>\<rparr>) }"

definition process_reset :: "kenv \<Rightarrow> nat \<Rightarrow> 'a kernel_scheme \<Rightarrow> 'a kernel_scheme option" where
  "process_reset env p k = do {
     x \<leftarrow> procs k p;
     vm \<leftarrow> vmm_unref (pr_vmm x) (k_vm k);
     k \<leftarrow> wait_reset (pr_wait_wq x) (k\<lparr>k_vm := vm\<rparr>);
     k \<leftarrow> destroy_threads (proc_threads k p) p k;
     k \<leftarrow> unregister_process p k;
     k \<leftarrow> unref_cnode env (pr_root x) k;
     k \<leftarrow> unref_cnode env (pr_cwd x) k;
     remove_from_parent_list p k }"

definition process_destroy :: "kenv \<Rightarrow> nat \<Rightarrow> 'a kernel_scheme \<Rightarrow> 'a kernel_scheme option" where
  "process_destroy env p k = do {
     k \<leftarrow> process_reset env p k;
     Some (k\<lparr>procs := (procs k)(p := None), locked := (locked k)(p := False)\<rparr>) }"

definition process_exec :: "nat \<Rightarrow> 'a kernel_scheme \<Rightarrow> 'a kernel_scheme option" where
  "process_exec p k = do {
     x \<leftarrow> procs k p;
     k \<leftarrow> wait_reset (pr_wait_wq x) k;
     let k = wait_init (pr_wait_wq x) k;
     let k = set_proc p (x\<lparr>pr_signals := signal_reset_dispositions (pr_signals x)\<rparr>) k;
     k \<leftarrow> exit_threads p k;
     destroy_threads (proc_threads k p) p k }"

subsection \<open>Fork\<close>

text \<open>
  The allocations of a fork: the process, its signal manager, the wait queue inside the process, the thread, its kernel stack
  and the copies of the open files.
\<close>

record fork_args =
  fa_proc :: "nat option"
  fa_signals :: bool
  fa_wq :: nat
  fa_thread :: tid
  fa_thread_ok :: bool
  fa_stack :: "v_addr option"
  fa_files :: "nat list"

definition clone_kstack :: "tid \<Rightarrow> tid \<Rightarrow> 'a kernel_scheme \<Rightarrow> 'a kernel_scheme option" where
  "clone_kstack t new k = do {
     th \<leftarrow> threads k t;
     nth \<leftarrow> threads k new;
     if th_cpu_context th < kstack_sp k t then None
     else Some (set_thread new (nth\<lparr>th_cpu_context := kstack_sp k new + (th_cpu_context th - kstack_sp k t)\<rparr>)
       (k\<lparr>k_mem := (\<lambda>a. if a - kstack_sp k new < kstack_size k t
                         then k_mem k (kstack_sp k t + (a - kstack_sp k new)) else k_mem k a)\<rparr>)) }"

definition clone_thread :: "fork_args \<Rightarrow> tid \<Rightarrow> 'a kernel_scheme \<Rightarrow> (tid result \<times> 'a kernel_scheme) option" where
  "clone_thread fa t k = do {
     let sp = (case fa_stack fa of None \<Rightarrow> 0 | Some a \<Rightarrow> a);
     let top = sp + kstack_size k t;
     (r, k) \<leftarrow> thread_clone (fa_thread fa) (fa_thread_ok fa) (fa_stack fa \<noteq> None) (cpu_context_get_next_user top) t k;
     case r of
       Inl e \<Rightarrow> Some (Inl e, k)
     | Inr new \<Rightarrow> do {
         k \<leftarrow> clone_kstack t new (k\<lparr>kstack_sp := (kstack_sp k)(new := sp),
                kstack_size := (kstack_size k)(new := kstack_size k t), syscall_ctx := (syscall_ctx k)(new := 0)\<rparr>);
         Some (Inr new, k) } }"

text \<open>A reference of the cache node that a process stores.\<close>

definition ref_cnode :: "nat option \<Rightarrow> 'a kernel_scheme \<Rightarrow> 'a kernel_scheme option" where
  "ref_cnode n k = do {
     v \<leftarrow> vfs_cache_node_ref n (vfs (k_fs k));
     Some (k\<lparr>k_fs := (k_fs k)\<lparr>vfs := v\<rparr>\<rparr>) }"

text \<open>
  The part of \<^verbatim>\<open>process_fork\<close> behind the copy of the files.
\<close>

definition fork_inherit :: "nat \<Rightarrow> nat \<Rightarrow> 'a kernel_scheme \<Rightarrow> 'a kernel_scheme option" where
  "fork_inherit p new k = do {
     x \<leftarrow> procs k p;
     k \<leftarrow> ref_cnode (pr_root x) k;
     k \<leftarrow> ref_cnode (pr_cwd x) k;
     y \<leftarrow> procs k new;
     let k = set_proc new (y\<lparr>pr_root := pr_root x, pr_cwd := pr_cwd x, pr_session := pr_session x, pr_pgrp := pr_pgrp x,
               pr_ctrl_tty := pr_ctrl_tty x, pr_signals := signal_copy (pr_signals x), pr_parent := Some p\<rparr>) k;
     x \<leftarrow> procs k p;
     Some (set_proc p (x\<lparr>pr_children := pr_children x @ [new]\<rparr>) k) }"

definition process_fork ::
  "kenv \<Rightarrow> fork_args \<Rightarrow> nat \<Rightarrow> tid \<Rightarrow> 'a kernel_scheme \<Rightarrow> ((nat \<times> tid) result outcome \<times> 'a kernel_scheme) option" where
  "process_fork env fa p t k = do {
     x \<leftarrow> procs k p;
     (r, k) \<leftarrow> process_create (fa_proc fa) (fa_signals fa) (fa_wq fa) (pr_name x) k;
     case r of
       Inl e \<Rightarrow> Some (Done (Inl e), k)
     | Inr new \<Rightarrow> do {
         (r, k) \<leftarrow> clone_thread fa t k;
         case r of
           Inl e \<Rightarrow> map_option (Pair (Done (Inl e))) (process_destroy env new k)
         | Inr c \<Rightarrow> do {
             k \<leftarrow> process_add_thread new c k;
             k \<leftarrow> thread_unref c k;
             y \<leftarrow> procs k new;
             (r, fds, fs) \<leftarrow> copy_fds (ke_fuel env) (fa_files fa) (pr_fds x) (pr_fds y) (k_fs k);
             let k = set_proc new (y\<lparr>pr_fds := fds\<rparr>) (k\<lparr>k_fs := fs\<rparr>);
             case r of
               Block \<Rightarrow> Some (Block, k)
             | Done (Inl e) \<Rightarrow> map_option (Pair (Done (Inl e))) (process_destroy env new k)
             | Done (Inr _) \<Rightarrow> map_option (Pair (Done (Inr (new, c)))) (fork_inherit p new k) } } }"

text \<open>The child of \<^verbatim>\<open>sys_fork\<close> after \<^verbatim>\<open>process_fork\<close>: number, address space, scheduler and return value.
  \<^verbatim>\<open>sched_add_process\<close> returns the number of threads it has added, so the branch for a negative number is never taken.\<close>

definition fork_start :: "kenv \<Rightarrow> nat \<Rightarrow> nat \<Rightarrow> tid \<Rightarrow> 'a kernel_scheme \<Rightarrow> (int result \<times> 'a kernel_scheme) option" where
  "fork_start env p child c k = do {
     (r, k) \<leftarrow> process_register child k;
     case r of
       Inl e \<Rightarrow> map_option (Pair (Inl e)) (process_destroy env child k)
     | Inr pid \<Rightarrow> do {
         x \<leftarrow> procs k p;
         y \<leftarrow> procs k child;
         (r, vm) \<leftarrow> vmm_clone (pr_vmm x) (pr_vmm y) (k_vm k);
         let k = k\<lparr>k_vm := vm\<rparr>;
         case r of
           Inl e \<Rightarrow> map_option (Pair (Inl e)) (process_destroy env child k)
         | Inr _ \<Rightarrow> do {
             (n, k) \<leftarrow> sched_add_process child k;
             th \<leftarrow> threads k c;
             Some (Inr pid, k\<lparr>k_mem := cpu_context_set_syscall_return_value (th_cpu_context th) 0 (k_mem k)\<rparr>) } } }"

definition sys_fork :: "kenv \<Rightarrow> fork_args \<Rightarrow> 'a kernel_scheme \<Rightarrow> (int result outcome \<times> 'a kernel_scheme) option" where
  "sys_fork env fa k = do {
     t \<leftarrow> current_thread k;
     th \<leftarrow> threads k t;
     let p = th_process th;
     (r, k) \<leftarrow> process_fork env fa p t k;
     case r of
       Block \<Rightarrow> Some (Block, k)
     | Done (Inl e) \<Rightarrow> Some (Done (Inl e), k)
     | Done (Inr (child, c)) \<Rightarrow> do {
         (r, k) \<leftarrow> fork_start env p child c k;
         Some (Done r, k) } }"

subsection \<open>Exit and wait\<close>

text \<open>The current process; a kernel thread has none, and its callers follow a null pointer.\<close>

definition current_process :: "'a kernel_scheme \<Rightarrow> (nat \<times> process) option" where
  "current_process k = do {
     me \<leftarrow> sched_get_current_process k;
     p \<leftarrow> me;
     x \<leftarrow> procs k p;
     Some (p, x) }"

definition sys_exit ::
  "kenv \<Rightarrow> 'a kernel_ext delivery \<Rightarrow> nat \<Rightarrow> 32 word \<Rightarrow> int \<Rightarrow> 'a kernel_scheme \<Rightarrow> (32 word \<times> 'a kernel_scheme) option" where
  "sys_exit env deliver fuel cpu_ctx status k = do {
     t \<leftarrow> current_thread k;
     th \<leftarrow> threads k t;
     k \<leftarrow> process_exit env (th_process th) (signed_take_bit 31 (push_bit 8 status)) k;
     sched_exit deliver fuel cpu_ctx k }"

text \<open>
  \<^verbatim>\<open>_wait\<close>: \<open>status\<close> says whether the exit status is asked for and, if so, whether it can be stored.  The result
  is the number of the child and the stored status.
\<close>

fun wait_zombie ::
  "kenv \<Rightarrow> bool option \<Rightarrow> int \<Rightarrow> nat list \<Rightarrow> 'a kernel_scheme \<Rightarrow> ((int \<times> int option) result \<times> 'a kernel_scheme) option" where
  "wait_zombie env status pid [] k = Some (Inl ECHILD, k)"
| "wait_zombie env status pid (c # cs) k = do {
     x \<leftarrow> procs k c;
     if pr_state x = PROC_ZOMBIE \<and> (pid = 0 \<or> pid = pr_pid x) then
       (if status = Some False then Some (Inl EFAULT, k)
        else do {
          k \<leftarrow> process_destroy env c k;
          Some (Inr (pr_pid x, if status = None then None else Some (pr_exit_status x)), k) })
     else wait_zombie env status pid cs k }"

text \<open>
  A process that has to wait sleeps on its own wait queue and the scheduler takes over: \<open>Block\<close>, with the state
  in which the next thread runs.  When it is woken it goes on with \<open>sys_wait\<close> and \<open>sys_waitpid_resume\<close>.
\<close>

definition wait_sleep ::
  "'a kernel_ext delivery \<Rightarrow> nat \<Rightarrow> 32 word \<Rightarrow> nat \<Rightarrow> 'a kernel_scheme \<Rightarrow> ('b outcome \<times> 'a kernel_scheme) option" where
  "wait_sleep deliver fuel cpu_ctx wq k = map_option (\<lambda>(_, k). (Block, k)) (wait_wait deliver fuel cpu_ctx wq k)"

definition sys_wait ::
  "kenv \<Rightarrow> 'a kernel_ext delivery \<Rightarrow> nat \<Rightarrow> 32 word \<Rightarrow> bool option \<Rightarrow> 'a kernel_scheme \<Rightarrow>
   ((int \<times> int option) result outcome \<times> 'a kernel_scheme) option" where
  "sys_wait env deliver fuel cpu_ctx status k = do {
     (p, x) \<leftarrow> current_process k;
     if pr_children x = [] then Some (Done (Inl ECHILD), k)
     else do {
       (r, k) \<leftarrow> wait_zombie env status 0 (pr_children x) k;
       case r of
         Inr (pid, st) \<Rightarrow> if pid > 0 then Some (Done (Inr (pid, st)), k) else wait_sleep deliver fuel cpu_ctx (pr_wait_wq x) k
       | Inl e \<Rightarrow> wait_sleep deliver fuel cpu_ctx (pr_wait_wq x) k } }"

text \<open>One turn of the loop of \<^verbatim>\<open>sys_waitpid\<close>.\<close>

definition waitpid_turn ::
  "kenv \<Rightarrow> 'a kernel_ext delivery \<Rightarrow> nat \<Rightarrow> 32 word \<Rightarrow> int \<Rightarrow> bool option \<Rightarrow> bool \<Rightarrow> process \<Rightarrow> 'a kernel_scheme \<Rightarrow>
   ((int \<times> int option) result outcome \<times> 'a kernel_scheme) option" where
  "waitpid_turn env deliver fuel cpu_ctx pid status nohang x k = do {
     (r, k) \<leftarrow> wait_zombie env status pid (pr_children x) k;
     if (case r of Inr (c, _) \<Rightarrow> c > 0 | Inl _ \<Rightarrow> False) then Some (Done r, k)
     else if nohang then Some (Done (Inl ECHILD), k)
     else wait_sleep deliver fuel cpu_ctx (pr_wait_wq x) k }"

definition sys_waitpid ::
  "kenv \<Rightarrow> 'a kernel_ext delivery \<Rightarrow> nat \<Rightarrow> 32 word \<Rightarrow> int \<Rightarrow> bool option \<Rightarrow> bool \<Rightarrow> 'a kernel_scheme \<Rightarrow>
   ((int \<times> int option) result outcome \<times> 'a kernel_scheme) option" where
  "sys_waitpid env deliver fuel cpu_ctx pid status nohang k =
     (if pid = - 1 then sys_wait env deliver fuel cpu_ctx status k
      else if pid \<le> 0 then Some (Done (Inl EINVAL), k)
      else do {
        (p, x) \<leftarrow> current_process k;
        waitpid_turn env deliver fuel cpu_ctx pid status nohang x k })"

definition sys_waitpid_resume ::
  "kenv \<Rightarrow> 'a kernel_ext delivery \<Rightarrow> nat \<Rightarrow> 32 word \<Rightarrow> int \<Rightarrow> bool option \<Rightarrow> bool \<Rightarrow> 'a kernel_scheme \<Rightarrow>
   ((int \<times> int option) result outcome \<times> 'a kernel_scheme) option" where
  "sys_waitpid_resume env deliver fuel cpu_ctx pid status nohang k = do {
     (p, x) \<leftarrow> current_process k;
     if pr_children x = [] then Some (Done (Inl ECHILD), k)
     else waitpid_turn env deliver fuel cpu_ctx pid status nohang x k }"

subsection \<open>Process, group and session numbers\<close>

definition sys_getpid :: "'a kernel_scheme \<Rightarrow> int option" where
  "sys_getpid k = map_option (\<lambda>(_, x). pr_pid x) (current_process k)"

definition sys_getppid :: "'a kernel_scheme \<Rightarrow> int option" where
  "sys_getppid k = do {
     (_, x) \<leftarrow> current_process k;
     case pr_parent x of None \<Rightarrow> Some 0 | Some q \<Rightarrow> map_option pr_pid (procs k q) }"

definition sys_setsid :: "'a kernel_scheme \<Rightarrow> (int result \<times> 'a kernel_scheme) option" where
  "sys_setsid k = do {
     (p, x) \<leftarrow> current_process k;
     if pr_session_leader x then Some (Inl EPERM, k)
     else Some (Inr (pr_pid x), set_proc p (x\<lparr>pr_session := pr_pid x, pr_session_leader := True, pr_pgrp := pr_pid x,
            pr_ctrl_tty := None\<rparr>) k) }"

definition sys_setpgid :: "int \<Rightarrow> int \<Rightarrow> 'a kernel_scheme \<Rightarrow> (unit result \<times> 'a kernel_scheme) option" where
  "sys_setpgid pid pgid k = do {
     (p, x) \<leftarrow> current_process k;
     case (if pid = 0 then Some p else process_get pid k) of
       None \<Rightarrow> Some (Inl ESRCH, k)
     | Some q \<Rightarrow> do {
         y \<leftarrow> procs k q;
         if pr_session_leader y then Some (Inl EPERM, k)
         else if pr_session y \<noteq> pr_session x then Some (Inl EPERM, k)
         else Some (Inr (), set_proc q (y\<lparr>pr_pgrp := if pgid = 0 then pr_pid y else pgid\<rparr>) k) } }"

definition sys_getpgid :: "int \<Rightarrow> 'a kernel_scheme \<Rightarrow> int result option" where
  "sys_getpgid pid k = do {
     proc \<leftarrow> (if pid = 0 then map_option (\<lambda>(p, _). Some p) (current_process k) else Some (process_get pid k));
     case proc of None \<Rightarrow> Some (Inl ESRCH) | Some q \<Rightarrow> map_option (\<lambda>y. Inr (pr_pgrp y)) (procs k q) }"

definition sys_setpgrp :: "'a kernel_scheme \<Rightarrow> (unit result \<times> 'a kernel_scheme) option" where
  "sys_setpgrp k = sys_setpgid 0 0 k"

definition sys_getpgrp :: "'a kernel_scheme \<Rightarrow> int option" where
  "sys_getpgrp k = map_option (\<lambda>(_, x). pr_pgrp x) (current_process k)"

end
