(* ===== verification/Process_Props.thy ===== *)
theory Process_Props
  imports Kernel_Process Fs_Desc Vmm_Props
begin

text \<open>
  Properties of processes: their numbers, groups and sessions under every operation of \<^verbatim>\<open>Kernel_Process\<close>, and what a parent that waits
  gets from a child that has exited.
\<close>

lemma set_proc_simps [simp]:
  "threads (set_proc p x k) = threads k" "k_mem (set_proc p x k) = k_mem k" "kstack_sp (set_proc p x k) = kstack_sp k"
  "kstack_size (set_proc p x k) = kstack_size k" "syscall_ctx (set_proc p x k) = syscall_ctx k"
  "current_thread (set_proc p x k) = current_thread k" "procs (set_proc p x k) = (procs k)(p \<mapsto> x)"
  "process_table (set_proc p x k) = process_table k" "k_fs (set_proc p x k) = k_fs k" "k_vm (set_proc p x k) = k_vm k"
  "proc_threads (set_proc p x k) = proc_threads k" "ready_queues (set_proc p x k) = ready_queues k"
  "wait_queues (set_proc p x k) = wait_queues k"
  by (simp_all add: set_proc_def)

section \<open>The scheduler does not touch processes\<close>

text \<open>No operation of the scheduler changes the part of the kernel state that extends it.\<close>

named_theorems sched_frame

lemma more_set_thread [simp]: "sched.more (set_thread t th s) = sched.more s"
  by (simp add: set_thread_def)

lemma more_thread_ref [sched_frame]: "thread_ref t s = Some s' \<Longrightarrow> sched.more s' = sched.more s"
  by (auto simp: thread_ref_def split: Option.bind_splits)

lemma more_thread_set_state [sched_frame]: "thread_set_state t st s = Some s' \<Longrightarrow> sched.more s' = sched.more s"
  by (auto simp: thread_set_state_def split: Option.bind_splits)

lemma more_sched_add_thread [sched_frame]: "sched_add_thread t s = Some s' \<Longrightarrow> sched.more s' = sched.more s"
  by (auto simp: sched_add_thread_def split: Option.bind_splits if_splits dest!: sched_frame)

lemma more_wait_wake_loop:
  assumes "\<And>t s s'. unref t s = Some s' \<Longrightarrow> sched.more s' = sched.more s"
  shows "wait_wake_loop unref fuel wq nb n s = Some (r, s') \<Longrightarrow> sched.more s' = sched.more s"
  by (induction fuel arbitrary: n s)
    (auto split: list.splits if_splits Option.bind_splits dest!: assms more_sched_add_thread)

lemma more_reaper_reap_with:
  assumes "\<And>t s s'. unref t s = Some s' \<Longrightarrow> sched.more s' = sched.more s"
  shows "reaper_reap_with unref t s = Some s' \<Longrightarrow> sched.more s' = sched.more s"
  by (auto simp: reaper_reap_with_def semaphore_up_with_def wait_wake_with_def Let_def simp del: wait_wake_loop.simps
      split: if_splits Option.bind_splits dest!: more_wait_wake_loop [OF assms, rotated])

lemma more_thread_unref_fuel: "thread_unref_fuel fuel t s = Some s' \<Longrightarrow> sched.more s' = sched.more s"
proof (induction fuel arbitrary: t s s')
  case (Suc fuel)
  then show ?case
    by (auto simp: Let_def split: prod.splits if_splits Option.bind_splits
        dest!: more_reaper_reap_with [of "thread_unref_fuel fuel", rotated])
qed simp

lemma more_thread_unref [sched_frame]: "thread_unref t s = Some s' \<Longrightarrow> sched.more s' = sched.more s"
  unfolding thread_unref_def by (rule more_thread_unref_fuel)

lemma more_wait_wake_all [sched_frame]: "wait_wake_all wq s = Some (n, s') \<Longrightarrow> sched.more s' = sched.more s"
  unfolding wait_wake_all_def wait_wake_def wait_wake_with_def by (rule more_wait_wake_loop [OF more_thread_unref])

lemma more_unref_all: "unref_all ts s = Some s' \<Longrightarrow> sched.more s' = sched.more s"
  by (induction ts s rule: unref_all.induct) (auto split: Option.bind_splits dest!: sched_frame)

lemma more_wait_init [simp]: "sched.more (wait_init wq s) = sched.more s"
  by (simp add: wait_init_def)

lemma more_wait_reset [sched_frame]: "wait_reset wq s = Some s' \<Longrightarrow> sched.more s' = sched.more s"
  by (auto simp: wait_reset_def dest: more_unref_all)

lemma more_sched_remove_thread [sched_frame]: "sched_remove_thread t s = Some (r, s') \<Longrightarrow> sched.more s' = sched.more s"
  by (auto simp: sched_remove_thread_def split: if_splits Option.bind_splits dest!: sched_frame)

lemma more_thread_intr_sleep [sched_frame]: "thread_intr_sleep wqs ok t s = Some (r, s') \<Longrightarrow> sched.more s' = sched.more s"
  by (auto simp: thread_intr_sleep_def thread_intr_sleep_queues_def split: if_splits Option.bind_splits dest!: sched_frame)

lemma more_thread_clone [sched_frame]: "thread_clone new a b ctx t s = Some (r, s') \<Longrightarrow> sched.more s' = sched.more s"
  by (auto simp: thread_clone_def thread_create_with_def split: if_splits Option.bind_splits)

lemma more_sched_add_threads: "sched_add_threads ts n s = Some (r, s') \<Longrightarrow> sched.more s' = sched.more s"
  by (induction ts n s rule: sched_add_threads.induct) (auto split: Option.bind_splits dest!: sched_frame)

lemma more_sched_add_process [sched_frame]: "sched_add_process p s = Some (n, s') \<Longrightarrow> sched.more s' = sched.more s"
  by (auto simp: sched_add_process_def dest: more_sched_add_threads)

text \<open>Two states that agree on that part differ in the fields of the scheduler only.\<close>

definition copy_base :: "'a sched_scheme \<Rightarrow> 'a sched_scheme \<Rightarrow> 'a sched_scheme" where
  "copy_base k' k = k\<lparr>threads := threads k', current_thread := current_thread k', current_thread_start := current_thread_start k',
     ready_queues := ready_queues k', wait_queues := wait_queues k', sem_value := sem_value k', reaper_list := reaper_list k',
     timer_list := timer_list k', current_time := current_time k', tick_value := tick_value k', locked := locked k',
     proc_threads := proc_threads k'\<rparr>"

lemma copy_base_more: "sched.more k' = sched.more k \<Longrightarrow> copy_base k' k = k'"
  by (rule sched.equality; simp add: copy_base_def)

lemma more_kernel:
  fixes k k' :: "'a kernel_scheme"
  assumes "sched.more k' = sched.more k"
  shows "procs k' = procs k" "process_table k' = process_table k" "k_fs k' = k_fs k" "k_vm k' = k_vm k" "k_mem k' = k_mem k"
proof -
  have "procs (copy_base k' k) = procs k" "process_table (copy_base k' k) = process_table k" "k_fs (copy_base k' k) = k_fs k"
    "k_vm (copy_base k' k) = k_vm k" "k_mem (copy_base k' k) = k_mem k"
    by (simp_all add: copy_base_def)
  then show "procs k' = procs k" "process_table k' = process_table k" "k_fs k' = k_fs k" "k_vm k' = k_vm k" "k_mem k' = k_mem k"
    by (simp_all only: copy_base_more [OF assms])
qed

section \<open>Process numbers, groups and sessions\<close>

definition ids_of :: "process \<Rightarrow> int \<times> int \<times> bool \<times> int" where
  "ids_of x = (pr_pid x, pr_session x, pr_session_leader x, pr_pgrp x)"

definition same_ids :: "'a kernel_scheme \<Rightarrow> 'a kernel_scheme \<Rightarrow> bool" where
  "same_ids k k' \<longleftrightarrow> process_table k' = process_table k \<and> (\<forall>p. map_option ids_of (procs k' p) = map_option ids_of (procs k p))"

text \<open>
  The slot of the process table of a process is the one of its number; a process without a number is in no slot; and the leader of a
  session has the number of the session and of its group.
\<close>

definition ids_inv :: "'a kernel_scheme \<Rightarrow> bool" where
  "ids_inv k \<longleftrightarrow>
     (\<forall>i p. process_table k i = Some p \<longrightarrow> 1 \<le> i \<and> i \<le> PROCESS_TABLE_SIZE \<and> (\<exists>x. procs k p = Some x \<and> pr_pid x = int i)) \<and>
     (\<forall>p x. procs k p = Some x \<longrightarrow>
        0 \<le> pr_pid x \<and> pr_pid x \<le> int PROCESS_TABLE_SIZE \<and>
        (pr_pid x \<noteq> 0 \<longrightarrow> process_table k (nat (pr_pid x)) = Some p) \<and>
        (pr_session_leader x \<longrightarrow> pr_session x = pr_pid x \<and> pr_pgrp x = pr_pid x))"

lemma ids_invI:
  assumes "\<And>i p. process_table k i = Some p \<Longrightarrow> 1 \<le> i \<and> i \<le> PROCESS_TABLE_SIZE \<and> (\<exists>x. procs k p = Some x \<and> pr_pid x = int i)"
    and "\<And>p x. procs k p = Some x \<Longrightarrow> 0 \<le> pr_pid x \<and> pr_pid x \<le> int PROCESS_TABLE_SIZE \<and>
      (pr_pid x \<noteq> 0 \<longrightarrow> process_table k (nat (pr_pid x)) = Some p) \<and>
      (pr_session_leader x \<longrightarrow> pr_session x = pr_pid x \<and> pr_pgrp x = pr_pid x)"
  shows "ids_inv k"
  unfolding ids_inv_def using assms by blast

lemma ids_tableD:
  "ids_inv k \<Longrightarrow> process_table k i = Some p \<Longrightarrow> 1 \<le> i \<and> i \<le> PROCESS_TABLE_SIZE \<and> (\<exists>x. procs k p = Some x \<and> pr_pid x = int i)"
  unfolding ids_inv_def by blast

lemma ids_table:
  assumes "ids_inv k" "process_table k i = Some p"
  obtains x where "1 \<le> i" "i \<le> PROCESS_TABLE_SIZE" "procs k p = Some x" "pr_pid x = int i"
  using ids_tableD [OF assms] by blast

lemma ids_proc:
  assumes "ids_inv k" "procs k p = Some x"
  shows "0 \<le> pr_pid x" "pr_pid x \<le> int PROCESS_TABLE_SIZE" "pr_pid x \<noteq> 0 \<longrightarrow> process_table k (nat (pr_pid x)) = Some p"
    "pr_session_leader x \<longrightarrow> pr_session x = pr_pid x \<and> pr_pgrp x = pr_pid x"
  using assms unfolding ids_inv_def by blast+

lemma same_ids_refl [simp]: "same_ids k k"
  by (simp add: same_ids_def)

lemma same_ids_trans: "same_ids k k' \<Longrightarrow> same_ids k' k'' \<Longrightarrow> same_ids k k''"
  by (simp add: same_ids_def)

lemma same_ids_more: "sched.more k' = sched.more k \<Longrightarrow> same_ids k k'"
  using more_kernel [of k' k] by (simp add: same_ids_def)

lemma same_ids_set_proc: "procs k p = Some x \<Longrightarrow> ids_of y = ids_of x \<Longrightarrow> same_ids k (set_proc p y k)"
  by (simp add: same_ids_def set_proc_def)

lemma same_ids_update [simp]:
  "same_ids k (k\<lparr>k_fs := f\<rparr>)" "same_ids k (k\<lparr>k_vm := v\<rparr>)" "same_ids k (k\<lparr>k_mem := m\<rparr>)" "same_ids k (k\<lparr>user_copies := u\<rparr>)"
  "same_ids k (k\<lparr>proc_threads := ts\<rparr>)" "same_ids k (k\<lparr>kstack_sp := a, kstack_size := b, syscall_ctx := c\<rparr>)"
  by (simp_all add: same_ids_def)

lemma same_ids_inv:
  assumes "same_ids k k'" "ids_inv k"
  shows "ids_inv k'"
proof -
  have *: "(\<exists>x. procs k' p = Some x \<and> ids_of x = i) \<longleftrightarrow> (\<exists>x. procs k p = Some x \<and> ids_of x = i)" for p i
    using assms(1) unfolding same_ids_def by (metis (no_types, lifting) map_option_eq_Some)
  show ?thesis
    unfolding ids_inv_def
  proof (intro conjI allI impI)
    fix i p
    assume "process_table k' i = Some p"
    then have "process_table k i = Some p"
      using assms(1) by (simp add: same_ids_def)
    then obtain x where x: "1 \<le> i" "i \<le> PROCESS_TABLE_SIZE" "procs k p = Some x" "pr_pid x = int i"
      using ids_table [OF assms(2)] by blast
    with * [of p "ids_of x"] show "1 \<le> i" "i \<le> PROCESS_TABLE_SIZE" "\<exists>x. procs k' p = Some x \<and> pr_pid x = int i"
      by (auto simp: ids_of_def)
  next
    fix p y
    assume "procs k' p = Some y"
    with * [of p "ids_of y"] obtain x where x: "procs k p = Some x" "ids_of x = ids_of y"
      by auto
    with assms(1) ids_proc [OF assms(2) x(1)] show "0 \<le> pr_pid y" "pr_pid y \<le> int PROCESS_TABLE_SIZE" "pr_pid y \<noteq> 0 \<Longrightarrow> process_table k' (nat (pr_pid y)) = Some p"
      "pr_session_leader y \<Longrightarrow> pr_session y = pr_pid y" "pr_session_leader y \<Longrightarrow> pr_pgrp y = pr_pid y"
      by (auto simp: same_ids_def ids_of_def)
  qed
qed

subsection \<open>Operations that keep all numbers\<close>

named_theorems ids_frame

lemmas sched_ids = sched_frame [THEN same_ids_more]

lemma same_ids_foreach:
  assumes "\<And>i k k'. f i k = Some k' \<Longrightarrow> same_ids k k'"
  shows "foreach f is k = Some k' \<Longrightarrow> same_ids k k'"
  by (induction "is" arbitrary: k) (auto split: Option.bind_splits dest!: assms intro: same_ids_trans)

lemma ids_set_proc_state [ids_frame]: "set_proc_state p st k = Some k' \<Longrightarrow> same_ids k k'"
  by (auto simp: set_proc_state_def ids_of_def intro!: same_ids_set_proc)

lemma ids_set_thread [simp]: "same_ids k (set_thread t th k)"
  by (rule same_ids_more) simp

lemma ids_process_remove_thread [simp]: "same_ids k (process_remove_thread p t k)"
  by (simp add: process_remove_thread_def)

lemma ids_process_add_thread [ids_frame]: "process_add_thread p t k = Some k' \<Longrightarrow> same_ids k k'"
  by (auto simp: process_add_thread_def split: if_splits Option.bind_splits dest!: sched_ids
      intro: same_ids_trans [OF same_ids_trans [OF same_ids_update(5)]])

lemma ids_lock_threads: "lock_threads ts me k = Some (r, k') \<Longrightarrow> same_ids k k'"
  by (induction ts me k rule: lock_threads.induct)
    (auto split: if_splits Option.bind_splits sum.splits dest!: sched_ids intro: same_ids_trans)

lemma ids_process_lock [ids_frame]: "process_lock p me k = Some (r, k') \<Longrightarrow> same_ids k k'"
  by (auto simp: process_lock_def split: Option.bind_splits sum.splits dest!: ids_lock_threads ids_frame intro: same_ids_trans)

lemma ids_unlock_threads: "unlock_threads ts k = Some k' \<Longrightarrow> same_ids k k'"
  by (induction ts arbitrary: k)
    (auto split: if_splits Option.bind_splits dest!: sched_ids intro: same_ids_trans)

lemma ids_process_unlock [ids_frame]: "process_unlock p k = Some k' \<Longrightarrow> same_ids k k'"
  by (auto simp: process_unlock_def split: Option.bind_splits dest!: ids_unlock_threads ids_frame intro: same_ids_trans)

lemma ids_set_fields [ids_frame]:
  "process_set_vmm p v k = Some k' \<Longrightarrow> same_ids k k'"
  "process_set_name p n k = Some k' \<Longrightarrow> same_ids k k'"
  "process_set_process_image p a b k = Some k' \<Longrightarrow> same_ids k k'"
  by (auto simp: process_set_vmm_def process_set_name_def process_set_process_image_def ids_of_def split: Option.bind_splits
      intro!: same_ids_set_proc)

lemma ids_process_set_tty_for_pgrp [ids_frame]: "process_set_tty_for_pgrp g tty k = Some k' \<Longrightarrow> same_ids k k'"
  by (auto simp: process_set_tty_for_pgrp_def ids_of_def split: if_splits option.splits Option.bind_splits
      intro!: same_ids_set_proc elim!: same_ids_foreach [rotated])

lemma ids_intr_sleeping_thread: "intr_sleeping_thread env ts k = Some (r, k') \<Longrightarrow> same_ids k k'"
  by (induction env ts k rule: intr_sleeping_thread.induct) (auto split: if_splits Option.bind_splits dest!: sched_ids)

lemma ids_process_send [ids_frame]: "process_send m p sig sender k = Some k' \<Longrightarrow> same_ids k k'"
  by (auto simp: process_send_def ids_of_def split: Option.bind_splits intro!: same_ids_set_proc)

lemma ids_process_kill [ids_frame]: "process_kill env pid sig k = Some (r, k') \<Longrightarrow> same_ids k k'"
  by (auto simp: process_kill_def process_intr_sleeping_thread_def split: if_splits option.splits Option.bind_splits
      dest!: ids_intr_sleeping_thread ids_process_send intro: same_ids_trans)

lemma ids_process_pgrp_kill [ids_frame]: "process_pgrp_kill env g sig k = Some (r, k') \<Longrightarrow> same_ids k k'"
  by (auto simp: process_pgrp_kill_def split: if_splits option.splits Option.bind_splits
      dest: ids_process_kill elim!: same_ids_foreach [rotated])

lemma ids_exit_thread: "exit_thread t k = Some k' \<Longrightarrow> same_ids k k'"
  by (auto simp: exit_thread_def split: Option.bind_splits dest!: sched_ids intro: same_ids_trans)

lemma ids_exit_threads [ids_frame]: "exit_threads p k = Some k' \<Longrightarrow> same_ids k k'"
  unfolding exit_threads_def by (rule same_ids_foreach [OF ids_exit_thread])

lemma ids_process_exit_quiet [ids_frame]: "process_exit_quiet env p k = Some k' \<Longrightarrow> same_ids k k'"
  by (auto simp: process_exit_quiet_def split: Option.bind_splits dest!: ids_exit_threads
      intro: same_ids_trans [OF _ same_ids_update(1)])

lemma ids_destroy_threads: "destroy_threads ts p k = Some k' \<Longrightarrow> same_ids k k'"
  by (induction ts p k rule: destroy_threads.induct)
    (auto split: Option.bind_splits dest!: sched_ids intro: same_ids_trans [OF ids_process_remove_thread] same_ids_trans)

lemma ids_remove_from_parent_list: "remove_from_parent_list p k = Some k' \<Longrightarrow> same_ids k k'"
  by (auto simp: remove_from_parent_list_def ids_of_def split: option.splits Option.bind_splits intro!: same_ids_set_proc)

lemma ids_unref_cnode: "unref_cnode env n k = Some k' \<Longrightarrow> same_ids k k'"
  by (auto simp: unref_cnode_def split: Option.bind_splits)

lemma ids_ref_cnode: "ref_cnode n k = Some k' \<Longrightarrow> same_ids k k'"
  by (auto simp: ref_cnode_def split: Option.bind_splits)

lemma ids_notify_parent:
  "(do { y \<leftarrow> procs k q; (_, k) \<leftarrow> process_kill env (pr_pid y) sig k; (_, k) \<leftarrow> wait_wake_all (pr_wait_wq y) k; Some k }) = Some k' \<Longrightarrow>
   same_ids k k'"
  by (auto split: Option.bind_splits dest!: ids_process_kill sched_ids intro: same_ids_trans)

lemma ids_process_exit [ids_frame]:
  assumes "process_exit env p status k = Some k'"
  shows "same_ids k k'"
proof -
  from assms obtain k1 x where k1: "process_exit_quiet env p k = Some k1" and x: "procs k1 p = Some x"
    by (auto simp: process_exit_def split: Option.bind_splits)
  let ?k2 = "set_proc p (x\<lparr>pr_state := PROC_ZOMBIE, pr_exit_status := status\<rparr>) k1"
  from assms k1 x obtain k3 where k3: "(case pr_parent x of None \<Rightarrow> Some ?k2
      | Some q \<Rightarrow> do { y \<leftarrow> procs ?k2 q; (_, k) \<leftarrow> process_kill env (pr_pid y) SIGCHLD ?k2;
                      (_, k) \<leftarrow> wait_wake_all (pr_wait_wq y) k; Some k }) = Some k3" "same_ids k3 k'"
    by (auto simp: process_exit_def Let_def split: Option.bind_splits option.splits if_splits)
  have "same_ids k1 ?k2"
    by (rule same_ids_set_proc [OF x]) (simp add: ids_of_def)
  moreover have "same_ids ?k2 k3"
  proof (cases "pr_parent x")
    case (Some q)
    show ?thesis
      by (rule ids_notify_parent) (use k3(1) Some in \<open>simp only: option.case\<close>)
  qed (use k3(1) in simp)
  ultimately show ?thesis
    using ids_process_exit_quiet [OF k1] k3(2) by (blast intro: same_ids_trans)
qed

lemma ids_process_exec [ids_frame]: "process_exec p k = Some k' \<Longrightarrow> same_ids k k'"
proof -
  assume "process_exec p k = Some k'"
  then obtain x k1 k3 where *: "procs k p = Some x" "wait_reset (pr_wait_wq x) k = Some k1"
    "exit_threads p (set_proc p (x\<lparr>pr_signals := signal_reset_dispositions (pr_signals x)\<rparr>) (wait_init (pr_wait_wq x) k1)) = Some k3"
    "destroy_threads (proc_threads k3 p) p k3 = Some k'"
    by (auto simp: process_exec_def Let_def split: Option.bind_splits)
  let ?k = "wait_init (pr_wait_wq x) k1"
  have "sched.more ?k = sched.more k"
    using more_wait_reset [OF *(2)] by simp
  then have k: "same_ids k ?k" "procs ?k p = Some x"
    using *(1) same_ids_more [of ?k k] more_kernel(1) [of ?k k] by simp_all
  moreover have "same_ids ?k (set_proc p (x\<lparr>pr_signals := signal_reset_dispositions (pr_signals x)\<rparr>) ?k)"
    by (rule same_ids_set_proc [OF k(2)]) (simp add: ids_of_def)
  ultimately show ?thesis
    using ids_exit_threads [OF *(3)] ids_destroy_threads [OF *(4)] by (blast intro: same_ids_trans)
qed

lemma ids_clone_kstack: "clone_kstack t new k = Some k' \<Longrightarrow> same_ids k k'"
  by (auto simp: clone_kstack_def split: if_splits Option.bind_splits
      intro: same_ids_trans [OF same_ids_update(3) ids_set_thread])

lemma ids_clone_thread [ids_frame]: "clone_thread fa t k = Some (r, k') \<Longrightarrow> same_ids k k'"
  by (auto simp: clone_thread_def Let_def split: Option.bind_splits sum.splits option.splits dest!: sched_ids ids_clone_kstack
      intro: same_ids_trans [OF same_ids_trans [OF _ same_ids_update(6)]])

subsection \<open>Operations that change numbers\<close>

lemma inv_add_proc:
  assumes "ids_inv k" "procs k p = None" "pr_pid x = 0" "\<not> pr_session_leader x"
  shows "ids_inv (set_proc p x k)"
proof -
  have "process_table k i \<noteq> Some p" for i
    using ids_table [OF assms(1)] assms(2) by (metis option.distinct(1))
  with assms show ?thesis
    unfolding ids_inv_def by auto
qed

text \<open>A process that has no number and does not lead a session.\<close>

definition fresh_proc :: "nat \<Rightarrow> 'a kernel_scheme \<Rightarrow> bool" where
  "fresh_proc p k \<longleftrightarrow> (\<exists>x. procs k p = Some x \<and> pr_pid x = 0 \<and> \<not> pr_session_leader x)"

lemma fresh_same_ids: "same_ids k k' \<Longrightarrow> fresh_proc p k \<Longrightarrow> fresh_proc p k'"
  unfolding same_ids_def fresh_proc_def ids_of_def by (auto dest!: spec [of _ p])

lemma inv_process_create:
  assumes "process_create new ok wq name k = Some (r, k')" "ids_inv k" "\<forall>p. new = Some p \<longrightarrow> procs k p = None"
  shows "ids_inv k' \<and> (\<forall>p. r = Inr p \<longrightarrow> new = Some p \<and> fresh_proc p k') \<and> (\<forall>q. new \<noteq> Some q \<longrightarrow> procs k' q = procs k q)"
proof -
  have keep: "ids_inv (k\<lparr>k_vm := v\<rparr>)" "procs (wait_init wq (k\<lparr>k_vm := v\<rparr>)) = procs k"
    "sched.more (wait_init wq (k\<lparr>k_vm := v\<rparr>)) = sched.more (k\<lparr>k_vm := v\<rparr>)" for v
    using same_ids_inv [OF same_ids_update(2) assms(2)] more_kernel(1) [of "wait_init wq (k\<lparr>k_vm := v\<rparr>)" "k\<lparr>k_vm := v\<rparr>"] by simp_all
  have w: "ids_inv ((wait_init wq (k\<lparr>k_vm := v\<rparr>))\<lparr>proc_threads := ts\<rparr>)" for v ts
    by (rule same_ids_inv [OF same_ids_trans [OF same_ids_more [OF keep(3)] same_ids_update(5)] keep(1)])
  show ?thesis
    using assms keep(1) w
    by (auto simp: process_create_def process_init_def Let_def fresh_proc_def keep(2)
        split: option.splits sum.splits Option.bind_splits intro!: inv_add_proc)
qed

lemma inv_register_pid:
  assumes "process_register_pid p pid k = Some (r, k')" "ids_inv k" "fresh_proc p k"
  shows "ids_inv k' \<and> (case r of Inr n \<Rightarrow> n = pid \<and> 0 < pid \<and> process_get pid k' = Some p | Inl e \<Rightarrow> e = ENOSPC \<and> k' = k)"
proof -
  from assms(3) obtain x where x: "procs k p = Some x" "pr_pid x = 0" "\<not> pr_session_leader x"
    by (auto simp: fresh_proc_def)
  have tab: "process_table k i \<noteq> Some p" for i
  proof
    assume "process_table k i = Some p"
    from ids_tableD [OF assms(2) this] obtain z where "1 \<le> i" "procs k p = Some z" "pr_pid z = int i"
      by blast
    with x show False
      by simp
  qed
  show ?thesis
  proof (cases "pid > 0 \<and> pid \<le> int PROCESS_TABLE_SIZE \<and> process_table k (nat pid) = None")
    case True
    with assms(1) x have r: "r = Inr pid" and k': "k' = set_proc p (x\<lparr>pr_pid := pid\<rparr>) (k\<lparr>process_table := (process_table k)(nat pid \<mapsto> p)\<rparr>)"
      by (auto simp: process_register_pid_def)
    have "ids_inv k'"
    proof (rule ids_invI)
      fix i q
      assume *: "process_table k' i = Some q"
      show "1 \<le> i \<and> i \<le> PROCESS_TABLE_SIZE \<and> (\<exists>x. procs k' q = Some x \<and> pr_pid x = int i)"
      proof (cases "i = nat pid")
        case False
        with * have "process_table k i = Some q"
          by (simp add: k')
        with ids_tableD [OF assms(2) this] tab [of i] show ?thesis
          by (auto simp: k')
      qed (use True * in \<open>auto simp: k'\<close>)
    next
      fix q y
      assume "procs k' q = Some y"
      then show "0 \<le> pr_pid y \<and> pr_pid y \<le> int PROCESS_TABLE_SIZE \<and>
        (pr_pid y \<noteq> 0 \<longrightarrow> process_table k' (nat (pr_pid y)) = Some q) \<and>
        (pr_session_leader y \<longrightarrow> pr_session y = pr_pid y \<and> pr_pgrp y = pr_pid y)"
        using True x(3) ids_proc [OF assms(2), of q y] by (auto simp: k' split: if_splits)
    qed
    with True r show ?thesis
      by (simp add: process_get_def k')
  qed (use assms in \<open>auto simp: process_register_pid_def\<close>)
qed

text \<open>Destroying a process removes it and clears its slot, and nothing else.\<close>

lemma process_destroy_ids:
  assumes "process_destroy env p k = Some k'"
  obtains x where "procs k p = Some x" "0 \<le> pr_pid x" "pr_pid x \<le> int PROCESS_TABLE_SIZE"
    "process_table k' = (process_table k)(nat (pr_pid x) := None)"
    "\<And>q. map_option ids_of (procs k' q) = (if q = p then None else map_option ids_of (procs k q))"
proof -
  from assms obtain x vm k1 k2 k3 k4 k5 k6 where x: "procs k p = Some x"
    and k1: "wait_reset (pr_wait_wq x) (k\<lparr>k_vm := vm\<rparr>) = Some k1" and k2: "destroy_threads (proc_threads k1 p) p k1 = Some k2"
    and k3: "unregister_process p k2 = Some k3" and k4: "unref_cnode env (pr_root x) k3 = Some k4"
    and k5: "unref_cnode env (pr_cwd x) k4 = Some k5" and k6: "remove_from_parent_list p k5 = Some k6"
    and k': "k' = k6\<lparr>procs := (procs k6)(p := None), locked := (locked k6)(p := False)\<rparr>"
    by (auto simp: process_destroy_def process_reset_def split: Option.bind_splits)
  have a: "same_ids k k2"
    by (rule same_ids_trans [OF same_ids_update(2)])
      (rule same_ids_trans [OF same_ids_more [OF more_wait_reset [OF k1]] ids_destroy_threads [OF k2]])
  have b: "same_ids k3 k6"
    by (rule same_ids_trans [OF ids_unref_cnode [OF k4]])
      (rule same_ids_trans [OF ids_unref_cnode [OF k5] ids_remove_from_parent_list [OF k6]])
  from a x obtain y where y: "procs k2 p = Some y" "ids_of y = ids_of x"
    by (auto simp: same_ids_def dest!: spec [of _ p])
  have "pr_pid y = pr_pid x"
    using y(2) by (simp add: ids_of_def)
  with k3 y have pid: "0 \<le> pr_pid x" "pr_pid x \<le> int PROCESS_TABLE_SIZE"
    "k3 = k2\<lparr>process_table := (process_table k2)(nat (pr_pid x) := None)\<rparr>"
    by (auto simp: unregister_process_def split: if_splits)
  with a b k' x show ?thesis
    by (intro that [of x]) (auto simp: same_ids_def)
qed

lemma inv_process_destroy:
  assumes "process_destroy env p k = Some k'" "ids_inv k"
  shows "ids_inv k'"
proof -
  from process_destroy_ids [OF assms(1)] obtain x where x: "procs k p = Some x"
    and t: "process_table k' = (process_table k)(nat (pr_pid x) := None)"
    and q: "\<And>q. map_option ids_of (procs k' q) = (if q = p then None else map_option ids_of (procs k q))"
    by blast
  have only: "i = nat (pr_pid x)" if "process_table k i = Some p" for i
    using ids_table [OF assms(2) that] x by (metis nat_int option.inject)
  show ?thesis
    unfolding ids_inv_def
  proof (intro conjI allI impI)
    fix i r
    assume "process_table k' i = Some r"
    then have i: "process_table k i = Some r" "i \<noteq> nat (pr_pid x)"
      using t by (auto split: if_splits)
    with only have "r \<noteq> p"
      by blast
    moreover obtain z where "1 \<le> i" "i \<le> PROCESS_TABLE_SIZE" "procs k r = Some z" "pr_pid z = int i"
      using ids_table [OF assms(2) i(1)] by blast
    ultimately show "1 \<le> i" "i \<le> PROCESS_TABLE_SIZE" "\<exists>x. procs k' r = Some x \<and> pr_pid x = int i"
      using q [of r] by (auto simp: ids_of_def)
  next
    fix r y
    assume "procs k' r = Some y"
    with q [of r] obtain z where z: "r \<noteq> p" "procs k r = Some z" "ids_of z = ids_of y"
      by (cases "procs k r") (auto split: if_splits)
    have "nat (pr_pid z) \<noteq> nat (pr_pid x)" if "pr_pid z \<noteq> 0"
      using ids_proc [OF assms(2)] z(1,2) x that by (metis eq_nat_nat_iff option.inject)
    with ids_proc [OF assms(2) z(2)] z(3) t show "0 \<le> pr_pid y" "pr_pid y \<le> int PROCESS_TABLE_SIZE"
      "pr_pid y \<noteq> 0 \<Longrightarrow> process_table k' (nat (pr_pid y)) = Some r"
      "pr_session_leader y \<Longrightarrow> pr_session y = pr_pid y" "pr_session_leader y \<Longrightarrow> pr_pgrp y = pr_pid y"
      by (auto simp: ids_of_def)
  qed
qed

text \<open>A change of one process that keeps its number and its place as a leader.\<close>

lemma inv_change_proc:
  assumes "ids_inv k" "procs k p = Some x" "pr_pid y = pr_pid x"
    "pr_session_leader y \<Longrightarrow> pr_session y = pr_pid y \<and> pr_pgrp y = pr_pid y"
  shows "ids_inv (set_proc p y k)"
proof (rule ids_invI)
  fix i q
  assume "process_table (set_proc p y k) i = Some q"
  then obtain z where "1 \<le> i" "i \<le> PROCESS_TABLE_SIZE" "procs k q = Some z" "pr_pid z = int i"
    using ids_table [OF assms(1), of i q] by auto
  with assms(2,3) show "1 \<le> i \<and> i \<le> PROCESS_TABLE_SIZE \<and> (\<exists>x. procs (set_proc p y k) q = Some x \<and> pr_pid x = int i)"
    by auto
next
  fix q z
  assume "procs (set_proc p y k) q = Some z"
  then show "0 \<le> pr_pid z \<and> pr_pid z \<le> int PROCESS_TABLE_SIZE \<and>
    (pr_pid z \<noteq> 0 \<longrightarrow> process_table (set_proc p y k) (nat (pr_pid z)) = Some q) \<and>
    (pr_session_leader z \<longrightarrow> pr_session z = pr_pid z \<and> pr_pgrp z = pr_pid z)"
    using ids_proc [OF assms(1), of q z] ids_proc [OF assms(1,2)] assms(3,4) by (auto split: if_splits)
qed

lemma inv_fork_inherit:
  assumes "fork_inherit p new k = Some k'" "ids_inv k" "fresh_proc new k"
  shows "ids_inv k' \<and> fresh_proc new k'"
proof -
  from assms(1) obtain x k1 k2 y where x: "procs k p = Some x" and k1: "ref_cnode (pr_root x) k = Some k1"
    and k2: "ref_cnode (pr_cwd x) k1 = Some k2" and y: "procs k2 new = Some y"
    by (auto simp: fork_inherit_def split: Option.bind_splits)
  let ?y = "y\<lparr>pr_root := pr_root x, pr_cwd := pr_cwd x, pr_session := pr_session x, pr_pgrp := pr_pgrp x,
    pr_ctrl_tty := pr_ctrl_tty x, pr_signals := signal_copy (pr_signals x), pr_parent := Some p\<rparr>"
  from assms(1) x k1 k2 y obtain z where z: "procs (set_proc new ?y k2) p = Some z"
    "k' = set_proc p (z\<lparr>pr_children := pr_children z @ [new]\<rparr>) (set_proc new ?y k2)"
    by (auto simp: fork_inherit_def Let_def simp del: set_proc_simps split: Option.bind_splits)
  have s: "same_ids k k2"
    using ids_ref_cnode [OF k1] ids_ref_cnode [OF k2] by (rule same_ids_trans)
  note i2 = same_ids_inv [OF s assms(2)] and f2 = fresh_same_ids [OF s assms(3)]
  have "ids_inv (set_proc new ?y k2)"
    using f2 y by (intro inv_change_proc [OF i2 y]) (auto simp: fresh_proc_def)
  moreover have "fresh_proc new (set_proc new ?y k2)"
    using f2 y by (simp add: fresh_proc_def)
  moreover have "same_ids (set_proc new ?y k2) k'"
    unfolding z(2) by (rule same_ids_set_proc [OF z(1)]) (simp add: ids_of_def)
  ultimately show ?thesis
    by (blast intro: same_ids_inv fresh_same_ids)
qed

lemma inv_process_fork:
  assumes "process_fork env fa p t k = Some (r, k')" "ids_inv k" "\<forall>new. fa_proc fa = Some new \<longrightarrow> procs k new = None"
  shows "ids_inv k' \<and> (\<forall>new c. r = Done (Inr (new, c)) \<longrightarrow> fresh_proc new k')"
proof -
  from assms(1) obtain x r1 k1 where x: "procs k p = Some x"
    and c: "process_create (fa_proc fa) (fa_signals fa) (fa_wq fa) (pr_name x) k = Some (r1, k1)"
    by (auto simp: process_fork_def split: Option.bind_splits)
  note inv1 = inv_process_create [OF c assms(2,3)]
  show ?thesis
  proof (cases r1)
    case (Inl e)
    with assms(1) x c inv1 show ?thesis
      by (auto simp: process_fork_def)
  next
    case (Inr new)
    with inv1 have new: "ids_inv k1" "fresh_proc new k1"
      by auto
    from assms(1) x c Inr obtain r2 k2 where k2: "clone_thread fa t k1 = Some (r2, k2)"
      by (auto simp: process_fork_def split: Option.bind_splits)
    note i2 = same_ids_inv [OF ids_clone_thread [OF k2] new(1)] fresh_same_ids [OF ids_clone_thread [OF k2] new(2)]
    show ?thesis
    proof (cases r2)
      case Inl': (Inl e)
      with assms(1) x c Inr k2 i2 show ?thesis
        by (auto simp: process_fork_def dest: inv_process_destroy)
    next
      case Inr': (Inr c2)
      with assms(1) x c Inr k2 obtain k3 k4 y r5 fds fs where
        k3: "process_add_thread new c2 k2 = Some k3" and k4: "thread_unref c2 k3 = Some k4" and y: "procs k4 new = Some y"
        and r5: "copy_fds (ke_fuel env) (fa_files fa) (pr_fds x) (pr_fds y) (k_fs k4) = Some (r5, fds, fs)"
        by (auto simp: process_fork_def split: Option.bind_splits)
      let ?k5 = "set_proc new (y\<lparr>pr_fds := fds\<rparr>) (k4\<lparr>k_fs := fs\<rparr>)"
      have "same_ids (k4\<lparr>k_fs := fs\<rparr>) ?k5"
        using y by (intro same_ids_set_proc) (auto simp: ids_of_def)
      then have s: "same_ids k2 ?k5"
        using ids_process_add_thread [OF k3] same_ids_update(1) [of k4 fs]
          more_thread_unref [OF k4, THEN same_ids_more]
        by (blast intro: same_ids_trans)
      note i5 = same_ids_inv [OF s i2(1)] fresh_same_ids [OF s i2(2)]
      have "case r5 of Block \<Rightarrow> r = Block \<and> k' = ?k5
        | Done (Inl e) \<Rightarrow> r = Done (Inl e) \<and> process_destroy env new ?k5 = Some k'
        | Done (Inr _) \<Rightarrow> r = Done (Inr (new, c2)) \<and> fork_inherit p new ?k5 = Some k'"
        using assms(1) x c Inr k2 Inr' k3 k4 y r5 by (auto simp: process_fork_def Let_def split: outcome.splits sum.splits)
      then show ?thesis
        using i5 inv_fork_inherit [OF _ i5] inv_process_destroy [OF _ i5(1)] by (auto split: outcome.splits sum.splits)
    qed
  qed
qed

lemma inv_fork_start:
  assumes "fork_start env p child c k = Some (r, k')" "ids_inv k" "fresh_proc child k"
  shows "ids_inv k'"
proof -
  from assms(1) obtain r1 k1 where k1: "process_register child k = Some (r1, k1)"
    by (auto simp: fork_start_def split: Option.bind_splits)
  have i1: "ids_inv k1"
    using inv_register_pid [OF k1 [unfolded process_register_def] assms(2,3)] by simp
  have a: "ids_inv (k3\<lparr>k_mem := m\<rparr>)" if "sched_add_process child (k1\<lparr>k_vm := vm\<rparr>) = Some (n, k3)" for n k3 m vm
    using same_ids_more [OF more_sched_add_process [OF that]] same_ids_update(2) [of k1 vm] same_ids_update(3) [of k3 m] i1
    by (blast intro: same_ids_trans same_ids_inv)
  have b: "ids_inv k2" if "process_destroy env child (k1\<lparr>k_vm := vm\<rparr>) = Some k2" for vm k2
    by (rule inv_process_destroy [OF that same_ids_inv [OF same_ids_update(2) i1]])
  from assms(1) k1 have "process_destroy env child k1 = Some k' \<or> (\<exists>vm. process_destroy env child (k1\<lparr>k_vm := vm\<rparr>) = Some k') \<or>
    (\<exists>vm n k3 m. sched_add_process child (k1\<lparr>k_vm := vm\<rparr>) = Some (n, k3) \<and> k' = k3\<lparr>k_mem := m\<rparr>)"
    by (auto simp: fork_start_def Let_def split: sum.splits Option.bind_splits) blast+
  then show ?thesis
    using inv_process_destroy [OF _ i1] a b by blast
qed

lemma inv_sys_fork:
  assumes "sys_fork env fa k = Some (r, k')" "ids_inv k" "\<forall>new. fa_proc fa = Some new \<longrightarrow> procs k new = None"
  shows "ids_inv k'"
proof -
  from assms(1) obtain t th r1 k1 where t: "current_thread k = Some t" "threads k t = Some th"
    and k1: "process_fork env fa (th_process th) t k = Some (r1, k1)"
    by (auto simp: sys_fork_def Let_def split: Option.bind_splits)
  note inv1 = inv_process_fork [OF k1 assms(2,3)]
  from assms(1) t k1 have "k' = k1 \<or> (\<exists>child c r. r1 = Done (Inr (child, c)) \<and> fork_start env (th_process th) child c k1 = Some (r, k'))"
    by (auto simp: sys_fork_def Let_def split: Option.bind_splits outcome.splits sum.splits)
  with inv1 show ?thesis
    by (auto dest: inv_fork_start)
qed

lemma inv_sys_setsid: "sys_setsid k = Some (r, k') \<Longrightarrow> ids_inv k \<Longrightarrow> ids_inv k'"
  by (auto simp: sys_setsid_def current_process_def split: Option.bind_splits if_splits intro!: inv_change_proc)

lemma inv_sys_setpgid: "sys_setpgid pid g k = Some (r, k') \<Longrightarrow> ids_inv k \<Longrightarrow> ids_inv k'"
  by (auto simp: sys_setpgid_def split: Option.bind_splits option.splits if_splits intro!: inv_change_proc)

lemma inv_wait_zombie: "wait_zombie env st pid cs k = Some (r, k') \<Longrightarrow> ids_inv k \<Longrightarrow> ids_inv k'"
  by (induction env st pid cs k rule: wait_zombie.induct)
    (auto split: Option.bind_splits if_splits dest: inv_process_destroy)

section \<open>Reachable states\<close>

text \<open>
  Every operation on processes is a step; so is any change of the rest of the state, such as a context switch.  A process is created in memory that holds
  no process, and only a new one is given a number.
\<close>

inductive proc_step :: "'a kernel_scheme \<Rightarrow> 'a kernel_scheme \<Rightarrow> bool" where
  ps_create: "process_create new ok wq name k = Some (r, k') \<Longrightarrow> \<forall>p. new = Some p \<longrightarrow> procs k p = None \<Longrightarrow> proc_step k k'"
| ps_register: "process_register_pid p pid k = Some (r, k') \<Longrightarrow> fresh_proc p k \<Longrightarrow> proc_step k k'"
| ps_fork: "sys_fork env fa k = Some (r, k') \<Longrightarrow> \<forall>p. fa_proc fa = Some p \<longrightarrow> procs k p = None \<Longrightarrow> proc_step k k'"
| ps_kill: "process_kill env pid sig k = Some (u, k') \<Longrightarrow> proc_step k k'"
| ps_pgrp_kill: "process_pgrp_kill env g sig k = Some (u, k') \<Longrightarrow> proc_step k k'"
| ps_exit: "process_exit env p status k = Some k' \<Longrightarrow> proc_step k k'"
| ps_destroy: "process_destroy env p k = Some k' \<Longrightarrow> proc_step k k'"
| ps_exec: "process_exec p k = Some k' \<Longrightarrow> proc_step k k'"
| ps_lock: "process_lock p me k = Some (u, k') \<Longrightarrow> proc_step k k'"
| ps_unlock: "process_unlock p k = Some k' \<Longrightarrow> proc_step k k'"
| ps_add_thread: "process_add_thread p t k = Some k' \<Longrightarrow> proc_step k k'"
| ps_set_vmm: "process_set_vmm p v k = Some k' \<Longrightarrow> proc_step k k'"
| ps_set_name: "process_set_name p name k = Some k' \<Longrightarrow> proc_step k k'"
| ps_set_image: "process_set_process_image p a b k = Some k' \<Longrightarrow> proc_step k k'"
| ps_set_tty: "process_set_tty_for_pgrp g tty k = Some k' \<Longrightarrow> proc_step k k'"
| ps_setsid: "sys_setsid k = Some (n, k') \<Longrightarrow> proc_step k k'"
| ps_setpgid: "sys_setpgid pid g k = Some (u, k') \<Longrightarrow> proc_step k k'"
| ps_wait: "wait_zombie env st pid cs k = Some (w, k') \<Longrightarrow> proc_step k k'"
| ps_other: "procs k' = procs k \<Longrightarrow> process_table k' = process_table k \<Longrightarrow> proc_step k k'"

inductive proc_reachable :: "'a kernel_scheme \<Rightarrow> bool" where
  pr_boot: "procs k = Map.empty \<Longrightarrow> process_table k = Map.empty \<Longrightarrow> proc_reachable k"
| pr_step: "proc_reachable k \<Longrightarrow> proc_step k k' \<Longrightarrow> proc_reachable k'"

lemma proc_step_inv: "proc_step k k' \<Longrightarrow> ids_inv k \<Longrightarrow> ids_inv k'"
proof (induction rule: proc_step.induct)
  case (ps_create new ok wq name k r k')
  then show ?case
    using inv_process_create by blast
next
  case (ps_register p pid k r k')
  then show ?case
    using inv_register_pid by blast
next
  case (ps_other k' k)
  then show ?case
    by (auto intro: same_ids_inv simp: same_ids_def)
qed (blast intro: same_ids_inv ids_frame inv_sys_fork inv_process_destroy inv_sys_setsid inv_sys_setpgid inv_wait_zombie)+

lemma proc_reachable_inv: "proc_reachable k \<Longrightarrow> ids_inv k"
proof (induction rule: proc_reachable.induct)
  case (pr_boot k)
  then show ?case
    by (simp add: ids_inv_def)
qed (rule proc_step_inv)

text \<open>
  C10: the numbers of processes.  In every state that the operations on processes reach, whatever the scheduler, the files and the memory do,
  a process that has a number is the one that \<^verbatim>\<open>process_get\<close> finds under it, so no two processes share a number;
  \<^verbatim>\<open>process_get\<close> finds only existing processes, with that number; and the leader of a session has the number of its session and of its process
  group, so it is never moved to another group.
\<close>

theorem process_numbers:
  assumes "proc_reachable k"
  shows "(\<forall>p x. procs k p = Some x \<and> pr_pid x \<noteq> 0 \<longrightarrow> process_get (pr_pid x) k = Some p) \<and>
    (\<forall>pid p. process_get pid k = Some p \<longrightarrow> (\<exists>x. procs k p = Some x \<and> pr_pid x = pid)) \<and>
    (\<forall>p x. procs k p = Some x \<and> pr_session_leader x \<longrightarrow> pr_session x = pr_pid x \<and> pr_pgrp x = pr_pid x)"
proof (intro conjI allI impI)
  note inv = proc_reachable_inv [OF assms]
  show "process_get (pr_pid x) k = Some p" if "procs k p = Some x \<and> pr_pid x \<noteq> 0" for p x
    using ids_proc [OF inv, of p x] that by (auto simp: process_get_def)
  show "\<exists>x. procs k p = Some x \<and> pr_pid x = pid" if "process_get pid k = Some p" for pid p
    using ids_tableD [OF inv, of "nat pid" p] that by (auto simp: process_get_def split: if_splits)
  show "pr_session x = pr_pid x" "pr_pgrp x = pr_pid x" if "procs k p = Some x \<and> pr_session_leader x" for p x
    using ids_proc [OF inv, of p x] that by auto
qed

section \<open>Exit and wait\<close>

text \<open>What a process is to its parent.\<close>

definition life_of :: "process \<Rightarrow> int \<times> process_state \<times> int \<times> nat list \<times> nat option" where
  "life_of x = (pr_pid x, pr_state x, pr_exit_status x, pr_children x, pr_parent x)"

definition same_life :: "'a kernel_scheme \<Rightarrow> 'a kernel_scheme \<Rightarrow> bool" where
  "same_life k k' \<longleftrightarrow> (\<forall>p. map_option life_of (procs k' p) = map_option life_of (procs k p))"

lemma same_life_procs: "procs k' = procs k \<Longrightarrow> same_life k k'"
  by (simp add: same_life_def)

lemma same_life_trans: "same_life k k' \<Longrightarrow> same_life k' k'' \<Longrightarrow> same_life k k''"
  by (simp add: same_life_def)

lemmas sched_procs = sched_frame [THEN more_kernel(1)]

lemma procs_intr_sleeping_thread: "intr_sleeping_thread env ts k = Some (r, k') \<Longrightarrow> procs k' = procs k"
  by (induction env ts k rule: intr_sleeping_thread.induct) (auto split: if_splits Option.bind_splits dest!: sched_procs)

lemma life_process_kill: "process_kill env pid sig k = Some (r, k') \<Longrightarrow> same_life k k'"
  by (auto simp: process_kill_def process_intr_sleeping_thread_def process_send_def same_life_def life_of_def
      split: if_splits option.splits Option.bind_splits dest!: procs_intr_sleeping_thread)

lemma procs_exit_thread: "exit_thread t k = Some k' \<Longrightarrow> procs k' = procs k"
  by (auto simp: exit_thread_def split: Option.bind_splits dest!: sched_procs)

lemma procs_foreach:
  assumes "\<And>i k k'. f i k = Some k' \<Longrightarrow> procs k' = procs k"
  shows "foreach f is k = Some k' \<Longrightarrow> procs k' = procs k"
  by (induction "is" arbitrary: k) (auto split: Option.bind_splits dest!: assms)

lemma procs_process_exit_quiet: "process_exit_quiet env p k = Some k' \<Longrightarrow> procs k' = procs k"
  by (auto simp: process_exit_quiet_def exit_threads_def split: Option.bind_splits 
      intro: procs_foreach [where f = exit_thread, OF procs_exit_thread])

lemma life_notify_parent:
  "(do { y \<leftarrow> procs k q; (_, k) \<leftarrow> process_kill env (pr_pid y) sig k; (_, k) \<leftarrow> wait_wake_all (pr_wait_wq y) k; Some k }) = Some k' \<Longrightarrow>
   same_life k k'"
  by (auto split: Option.bind_splits dest!: life_process_kill sched_procs [THEN same_life_procs] intro: same_life_trans)

lemma process_exit_result:
  assumes "process_exit env p st k = Some k'" and x: "procs k p = Some x"
  shows "map_option life_of (procs k' q) =
    (if q = p then Some (pr_pid x, PROC_ZOMBIE, st, pr_children x, pr_parent x) else map_option life_of (procs k q))"
proof -
  from assms obtain k1 where k1: "process_exit_quiet env p k = Some k1" "procs k1 = procs k"
    by (auto simp: process_exit_def split: Option.bind_splits dest: procs_process_exit_quiet)
  let ?k2 = "set_proc p (x\<lparr>pr_state := PROC_ZOMBIE, pr_exit_status := st\<rparr>) k1"
  from assms k1 obtain k3 where k3: "(case pr_parent x of None \<Rightarrow> Some ?k2
      | Some q \<Rightarrow> do { y \<leftarrow> procs ?k2 q; (_, k) \<leftarrow> process_kill env (pr_pid y) SIGCHLD ?k2;
                      (_, k) \<leftarrow> wait_wake_all (pr_wait_wq y) k; Some k }) = Some k3" "procs k' = procs k3"
    by (auto simp: process_exit_def Let_def split: Option.bind_splits option.splits if_splits)
  have "same_life ?k2 k3"
  proof (cases "pr_parent x")
    case (Some q)
    show ?thesis
      by (rule life_notify_parent) (use k3(1) Some in \<open>simp only: option.case\<close>)
  qed (use k3(1) in \<open>simp add: same_life_def\<close>)
  then show ?thesis
    using k3(2) k1(2) by (simp add: same_life_def life_of_def)
qed

lemma procs_destroy_threads: "destroy_threads ts p k = Some k' \<Longrightarrow> procs k' = procs k"
  by (induction ts p k rule: destroy_threads.induct)
    (auto split: Option.bind_splits dest!: sched_procs simp: process_remove_thread_def)

lemma process_destroy_result:
  assumes "process_destroy env p k = Some k'" and x: "procs k p = Some x"
  shows "procs k' = (case pr_parent x of
      None \<Rightarrow> procs k
    | Some q \<Rightarrow> (procs k)(q := map_option (\<lambda>y. y\<lparr>pr_children := remove1 p (pr_children y)\<rparr>) (procs k q)))(p := None)"
proof -
  from assms obtain vm k1 k2 k3 k4 k5 k6 where
    k1: "wait_reset (pr_wait_wq x) (k\<lparr>k_vm := vm\<rparr>) = Some k1" and k2: "destroy_threads (proc_threads k1 p) p k1 = Some k2"
    and k3: "unregister_process p k2 = Some k3" and k4: "unref_cnode env (pr_root x) k3 = Some k4"
    and k5: "unref_cnode env (pr_cwd x) k4 = Some k5" and k6: "remove_from_parent_list p k5 = Some k6"
    and k': "k' = k6\<lparr>procs := (procs k6)(p := None), locked := (locked k6)(p := False)\<rparr>"
    by (auto simp: process_destroy_def process_reset_def split: Option.bind_splits)
  have "procs k1 = procs k"
    using more_wait_reset [OF k1, THEN more_kernel(1)] by simp
  moreover have "procs k3 = procs k2" "procs k4 = procs k3" "procs k5 = procs k4"
    using k3 k4 k5 by (auto simp: unregister_process_def unref_cnode_def split: if_splits Option.bind_splits)
  ultimately have "procs k5 = procs k"
    using procs_destroy_threads [OF k2] by simp
  with k6 x k' show ?thesis
    by (auto simp: remove_from_parent_list_def split: option.splits Option.bind_splits)
qed

text \<open>The child that \<^verbatim>\<open>_wait\<close> takes is the first one that is a zombie and has the number asked for.\<close>

definition waited :: "int \<Rightarrow> 'a kernel_scheme \<Rightarrow> nat \<Rightarrow> bool" where
  "waited pid k c \<longleftrightarrow> (case procs k c of None \<Rightarrow> False | Some x \<Rightarrow> pr_state x = PROC_ZOMBIE \<and> (pid = 0 \<or> pid = pr_pid x))"

lemma wait_zombie_result:
  assumes "wait_zombie env status pid cs k = Some (r, k')"
  shows "case find (waited pid k) cs of
      None \<Rightarrow> r = Inl ECHILD \<and> k' = k
    | Some c \<Rightarrow> if status = Some False then r = Inl EFAULT \<and> k' = k
        else process_destroy env c k = Some k' \<and>
          (\<exists>x. procs k c = Some x \<and> r = Inr (pr_pid x, if status = None then None else Some (pr_exit_status x)))"
  using assms
proof (induction cs)
  case (Cons c cs)
  then obtain x where x: "procs k c = Some x"
    by (auto split: Option.bind_splits)
  show ?case
  proof (cases "waited pid k c")
    case True
    with Cons.prems x show ?thesis
      by (auto simp: waited_def split: Option.bind_splits if_splits)
  next
    case False
    with Cons.prems x have "wait_zombie env status pid cs k = Some (r, k')"
      by (auto simp: waited_def)
    with Cons.IH False show ?thesis
      by simp
  qed
qed simp

lemma find_this: "p \<in> set cs \<Longrightarrow> find (\<lambda>c. c = p) cs = Some p"
  by (induction cs) auto


section \<open>A sample state\<close>

text \<open>
  A shell with number 5 whose thread is ready, and its child with number 6 whose thread is running.  Both use one address space.
\<close>

definition sample_thread :: "nat \<Rightarrow> thread_state \<Rightarrow> thread" where
  "sample_thread p st = \<lparr>th_process = p, th_cpu_context = 0, th_state = st, th_type = UTHREAD, th_priority = 3, th_refcnt = 2,
     th_timer = zero_time\<rparr>"

definition sample_process :: "int \<Rightarrow> nat option \<Rightarrow> nat list \<Rightarrow> process" where
  "sample_process pid parent cs = \<lparr>pr_pid = pid, pr_session = 5, pr_session_leader = (pid = 5), pr_pgrp = pid, pr_ctrl_tty = None,
     pr_name = replicate 16 0, pr_state = PROC_RUNNABLE, pr_entry_point = 0, pr_brk = 0, pr_exit_status = 0,
     pr_fds = replicate PROCESS_MAX_FD None, pr_cwd = None, pr_root = None, pr_parent = parent, pr_children = cs, pr_vmm = 0x3000,
     pr_signals = signal_init, pr_wait_wq = nat pid\<rparr>"

definition sample_kernel :: kernel where
  "sample_kernel =
     \<lparr>threads = [10 \<mapsto> sample_thread 7 THREAD_READY, 20 \<mapsto> sample_thread 8 THREAD_RUNNING], current_thread = Some 20,
      current_thread_start = zero_time, ready_queues = (\<lambda>_. [])(3 := [10]), wait_queues = (\<lambda>_. []), sem_value = (\<lambda>_. 0),
      reaper_list = [], timer_list = [], current_time = zero_time, tick_value = zero_time, locked = (\<lambda>_. False),
      proc_threads = (\<lambda>_. [])(7 := [10], 8 := [20]),
      procs = [7 \<mapsto> sample_process 5 None [8], 8 \<mapsto> sample_process 6 (Some 7) []], process_table = [5 \<mapsto> 7, 6 \<mapsto> 8],
      k_fs = sample_fs,
      k_vm = sample_vm\<lparr>vm_spaces := [0x3000 \<mapsto> \<lparr>vmm_mappings = [], vmm_refcnt = 2\<rparr>]\<rparr>,
      k_mem = (\<lambda>_. 0), kstack_sp = (\<lambda>_. 0), kstack_size = (\<lambda>_. 0), syscall_ctx = (\<lambda>_. 0), user_copies = []\<rparr>"

definition sample_env :: kenv where
  "sample_env = \<lparr>ke_malloc = True, ke_wqs = [], ke_fuel = 2\<rparr>"

lemma sample_sel:
  "threads sample_kernel = [10 \<mapsto> sample_thread 7 THREAD_READY, 20 \<mapsto> sample_thread 8 THREAD_RUNNING]"
  "current_thread sample_kernel = Some 20" "ready_queues sample_kernel = (\<lambda>_. [])(3 := [10])" "wait_queues sample_kernel = (\<lambda>_. [])"
  "proc_threads sample_kernel = (\<lambda>_. [])(7 := [10], 8 := [20])"
  "procs sample_kernel = [7 \<mapsto> sample_process 5 None [8], 8 \<mapsto> sample_process 6 (Some 7) []]"
  "process_table sample_kernel = [5 \<mapsto> 7, 6 \<mapsto> 8]" "k_fs sample_kernel = sample_fs"
  "k_vm sample_kernel = sample_vm\<lparr>vm_spaces := [0x3000 \<mapsto> \<lparr>vmm_mappings = [], vmm_refcnt = 2\<rparr>]\<rparr>"
  by (simp_all add: sample_kernel_def)

lemma sample_thread_sel [simp]:
  "th_process (sample_thread p st) = p" "th_type (sample_thread p st) = UTHREAD" "th_state (sample_thread p st) = st"
  "th_refcnt (sample_thread p st) = 2"
  by (simp_all add: sample_thread_def)

lemma sample_process_sel [simp]:
  "pr_pid (sample_process pid q cs) = pid" "pr_parent (sample_process pid q cs) = q" "pr_children (sample_process pid q cs) = cs"
  "pr_ctrl_tty (sample_process pid q cs) = None" "pr_fds (sample_process pid q cs) = replicate PROCESS_MAX_FD None"
  "pr_cwd (sample_process pid q cs) = None" "pr_root (sample_process pid q cs) = None" "pr_vmm (sample_process pid q cs) = 0x3000"
  "pr_signals (sample_process pid q cs) = signal_init" "pr_wait_wq (sample_process pid q cs) = nat pid"
  by (simp_all add: sample_process_def)

lemma sample_ids: "ids_inv sample_kernel"
  by (rule ids_invI) (auto simp: sample_kernel_def sample_process_def split: if_splits)

lemma close_no_fds: "close_fds fuel (replicate n None) s = Some s"
  by (induction n) auto

lemma sample_exit_quiet:
  "process_exit_quiet sample_env 8 sample_kernel =
     Some (sample_kernel\<lparr>threads := (threads sample_kernel)(20 \<mapsto> (sample_thread 8 THREAD_RUNNING)\<lparr>th_state := THREAD_DEAD\<rparr>)\<rparr>)"
  by (simp add: process_exit_quiet_def exit_threads_def exit_thread_def thread_set_state_def set_thread_def sched_remove_thread_def
      in_ready_queue_def list_ex_iff sample_sel close_no_fds)

lemma sample_exit:
  obtains k1 r k2 where "process_exit sample_env 8 768 sample_kernel = Some k1" "wait_zombie sample_env (Some True) 6 [8] k1 = Some (r, k2)"
proof -
  define k0 where "k0 = sample_kernel\<lparr>threads := (threads sample_kernel)(20 \<mapsto> (sample_thread 8 THREAD_RUNNING)\<lparr>th_state := THREAD_DEAD\<rparr>)\<rparr>"
  define x where "x = (sample_process 6 (Some 7) [])\<lparr>pr_state := PROC_ZOMBIE, pr_exit_status := 768\<rparr>"
  define y where "y = (sample_process 5 None [8])\<lparr>pr_signals := snd (signal_send True SIGCHLD (Some 6) signal_init)\<rparr>"
  define k1 where "k1 = set_proc 7 y (set_proc 8 x k0)"
  have ign: "signal_is_ign SIGCHLD signal_init = Some False"
    by (simp add: signal_is_ign_def signal_is_def get_action_def signal_init_def sigaction_is_def zero_action_def)
  have "process_kill sample_env 5 SIGCHLD (set_proc 8 x k0) = Some (Inr (), k1)"
    by (simp add: process_kill_def k0_def sample_sel ign process_has_ready_thread_def current_pid_def sched_get_current_process_def
        process_send_def sample_env_def k1_def x_def y_def)
  then have "process_exit sample_env 8 768 sample_kernel = Some k1"
    by (simp add: process_exit_def sample_exit_quiet k0_def [symmetric] x_def [symmetric])
      (simp add: k0_def sample_sel x_def k1_def y_def wait_wake_all_def wait_wake_def wait_wake_with_def)
  moreover have "\<exists>k2. process_destroy sample_env 8 k1 = Some k2"
    by (simp add: process_destroy_def process_reset_def k1_def x_def y_def k0_def sample_sel vmm_unref_def set_space_def refcount_dec_def
        wait_reset_def wait_init_def process_remove_thread_def thread_unref_def set_thread_def unregister_process_def unref_cnode_def
        vfs_cache_node_unref_def remove_from_parent_list_def Let_def)
  ultimately show ?thesis
    using that by (auto simp: k1_def x_def)
qed


text \<open>The state before any process exists, and the creation and registration of the first one.\<close>

definition boot_kernel :: kernel where
  "boot_kernel = sample_kernel\<lparr>procs := Map.empty, process_table := Map.empty, proc_threads := (\<lambda>_. []), k_vm := sample_vm\<rparr>"

lemma boot_create:
  obtains k where "process_create (Some 7) True 1 [105, 110, 105, 116, 0] boot_kernel = Some (Inr 7, k)" "fresh_proc 7 k" "proc_reachable k"
    "process_table k = Map.empty"
proof -
  have "present (mmu_phys sample_space (cur sample_space) 768)" "walk sample_space (cur sample_space) KERNEL_SPACE_RESERVED = None"
    by (simp_all add: walk_def sample_space_def sample_frame_numbers)
  then obtain m where m: "x86_vmm_create True sample_space = Some (Inr 0x2000, m)"
    using x86_vmm_create_spec [OF sample_space_rep] by blast
  have "\<not> Option.is_none (strlcpy (replicate 16 0) [105, 110, 105, 116, 0] 16)"
    by code_simp
  then have name: "\<exists>nm n. strlcpy (replicate 16 0) [105, 110, 105, 116, 0] 16 = Some (nm, n)"
    by (auto simp: Option.is_none_def)
  have "vm_mmu sample_vm = sample_space" "vm_allocs sample_vm 0"
    by (simp_all add: sample_vm_def)
  with m obtain v vm where vm: "vmm_create sample_vm = Some (Inr v, vm)"
    by (auto simp: vmm_create_def vm_kmalloc_def Let_def)
  have "\<exists>k. process_create (Some 7) True 1 [105, 110, 105, 116, 0] boot_kernel = Some (Inr 7, k)"
    using vm name by (auto simp: process_create_def process_init_def boot_kernel_def signal_create_def Let_def)
  then obtain k where k: "process_create (Some 7) True 1 [105, 110, 105, 116, 0] boot_kernel = Some (Inr 7, k)" ..
  have boot: "proc_reachable boot_kernel" "procs boot_kernel 7 = None"
    by (auto intro: pr_boot simp: boot_kernel_def)
  have "fresh_proc 7 k"
    using inv_process_create [OF k proc_reachable_inv [OF boot(1)]] boot(2) by simp
  moreover have "proc_reachable k"
    by (rule pr_step [OF boot(1) ps_create [OF k]]) (simp add: boot(2))
  moreover have "process_table k = Map.empty"
    using k by (auto simp: process_create_def process_init_def Let_def boot_kernel_def wait_init_def split: Option.bind_splits sum.splits)
  ultimately show ?thesis
    using that k by blast
qed

theorem process_numbers_witness:
  "\<exists>k :: kernel. proc_reachable k \<and> process_get 1 k = Some 7 \<and> (\<exists>x. procs k 7 = Some x \<and> pr_pid x = 1)"
proof -
  obtain k where k: "fresh_proc 7 k" "proc_reachable (k :: kernel)" "process_table k = Map.empty"
    by (rule boot_create)
  then obtain k' where k': "process_register_pid 7 1 k = Some (Inr 1, k')" "process_get 1 k' = Some 7"
    by (auto simp: fresh_proc_def process_register_pid_def process_get_def)
  have "proc_reachable k'"
    by (rule pr_step [OF k(2) ps_register [OF k'(1) k(1)]])
  with process_numbers [OF this] k'(2) show ?thesis
    by blast
qed

end
