(* ===== verification/Signal_Delivery.thy ===== *)
theory Signal_Delivery
  imports Process_Props
begin

text \<open>
  The delivery of signals and the return from their handlers: the second half of \<^verbatim>\<open>kernel/signal.c\<close> and the parts of
  \<^verbatim>\<open>arch/x86/cpu_context.c\<close> that set up a handler.

  A handler runs on a user context that is put on the kernel stack below the interrupted one.  When the program enters the
  kernel again, its context is saved at the same place, and \<^verbatim>\<open>sigreturn\<close> finds the interrupted context behind it.
\<close>

section \<open>The model\<close>

text \<open>
  What delivery takes from outside: the operations on processes, which user ranges can be written, the size of the
  trampoline and the address of \<^verbatim>\<open>__syscall_restart\<close>, both assembly code.
\<close>

record denv = kenv +
  de_writable :: "v_addr \<Rightarrow> size_t \<Rightarrow> bool"
  de_tramp_size :: size_t
  de_restart :: v_addr

abbreviation SYS_nanosleep :: int where "SYS_nanosleep \<equiv> 31"
abbreviation SIGINFO_SIZE :: size_t where "SIGINFO_SIZE \<equiv> 32"

text \<open>\<^verbatim>\<open>copy_to_user\<close>, for one of the objects above.\<close>

definition ucopy_out :: "denv \<Rightarrow> v_addr \<Rightarrow> ucopy \<Rightarrow> size_t \<Rightarrow> 'a kernel_scheme \<Rightarrow> unit result \<times> 'a kernel_scheme" where
  "ucopy_out env a obj n k =
     (if de_writable env a n then (Inr (), k\<lparr>user_copies := user_copies k @ [(a, obj)]\<rparr>) else (Inl EFAULT, k))"

definition set_user_sp :: "v_addr \<Rightarrow> v_addr \<Rightarrow> 'a kernel_scheme \<Rightarrow> 'a kernel_scheme" where
  "set_user_sp ctx sp k = k\<lparr>k_mem := cpu_context_set_user_sp ctx sp (k_mem k)\<rparr>"

definition cpu_context_pass_user_args :: "denv \<Rightarrow> v_addr \<Rightarrow> v_addr list \<Rightarrow> 'a kernel_scheme \<Rightarrow> unit result \<times> 'a kernel_scheme" where
  "cpu_context_pass_user_args env ctx args k =
     (let n = of_nat (length args);
          sp = align_down (k_mem k (ctx + CTX_USER_ESP)) 4 - 4 * n
      in (case ucopy_out env sp (Args args) (4 * n) k of
            (Inl e, k) \<Rightarrow> (Inl e, k)
          | (Inr _, k) \<Rightarrow> (Inr (), set_user_sp ctx sp k)))"

definition cpu_context_setup_signal_handler ::
  "denv \<Rightarrow> v_addr \<Rightarrow> v_addr \<Rightarrow> v_addr \<Rightarrow> v_addr list \<Rightarrow> 'a kernel_scheme \<Rightarrow> unit result \<times> 'a kernel_scheme" where
  "cpu_context_setup_signal_handler env ctx handler sig_trampoline args k =
     (case cpu_context_pass_user_args env ctx args k of
        (Inl e, k) \<Rightarrow> (Inl e, k)
      | (Inr _, k) \<Rightarrow>
          (case cpu_context_pass_user_args env ctx [sig_trampoline] k of
             (Inl e, k) \<Rightarrow> (Inl e, k)
           | (Inr _, k) \<Rightarrow> (Inr (), k\<lparr>k_mem := cpu_context_set_pc ctx handler (k_mem k)\<rparr>)))"

definition copy_to_user_stack ::
  "denv \<Rightarrow> v_addr \<Rightarrow> ucopy \<Rightarrow> size_t \<Rightarrow> size_t \<Rightarrow> 'a kernel_scheme \<Rightarrow> unit result \<times> 'a kernel_scheme" where
  "copy_to_user_stack env ctx obj n alignment k =
     (let usr_stack = align_down (cpu_context_get_user_sp ctx (k_mem k) - n) alignment
      in (case ucopy_out env usr_stack obj n k of
            (Inl e, k) \<Rightarrow> (Inl e, k)
          | (Inr _, k) \<Rightarrow> (Inr (), set_user_sp ctx usr_stack k)))"

definition setup_signal_trampoline :: "denv \<Rightarrow> v_addr \<Rightarrow> 'a kernel_scheme \<Rightarrow> v_addr \<times> 'a kernel_scheme" where
  "setup_signal_trampoline env ctx k =
     (case copy_to_user_stack env ctx Trampoline (de_tramp_size env) 4 k of
        (Inl e, k) \<Rightarrow> (0, k)
      | (Inr _, k) \<Rightarrow> (cpu_context_get_user_sp ctx (k_mem k), k))"

definition handle_dfl :: "denv \<Rightarrow> int \<Rightarrow> nat \<Rightarrow> 'a kernel_scheme \<Rightarrow> (unit result \<times> 'a kernel_scheme) option" where
  "handle_dfl env sig p k =
     (if sig = SIGCHLD then Some (Inr (), k)
      else map_option (Pair (Inl EAGAIN)) (process_exit (kenv.truncate env) p sig k))"

text \<open>The remaining time of the sleep replaces the deadline of the timer.\<close>

definition time_nanosleep_intr :: "denv \<Rightarrow> tid \<Rightarrow> 'a kernel_scheme \<Rightarrow> 'a kernel_scheme option" where
  "time_nanosleep_intr env t k = do {
     th \<leftarrow> threads k t;
     let remainder = cpu_context_get_syscall_arg_2 (syscall_ctx k t) (k_mem k);
     if remainder = 0 then Some k
     else do {
       let left = timespec_diff (th_timer th) (current_time k);
       Some (snd (ucopy_out env remainder (Remainder left) 12 (set_thread t (th\<lparr>th_timer := left\<rparr>) k))) } }"

definition handle_intr_syscall :: "denv \<Rightarrow> tid \<Rightarrow> 'a kernel_scheme \<Rightarrow> 'a kernel_scheme option" where
  "handle_intr_syscall env t k =
     (if cpu_context_get_syscall_nr (syscall_ctx k t) (k_mem k) = SYS_nanosleep then time_nanosleep_intr env t k else Some k)"

definition thread_sleep_was_intr :: "tid \<Rightarrow> 'a kernel_scheme \<Rightarrow> bool option" where
  "thread_sleep_was_intr t k = map_option (\<lambda>th. \<not> cpu_context_is_usermode (th_cpu_context th) (k_mem k)) (threads k t)"

definition set_cpu_context :: "tid \<Rightarrow> v_addr \<Rightarrow> 'a kernel_scheme \<Rightarrow> 'a kernel_scheme option" where
  "set_cpu_context t ctx k = map_option (\<lambda>th. set_thread t (th\<lparr>th_cpu_context := ctx\<rparr>) k) (threads k t)"

definition set_signals :: "nat \<Rightarrow> signal_manager \<Rightarrow> 'a kernel_scheme \<Rightarrow> 'a kernel_scheme option" where
  "set_signals p sigm k = map_option (\<lambda>x. set_proc p (x\<lparr>pr_signals := sigm\<rparr>) k) (procs k p)"

text \<open>
  The parts of \<^verbatim>\<open>handle\<close>.  First, where the context of the handler goes: below the interrupted context, or, after a sleep
  that was interrupted, below the context of the system call, which either fails with \<^verbatim>\<open>EINTR\<close> or is restarted by
  a further context of the kernel.
\<close>

definition handler_context :: "denv \<Rightarrow> sigaction \<Rightarrow> tid \<Rightarrow> 'a kernel_scheme \<Rightarrow> (v_addr \<times> 'a kernel_scheme) option" where
  "handler_context env act t k = do {
     th \<leftarrow> threads k t;
     intr \<leftarrow> thread_sleep_was_intr t k;
     if intr then do {
       k \<leftarrow> set_cpu_context t (syscall_ctx k t) k;
       let ctx = syscall_ctx k t;
       if sa_flags act AND SA_RESTART \<noteq> 0 then do {
         let sc_restart = cpu_context_get_next_kernel ctx;
         let m = cpu_context_kernel_init sc_restart (de_restart env) (k_mem k);
         let m = cpu_context_copy_syscall_regs sc_restart ctx m;
         Some (cpu_context_get_next_user sc_restart, k\<lparr>k_mem := m\<rparr>) }
       else do {
         k \<leftarrow> handle_intr_syscall env t k;
         Some (cpu_context_get_next_user ctx, k\<lparr>k_mem := cpu_context_set_syscall_return_value ctx (- 4) (k_mem k)\<rparr>) } }
     else Some (cpu_context_get_next_user (th_cpu_context th), k) }"

text \<open>Then the frame of the handler on the stack of the user program.\<close>

definition handler_frame ::
  "denv \<Rightarrow> sigaction \<Rightarrow> siginfo \<Rightarrow> v_addr \<Rightarrow> v_addr \<Rightarrow> 'a kernel_scheme \<Rightarrow> unit result \<times> 'a kernel_scheme" where
  "handler_frame env act si sh_ctx usr_sp k =
     (let k = k\<lparr>k_mem := cpu_context_user_init sh_ctx 0 usr_sp (k_mem k)\<rparr>;
          (sig_tramp, k) = setup_signal_trampoline env sh_ctx k;
          sig = word_of_int (si_signo si)
      in if sig_tramp = 0 then (Inl EFAULT, k)
         else if sa_flags act AND SA_SIGINFO \<noteq> 0 then
           (case copy_to_user_stack env sh_ctx (Siginfo si) SIGINFO_SIZE 4 k of
              (Inl e, k) \<Rightarrow> (Inl EFAULT, k)
            | (Inr _, k) \<Rightarrow>
                cpu_context_setup_signal_handler env sh_ctx (sa_handler act) sig_tramp
                  [sig, cpu_context_get_user_sp sh_ctx (k_mem k), 0] k)
         else cpu_context_setup_signal_handler env sh_ctx (sa_handler act) sig_tramp [sig] k)"

definition handler_mask :: "int \<Rightarrow> sigaction \<Rightarrow> signal_manager \<Rightarrow> signal_manager option" where
  "handler_mask sig act sigm = do {
     bit \<leftarrow> (if sa_flags act AND SA_NODEFER = 0 then sig_bit sig else Some 0);
     Some (sigm\<lparr>sig_mask := sig_mask sigm OR bit OR sa_mask act\<rparr>) }"

text \<open>Last, the thread runs the handler and the signal is remembered, or \<^verbatim>\<open>SIGKILL\<close> is sent.\<close>

definition handler_installed ::
  "sigaction \<Rightarrow> queued_siginfo \<Rightarrow> sigset \<Rightarrow> v_addr \<Rightarrow> nat \<Rightarrow> tid \<Rightarrow> 'a kernel_scheme \<Rightarrow> 'a kernel_scheme option" where
  "handler_installed act qs saved sh_ctx p t k = do {
     k \<leftarrow> set_cpu_context t sh_ctx k;
     x \<leftarrow> procs k p;
     sigm \<leftarrow> (if sa_flags act AND SA_RESETHAND \<noteq> 0 then signal_reset_handler (si_signo (sinfo qs)) (pr_signals x)
              else Some (pr_signals x));
     set_signals p (sigm\<lparr>handled_stack := handled_stack sigm @ [qs\<lparr>saved_mask := saved\<rparr>]\<rparr>) k }"

definition handle_failed :: "denv \<Rightarrow> nat \<Rightarrow> 'a kernel_scheme \<Rightarrow> (unit result \<times> 'a kernel_scheme) option" where
  "handle_failed env p k = do {
     x \<leftarrow> procs k p;
     k \<leftarrow> set_signals p (snd (signal_send (ke_malloc env) SIGKILL None (pr_signals x))) k;
     Some (Inl EFAULT, k) }"

definition handle :: "denv \<Rightarrow> queued_siginfo \<Rightarrow> tid \<Rightarrow> 'a kernel_scheme \<Rightarrow> (unit result \<times> 'a kernel_scheme) option" where
  "handle env qs t k = do {
     let sig = si_signo (sinfo qs);
     th \<leftarrow> threads k t;
     let p = th_process th;
     x \<leftarrow> procs k p;
     act \<leftarrow> get_action (pr_signals x) sig;
     ign \<leftarrow> signal_is_ign sig (pr_signals x);
     dfl \<leftarrow> signal_is_dlf sig (pr_signals x);
     if ign then Some (Inr (), k)
     else if dfl then handle_dfl env sig p k
     else do {
       sigm \<leftarrow> handler_mask sig act (pr_signals x);
       k \<leftarrow> set_signals p sigm k;
       (sh_ctx, k) \<leftarrow> handler_context env act t k;
       th \<leftarrow> threads k t;
       let usr_sp = (if sa_flags act AND SA_ONSTACK \<noteq> 0 then altstack_sp sigm
                     else cpu_context_get_user_sp (th_cpu_context th) (k_mem k));
       case handler_frame env act (sinfo qs) sh_ctx usr_sp k of
         (Inl e, k) \<Rightarrow> handle_failed env p k
       | (Inr _, k) \<Rightarrow> map_option (Pair (Inr ())) (handler_installed act qs (sig_mask (pr_signals x)) sh_ctx p t k) } }"

definition signal_handle :: "denv \<Rightarrow> tid \<Rightarrow> 'a kernel_scheme \<Rightarrow> (unit result \<times> 'a kernel_scheme) option" where
  "signal_handle env t k = do {
     th \<leftarrow> threads k t;
     if th_type th = KTHREAD then Some (Inl EINVAL, k)
     else do {
       x \<leftarrow> procs k (th_process th);
       case signal_pop (pr_signals x) of
         (None, _) \<Rightarrow> Some (Inl EINVAL, k)
       | (Some qs, sigm) \<Rightarrow> do {
           k \<leftarrow> set_signals (th_process th) sigm k;
           handle env qs t k } } }"

text \<open>\<^verbatim>\<open>sys_sigreturn\<close>: the context that the processor goes on with, or \<open>None\<close> when the call returns to its caller.\<close>

definition sys_sigreturn :: "'a kernel_scheme \<Rightarrow> (v_addr option \<times> 'a kernel_scheme) option" where
  "sys_sigreturn k = do {
     t \<leftarrow> current_thread k;
     th \<leftarrow> threads k t;
     x \<leftarrow> procs k (th_process th);
     let sigm = pr_signals x;
     let ctx = cpu_context_get_previous (th_cpu_context th) (k_mem k);
     if ctx > kstack_sp k t + kstack_size k t then Some (None, k)
     else if handled_stack sigm = [] then Some (None, k)
     else do {
       let qs = last (handled_stack sigm);
       k \<leftarrow> set_signals (th_process th) (sigm\<lparr>handled_stack := butlast (handled_stack sigm), sig_mask := saved_mask qs\<rparr>) k;
       Some (Some ctx, k) } }"

section \<open>What delivery writes\<close>

text \<open>
  Setting up a handler changes kernel memory only in the new context, keeps its code segment, and copies to user memory.
\<close>

definition frame_step :: "v_addr \<Rightarrow> 'a kernel_scheme \<Rightarrow> 'a kernel_scheme \<Rightarrow> bool" where
  "frame_step ctx k k' \<longleftrightarrow> (\<exists>m u. k' = k\<lparr>k_mem := m, user_copies := u\<rparr> \<and> only_within 64 ctx (k_mem k) m \<and>
     m (ctx + CTX_CS) = k_mem k (ctx + CTX_CS))"

lemma frame_step_trans: "frame_step ctx k k' \<Longrightarrow> frame_step ctx k' k'' \<Longrightarrow> frame_step ctx k k''"
  by (force simp: frame_step_def intro: only_within_trans)

lemma frame_step_copy: "ucopy_out env a obj n k = (r, k') \<Longrightarrow> frame_step ctx k k'"
proof -
  have "frame_step ctx k (k\<lparr>user_copies := u\<rparr>)" for u
    unfolding frame_step_def by (rule exI [of _ "k_mem k"], rule exI [of _ u]) simp
  moreover from this [of "user_copies k"] have "frame_step ctx k k"
    by simp
  ultimately show "ucopy_out env a obj n k = (r, k') \<Longrightarrow> frame_step ctx k k'"
    by (auto simp: ucopy_out_def split: if_splits)
qed

lemma frame_step_mem:
  "unat d < 64 \<Longrightarrow> d \<noteq> CTX_CS \<Longrightarrow> frame_step ctx k (k\<lparr>k_mem := (k_mem k)(ctx + d := v)\<rparr>)"
  unfolding frame_step_def
  by (rule exI [of _ "(k_mem k)(ctx + d := v)"], rule exI [of _ "user_copies k"]) (simp add: only_within_upd)

lemma frame_step_sp: "frame_step ctx k (set_user_sp ctx sp k)"
  by (simp add: set_user_sp_def cpu_context_set_user_sp_def frame_step_mem)

lemma frame_step_stack: "copy_to_user_stack env ctx obj n al k = (r, k') \<Longrightarrow> frame_step ctx k k'"
  by (auto simp: copy_to_user_stack_def Let_def split: prod.splits sum.splits
      dest: frame_step_copy intro: frame_step_trans [OF _ frame_step_sp])

lemma frame_step_args: "cpu_context_pass_user_args env ctx args k = (r, k') \<Longrightarrow> frame_step ctx k k'"
  by (auto simp: cpu_context_pass_user_args_def Let_def split: prod.splits sum.splits
      dest: frame_step_copy intro: frame_step_trans [OF _ frame_step_sp])

lemma frame_step_tramp: "setup_signal_trampoline env ctx k = (a, k') \<Longrightarrow> frame_step ctx k k'"
  by (auto simp: setup_signal_trampoline_def split: prod.splits sum.splits dest: frame_step_stack)

lemma frame_step_handler:
  assumes "cpu_context_setup_signal_handler env ctx h tramp args k = (Inr (), k')"
  shows "frame_step ctx k k' \<and> k_mem k' (ctx + CTX_EIP) = h"
  using assms
  by (auto simp: cpu_context_setup_signal_handler_def cpu_context_set_pc_def split: prod.splits sum.splits
      dest!: frame_step_args intro: frame_step_trans [OF frame_step_trans [OF _ _] frame_step_mem])

lemma handler_frame_frame:
  assumes "handler_frame env act si ctx sp k = (Inr (), k')"
  shows "frame_step ctx (k\<lparr>k_mem := cpu_context_user_init ctx 0 sp (k_mem k)\<rparr>) k' \<and> k_mem k' (ctx + CTX_EIP) = sa_handler act"
  using assms unfolding handler_frame_def Let_def
  by (auto split: prod.splits sum.splits if_splits dest!: frame_step_tramp frame_step_stack frame_step_handler
      intro: frame_step_trans)

text \<open>What a delivered signal leaves: the new context is in user mode at the handler, and nothing else of the kernel memory has changed.\<close>

lemma handler_frame_result:
  assumes "handler_frame env act si ctx sp k = (Inr (), k')"
  obtains m u where "k' = k\<lparr>k_mem := m, user_copies := u\<rparr>" "only_within 64 ctx (k_mem k) m"
    "cpu_context_is_usermode ctx m" "m (ctx + CTX_EIP) = sa_handler act"
proof -
  from handler_frame_frame [OF assms] obtain m u where
    *: "k' = k\<lparr>k_mem := m, user_copies := u\<rparr>" "only_within 64 ctx (cpu_context_user_init ctx 0 sp (k_mem k)) m"
      "m (ctx + CTX_CS) = cpu_context_user_init ctx 0 sp (k_mem k) (ctx + CTX_CS)" "m (ctx + CTX_EIP) = sa_handler act"
    by (auto simp: frame_step_def)
  have "cpu_context_is_usermode ctx m"
    using user_init_usermode [of ctx 0 sp "k_mem k"] *(3) by (simp add: cpu_context_is_usermode_def)
  moreover have "only_within 64 ctx (k_mem k) m"
    using only_within_trans [OF user_init_within *(2)] .
  ultimately show ?thesis
    using that * by blast
qed

text \<open>\<open>m'\<close> has the words of \<open>m\<close> from \<open>lo\<close> up to \<open>tp\<close>.\<close>

definition same_from :: "v_addr \<Rightarrow> v_addr \<Rightarrow> kmem \<Rightarrow> kmem \<Rightarrow> bool" where
  "same_from lo tp m m' \<longleftrightarrow> (\<forall>a. lo \<le> a \<and> a < tp \<longrightarrow> m' a = m a)"

lemma same_from_trans: "same_from lo tp m m' \<Longrightarrow> same_from lo tp m' m'' \<Longrightarrow> same_from lo tp m m''"
  by (simp add: same_from_def)

lemma same_from_mono: "same_from lo tp m m' \<Longrightarrow> lo \<le> hi \<Longrightarrow> same_from hi tp m m'"
  by (auto simp: same_from_def)

lemma within_same_from:
  assumes "only_within (unat n) (ctx - n) m m'" "n \<le> ctx"
  shows "same_from ctx tp m m'"
  unfolding same_from_def
proof (intro allI impI)
  fix a
  assume "ctx \<le> a \<and> a < tp"
  with assms(2) have "unat n \<le> unat (a - (ctx - n))"
    by (auto simp: word_le_nat_alt unat_sub_if')
  with assms(1) show "m' a = m a"
    by (simp add: only_within_def)
qed

section \<open>Return from a handler\<close>

text \<open>
  Where the context \<open>sh\<close> of the handler is put, and the kernel memory then.  \<open>usr\<close>: the thread was interrupted in user mode, and \<open>ctx\<close> is
  its context; otherwise it slept in a system call, and \<open>ctx\<close> is the context of the call.
\<close>

definition handler_placed :: "denv \<Rightarrow> sigaction \<Rightarrow> bool \<Rightarrow> v_addr \<Rightarrow> v_addr \<Rightarrow> kmem \<Rightarrow> kmem \<Rightarrow> bool" where
  "handler_placed env act usr ctx sh m m' \<longleftrightarrow>
     (if usr then sh = ctx - 64 \<and> m' = m
      else if sa_flags act AND SA_RESTART \<noteq> 0 then
        sh = ctx - 56 - 64 \<and>
        m' = cpu_context_copy_syscall_regs (ctx - 56) ctx (cpu_context_kernel_init (ctx - 56) (de_restart env) m)
      else sh = ctx - 64 \<and> m' = m(ctx + CTX_EAX := - 4))"

text \<open>
  What the thread goes on with at \<open>c\<close> after the handler: the interrupted context; or the context of the system call, with the result
  \<^verbatim>\<open>-EINTR\<close>; or, for \<^verbatim>\<open>SA_RESTART\<close>, a context of the kernel that starts the call again with its number and arguments
  and that is followed by the context of the call.  The words of the stack above are those at the time of the signal.
\<close>

definition resumes :: "denv \<Rightarrow> sigaction \<Rightarrow> bool \<Rightarrow> v_addr \<Rightarrow> v_addr \<Rightarrow> kmem \<Rightarrow> v_addr \<Rightarrow> kmem \<Rightarrow> bool" where
  "resumes env act usr ctx tp m c m' \<longleftrightarrow>
     (if usr then c = ctx \<and> same_from ctx tp m m'
      else if sa_flags act AND SA_RESTART \<noteq> 0 then
        c = ctx - 56 \<and> m' (c + CTX_EIP) = de_restart env \<and> \<not> cpu_context_is_usermode c m' \<and>
        (\<forall>d \<in> {CTX_EAX, CTX_EBX, CTX_ECX, CTX_EDX, CTX_ESI, CTX_EDI}. m' (c + d) = m (ctx + d)) \<and>
        cpu_context_get_previous c m' = ctx \<and> same_from ctx tp m m'
      else c = ctx \<and> same_from ctx tp (m(ctx + CTX_EAX := - 4)) m')"

lemma restart_context:
  fixes c pc :: v_addr and m :: kmem
  defines "m' \<equiv> cpu_context_copy_syscall_regs c (c + 56) (cpu_context_kernel_init c pc m)"
  shows "m' (c + CTX_EIP) = pc" "\<not> cpu_context_is_usermode c m'" "only_within 56 c m m'"
    "\<forall>d \<in> {CTX_EAX, CTX_EBX, CTX_ECX, CTX_EDX, CTX_ESI, CTX_EDI}. m' (c + d) = m (c + 56 + d)"
proof -
  let ?m = "cpu_context_kernel_init c pc m"
  have keep: "?m (c + d) = m (c + d)" if "56 \<le> unat d" for d
    using only_within_at [OF kernel_init_within that] .
  have "?m (c + 44) = pc"
    by (simp add: cpu_context_kernel_init_def cpu_context_init_def Let_def set_ss_def)
  then show "m' (c + CTX_EIP) = pc"
    by (simp add: m'_def cpu_context_copy_syscall_regs_def Let_def)
  have "m' (c + CTX_CS) = ?m (c + CTX_CS)"
    by (simp add: m'_def cpu_context_copy_syscall_regs_def Let_def)
  then show "\<not> cpu_context_is_usermode c m'"
    using kernel_init_not_usermode [of c pc m] by (simp add: cpu_context_is_usermode_def)
  show "only_within 56 c m m'"
    unfolding m'_def by (rule only_within_trans [OF kernel_init_within copy_syscall_regs_within])
  show "\<forall>d \<in> {CTX_EAX, CTX_EBX, CTX_ECX, CTX_EDX, CTX_ESI, CTX_EDI}. m' (c + d) = m (c + 56 + d)"
    using keep [of 56] keep [of 60] keep [of 64] keep [of 68] keep [of 72] keep [of 80]
    by (simp add: m'_def cpu_context_copy_syscall_regs_def Let_def add.assoc)
qed

lemma placed_resumes:
  assumes placed: "handler_placed env act usr ctx sh m m1" and frame: "only_within 64 sh m1 m2"
    and run: "same_from (sh + 64) tp m2 m3" "cpu_context_is_usermode sh m3"
    and bounds: "120 \<le> ctx" "ctx + 64 \<le> tp" "ctx \<le> ctx + 64"
  shows "resumes env act usr ctx tp m (cpu_context_get_previous sh m3) m3"
proof (cases "usr \<or> sa_flags act AND SA_RESTART = 0")
  case True
  with placed have sh: "sh = ctx - 64" and m1: "m1 = (if usr then m else m(ctx + CTX_EAX := - 4))"
    by (auto simp: handler_placed_def split: if_splits)
  have "same_from ctx tp m1 m2"
    using within_same_from [of 64 ctx m1 m2] frame bounds sh by (simp add: order.trans [of 64 120])
  with run sh have "same_from ctx tp m1 m3"
    by (simp add: same_from_trans)
  with True m1 run(2) sh show ?thesis
    by (auto simp: resumes_def cpu_context_get_previous_def)
next
  case False
  define c where "c = ctx - 56"
  then have ctx: "ctx = c + 56"
    by simp
  from False placed have sh: "sh = c - 64"
    and m1: "m1 = cpu_context_copy_syscall_regs c (c + 56) (cpu_context_kernel_init c (de_restart env) m)"
    by (auto simp: handler_placed_def c_def)
  have c64: "64 \<le> c" and c_ctx: "c \<le> ctx"
    using bounds(1) unfolding c_def by (auto simp: word_le_nat_alt unat_sub_if' split: if_splits)
  have c_le: "c + 120 \<le> tp" "c \<le> c + 120"
    using bounds c_ctx ctx by (simp_all add: add.assoc order.trans [of c "c + 56"])
  have "same_from c tp m1 m2"
    using within_same_from [of 64 c m1 m2] frame sh c64 by simp
  with run sh have c_m3: "same_from c tp m1 m3"
    by (simp add: same_from_trans)
  have at: "m3 (c + d) = m1 (c + d)" if "d < 56" for d
  proof -
    have "unat (c + 120) = unat c + 120"
      using c_le(2) unat_plus_simple [of c 120] by simp
    moreover have "unat (c + d) = unat c + unat d"
      using that calculation unsigned_less [of "c + 120"] by (simp add: unat_word_ariths word_less_nat_alt)
    ultimately have "c \<le> c + d" "c + d < tp"
      using that c_le(1) by (simp_all add: word_le_nat_alt word_less_nat_alt)
    with c_m3 show ?thesis
      by (simp add: same_from_def)
  qed
  have "same_from ctx tp m m1"
    using within_same_from [of 56 ctx m m1] restart_context(3) [where c = c and pc = "de_restart env" and m = m] m1 bounds c_def
    by (simp add: order.trans [of 56 120])
  then have "same_from ctx tp m m3"
    using same_from_mono [OF c_m3 c_ctx] by (rule same_from_trans)
  moreover have "\<not> cpu_context_is_usermode c m3"
    using restart_context(2) [where c = c and pc = "de_restart env" and m = m] m1 at [of CTX_CS] by (simp add: cpu_context_is_usermode_def)
  ultimately show ?thesis
    using False run(2) sh restart_context(1,4) [where c = c and pc = "de_restart env" and m = m] m1 at at [of 0]
    by (simp add: resumes_def cpu_context_get_previous_def c_def [symmetric] ctx)
qed

text \<open>The effect of each part of \<^verbatim>\<open>handle\<close> on the state, for the fields that \<^verbatim>\<open>sigreturn\<close> depends on.\<close>

lemma set_signals_result:
  assumes "set_signals p sigm k = Some k'"
  obtains x where "procs k p = Some x" "k' = set_proc p (x\<lparr>pr_signals := sigm\<rparr>) k"
  using assms by (auto simp: set_signals_def)

text \<open>The thread and its process are the same, up to the context and the timer of the thread.\<close>

definition same_thread :: "tid \<Rightarrow> 'a kernel_scheme \<Rightarrow> 'a kernel_scheme \<Rightarrow> bool" where
  "same_thread t k k' \<longleftrightarrow> procs k' = procs k \<and> kstack_sp k' = kstack_sp k \<and> kstack_size k' = kstack_size k \<and>
     map_option th_process (threads k' t) = map_option th_process (threads k t)"

lemma intr_syscall_result:
  assumes "handle_intr_syscall env t k = Some k'"
  shows "same_thread t k k' \<and> k_mem k' = k_mem k"
  using assms
  by (auto simp: handle_intr_syscall_def time_nanosleep_intr_def same_thread_def ucopy_out_def Let_def set_thread_def
      split: if_splits Option.bind_splits)

lemma handler_context_result:
  assumes "handler_context env act t k = Some (sh, k')" and th: "threads k t = Some th"
  shows "same_thread t k k' \<and> handler_placed env act (cpu_context_is_usermode (th_cpu_context th) (k_mem k))
    (if cpu_context_is_usermode (th_cpu_context th) (k_mem k) then th_cpu_context th else syscall_ctx k t)
    sh (k_mem k) (k_mem k')"
proof -
  let ?k = "set_thread t (th\<lparr>th_cpu_context := syscall_ctx k t\<rparr>) k"
  have *: "same_thread t k ?k" "k_mem ?k = k_mem k" "syscall_ctx ?k = syscall_ctx k"
    by (simp_all add: same_thread_def set_thread_def th)
  show ?thesis
  proof (cases "handle_intr_syscall env t ?k")
    case None
    with assms * show ?thesis
      by (auto simp: handler_context_def handler_placed_def thread_sleep_was_intr_def set_cpu_context_def Let_def
          cpu_context_get_next_user_def cpu_context_get_next_kernel_def same_thread_def split: if_splits)
  next
    case (Some k2)
    from intr_syscall_result [OF Some] assms * Some show ?thesis
      by (auto simp: handler_context_def handler_placed_def thread_sleep_was_intr_def set_cpu_context_def Let_def
          cpu_context_get_next_user_def cpu_context_get_next_kernel_def cpu_context_set_syscall_return_value_def
          same_thread_def split: if_splits)
  qed
qed

lemma handler_installed_result:
  assumes "handler_installed act qs saved sh p t k = Some k'" and x: "procs k p = Some x"
  shows "k_mem k' = k_mem k \<and> kstack_sp k' = kstack_sp k \<and> kstack_size k' = kstack_size k \<and>
    map_option th_process (threads k' t) = map_option th_process (threads k t) \<and>
    map_option th_cpu_context (threads k' t) = Some sh \<and>
    (\<exists>x'. procs k' p = Some x' \<and>
      handled_stack (pr_signals x') = handled_stack (pr_signals x) @ [qs\<lparr>saved_mask := saved\<rparr>])"
  using assms
  by (auto simp: handler_installed_def set_cpu_context_def set_signals_def set_thread_def signal_reset_handler_def
      set_action_def split: if_splits Option.bind_splits)

text \<open>A signal with a handler is about to be delivered to the thread.\<close>

definition handler_pending :: "tid \<Rightarrow> thread \<Rightarrow> process \<Rightarrow> queued_siginfo \<Rightarrow> sigaction \<Rightarrow> 'a kernel_scheme \<Rightarrow> bool" where
  "handler_pending t th x q act k \<longleftrightarrow>
     threads k t = Some th \<and> th_type th = UTHREAD \<and> procs k (th_process th) = Some x \<and>
     sig_queue (pr_signals x) \<noteq> [] \<and> hd (sig_queue (pr_signals x)) = q \<and>
     get_action (pr_signals x) (si_signo (sinfo q)) = Some act \<and> sa_handler act \<noteq> SIG_DFL \<and> sa_handler act \<noteq> SIG_IGN"

abbreviation in_user_mode :: "thread \<Rightarrow> 'a kernel_scheme \<Rightarrow> bool" where
  "in_user_mode th k \<equiv> cpu_context_is_usermode (th_cpu_context th) (k_mem k)"

definition interrupted_context :: "tid \<Rightarrow> thread \<Rightarrow> 'a kernel_scheme \<Rightarrow> v_addr" where
  "interrupted_context t th k = (if in_user_mode th k then th_cpu_context th else syscall_ctx k t)"

lemma signal_handle_installs:
  assumes pend: "handler_pending t th x q act k" and "signal_handle env t k = Some (Inr (), k1)"
  obtains sh th1 x1 m1 where "threads k1 t = Some th1" "th_process th1 = th_process th" "th_cpu_context th1 = sh"
    "procs k1 (th_process th) = Some x1"
    "handled_stack (pr_signals x1) = handled_stack (pr_signals x) @ [q\<lparr>saved_mask := sig_mask (pr_signals x)\<rparr>]"
    "kstack_sp k1 = kstack_sp k" "kstack_size k1 = kstack_size k"
    "handler_placed env act (in_user_mode th k) (interrupted_context t th k) sh (k_mem k) m1"
    "only_within 64 sh m1 (k_mem k1)" "cpu_context_is_usermode sh (k_mem k1)" "k_mem k1 (sh + CTX_EIP) = sa_handler act"
proof -
  define p where "p = th_process th"
  define sig where "sig = si_signo (sinfo q)"
  define s0 where "s0 = (pr_signals x)\<lparr>sig_queue := tl (sig_queue (pr_signals x))\<rparr>"
  define ka where "ka = set_proc p (x\<lparr>pr_signals := s0\<rparr>) k"
  have acts: "get_action s0 sig = Some act" "signal_is_ign sig s0 = Some False" "signal_is_dlf sig s0 = Some False"
    using pend
    by (auto simp: handler_pending_def s0_def get_action_def sig_def signal_is_ign_def signal_is_dlf_def signal_is_def
        sigaction_is_def split: if_splits)
  from assms have "handle env q t ka = Some (Inr (), k1)"
    by (auto simp: signal_handle_def handler_pending_def signal_pop_def signal_pending_def set_signals_def ka_def s0_def p_def)
  then obtain s1 kc sh r kd where s1: "handler_mask sig act s0 = Some s1"
    and kc: "handler_context env act t (set_proc p (x\<lparr>pr_signals := s1\<rparr>) k) = Some (sh, kc)"
    and kd: "\<exists>sp. handler_frame env act (sinfo q) sh sp kc = (r, kd)"
    and r: "case r of Inl _ \<Rightarrow> handle_failed env p kd = Some (Inr (), k1)
      | Inr _ \<Rightarrow> handler_installed act q (sig_mask s0) sh p t kd = Some k1"
    using pend acts
    by (force simp: handle_def handler_pending_def p_def [symmetric] sig_def [symmetric] ka_def set_signals_def Let_def
        set_proc_def split: Option.bind_splits prod.splits sum.splits)
  from r have "r = Inr ()"
    by (cases r) (auto simp: handle_failed_def split: Option.bind_splits)
  with r have inst: "handler_installed act q (sig_mask s0) sh p t kd = Some k1"
    by simp
  from kd \<open>r = Inr ()\<close> obtain m u where kd': "kd = kc\<lparr>k_mem := m, user_copies := u\<rparr>" and frame: "only_within 64 sh (k_mem kc) m"
    "cpu_context_is_usermode sh m" "m (sh + CTX_EIP) = sa_handler act"
    by (auto elim: handler_frame_result)
  have th: "threads (set_proc p (x\<lparr>pr_signals := s1\<rparr>) k) t = Some th"
    using pend by (simp add: handler_pending_def)
  note ctx = handler_context_result [OF kc th]
  from ctx have kdp: "procs kd p = Some (x\<lparr>pr_signals := s1\<rparr>)" "map_option th_process (threads kd t) = Some p"
    using th by (simp_all add: kd' same_thread_def p_def)
  note res = handler_installed_result [OF inst kdp(1)]
  from res kdp(2) obtain th1 where th1: "threads k1 t = Some th1" "th_process th1 = p" "th_cpu_context th1 = sh"
    by auto
  from s1 have "handled_stack s1 = handled_stack (pr_signals x)" "sig_mask s0 = sig_mask (pr_signals x)"
    by (auto simp: handler_mask_def s0_def split: Option.bind_splits)
  with res th1 ctx frame that [of th1 sh _ "k_mem kc"] show ?thesis
    by (auto simp: kd' same_thread_def p_def interrupted_context_def cong: if_cong)
qed

text \<open>
  The handler of thread \<open>t\<close>, installed in \<open>k1\<close>, has run and calls \<^verbatim>\<open>sigreturn\<close> in \<open>k2\<close>.  The context of the call is saved where the
  context of the handler was, the stack above it is untouched, and the stack of handled signals is as it was when the handler started.
\<close>

definition handler_returns :: "tid \<Rightarrow> 'a kernel_scheme \<Rightarrow> 'a kernel_scheme \<Rightarrow> bool" where
  "handler_returns t k1 k2 \<longleftrightarrow> current_thread k2 = Some t \<and> kstack_sp k2 = kstack_sp k1 \<and> kstack_size k2 = kstack_size k1 \<and>
     (case (threads k1 t, threads k2 t) of
        (Some th1, Some th2) \<Rightarrow>
          th_process th2 = th_process th1 \<and> th_cpu_context th2 = th_cpu_context th1 \<and> in_user_mode th2 k2 \<and>
          same_from (th_cpu_context th1 + 64) (kstack_sp k1 t + kstack_size k1 t) (k_mem k1) (k_mem k2) \<and>
          (case (procs k1 (th_process th1), procs k2 (th_process th1)) of
             (Some x1, Some x2) \<Rightarrow> handled_stack (pr_signals x2) = handled_stack (pr_signals x1)
           | _ \<Rightarrow> False)
      | _ \<Rightarrow> False)"

text \<open>
  C3: delivering a signal and returning from its handler.  When \<^verbatim>\<open>signal_handle\<close> installs the handler of the first pending
  signal, the thread next runs at the address of the handler; and when the handler calls \<^verbatim>\<open>sigreturn\<close>, the
  processor goes on with exactly the interrupted user context, or, if the signal interrupted a system call, with the context of the call
  and the result \<^verbatim>\<open>-EINTR\<close>, or, under \<^verbatim>\<open>SA_RESTART\<close>, with a context that makes the call again with the same arguments; the signal
  mask and the stack of handled signals are those from before the signal.  The interrupted context has room for two contexts below it.
\<close>

theorem signal_delivery_roundtrip:
  assumes "handler_pending t th x q act k" "signal_handle env t k = Some (Inr (), k1)" "handler_returns t k1 k2"
    and "interrupted_context t th k = ctx" "kstack_sp k t + kstack_size k t = tp"
    and "120 \<le> ctx" "ctx \<le> ctx + 64" "ctx + 64 \<le> tp"
  shows "(\<exists>th1. threads k1 t = Some th1 \<and> k_mem k1 (th_cpu_context th1 + CTX_EIP) = sa_handler act) \<and>
    (\<exists>c k3 x3. sys_sigreturn k2 = Some (Some c, k3) \<and> resumes env act (in_user_mode th k) ctx tp (k_mem k) c (k_mem k3) \<and>
      procs k3 (th_process th) = Some x3 \<and> sig_mask (pr_signals x3) = sig_mask (pr_signals x) \<and>
      handled_stack (pr_signals x3) = handled_stack (pr_signals x))"
proof -
  from signal_handle_installs [OF assms(1,2)] obtain sh th1 x1 m1 where
    th1: "threads k1 t = Some th1" "th_process th1 = th_process th" "th_cpu_context th1 = sh" "procs k1 (th_process th) = Some x1"
    and hs: "handled_stack (pr_signals x1) = handled_stack (pr_signals x) @ [q\<lparr>saved_mask := sig_mask (pr_signals x)\<rparr>]"
    and ks: "kstack_sp k1 = kstack_sp k" "kstack_size k1 = kstack_size k"
    and mem: "handler_placed env act (in_user_mode th k) ctx sh (k_mem k) m1" "only_within 64 sh m1 (k_mem k1)"
    and eip: "k_mem k1 (sh + CTX_EIP) = sa_handler act"
    unfolding assms(4) by metis
  from assms(3) th1 hs obtain th2 x2 where th2: "current_thread k2 = Some t" "threads k2 t = Some th2"
    "th_process th2 = th_process th" "th_cpu_context th2 = sh" "procs k2 (th_process th) = Some x2"
    "handled_stack (pr_signals x2) = handled_stack (pr_signals x) @ [q\<lparr>saved_mask := sig_mask (pr_signals x)\<rparr>]"
    and run: "same_from (sh + 64) tp (k_mem k1) (k_mem k2)" "cpu_context_is_usermode sh (k_mem k2)"
    and ks2: "kstack_sp k2 t + kstack_size k2 t = tp"
    using ks assms(5) by (auto simp: handler_returns_def split: option.splits)
  have res: "resumes env act (in_user_mode th k) ctx tp (k_mem k) (cpu_context_get_previous sh (k_mem k2)) (k_mem k2)"
    by (rule placed_resumes [OF mem run assms(6,8,7)])
  have "ctx \<le> tp" "ctx - 56 \<le> tp"
    using assms(6-8) by (auto simp: word_le_nat_alt unat_sub_if' split: if_splits)
  then have "cpu_context_get_previous sh (k_mem k2) \<le> tp"
    using res by (auto simp: resumes_def split: if_splits)
  with res th1 th2 ks2 eip show ?thesis
    by (auto simp: sys_sigreturn_def Let_def set_signals_def)
qed

text \<open>When the user stack can be written, the frame of the handler is built.\<close>

lemma copy_writable: "de_writable env a n \<Longrightarrow> \<exists>k'. ucopy_out env a obj n k = (Inr (), k')"
  by (simp add: ucopy_out_def)

lemma handler_frame_writable:
  assumes w: "\<And>a n. de_writable env a n" and "align_down (sp - de_tramp_size env) 4 \<noteq> 0"
  shows "\<exists>k'. handler_frame env act si ctx sp k = (Inr (), k')"
proof -
  have "cpu_context_get_user_sp ctx (cpu_context_user_init ctx 0 sp m) = sp" for m
    by (simp add: cpu_context_get_user_sp_def cpu_context_user_init_def Let_def)
  with assms show ?thesis
    by (auto simp: handler_frame_def setup_signal_trampoline_def copy_to_user_stack_def ucopy_out_def set_user_sp_def
        cpu_context_setup_signal_handler_def cpu_context_pass_user_args_def Let_def cpu_context_get_user_sp_def
        cpu_context_set_user_sp_def split: prod.splits)
qed

section \<open>A sample delivery\<close>

text \<open>
  The running thread of the sample state is in user mode with its context at the top of its stack, and its process has a handler for a pending
  \<^verbatim>\<open>SIGUSR1\<close>.
\<close>

definition sample_action :: sigaction where
  "sample_action = \<lparr>sa_handler = 0x1000, sa_mask = 0, sa_flags = 0\<rparr>"

definition sample_signal :: queued_siginfo where
  "sample_signal = queued_siginfo_init 10 None"

definition signalled_process :: process where
  "signalled_process = (sample_process 6 (Some 7) [])\<lparr>pr_signals :=
     signal_init\<lparr>sig_queue := [sample_signal], actions := (replicate NSIG zero_action)[9 := sample_action]\<rparr>\<rparr>"

definition user_thread :: thread where
  "user_thread = (sample_thread 8 THREAD_RUNNING)\<lparr>th_cpu_context := 0x1FC0\<rparr>"

definition signalled_kernel :: kernel where
  "signalled_kernel = sample_kernel\<lparr>threads := [20 \<mapsto> user_thread], procs := [8 \<mapsto> signalled_process],
     k_mem := (\<lambda>_. 0)(0x1FF0 := 0x1B, 0x1FF8 := 0x8000), kstack_sp := (\<lambda>_. 0x1000), kstack_size := (\<lambda>_. 0x1000)\<rparr>"

definition sample_denv :: denv where
  "sample_denv = \<lparr>ke_malloc = True, ke_wqs = [], ke_fuel = 2, de_writable = (\<lambda>_ _. True), de_tramp_size = 7, de_restart = 0x100\<rparr>"

lemma signalled_pending: "handler_pending 20 user_thread signalled_process sample_signal sample_action signalled_kernel"
  by (simp add: handler_pending_def signalled_kernel_def user_thread_def signalled_process_def sample_signal_def queued_siginfo_init_def
      siginfo_init_def get_action_def sample_action_def signal_init_def)

lemma signalled_user: "in_user_mode user_thread signalled_kernel" "interrupted_context 20 user_thread signalled_kernel = 0x1FC0"
  by (simp_all add: interrupted_context_def user_thread_def signalled_kernel_def cpu_context_is_usermode_def segment_is_user_def)

lemma signalled_handle: "\<exists>k1. signal_handle sample_denv 20 signalled_kernel = Some (Inr (), k1)"
proof -
  let ?s = "(pr_signals signalled_process)\<lparr>sig_queue := [], sig_mask := 0x200\<rparr>"
  let ?k = "set_proc 8 (signalled_process\<lparr>pr_signals := ?s\<rparr>) signalled_kernel"
  have sel: "threads signalled_kernel 20 = Some user_thread" "procs signalled_kernel = [8 \<mapsto> signalled_process]"
    "th_process user_thread = 8" "th_type user_thread = UTHREAD" "th_cpu_context user_thread = 0x1FC0"
    "sig_queue (pr_signals signalled_process) = [sample_signal]" "sig_mask (pr_signals signalled_process) = 0"
    "si_signo (sinfo sample_signal) = 10" "sa_flags sample_action = 0" "sa_handler sample_action = 0x1000" "sa_mask sample_action = 0"
    "k_mem signalled_kernel 0x1FF8 = 0x8000" "k_mem signalled_kernel 0x1FF0 = 0x1B"
    by (simp_all add: signalled_kernel_def user_thread_def signalled_process_def signal_init_def sample_signal_def queued_siginfo_init_def
        siginfo_init_def sample_action_def)
  have act: "get_action ((pr_signals signalled_process)\<lparr>sig_queue := q\<rparr>) 10 = Some sample_action" for q
    by (simp add: get_action_def signalled_process_def)
  have idem: "set_proc 8 y (set_proc 8 x k) = set_proc 8 y k" for x y and k :: kernel
    by (simp add: set_proc_def)
  obtain k' where k': "handler_frame sample_denv sample_action (sinfo sample_signal) (0x1FC0 - 64) 0x8000 ?k = (Inr (), k')"
    using handler_frame_writable [of sample_denv "0x8000" sample_action "sinfo sample_signal" "0x1FC0 - 64" ?k]
    by (auto simp: sample_denv_def align_down_def)
  from handler_frame_result [OF this] obtain m u where "k' = ?k\<lparr>k_mem := m, user_copies := u\<rparr>"
    by blast
  then have "\<exists>k1. handler_installed sample_action sample_signal 0 (0x1FC0 - 64) 8 20 k' = Some k1"
    by (simp add: handler_installed_def set_cpu_context_def set_thread_def set_signals_def sel)
  moreover have "signal_is_ign 10 ((pr_signals signalled_process)\<lparr>sig_queue := []\<rparr>) = Some False"
    "signal_is_dlf 10 ((pr_signals signalled_process)\<lparr>sig_queue := []\<rparr>) = Some False"
    by (simp_all add: signal_is_ign_def signal_is_dlf_def signal_is_def act sigaction_is_def sel)
  ultimately show ?thesis
    using k'
    by (auto simp: signal_handle_def sel signal_pop_def signal_pending_def set_signals_def handle_def act idem handler_mask_def sig_bit_def
        handler_context_def thread_sleep_was_intr_def cpu_context_is_usermode_def segment_is_user_def cpu_context_get_next_user_def
        cpu_context_get_user_sp_def Let_def)
qed

theorem signal_delivery_roundtrip_witness:
  "\<exists>k1 k3 x3. signal_handle sample_denv 20 signalled_kernel = Some (Inr (), k1) \<and>
     sys_sigreturn (k1\<lparr>current_thread := Some 20\<rparr>) = Some (Some 0x1FC0, k3) \<and> k_mem k3 0x1FF8 = 0x8000 \<and>
     procs k3 8 = Some x3 \<and> sig_mask (pr_signals x3) = 0 \<and> handled_stack (pr_signals x3) = []"
proof -
  obtain k1 where k1: "signal_handle sample_denv 20 signalled_kernel = Some (Inr (), k1)"
    using signalled_handle ..
  have ret: "handler_returns 20 k1 (k1\<lparr>current_thread := Some 20\<rparr>)"
    by (rule signal_handle_installs [OF signalled_pending k1])
      (auto simp: handler_returns_def same_from_def)
  have tp: "kstack_sp signalled_kernel 20 + kstack_size signalled_kernel 20 = 0x2000"
    by (simp add: signalled_kernel_def)
  have "\<exists>c k3 x3. sys_sigreturn (k1\<lparr>current_thread := Some 20\<rparr>) = Some (Some c, k3) \<and>
    resumes sample_denv sample_action True 0x1FC0 0x2000 (k_mem signalled_kernel) c (k_mem k3) \<and>
    procs k3 (th_process user_thread) = Some x3 \<and> sig_mask (pr_signals x3) = sig_mask (pr_signals signalled_process) \<and>
    handled_stack (pr_signals x3) = handled_stack (pr_signals signalled_process)"
    using signal_delivery_roundtrip [OF signalled_pending k1 ret signalled_user(2) tp] signalled_user(1) by simp
  then obtain c k3 x3 where res: "sys_sigreturn (k1\<lparr>current_thread := Some 20\<rparr>) = Some (Some c, k3)"
    "resumes sample_denv sample_action True 0x1FC0 0x2000 (k_mem signalled_kernel) c (k_mem k3)" "procs k3 (th_process user_thread) = Some x3"
    "sig_mask (pr_signals x3) = sig_mask (pr_signals signalled_process)"
    "handled_stack (pr_signals x3) = handled_stack (pr_signals signalled_process)"
    by blast
  then have "c = 0x1FC0" "k_mem k3 0x1FF8 = k_mem signalled_kernel 0x1FF8"
    by (auto simp: resumes_def same_from_def)
  with res k1 show ?thesis
    by (auto simp: user_thread_def signalled_process_def signal_init_def signalled_kernel_def)
qed

end
