(* ===== verification/Fs_Ramfs.thy ===== *)
theory Fs_Ramfs
  imports Fs_File
begin

text \<open>
  The file system in memory: \<^verbatim>\<open>fs/ramfs/ramfs.c\<close>.

  The archive is the list of bytes at the address \<^verbatim>\<open>data\<close> of the superblock.  A header is its offset there,
  a 32-bit value that wraps like the pointer arithmetic of the code; reading outside the archive is
  \<open>None\<close>.  A pointer to a field is the rest of the archive from that field on.  Inodes carry the header
  they were made from; the header of the root is \<open>None\<close>, the null pointer.
\<close>

section \<open>The model\<close>

subsection \<open>UStar headers\<close>

type_synonym archive = "byte list"
type_synonym header = "32 word"

abbreviation BLOCK_SIZE :: "32 word" where
  "BLOCK_SIZE \<equiv> 512"

definition TMAGIC :: "byte list" where
  "TMAGIC = [117, 115, 116, 97, 114, 0]"

text \<open>A field is given by its offset in the header and its size.\<close>

datatype ustar_field = F_name | F_size | F_typeflag | F_linkname | F_magic | F_devmajor | F_devminor | F_prefix

fun field_offset :: "ustar_field \<Rightarrow> nat" where
  "field_offset F_name = 0"
| "field_offset F_size = 124"
| "field_offset F_typeflag = 156"
| "field_offset F_linkname = 157"
| "field_offset F_magic = 257"
| "field_offset F_devmajor = 329"
| "field_offset F_devminor = 337"
| "field_offset F_prefix = 345"

fun field_size :: "ustar_field \<Rightarrow> nat" where
  "field_size F_name = 100"
| "field_size F_size = 12"
| "field_size F_typeflag = 1"
| "field_size F_linkname = 100"
| "field_size F_magic = 6"
| "field_size F_devmajor = 8"
| "field_size F_devminor = 8"
| "field_size F_prefix = 155"

definition ustar_header :: "archive \<Rightarrow> header \<Rightarrow> ustar_field \<Rightarrow> byte list" where
  "ustar_header ar h f = drop (unat h + field_offset f) ar"

text \<open>The result \<open>None\<close> is the value \<open>-1\<close> of an unsupported type.\<close>

definition ustar2vfs_type :: "byte \<Rightarrow> vfs_node_type option" where
  "ustar2vfs_type ty =
     (if ty = 48 \<or> ty = 0 then Some REGULAR
      else if ty = 50 then Some SYMLINK
      else if ty = 51 then Some CHARDEV
      else if ty = 52 then Some BLOCKDEV
      else if ty = 53 then Some DIRECTORY
      else if ty = 54 then Some FIFO
      else None)"

definition name_field_len :: "byte list \<Rightarrow> nat \<Rightarrow> nat option" where
  "name_field_len name sz = do {
     c \<leftarrow> read_at name (sz - 1);
     if c = 0 then strlen name else Some sz }"

definition ustar_header_prefix_len :: "archive \<Rightarrow> header \<Rightarrow> nat option" where
  "ustar_header_prefix_len ar h = name_field_len (ustar_header ar h F_prefix) (field_size F_prefix)"

definition ustar_header_name_len :: "archive \<Rightarrow> header \<Rightarrow> nat option" where
  "ustar_header_name_len ar h = name_field_len (ustar_header ar h F_name) (field_size F_name)"

definition ustar_header_linkname_len :: "archive \<Rightarrow> header \<Rightarrow> nat option" where
  "ustar_header_linkname_len ar h = name_field_len (ustar_header ar h F_linkname) (field_size F_linkname)"

text \<open>An octal number of the header, as the \<^verbatim>\<open>size_t\<close> it is stored in.\<close>

definition field_number :: "archive \<Rightarrow> header \<Rightarrow> ustar_field \<Rightarrow> 32 word option" where
  "field_number ar h f = do {
     (n, _) \<leftarrow> strntol (ustar_header ar h f) (field_size f) 8;
     Some (word_of_int n) }"

definition ustar_header_get_next_header :: "archive \<Rightarrow> header \<Rightarrow> header option" where
  "ustar_header_get_next_header ar h = do {
     file_size \<leftarrow> field_number ar h F_size;
     Some (h + BLOCK_SIZE + align_up file_size BLOCK_SIZE) }"

definition ustar_header_valid :: "archive \<Rightarrow> header \<Rightarrow> bool option" where
  "ustar_header_valid ar h = do {
     r \<leftarrow> memcmp (ustar_header ar h F_magic) TMAGIC (field_size F_magic);
     Some (r = 0) }"

abbreviation USTAR_FULLNAME_MAX_LEN :: nat where
  "USTAR_FULLNAME_MAX_LEN \<equiv> field_size F_prefix + field_size F_name"

definition ustar_header_fullname_len :: "archive \<Rightarrow> header option \<Rightarrow> (nat \<times> nat) option" where
  "ustar_header_fullname_len ar h =
     (case h of
        None \<Rightarrow> Some (0, 0)
      | Some h \<Rightarrow> do {
          prefix_len \<leftarrow> ustar_header_prefix_len ar h;
          name_len \<leftarrow> ustar_header_name_len ar h;
          Some (prefix_len, name_len) })"

definition ustar_header_fullname_init ::
  "archive \<Rightarrow> pstore \<Rightarrow> byte list \<Rightarrow> nat \<Rightarrow> header option \<Rightarrow> vpath option \<Rightarrow> byte list result option" where
  "ustar_header_fullname_init ar st fullname fullname_len h app = do {
     (prefix_len, name_len) \<leftarrow> ustar_header_fullname_len ar h;
     let append_len = (case app of None \<Rightarrow> 0 | Some p \<Rightarrow> unat (vfs_path_get_size p));
     let full_len = prefix_len + name_len + append_len + 2;
     fullname \<leftarrow> memset fullname 0 fullname_len;
     if fullname_len \<ge> full_len then do {
       fullname \<leftarrow> (case h of
           None \<Rightarrow> Some fullname
         | Some h \<Rightarrow> do {
             fullname \<leftarrow> strncpy fullname (ustar_header ar h F_prefix) prefix_len;
             strncat fullname (ustar_header ar h F_name) name_len });
       fullname \<leftarrow> (case app of
           None \<Rightarrow> Some fullname
         | Some p \<Rightarrow> do {
             fullname \<leftarrow> strncat fullname [47, 0] 1;
             str \<leftarrow> vfs_path_get_str st p;
             strncat fullname str append_len });
       Some (Inr fullname)
     } else Some (Inl ERANGE) }"

text \<open>\<open>alloc\<close> gives the contents of the block that \<^verbatim>\<open>kmalloc\<close> returns, or \<open>None\<close> when it fails.\<close>

definition ustar_header_fullname_create ::
  "(nat \<Rightarrow> byte list option) \<Rightarrow> archive \<Rightarrow> pstore \<Rightarrow> header option \<Rightarrow> vpath option \<Rightarrow> byte list result option" where
  "ustar_header_fullname_create alloc ar st h app = do {
     (prefix_len, name_len) \<leftarrow> ustar_header_fullname_len ar h;
     let append_len = (case app of None \<Rightarrow> 0 | Some p \<Rightarrow> unat (vfs_path_get_size p) + 1);
     let full_len = prefix_len + name_len + append_len + 1;
     case alloc full_len of
       None \<Rightarrow> Some (Inl ENOMEM)
     | Some fullname \<Rightarrow> ustar_header_fullname_init ar st fullname full_len h app }"

text \<open>\<open>new\<close>, \<open>m1\<close> and \<open>m2\<close>: the string of the path, as in \<^const>\<open>vfs_path_init\<close>.\<close>

definition ustar_header_fullname_init_path_init ::
  "nat \<Rightarrow> bool \<Rightarrow> bool \<Rightarrow> archive \<Rightarrow> byte list \<Rightarrow> nat \<Rightarrow> header option \<Rightarrow> vpath option \<Rightarrow> pstore
     \<Rightarrow> ((vpath \<times> byte list) result \<times> pstore) option" where
  "ustar_header_fullname_init_path_init new m1 m2 ar fullname fullname_len h app st = do {
     r \<leftarrow> ustar_header_fullname_init ar st fullname fullname_len h app;
     case r of
       Inl e \<Rightarrow> Some (Inl e, st)
     | Inr fullname \<Rightarrow> do {
         len \<leftarrow> strlen fullname;
         (r, st) \<leftarrow> vfs_path_init new m1 m2 fullname (of_nat len) st;
         Some (map_sum id (\<lambda>p. (p, fullname)) r, st) } }"

definition ustar_header_is_device :: "archive \<Rightarrow> header \<Rightarrow> bool option" where
  "ustar_header_is_device ar h = do {
     ty \<leftarrow> read_at (ustar_header ar h F_typeflag) 0;
     Some (ty = 51 \<or> ty = 52) }"

subsection \<open>Inodes\<close>

text \<open>
  The inode of ramfs with the fields of the enclosed inode that ramfs sets: its type, its size and its
  device numbers.  The data of a file is an offset in the archive.
\<close>

record ramfs_inode_info =
  ri_header :: "header option"
  ri_data :: "32 word"
  ri_data_size :: "32 word"
  ri_type :: vfs_node_type
  ri_size :: int
  ri_dev :: "int \<times> int"

definition ramfs_inode_info_create :: "bool \<Rightarrow> archive \<Rightarrow> header option \<Rightarrow> ramfs_inode_info result option" where
  "ramfs_inode_info_create m ar h =
     (if \<not> m then Some (Inl ENOMEM)
      else do {
        (data, data_size) \<leftarrow> (case h of
            None \<Rightarrow> Some (0, 0)
          | Some h \<Rightarrow> do { n \<leftarrow> field_number ar h F_size; Some (h + BLOCK_SIZE, n) });
        Some (Inr \<lparr>ri_header = h, ri_data = data, ri_data_size = data_size, ri_type = DIRECTORY,
                   ri_size = 0, ri_dev = (0, 0)\<rparr>) })"

definition inode_read_dev :: "archive \<Rightarrow> header \<Rightarrow> ramfs_inode_info \<Rightarrow> ramfs_inode_info option" where
  "inode_read_dev ar h x = do {
     (major, _) \<leftarrow> strntol (ustar_header ar h F_devmajor) (field_size F_devmajor) 8;
     (minor, _) \<leftarrow> strntol (ustar_header ar h F_devminor) (field_size F_devminor) 8;
     Some (x\<lparr>ri_dev := (major, minor)\<rparr>) }"

text \<open>The enclosed inode is initialised again, with the type of the header.\<close>

definition ramfs_read_inode :: "archive \<Rightarrow> ramfs_inode_info \<Rightarrow> (unit result \<times> ramfs_inode_info) option" where
  "ramfs_read_inode ar x = do {
     h \<leftarrow> ri_header x;
     ty \<leftarrow> read_at (ustar_header ar h F_typeflag) 0;
     case ustar2vfs_type ty of
       None \<Rightarrow> Some (Inl EINVAL, x)
     | Some enum_type \<Rightarrow> do {
         (sz, _) \<leftarrow> strntol (ustar_header ar h F_size) (field_size F_size) 8;
         let x = x\<lparr>ri_type := enum_type, ri_size := sz, ri_dev := (0, 0)\<rparr>;
         dev \<leftarrow> ustar_header_is_device ar h;
         x \<leftarrow> (if dev then inode_read_dev ar h x else Some x);
         Some (Inr (), x) } }"

subsection \<open>Lookup\<close>

text \<open>
  The outcomes of the allocations of a lookup: the buffers of the two names, the strings of the paths (0 is
  the path looked up, \<open>Suc i\<close> that of the \<open>i\<close>-th header compared), and the inode.
\<close>

record ramfs_env =
  ra_full :: "nat \<Rightarrow> byte list option"
  ra_cur :: "nat \<Rightarrow> byte list option"
  ra_str :: "nat \<Rightarrow> nat"
  ra_m1 :: "nat \<Rightarrow> bool"
  ra_m2 :: "nat \<Rightarrow> bool"
  ra_inode :: bool

text \<open>
  The loop over the headers.  The comparison of two paths needs no more steps than the path has bytes.
\<close>

fun lookup_loop ::
  "nat \<Rightarrow> ramfs_env \<Rightarrow> archive \<Rightarrow> nat \<Rightarrow> vpath \<Rightarrow> byte list \<Rightarrow> header \<Rightarrow> pstore \<Rightarrow> (header option result \<times> pstore) option" where
  "lookup_loop 0 env ar i fullname buf fh st = None"
| "lookup_loop (Suc fuel) env ar i fullname buf fh st = do {
     valid \<leftarrow> ustar_header_valid ar fh;
     if \<not> valid then Some (Inr None, st)
     else do {
       (r, st) \<leftarrow> ustar_header_fullname_init_path_init (ra_str env (Suc i)) (ra_m1 env (Suc i)) (ra_m2 env (Suc i))
                    ar buf (USTAR_FULLNAME_MAX_LEN + 1) (Some fh) None st;
       case r of
         Inl e \<Rightarrow> Some (Inl e, st)
       | Inr (fullname_cur, buf) \<Rightarrow> do {
           (found, st) \<leftarrow> vfs_path_same (Suc (unat (p_size fullname))) fullname fullname_cur st;
           if found then do {
             (_, st) \<leftarrow> vfs_path_reset fullname_cur st;
             Some (Inr (Some fh), st)
           } else do {
             fh \<leftarrow> ustar_header_get_next_header ar fh;
             (_, st) \<leftarrow> vfs_path_reset fullname_cur st;
             lookup_loop fuel env ar (Suc i) fullname buf fh st } } } }"

definition lookup_fullname ::
  "nat \<Rightarrow> ramfs_env \<Rightarrow> archive \<Rightarrow> header \<Rightarrow> vpath \<Rightarrow> pstore \<Rightarrow> (ramfs_inode_info result \<times> pstore) option" where
  "lookup_fullname fuel env ar fh fullname st =
     (case ra_cur env (USTAR_FULLNAME_MAX_LEN + 1) of
        None \<Rightarrow> Some (Inl ENOMEM, st)
      | Some buf \<Rightarrow> do {
          (r, st) \<leftarrow> lookup_loop fuel env ar 0 fullname buf fh st;
          case r of
            Inl e \<Rightarrow> Some (Inl e, st)
          | Inr None \<Rightarrow> Some (Inl ENOENT, st)
          | Inr (Some fh) \<Rightarrow> do {
              x \<leftarrow> ramfs_inode_info_create (ra_inode env) ar (Some fh);
              Some (x, st) } })"

definition ramfs_lookup ::
  "nat \<Rightarrow> ramfs_env \<Rightarrow> archive \<Rightarrow> ramfs_inode_info \<Rightarrow> vpath \<Rightarrow> pstore \<Rightarrow> (ramfs_inode_info result \<times> pstore) option" where
  "ramfs_lookup fuel env ar this name st = do {
     let h = ri_header this;
     r \<leftarrow> ustar_header_fullname_create (ra_full env) ar st h (Some name);
     case r of
       Inl e \<Rightarrow> Some (Inl e, st)
     | Inr this_fullname_str \<Rightarrow> do {
         len \<leftarrow> strlen this_fullname_str;
         (r, st) \<leftarrow> vfs_path_init (ra_str env 0) (ra_m1 env 0) (ra_m2 env 0) this_fullname_str (of_nat len) st;
         case r of
           Inl e \<Rightarrow> Some (Inl e, st)
         | Inr this_fullname \<Rightarrow> do {
             nxt \<leftarrow> (case h of None \<Rightarrow> Some 0 | Some h \<Rightarrow> ustar_header_get_next_header ar h);
             (r, st) \<leftarrow> lookup_fullname fuel env ar nxt this_fullname st;
             (_, st) \<leftarrow> vfs_path_reset this_fullname st;
             Some (r, st) } } }"

definition ramfs_readlink ::
  "nat \<Rightarrow> bool \<Rightarrow> bool \<Rightarrow> bool \<Rightarrow> archive \<Rightarrow> ramfs_inode_info \<Rightarrow> pstore \<Rightarrow> (vpath result \<times> pstore) option" where
  "ramfs_readlink new m0 m1 m2 ar this st = do {
     h \<leftarrow> ri_header this;
     len \<leftarrow> ustar_header_linkname_len ar h;
     vfs_path_create new m0 m1 m2 (ustar_header ar h F_linkname) (of_nat len) st }"

subsection \<open>Files\<close>

text \<open>The position is a signed 32-bit value.  The additions that C leaves undefined are \<open>None\<close>.\<close>

definition ramfs_lseek :: "ramfs_inode_info \<Rightarrow> vfs_file \<Rightarrow> int \<Rightarrow> int \<Rightarrow> (int result \<times> vfs_file) option" where
  "ramfs_lseek x this offset whence =
     (if whence = 1 then
        (let new = f_cur this + offset
         in if new < - (2 ^ 31) \<or> new \<ge> 2 ^ 31 then None
            else if new < f_cur this then Some (Inl EINVAL, this)
            else Some (Inr new, this\<lparr>f_cur := new\<rparr>))
      else if whence = 0 then Some (Inr offset, this\<lparr>f_cur := offset\<rparr>)
      else if whence = 2 then
        (let new = ri_data_size x - word_of_int offset - 1
         in if new > ri_data_size x then Some (Inl EOVERFLOW, this)
            else Some (Inr (sint new), this\<lparr>f_cur := sint new\<rparr>))
      else Some (Inl EINVAL, this))"

text \<open>The bytes copied to \<^verbatim>\<open>buf\<close> are part of the result.\<close>

definition ramfs_read ::
  "archive \<Rightarrow> ramfs_inode_info \<Rightarrow> vfs_file \<Rightarrow> size_t \<Rightarrow> (byte list result \<times> vfs_file) option" where
  "ramfs_read ar x this count =
     (if ri_type x = DIRECTORY then Some (Inl EISDIR, this)
      else (let cur = word_of_int (f_cur this);
                left = ri_data_size x - cur;
                count = (if count > left then left else count);
                src = unat (ri_data x + cur)
            in if src + unat count \<le> length ar
               then Some (Inr (take (unat count) (drop src ar)), this\<lparr>f_cur := sint (cur + count)\<rparr>)
               else None))"

definition ramfs_write :: "vfs_file \<Rightarrow> byte list \<Rightarrow> nat result \<times> vfs_file" where
  "ramfs_write this buf = (Inl EROFS, this)"

section \<open>Names\<close>

subsection \<open>Bounded copies of strings\<close>

lemma cstr_take: "cstr (take n s) = take n (cstr s)"
proof (induction s arbitrary: n)
  case (Cons c s)
  then show ?case by (cases n) auto
qed simp

lemma cstr_id [simp]: "0 \<notin> set s \<Longrightarrow> cstr s = s"
  by (simp add: cstr_def takeWhile_eq_all_conv) metis

lemma strncpy_bounded:
  "\<lbrakk> n < length src; n \<le> length dest \<rbrakk> \<Longrightarrow>
     strncpy dest src n = Some (cstr (take n src) @ replicate (n - length (cstr (take n src))) 0 @ drop n dest)"
proof (induction src arbitrary: dest n)
  case (Cons c src)
  show ?case
  proof (cases "c \<noteq> 0 \<and> n > 0")
    case True
    then obtain d dest' m where "dest = d # dest'" "n = Suc m"
      using Cons.prems(2) by (cases dest; cases n) auto
    then show ?thesis using Cons True by simp
  next
    case False
    then show ?thesis using Cons.prems(2) by (cases n) (auto simp: memset_eq)
  qed
qed simp

lemma strncat_loop_eq:
  "\<lbrakk> n \<le> length app; length (cstr (take n app)) < length str \<rbrakk> \<Longrightarrow>
     strncat_loop str app n = Some (cstr (take n app) @ 0 # drop (Suc (length (cstr (take n app)))) str)"
proof (induction str app n rule: strncat_loop.induct)
  case (2 d str app n)
  then show ?case by (cases app; cases n) auto
qed simp

lemma strncat_eq:
  assumes "terminated str" "n \<le> length app" "length (cstr str) + length (cstr (take n app)) < length str"
  shows "\<exists>r. strncat str app n = Some r \<and> cstr r = cstr str @ cstr (take n app) \<and> length r = length str \<and> terminated r"
proof -
  let ?a = "cstr (take n app)"
  have "strncat_loop (drop (length (cstr str)) str) app n
      = Some (?a @ 0 # drop (Suc (length ?a)) (drop (length (cstr str)) str))"
    using assms by (intro strncat_loop_eq) auto
  moreover have "cstr ((cstr str @ ?a) @ 0 # t) = cstr str @ ?a" for t
    by (rule cstr_append_nul) (simp add: cstr_nonzero)
  ultimately show ?thesis
    using assms by (auto simp: strncat_def strlen_eq)
qed

lemma name_field_len_spec:
  assumes "0 < sz" "sz \<le> length s"
  obtains n where "name_field_len s sz = Some n" "n \<le> sz" "cstr (take n s) = cstr (take sz s)"
    "s ! (sz - 1) = 0 \<Longrightarrow> n < sz"
proof (cases "s ! (sz - 1) = 0")
  case True
  have "0 \<in> set (take sz s)"
    using assms True by (metis One_nat_def Suc_pred' in_set_conv_nth length_take lessI min.absorb2 nth_take)
  then have "length (cstr (take sz s)) < sz"
    using length_cstr_less [of "take sz s"] assms by simp
  then have "length (cstr s) < sz"
    by (simp add: cstr_take)
  moreover from this have "cstr (take (length (cstr s)) s) = cstr (take sz s)"
    by (simp add: cstr_take [of sz] cstr_nonzero)
  moreover have "terminated s"
    using True assms by (metis One_nat_def Suc_pred' lessI nth_mem order_less_le_trans)
  ultimately show ?thesis
    using True assms by (intro that [of "length (cstr s)"]) (simp_all add: name_field_len_def strlen_eq)
qed (use assms in \<open>auto intro!: that [of sz] simp: name_field_len_def\<close>)

subsection \<open>The full name of a header\<close>

definition field_bytes :: "archive \<Rightarrow> header \<Rightarrow> ustar_field \<Rightarrow> byte list" where
  "field_bytes ar h f = take (field_size f) (ustar_header ar h f)"

definition header_fullname :: "archive \<Rightarrow> header \<Rightarrow> byte list" where
  "header_fullname ar h = cstr (field_bytes ar h F_prefix) @ cstr (field_bytes ar h F_name)"

abbreviation header_in :: "archive \<Rightarrow> header \<Rightarrow> bool" where
  "header_in ar h \<equiv> unat h + 512 \<le> length ar"

text \<open>The full name of an optional header, and what is looked up below it.\<close>

definition dir_name :: "archive \<Rightarrow> header option \<Rightarrow> byte list" where
  "dir_name ar h = (case h of None \<Rightarrow> [] | Some h \<Rightarrow> header_fullname ar h)"

lemma length_field:
  "header_in ar h \<Longrightarrow> field_size f < length (ustar_header ar h f)"
  by (cases f) (simp_all add: ustar_header_def)

lemma fullname_len_spec:
  assumes "header_in ar h"
  obtains p n where "ustar_header_fullname_len ar (Some h) = Some (p, n)" "p \<le> 155" "n \<le> 100"
    "cstr (take p (ustar_header ar h F_prefix)) = cstr (field_bytes ar h F_prefix)"
    "cstr (take n (ustar_header ar h F_name)) = cstr (field_bytes ar h F_name)"
    "field_bytes ar h F_prefix ! 154 = 0 \<or> field_bytes ar h F_name ! 99 = 0 \<Longrightarrow> p + n < 255"
proof -
  note len = length_field [OF assms, of F_prefix] length_field [OF assms, of F_name]
  obtain p where p: "name_field_len (ustar_header ar h F_prefix) 155 = Some p" "p \<le> 155"
    "cstr (take p (ustar_header ar h F_prefix)) = cstr (field_bytes ar h F_prefix)"
    "ustar_header ar h F_prefix ! 154 = 0 \<Longrightarrow> p < 155"
    using len by (auto intro: name_field_len_spec [of 155 "ustar_header ar h F_prefix"] simp: field_bytes_def)
  obtain n where n: "name_field_len (ustar_header ar h F_name) 100 = Some n" "n \<le> 100"
    "cstr (take n (ustar_header ar h F_name)) = cstr (field_bytes ar h F_name)"
    "ustar_header ar h F_name ! 99 = 0 \<Longrightarrow> n < 100"
    using len by (auto intro: name_field_len_spec [of 100 "ustar_header ar h F_name"] simp: field_bytes_def)
  show ?thesis
    by (rule that [of p n])
      (use p n in \<open>auto simp: ustar_header_fullname_len_def ustar_header_prefix_len_def ustar_header_name_len_def field_bytes_def\<close>)
qed

text \<open>The buffer holds a C string of its own.\<close>

definition holds :: "byte list \<Rightarrow> nat \<Rightarrow> byte list \<Rightarrow> bool" where
  "holds buf n s \<longleftrightarrow> cstr buf = s \<and> length buf = n \<and> terminated buf"

lemma holdsI: "\<lbrakk> buf = s @ 0 # t; length buf = n; 0 \<notin> set s \<rbrakk> \<Longrightarrow> holds buf n s"
  by (simp add: holds_def cstr_append_nul)

lemma holds_strncat:
  assumes "holds buf m s" "n \<le> length app" "length s + length (cstr (take n app)) < m"
  shows "\<exists>r. strncat buf app n = Some r \<and> holds r m (s @ cstr (take n app))"
  using strncat_eq [of buf n app] assms by (auto simp: holds_def)

lemma holds_header:
  assumes h: "header_in ar h" and len: "ustar_header_fullname_len ar (Some h) = Some (p, n)" and sz: "p + n + 2 \<le> sz"
    and buf: "sz \<le> length buf"
  shows "\<exists>r. Option.bind (strncpy (replicate sz 0 @ drop sz buf) (ustar_header ar h F_prefix) p)
               (\<lambda>f. strncat f (ustar_header ar h F_name) n) = Some r \<and> holds r (length buf) (header_fullname ar h)"
proof -
  obtain p' n' where "ustar_header_fullname_len ar (Some h) = Some (p', n')" "p' \<le> 155" "n' \<le> 100"
    "cstr (take p' (ustar_header ar h F_prefix)) = cstr (field_bytes ar h F_prefix)"
    "cstr (take n' (ustar_header ar h F_name)) = cstr (field_bytes ar h F_name)"
    using fullname_len_spec [OF h] by metis
  then have pn: "p \<le> 155" "n \<le> 100" and P: "cstr (take p (ustar_header ar h F_prefix)) = cstr (field_bytes ar h F_prefix)"
    and N: "cstr (take n (ustar_header ar h F_name)) = cstr (field_bytes ar h F_name)"
    using len by simp_all
  let ?P = "cstr (field_bytes ar h F_prefix)" and ?b = "replicate sz 0 @ drop sz buf"
  let ?f = "?P @ replicate (p - length ?P) 0 @ drop p ?b"
  have le: "length ?P \<le> p"
    using P by (metis cstr_take length_take min.cobounded1 min.commute)
  have 1: "strncpy ?b (ustar_header ar h F_prefix) p = Some ?f"
    using strncpy_bounded [of p "ustar_header ar h F_prefix" ?b] length_field [OF h, of F_prefix] pn sz buf P by simp
  have "length ?f = length buf"
    using le sz buf by simp
  moreover obtain t where t: "replicate (p - length ?P) 0 @ drop p ?b = 0 # t"
    using sz by (cases "p - length ?P"; cases "sz - p") auto
  ultimately have 2: "holds ?f (length buf) ?P"
    by (intro holdsI [where t = t] cstr_nonzero) (simp_all only: t)
  have "length (cstr (take n (ustar_header ar h F_name))) \<le> n"
    by (simp add: cstr_take)
  then show ?thesis
    using holds_strncat [OF 2, of n "ustar_header ar h F_name"] 1 N length_field [OF h, of F_name] pn le sz buf
    by (simp add: header_fullname_def)
qed

definition app_len :: "vpath option \<Rightarrow> nat" where
  "app_len app = (case app of None \<Rightarrow> 0 | Some q \<Rightarrow> unat (p_size q))"

definition app_bytes :: "pstore \<Rightarrow> vpath option \<Rightarrow> byte list" where
  "app_bytes st app = (case app of None \<Rightarrow> [] | Some q \<Rightarrow> 47 # path_bytes st q)"

lemma length_header_fullname:
  assumes "header_in ar h" "ustar_header_fullname_len ar (Some h) = Some (p, n)"
  shows "length (header_fullname ar h) \<le> p + n"
proof -
  obtain p' n' where pn: "ustar_header_fullname_len ar (Some h) = Some (p', n')"
    "cstr (take p' (ustar_header ar h F_prefix)) = cstr (field_bytes ar h F_prefix)"
    "cstr (take n' (ustar_header ar h F_name)) = cstr (field_bytes ar h F_name)"
    using fullname_len_spec [OF assms(1)] by metis
  have "length (cstr (take k s)) \<le> k" for k s
    by (simp add: cstr_take)
  from this [of p' "ustar_header ar h F_prefix"] this [of n' "ustar_header ar h F_name"]
  show ?thesis
    using pn assms(2) by (simp add: header_fullname_def)
qed

lemma fullname_init_spec:
  assumes h: "\<forall>x. h = Some x \<longrightarrow> header_in ar x" and len: "ustar_header_fullname_len ar h = Some (p, n)"
    and sz: "p + n + app_len app + 2 \<le> sz" "sz \<le> length buf"
    and app: "\<forall>q. app = Some q \<longrightarrow> path_wf st q \<and> 0 \<notin> set (path_bytes st q)"
  shows "\<exists>r. ustar_header_fullname_init ar st buf sz h app = Some (Inr r)
           \<and> holds r (length buf) (dir_name ar h @ app_bytes st app)"
proof -
  let ?b = "replicate sz 0 @ drop sz buf"
  let ?head = "case h of None \<Rightarrow> Some ?b
     | Some h \<Rightarrow> Option.bind (strncpy ?b (ustar_header ar h F_prefix) p) (\<lambda>f. strncat f (ustar_header ar h F_name) n)"
  have "holds ?b (length buf) []"
    using sz by (cases sz) (auto simp: holds_def)
  then obtain f where f: "?head = Some f" "holds f (length buf) (dir_name ar h)"
    using holds_header [where ar = ar and p = p and n = n and sz = sz and buf = buf] h len sz by (cases h) (auto simp: dir_name_def)
  have ln: "length (dir_name ar h) \<le> p + n"
    using length_header_fullname h len by (cases h) (auto simp: dir_name_def)
  let ?tail = "\<lambda>f. case app of None \<Rightarrow> Some f
     | Some q \<Rightarrow> Option.bind (strncat f [47, 0] 1) (\<lambda>f. Option.bind (vfs_path_get_str st q) (\<lambda>s. strncat f s (app_len app)))"
  obtain r where r: "?tail f = Some r" "holds r (length buf) (dir_name ar h @ app_bytes st app)"
  proof (cases app)
    case (Some q)
    then have q: "path_wf st q" "0 \<notin> set (path_bytes st q)" using app by simp_all
    obtain g where g: "strncat f [47, 0] 1 = Some g" "holds g (length buf) (dir_name ar h @ [47])"
      using holds_strncat [OF f(2), of 1 "[47, 0]"] ln sz by auto
    note s = get_str_wf [OF q(1)] length_path_bytes [OF q(1)]
    have "cstr (take (app_len app) (path_bytes st q @ rest_bytes st q)) = path_bytes st q"
      using q(2) s Some by (simp add: app_len_def)
    then show thesis
      using that holds_strncat [OF g(2), of "app_len app" "path_bytes st q @ rest_bytes st q"] g(1) s Some ln sz
      by (auto simp: app_len_def app_bytes_def)
  qed (use f that in \<open>simp add: app_bytes_def\<close>)
  have "ustar_header_fullname_init ar st buf sz h app
      = Option.bind ?head (\<lambda>f. Option.bind (?tail f) (\<lambda>f. Some (Inr f)))"
    using sz unfolding ustar_header_fullname_init_def vfs_path_get_size_def app_len_def [symmetric] Let_def len memset_eq [OF sz(2)]
    by (simp only: bind.bind_lunit prod.case if_True)
  then show ?thesis
    using f(1) r by simp
qed

section \<open>Looking up a name\<close>

text \<open>The path made from a buffer, and the store with its string.\<close>

definition new_path :: "nat \<Rightarrow> byte list \<Rightarrow> vpath" where
  "new_path b s = \<lparr>base_str = b, p_offset = 0, p_size = of_nat (length s)\<rparr>"

definition with_string :: "nat \<Rightarrow> byte list \<Rightarrow> pstore \<Rightarrow> pstore" where
  "with_string b s st = st(b \<mapsto> \<lparr>ps_str = s, ps_size = of_nat (length s), ps_refcnt = 1\<rparr>)"

lemma new_path_init:
  assumes "holds buf m s" "length s \<le> VFS_PATH_MAX_LEN"
  shows "strlen buf = Some (length s)"
    and "vfs_path_init b True True buf (of_nat (length s)) st = Some (Inr (new_path b s), with_string b s st)"
proof -
  have c: "terminated buf" "cstr buf = s" using assms(1) by (simp_all add: holds_def)
  then show "strlen buf = Some (length s)" by (simp add: strlen_eq)
  have u: "unat (of_nat (length s) :: 16 word) = length s"
    using assms(2) by (intro unat_16_of_nat) simp
  then have "strncpy (replicate (length s) 0) buf (length s) = Some s"
    using strncpy_eq [OF c(1), of "length s" "replicate (length s) 0"] c(2) by simp
  then show "vfs_path_init b True True buf (of_nat (length s)) st = Some (Inr (new_path b s), with_string b s st)"
    using assms(2) u
    by (simp add: vfs_path_init_def vfs_path_string_create_def copy_path_str_def new_path_def with_string_def refcount_init_def)
qed

lemma new_path_wf:
  assumes "b \<noteq> 0" "length s \<le> VFS_PATH_MAX_LEN"
  shows "path_wf (with_string b s st) (new_path b s)" "path_bytes (with_string b s st) (new_path b s) = s"
    "rest_bytes (with_string b s st) (new_path b s) = []" "base_bytes (with_string b s st) (new_path b s) = s"
proof -
  have "unat (of_nat (length s) :: 16 word) = length s"
    using assms(2) by (intro unat_16_of_nat) simp
  then show "path_wf (with_string b s st) (new_path b s)" "path_bytes (with_string b s st) (new_path b s) = s"
    "rest_bytes (with_string b s st) (new_path b s) = []" "base_bytes (with_string b s st) (new_path b s) = s"
    using assms(1)
    by (simp_all add: path_wf_def path_bytes_def rest_bytes_def base_bytes_def with_string_def new_path_def)
qed

lemma new_path_reset:
  "\<lbrakk> b \<noteq> 0; st b = None \<rbrakk> \<Longrightarrow> vfs_path_reset (new_path b s) (with_string b s st) = Some (null_path, st)"
  by (simp add: vfs_path_reset_def vfs_path_string_destroy_def refcount_dec_def new_path_def with_string_def fun_upd_idem)

lemma with_string_other:
  assumes "base_str q \<noteq> b"
  shows "path_wf (with_string b s st) q = path_wf st q" "path_bytes (with_string b s st) q = path_bytes st q"
    "rest_bytes (with_string b s st) q = rest_bytes st q" "base_bytes (with_string b s st) q = base_bytes st q"
  using assms by (simp_all add: path_wf_def path_bytes_def rest_bytes_def base_bytes_def with_string_def)

lemma live_with_string: "live st \<Longrightarrow> live (with_string b s st)"
  by (auto simp: live_def with_string_def)

text \<open>A path that spans its whole string.\<close>

definition whole_path :: "pstore \<Rightarrow> vpath \<Rightarrow> bool" where
  "whole_path st q \<longleftrightarrow> path_wf st q \<and> no_nul st q \<and> rest_bytes st q = []"

lemma whole_path_same:
  assumes "whole_path st p" "whole_path st q" "live st"
  shows "vfs_path_same (Suc (unat (p_size p))) p q st = Some (comps (path_bytes st p) = comps (path_bytes st q), st)"
proof -
  have "length (comps (path_bytes st p)) < Suc (unat (p_size p))"
    using length_comps [of "path_bytes st p"] length_path_bytes [of st p] assms(1) by (simp add: whole_path_def)
  then show ?thesis
    using assms path_same_spec by (simp add: whole_path_def)
qed

subsection \<open>The headers of an archive\<close>

text \<open>
  \<open>ustar_chain ar fh hs\<close>: the headers from \<open>fh\<close> on are \<open>hs\<close>, up to the first block without the magic
  string.  Every header is inside the archive and its name leaves room in the buffer of 256 bytes.
\<close>

definition header_ok :: "archive \<Rightarrow> header \<Rightarrow> bool" where
  "header_ok ar h \<longleftrightarrow> header_in ar h \<and> (field_bytes ar h F_prefix ! 154 = 0 \<or> field_bytes ar h F_name ! 99 = 0)"

fun ustar_chain :: "archive \<Rightarrow> header \<Rightarrow> header list \<Rightarrow> bool" where
  "ustar_chain ar fh [] \<longleftrightarrow> ustar_header_valid ar fh = Some False"
| "ustar_chain ar fh (h # hs) \<longleftrightarrow> h = fh \<and> ustar_header_valid ar fh = Some True \<and> header_ok ar fh
     \<and> (case ustar_header_get_next_header ar fh of None \<Rightarrow> False | Some fh \<Rightarrow> ustar_chain ar fh hs)"

text \<open>The strings of the headers are allocated at addresses that are not in use.\<close>

definition fresh_env :: "ramfs_env \<Rightarrow> pstore \<Rightarrow> bool" where
  "fresh_env env st \<longleftrightarrow> (\<forall>i. ra_m1 env (Suc i) \<and> ra_m2 env (Suc i) \<and> ra_str env (Suc i) \<noteq> 0 \<and> st (ra_str env (Suc i)) = None)"

lemma header_path:
  assumes "header_ok ar h" "length buf = 256" "b \<noteq> 0"
  shows "\<exists>buf'. ustar_header_fullname_init_path_init b True True ar buf (USTAR_FULLNAME_MAX_LEN + 1) (Some h) None st
           = Some (Inr (new_path b (header_fullname ar h), buf'), with_string b (header_fullname ar h) st)
         \<and> length (header_fullname ar h) \<le> VFS_PATH_MAX_LEN \<and> length buf' = 256"
proof -
  obtain p n where pn: "ustar_header_fullname_len ar (Some h) = Some (p, n)" "p + n < 255"
    using assms(1) fullname_len_spec [of h ar] unfolding header_ok_def by metis
  have le: "length (header_fullname ar h) \<le> VFS_PATH_MAX_LEN"
    using length_header_fullname [of h ar p n] assms(1) pn by (simp add: header_ok_def)
  have "\<exists>r. ustar_header_fullname_init ar st buf 256 (Some h) None = Some (Inr r)
      \<and> holds r 256 (header_fullname ar h)"
    using fullname_init_spec [of "Some h" ar p n None 256 buf st] pn assms
    by (simp add: app_len_def app_bytes_def dir_name_def header_ok_def)
  then obtain r where r: "ustar_header_fullname_init ar st buf 256 (Some h) None = Some (Inr r)"
    "holds r 256 (header_fullname ar h)" by blast
  show ?thesis
    using r new_path_init [OF r(2) le] le by (simp add: ustar_header_fullname_init_path_init_def holds_def)
qed

lemma header_compare:
  assumes "header_ok ar h" "whole_path st q" "live st" "b \<noteq> 0" "st b = None" and le: "length (header_fullname ar h) \<le> VFS_PATH_MAX_LEN"
  defines "s \<equiv> header_fullname ar h"
  shows "vfs_path_same (Suc (unat (p_size q))) q (new_path b s) (with_string b s st)
           = Some (comps s = comps (path_bytes st q), with_string b s st)"
proof -
  have ne: "base_str q \<noteq> b"
    using assms(2,5) by (auto simp: whole_path_def path_wf_def)
  have "0 \<notin> set s"
    by (simp add: s_def header_fullname_def cstr_nonzero)
  then have "whole_path (with_string b s st) (new_path b s)"
    using new_path_wf [OF assms(4), of s st] le by (simp add: whole_path_def s_def)
  moreover have "whole_path (with_string b s st) q"
    using assms(2) with_string_other [OF ne] by (simp add: whole_path_def)
  ultimately show ?thesis
    using whole_path_same [of "with_string b s st" q "new_path b s"] live_with_string [OF assms(3)]
      new_path_wf(2) [OF assms(4), of s st] le with_string_other(2) [OF ne]
    by (auto simp: s_def)
qed

lemma lookup_loop_spec:
  assumes "ustar_chain ar fh hs" "length hs < fuel" "length buf = 256" "whole_path st q" "live st" "fresh_env env st"
  shows "lookup_loop fuel env ar i q buf fh st
           = Some (Inr (find (\<lambda>h. comps (header_fullname ar h) = comps (path_bytes st q)) hs), st)"
  using assms(1-3)
proof (induction hs arbitrary: fuel fh i buf)
  case Nil
  then show ?case by (cases fuel) simp_all
next
  case (Cons h hs)
  then obtain f where f: "fuel = Suc f" by (cases fuel) auto
  let ?b = "ra_str env (Suc i)" and ?s = "header_fullname ar fh"
  obtain nxt where h: "h = fh" "ustar_header_valid ar fh = Some True" "header_ok ar fh"
    "ustar_header_get_next_header ar fh = Some nxt" "ustar_chain ar nxt hs"
    using Cons.prems(1) by (auto split: option.splits)
  have b: "ra_m1 env (Suc i)" "ra_m2 env (Suc i)" "?b \<noteq> 0" "st ?b = None"
    using assms(6) by (simp_all add: fresh_env_def)
  obtain buf' where buf: "ustar_header_fullname_init_path_init ?b True True ar buf (USTAR_FULLNAME_MAX_LEN + 1) (Some fh) None st
      = Some (Inr (new_path ?b ?s, buf'), with_string ?b ?s st)" "length ?s \<le> VFS_PATH_MAX_LEN" "length buf' = 256"
    using header_path [OF h(3) Cons.prems(3) b(3)] by blast
  note cmp = header_compare [OF h(3) assms(4,5) b(3,4) buf(2)]
  show ?case
    using h b buf cmp new_path_reset [of ?b st ?s] Cons.IH [OF h(5) _ buf(3), of f "Suc i"] Cons.prems(2) f
    by simp
qed

subsection \<open>Lookup\<close>

definition new_inode :: "archive \<Rightarrow> header \<Rightarrow> 32 word \<Rightarrow> ramfs_inode_info" where
  "new_inode ar h n = \<lparr>ri_header = Some h, ri_data = h + BLOCK_SIZE, ri_data_size = n, ri_type = DIRECTORY,
                       ri_size = 0, ri_dev = (0, 0)\<rparr>"

text \<open>The headers below an inode: all of them for the root, and those after its own header otherwise.\<close>

definition headers_after :: "archive \<Rightarrow> header option \<Rightarrow> header list \<Rightarrow> bool" where
  "headers_after ar h hs \<longleftrightarrow>
     (case h of
        None \<Rightarrow> ustar_chain ar 0 hs
      | Some h \<Rightarrow> header_in ar h \<and>
          (case ustar_header_get_next_header ar h of None \<Rightarrow> False | Some fh \<Rightarrow> ustar_chain ar fh hs))"

lemma chain_sizes:
  "\<lbrakk> ustar_chain ar fh hs; h \<in> set hs \<rbrakk> \<Longrightarrow> \<exists>n. field_number ar h F_size = Some n"
proof (induction hs arbitrary: fh)
  case (Cons x hs)
  then show ?case
    by (auto simp: ustar_header_get_next_header_def split: option.splits bind_splits)
qed simp

lemma lookup_fullname_spec:
  assumes "ustar_chain ar fh hs" "length hs < fuel" "whole_path st q" "live st" "fresh_env env st"
    and buf: "ra_cur env 256 = Some buf" "length buf = 256" and "ra_inode env"
  shows "\<exists>r. lookup_fullname fuel env ar fh q st = Some (r, st)
           \<and> (case find (\<lambda>h. comps (header_fullname ar h) = comps (path_bytes st q)) hs of
                None \<Rightarrow> r = Inl ENOENT
              | Some h \<Rightarrow> \<exists>n. field_number ar h F_size = Some n \<and> r = Inr (new_inode ar h n))"
proof (cases "find (\<lambda>h. comps (header_fullname ar h) = comps (path_bytes st q)) hs")
  case None
  then show ?thesis
    using lookup_loop_spec [OF assms(1,2) buf(2) assms(3-5)] buf(1) by (simp add: lookup_fullname_def)
next
  case (Some h)
  then have "h \<in> set hs"
    by (auto simp: find_Some_iff)
  then obtain n where "field_number ar h F_size = Some n"
    using chain_sizes [OF assms(1)] by blast
  then show ?thesis
    using Some lookup_loop_spec [OF assms(1,2) buf(2) assms(3-5)] buf(1) assms(8)
    by (simp add: lookup_fullname_def ramfs_inode_info_create_def new_inode_def)
qed

lemma lookup_name:
  assumes "headers_after ar h hs" "path_wf st name" "0 \<notin> set (path_bytes st name)"
    "length (dir_name ar h) + Suc (length (path_bytes st name)) \<le> VFS_PATH_MAX_LEN"
    and alloc: "\<forall>n. \<exists>buf. alloc n = Some buf \<and> length buf = n"
  shows "\<exists>buf m. ustar_header_fullname_create alloc ar st h (Some name) = Some (Inr buf)
           \<and> holds buf m (dir_name ar h @ 47 # path_bytes st name)"
proof -
  have h: "\<forall>x. h = Some x \<longrightarrow> header_in ar x"
    using assms(1) by (auto simp: headers_after_def)
  obtain p n where pn: "ustar_header_fullname_len ar h = Some (p, n)"
  proof (cases h)
    case (Some x)
    then show thesis
      using that h fullname_len_spec [of x ar] by metis
  qed (use that in \<open>simp add: ustar_header_fullname_len_def\<close>)
  let ?sz = "p + n + (unat (vfs_path_get_size name) + 1) + 1"
  obtain buf where buf: "alloc ?sz = Some buf" "length buf = ?sz"
    using alloc by blast
  then show ?thesis
    using fullname_init_spec [OF h pn, of "Some name" ?sz buf st] assms(2,3) pn
    by (auto simp: ustar_header_fullname_create_def app_len_def app_bytes_def vfs_path_get_size_def)
qed

text \<open>All the allocations of a lookup succeed; the string of the path looked up is alive during the loop.\<close>

definition lookup_ready :: "ramfs_env \<Rightarrow> pstore \<Rightarrow> bool" where
  "lookup_ready env st \<longleftrightarrow> live st \<and> fresh_env env st \<and> ra_inode env
     \<and> ra_m1 env 0 \<and> ra_m2 env 0 \<and> ra_str env 0 \<noteq> 0 \<and> st (ra_str env 0) = None \<and> (\<forall>i. ra_str env (Suc i) \<noteq> ra_str env 0)
     \<and> (\<forall>n. \<exists>buf. ra_full env n = Some buf \<and> length buf = n) \<and> (\<forall>n. \<exists>buf. ra_cur env n = Some buf \<and> length buf = n)"

lemma lookup_spec:
  assumes hs: "headers_after ar (ri_header this) hs" "length hs < fuel" and env: "lookup_ready env st"
    and name: "path_wf st name" "0 \<notin> set (path_bytes st name)"
    and le: "length (dir_name ar (ri_header this)) + Suc (length (path_bytes st name)) \<le> VFS_PATH_MAX_LEN"
  shows "\<exists>r. ramfs_lookup fuel env ar this name st = Some (r, st)
           \<and> (case find (\<lambda>h. comps (header_fullname ar h)
                             = comps (dir_name ar (ri_header this)) @ comps (path_bytes st name)) hs of
                None \<Rightarrow> r = Inl ENOENT
              | Some h \<Rightarrow> \<exists>n. field_number ar h F_size = Some n \<and> r = Inr (new_inode ar h n))"
proof -
  let ?s = "dir_name ar (ri_header this) @ 47 # path_bytes st name" and ?b = "ra_str env 0"
  let ?st = "with_string ?b ?s st" and ?q = "new_path ?b ?s"
  obtain buf m where buf: "ustar_header_fullname_create (ra_full env) ar st (ri_header this) (Some name) = Some (Inr buf)"
    "holds buf m ?s"
    using lookup_name [OF hs(1) name le] env unfolding lookup_ready_def by metis
  have len: "length ?s \<le> VFS_PATH_MAX_LEN" using le by simp
  have b: "?b \<noteq> 0" "st ?b = None" "ra_m1 env 0" "ra_m2 env 0"
    using env by (simp_all add: lookup_ready_def fresh_env_def)
  have "0 \<notin> set (dir_name ar (ri_header this))"
    by (auto simp: dir_name_def header_fullname_def cstr_nonzero split: option.splits)
  then have q: "whole_path ?st ?q" "path_bytes ?st ?q = ?s"
    using new_path_wf [OF b(1) len, of st] name(2) by (simp_all add: whole_path_def)
  have st: "live ?st" "fresh_env env ?st"
    using env live_with_string [of st ?b ?s] by (simp_all add: lookup_ready_def fresh_env_def with_string_def)
  obtain nxt where nxt: "(case ri_header this of None \<Rightarrow> Some 0 | Some h \<Rightarrow> ustar_header_get_next_header ar h) = Some nxt"
    "ustar_chain ar nxt hs"
    using hs(1) by (auto simp: headers_after_def split: option.splits)
  obtain cur where cur: "ra_cur env 256 = Some cur" "length cur = 256"
    using env unfolding lookup_ready_def by blast
  obtain r where r: "lookup_fullname fuel env ar nxt ?q ?st = Some (r, ?st)"
    "case find (\<lambda>h. comps (header_fullname ar h) = comps ?s) hs of
       None \<Rightarrow> r = Inl ENOENT | Some h \<Rightarrow> \<exists>n. field_number ar h F_size = Some n \<and> r = Inr (new_inode ar h n)"
    using lookup_fullname_spec [OF nxt(2) hs(2) q(1) st cur] env q(2) unfolding lookup_ready_def by auto
  have "ramfs_lookup fuel env ar this name st = Some (r, st)"
    using buf(1) new_path_init [OF buf(2) len] b nxt(1) r(1) new_path_reset [of ?b st ?s] by (simp add: ramfs_lookup_def)
  then show ?thesis
    using r(2) by (auto simp: comps_append_slash)
qed


text \<open>An archive with a directory \<^verbatim>\<open>d/\<close> and a file \<^verbatim>\<open>d/f\<close> of three bytes.\<close>

definition sample_header :: "byte list \<Rightarrow> byte \<Rightarrow> byte \<Rightarrow> byte list" where
  "sample_header name sz ty = name @ replicate (124 - length name) 0 @ [sz, 0] @ replicate 30 0
     @ [ty] @ replicate 100 0 @ TMAGIC @ replicate 249 0"

definition sample_archive :: archive where
  "sample_archive = sample_header [100, 47] 48 53 @ sample_header [100, 47, 102] 51 48 @ [1, 2, 3]
     @ replicate 509 0 @ replicate 512 0"

definition sample_env :: ramfs_env where
  "sample_env = \<lparr>ra_full = \<lambda>n. Some (replicate n 0), ra_cur = \<lambda>n. Some (replicate n 0),
     ra_str = \<lambda>i. if i = 0 then 2 else 3, ra_m1 = \<lambda>_. True, ra_m2 = \<lambda>_. True, ra_inode = True\<rparr>"

definition sample_names :: pstore where
  "sample_names = [1 \<mapsto> \<lparr>ps_str = [102], ps_size = 1, ps_refcnt = 1\<rparr>]"

definition sample_name :: vpath where
  "sample_name = \<lparr>base_str = 1, p_offset = 0, p_size = 1\<rparr>"

lemma cstr_replicate [simp]: "0 < n \<Longrightarrow> cstr (replicate n 0 @ s) = []" "cstr (replicate n 0) = []"
  by (cases n; simp)+

lemmas sample_archive_defs = sample_archive_def sample_header_def TMAGIC_def ustar_header_def

lemma sample_sizes:
  "length sample_archive = 2048" "unat (512 :: header) = 512" "unat (1536 :: header) = 1536"
  by (simp_all add: sample_archive_defs)

lemma octal_digit:
  "c = 48 \<or> c = 51 \<Longrightarrow> strntol (c # 0 # s) (Suc (Suc n)) 8 = Some (uint c - 48, 1)"
  by (auto simp: strntol_def strntol_digits.simps isspace_def isblank_def digit_value_def isdigit_def isupper_def islower_def)

lemmas sample_octal = octal_digit [where n = 10, simplified]

lemma sample_numbers:
  "field_number sample_archive 0 F_size = Some 0" "field_number sample_archive 512 F_size = Some 3"
  by (simp_all add: field_number_def sample_archive_defs sample_octal)

lemma sample_next:
  "ustar_header_get_next_header sample_archive 0 = Some 512" "ustar_header_get_next_header sample_archive 512 = Some 1536"
  by (simp_all add: ustar_header_get_next_header_def sample_numbers align_up_def align_down_def)

lemma header_valid_iff:
  "header_in ar h \<Longrightarrow> ustar_header_valid ar h = Some (field_bytes ar h F_magic = TMAGIC)"
  using length_field [of h ar F_magic] memcmp_zero_iff [of 6 "ustar_header ar h F_magic" TMAGIC]
  by (auto simp: ustar_header_valid_def field_bytes_def TMAGIC_def)

lemma replicate_6: "replicate 6 c = [c, c, c, c, c, c]"
  by (simp add: eval_nat_numeral)

lemma sample_valid:
  "ustar_header_valid sample_archive 0 = Some True" "ustar_header_valid sample_archive 512 = Some True"
  "ustar_header_valid sample_archive 1536 = Some False"
  by (simp_all add: header_valid_iff sample_sizes field_bytes_def sample_archive_defs replicate_6)

lemma sample_fields:
  "field_bytes sample_archive 0 F_prefix = replicate 155 0" "field_bytes sample_archive 512 F_prefix = replicate 155 0"
  "field_bytes sample_archive 0 F_name = [100, 47] @ replicate 98 0"
  "field_bytes sample_archive 512 F_name = [100, 47, 102] @ replicate 97 0"
  by (simp_all add: field_bytes_def sample_archive_defs)

lemma sample_headers:
  "headers_after sample_archive (Some 0) [512]" "dir_name sample_archive (Some 0) = [100, 47]"
  "header_fullname sample_archive 512 = [100, 47, 102]"
  by (simp_all add: headers_after_def dir_name_def header_fullname_def header_ok_def sample_fields sample_valid
      sample_next sample_sizes)


section \<open>Reading a file\<close>

definition file_bytes :: "archive \<Rightarrow> ramfs_inode_info \<Rightarrow> byte list" where
  "file_bytes ar x = take (unat (ri_data_size x)) (drop (unat (ri_data x)) ar)"

text \<open>The data of the inode is inside the archive, and its size is a position of the file.\<close>

definition file_ok :: "archive \<Rightarrow> ramfs_inode_info \<Rightarrow> bool" where
  "file_ok ar x \<longleftrightarrow> ri_type x \<noteq> DIRECTORY \<and> unat (ri_data_size x) < 2 ^ 31
     \<and> unat (ri_data x) + unat (ri_data_size x) \<le> length ar \<and> unat (ri_data x) + unat (ri_data_size x) < 2 ^ 32"

fun read_seq :: "archive \<Rightarrow> ramfs_inode_info \<Rightarrow> vfs_file \<Rightarrow> size_t list \<Rightarrow> (byte list list \<times> vfs_file) option" where
  "read_seq ar x f [] = Some ([], f)"
| "read_seq ar x f (c # cs) = do {
     (r, f) \<leftarrow> ramfs_read ar x f c;
     case r of
       Inl e \<Rightarrow> None
     | Inr b \<Rightarrow> do { (bs, f) \<leftarrow> read_seq ar x f cs; Some (b # bs, f) } }"

lemma sint_small:
  assumes "unat (w :: 32 word) < 2 ^ 31"
  shows "sint w = int (unat w)"
proof -
  have "uint w = int (unat w)"
    by simp
  then show ?thesis
    using assms unfolding sint_uint by (subst signed_take_bit_int_eq_self) (simp_all del: of_nat_unat)
qed

lemma ramfs_read_spec:
  fixes c :: size_t
  assumes x: "file_ok ar x" and f: "f_cur f = int n" "n \<le> unat (ri_data_size x)"
  defines "k \<equiv> min (unat c) (unat (ri_data_size x) - n)"
  shows "ramfs_read ar x f c = Some (Inr (take k (drop n (file_bytes ar x))), f\<lparr>f_cur := int (n + k)\<rparr>)"
proof -
  have n: "n < 2 ^ 31" "unat (ri_data_size x) < 2 ^ 31"
    using x f(2) by (simp_all add: file_ok_def)
  have cur: "unat (word_of_int (int n) :: 32 word) = n"
    using n(1) by (simp add: unat_of_nat take_bit_nat_eq_self)
  have "(word_of_int (int n) :: 32 word) \<le> ri_data_size x"
    using cur f(2) by (simp add: word_le_nat_alt)
  then have left: "unat (ri_data_size x - word_of_int (int n)) = unat (ri_data_size x) - n"
    using cur by (simp add: unat_sub)
  have src: "unat (ri_data x + word_of_int (int n)) = unat (ri_data x) + n"
    using x f(2) cur by (simp add: file_ok_def unat_word_ariths)
  define kw where "kw = (if c > ri_data_size x - word_of_int (int n) then ri_data_size x - word_of_int (int n) else c)"
  have k: "unat kw = k"
    using left by (auto simp: k_def kw_def word_less_nat_alt)
  have le: "k + n \<le> unat (ri_data_size x)"
    using f(2) by (simp add: k_def)
  have "unat (word_of_int (int n) + kw) = n + k"
    using cur k le n(2) by (simp add: unat_word_ariths)
  then have "sint (word_of_int (int n) + kw) = int (n + k)"
    using le n(2) by (simp add: sint_small)
  moreover have "take k (drop (unat (ri_data x) + n) ar) = take k (drop n (file_bytes ar x))"
    using f(2) by (simp add: file_bytes_def k_def drop_take add.commute min_def)
  ultimately show ?thesis
    using x src k le unfolding ramfs_read_def Let_def file_ok_def f(1) kw_def [symmetric] by simp
qed

lemma take_min_add: "take (min c (length xs)) xs @ take m (drop (min c (length xs)) xs) = take (c + m) xs"
  by (cases "c \<le> length xs") (simp_all add: take_add)

lemma read_seq_spec:
  assumes "file_ok ar x" "f_cur f = int n" "n \<le> unat (ri_data_size x)"
  shows "\<exists>bs. read_seq ar x f cs = Some (bs, f\<lparr>f_cur := int (min (n + sum_list (map unat cs)) (unat (ri_data_size x)))\<rparr>)
           \<and> concat bs = take (sum_list (map unat cs)) (drop n (file_bytes ar x))"
  using assms(2,3)
proof (induction cs arbitrary: f n)
  case Nil
  then show ?case by (simp add: min_def)
next
  case (Cons c cs)
  define k where "k = min (unat c) (unat (ri_data_size x) - n)"
  have le: "n + k \<le> unat (ri_data_size x)"
    using Cons.prems(2) by (simp add: k_def)
  have len: "length (file_bytes ar x) = unat (ri_data_size x)"
    using assms(1) by (auto simp: file_bytes_def file_ok_def)
  obtain bs where bs: "read_seq ar x (f\<lparr>f_cur := int (n + k)\<rparr>) cs
      = Some (bs, f\<lparr>f_cur := int (min (n + k + sum_list (map unat cs)) (unat (ri_data_size x)))\<rparr>)"
    "concat bs = take (sum_list (map unat cs)) (drop (n + k) (file_bytes ar x))"
    using Cons.IH [of "f\<lparr>f_cur := int (n + k)\<rparr>" "n + k"] le by auto
  have "min (n + k + m) (unat (ri_data_size x)) = min (n + (unat c + m)) (unat (ri_data_size x))" for m
    using Cons.prems(2) by (auto simp: k_def)
  moreover have "take k (drop n (file_bytes ar x)) @ take m (drop (n + k) (file_bytes ar x))
      = take (unat c + m) (drop n (file_bytes ar x))" for m
    using take_min_add [of "unat c" "drop n (file_bytes ar x)" m] len by (simp add: k_def add.commute)
  ultimately show ?case
    using bs ramfs_read_spec [OF assms(1) Cons.prems, of c] by (simp add: k_def [symmetric])
qed

text \<open>
  C24: Reading a file of ramfs piece by piece returns its contents in order: whatever sizes are asked for,
  the pieces together are the bytes from the position of the file on, as many as asked for or as there are
  left, and the position ends after them, never beyond the end of the file.
\<close>

theorem ramfs_read_contents:
  assumes "file_ok ar x" and "f_cur f = int n" and "n \<le> unat (ri_data_size x)"
  shows "\<exists>bs. read_seq ar x f cs = Some (bs, f\<lparr>f_cur := int (min (n + sum_list (map unat cs)) (unat (ri_data_size x)))\<rparr>)
           \<and> concat bs = take (sum_list (map unat cs)) (drop n (file_bytes ar x))"
  by (rule read_seq_spec [OF assms])

definition sample_ramfs_file :: vfs_file where
  "sample_ramfs_file = \<lparr>f_cnode = None, f_cur = 0, f_flags = 0, f_readdir = [], f_op = No_fops, f_pipe = None, f_refcnt = 1\<rparr>"

theorem ramfs_read_contents_witness:
  "\<exists>bs f. read_seq sample_archive ((new_inode sample_archive 512 3)\<lparr>ri_type := REGULAR\<rparr>) sample_ramfs_file [2, 2]
     = Some (bs, f) \<and> concat bs = [1, 2, 3] \<and> f_cur f = 3"
proof -
  let ?x = "(new_inode sample_archive 512 3)\<lparr>ri_type := REGULAR\<rparr>"
  have "file_ok sample_archive ?x" "file_bytes sample_archive ?x = [1, 2, 3]"
    by (simp_all add: file_ok_def file_bytes_def new_inode_def sample_archive_defs)
  then show ?thesis
    using ramfs_read_contents [of sample_archive ?x sample_ramfs_file 0 "[2, 2]"]
    by (auto simp: sample_ramfs_file_def new_inode_def)
qed

text \<open>
  \<^verbatim>\<open>SEEK_CUR\<close> refuses to move backwards, also to a valid position, and \<^verbatim>\<open>SEEK_END\<close> with offset 0 is the
  last byte of the file, not its end.
\<close>

lemma lseek_backwards_refused:
  "\<lbrakk> offset < 0; - (2 ^ 31) \<le> f_cur f + offset; f_cur f < 2 ^ 31 \<rbrakk> \<Longrightarrow> ramfs_lseek x f offset 1 = Some (Inl EINVAL, f)"
  by (simp add: ramfs_lseek_def)

lemma lseek_end_last_byte:
  assumes "0 < unat (ri_data_size x)" "unat (ri_data_size x) < 2 ^ 31"
  shows "ramfs_lseek x f 0 2 = Some (Inr (int (unat (ri_data_size x)) - 1), f\<lparr>f_cur := int (unat (ri_data_size x)) - 1\<rparr>)"
proof -
  have u: "unat (ri_data_size x - 1) = unat (ri_data_size x) - 1"
    using assms(1) by (intro unat_minus_one) auto
  then have "sint (ri_data_size x - 1) = int (unat (ri_data_size x)) - 1"
    using assms by (simp add: sint_small of_nat_diff)
  moreover have "\<not> ri_data_size x - 1 > ri_data_size x"
    using u by (simp add: word_less_nat_alt)
  ultimately show ?thesis
    by (simp add: ramfs_lseek_def)
qed

end
