(* ===== verification/Fs_Vfs.thy ===== *)
theory Fs_Vfs
  imports Fs_Ramfs
begin

text \<open>
  The virtual file system: lookup of paths, mounting and unmounting (\<^verbatim>\<open>fs/vfs.c\<close>, \<^verbatim>\<open>fs/filesystem.c\<close>,
  \<^verbatim>\<open>fs/superblock.c\<close>, and the superblocks of \<^verbatim>\<open>fs/ramfs/ramfs.c\<close>).

  The operations that the code reaches through the tables of an inode and of a superblock are functions of
  the environment \<open>vfs_env\<close>.  So are the addresses that \<^verbatim>\<open>kmalloc\<close> returns, which may depend on the state of
  the cache.  Paths, nodes and inodes are those of the cache.
\<close>

section \<open>The model\<close>

subsection \<open>Lookup\<close>

abbreviation VFS_LOOKUP_MAX_RECURSION_LEVEL :: nat where
  "VFS_LOOKUP_MAX_RECURSION_LEVEL \<equiv> 16"

text \<open>
  \<open>ve_fuel\<close> bounds the comparison of names, the chains of mounted file systems, the destruction of nodes
  and the number of components of a path.  \<open>ve_tmp\<close> is the string of \<^const>\<open>vfs_cache_node_lookup_child\<close>,
  \<open>ve_node\<close> the new node of \<^const>\<open>vfs_cache_node_insert_child\<close> (\<open>None\<close> when \<^verbatim>\<open>kmalloc\<close> fails).
\<close>

record vfs_env =
  ve_fuel :: nat
  ve_tmp :: "vcache \<Rightarrow> nat"
  ve_m1 :: "vcache \<Rightarrow> bool"
  ve_m2 :: "vcache \<Rightarrow> bool"
  ve_node :: "vcache \<Rightarrow> nat option"
  ve_lookup :: "nat \<Rightarrow> vpath \<Rightarrow> vcache \<Rightarrow> (nat result \<times> vcache) option"
  ve_readlink :: "nat \<Rightarrow> vcache \<Rightarrow> (vpath result \<times> vcache) option"
  ve_read_inode :: "nat \<Rightarrow> vcache \<Rightarrow> (unit result \<times> vcache) option"

definition inode_of :: "nat \<Rightarrow> vcache \<Rightarrow> (nat \<times> vfs_inode) option" where
  "inode_of n v = do {
     x \<leftarrow> cnodes v n;
     i \<leftarrow> c_inode x;
     y \<leftarrow> inodes v i;
     Some (i, y) }"

text \<open>
  Resolving a symbolic link.  \<open>lookup_path\<close> is the lookup of the next level of recursion.
\<close>

definition readlink ::
  "vfs_env \<Rightarrow> (vpath \<Rightarrow> nat option \<Rightarrow> nat option \<Rightarrow> vcache \<Rightarrow> (nat result \<times> vcache) option)
     \<Rightarrow> nat \<Rightarrow> nat option \<Rightarrow> vcache \<Rightarrow> (nat result \<times> vcache) option" where
  "readlink env lookup_path symlink root v = do {
     (i, y) \<leftarrow> inode_of symlink v;
     if i_type y \<noteq> SYMLINK then Some (Inl EINVAL, v)
     else if \<not> i_op y then None
     else do {
       (r, v) \<leftarrow> ve_readlink env i v;
       case r of
         Inl e \<Rightarrow> Some (Inl e, v)
       | Inr target_path \<Rightarrow> do {
           absolute \<leftarrow> vfs_path_absolute (strings v) target_path;
           (start, v) \<leftarrow> (if \<not> absolute then vfs_cache_node_get_parent symlink v else Some (root, v));
           (r, v) \<leftarrow> lookup_path target_path root start v;
           v \<leftarrow> (if start \<noteq> root then vfs_cache_node_unref (ve_fuel env) start v else Some v);
           st \<leftarrow> vfs_path_destroy target_path (strings v);
           Some (r, v\<lparr>strings := st\<rparr>) } } }"

definition vfs_read_and_cache_inode ::
  "vfs_env \<Rightarrow> nat \<Rightarrow> nat \<Rightarrow> vpath \<Rightarrow> vcache \<Rightarrow> (nat option result \<times> vcache) option" where
  "vfs_read_and_cache_inode env parent inode name v = do {
     y \<leftarrow> inodes v inode;
     sb \<leftarrow> i_sb y;
     (r, v) \<leftarrow> ve_read_inode env inode v;
     case r of
       Inl e \<Rightarrow> Some (Inl e, v)
     | Inr _ \<Rightarrow> vfs_cache_node_insert_child (ve_fuel env) (ve_tmp env v) (ve_m1 env v) (ve_m2 env v)
                 (ve_node env v \<noteq> None) (case ve_node env v of None \<Rightarrow> 0 | Some n \<Rightarrow> n)
                 (Some parent) (Some inode) name True v }"

definition lookup_read_and_cache_inode ::
  "vfs_env \<Rightarrow> nat \<Rightarrow> vpath \<Rightarrow> vcache \<Rightarrow> (nat option result \<times> vcache) option" where
  "lookup_read_and_cache_inode env parent lookup_pathname v = do {
     (parent_inode, y) \<leftarrow> inode_of parent v;
     if \<not> i_op y then None
     else do {
       (r, v) \<leftarrow> ve_lookup env parent_inode lookup_pathname v;
       case r of
         Inl e \<Rightarrow> Some (Inl e, v)
       | Inr inode \<Rightarrow> vfs_read_and_cache_inode env parent inode lookup_pathname v } }"

text \<open>
  The loop over the components, with a reference on the current node.  The label \<^verbatim>\<open>out\<close> takes a reference for
  the result and drops that of the current node.
\<close>

definition lookup_out :: "vfs_env \<Rightarrow> errno option \<Rightarrow> nat \<Rightarrow> vcache \<Rightarrow> (nat result \<times> vcache) option" where
  "lookup_out env err current_node v =
     (case err of
        Some e \<Rightarrow> map_option (Pair (Inl e)) (vfs_cache_node_unref (ve_fuel env) (Some current_node) v)
      | None \<Rightarrow> do {
          v \<leftarrow> vfs_cache_node_ref (Some current_node) v;
          map_option (Pair (Inr current_node)) (vfs_cache_node_unref (ve_fuel env) (Some current_node) v) })"

text \<open>If the current node is a symbolic link, it is replaced by its target.\<close>

definition resolve_link ::
  "vfs_env \<Rightarrow> (vpath \<Rightarrow> nat option \<Rightarrow> nat option \<Rightarrow> vcache \<Rightarrow> (nat result \<times> vcache) option)
     \<Rightarrow> nat \<Rightarrow> nat option \<Rightarrow> vcache \<Rightarrow> (nat result \<times> vcache) option" where
  "resolve_link env lookup_path current_node root v = do {
     (_, y) \<leftarrow> inode_of current_node v;
     if i_type y = SYMLINK then do {
       (r, v) \<leftarrow> readlink env lookup_path current_node root v;
       case r of
         Inl e \<Rightarrow> Some (Inl e, v)
       | Inr tmp \<Rightarrow> do {
           v \<leftarrow> vfs_cache_node_unref (ve_fuel env) (Some current_node) v;
           Some (Inr tmp, v) }
     } else Some (Inr current_node, v) }"

text \<open>The child of a directory: from the cache, or else looked up in the file system and cached.\<close>

definition lookup_component :: "vfs_env \<Rightarrow> nat \<Rightarrow> vpath \<Rightarrow> vcache \<Rightarrow> (nat option result \<times> vcache) option" where
  "lookup_component env current_node path_component v = do {
     (looked_up, v) \<leftarrow> vfs_cache_node_lookup_child (ve_fuel env) (ve_tmp env v) (ve_m1 env v) (ve_m2 env v)
                          (Some current_node) path_component v;
     case looked_up of
       Some c \<Rightarrow> Some (Inr (Some c), v)
     | None \<Rightarrow> lookup_read_and_cache_inode env current_node path_component v }"

fun do_lookup_loop ::
  "nat \<Rightarrow> vfs_env \<Rightarrow> (vpath \<Rightarrow> nat option \<Rightarrow> nat option \<Rightarrow> vcache \<Rightarrow> (nat result \<times> vcache) option)
     \<Rightarrow> vpath \<Rightarrow> nat \<Rightarrow> nat option \<Rightarrow> vcache \<Rightarrow> (vpath \<times> nat result \<times> vcache) option" where
  "do_lookup_loop 0 env lookup_path component current_node root v = None"
| "do_lookup_loop (Suc fuel) env lookup_path component current_node root v =
     (if vfs_path_empty component then map_option (Pair component) (lookup_out env None current_node v)
      else do {
        (r, v) \<leftarrow> resolve_link env lookup_path current_node root v;
        case r of
          Inl e \<Rightarrow> map_option (Pair component) (lookup_out env (Some e) current_node v)
        | Inr current_node \<Rightarrow> do {
            (_, y) \<leftarrow> inode_of current_node v;
            if i_type y \<noteq> DIRECTORY then map_option (Pair component) (lookup_out env (Some ENOTDIR) current_node v)
            else do {
              (tmp, v) \<leftarrow> vfs_cache_node_resolve_mounted_fs (ve_fuel env) current_node v;
              v \<leftarrow> vfs_cache_node_unref (ve_fuel env) (Some current_node) v;
              (r, v) \<leftarrow> lookup_component env tmp component v;
              case r of
                Inl e \<Rightarrow> map_option (Pair component) (lookup_out env (Some e) tmp v)
              | Inr looked_up \<Rightarrow> do {
                  component \<leftarrow> vfs_path_component_next (strings v) component;
                  v \<leftarrow> vfs_cache_node_unref (ve_fuel env) (Some tmp) v;
                  looked_up \<leftarrow> looked_up;
                  do_lookup_loop fuel env lookup_path component looked_up root v } } } })"

definition do_lookup ::
  "vfs_env \<Rightarrow> (vpath \<Rightarrow> nat option \<Rightarrow> nat option \<Rightarrow> vcache \<Rightarrow> (nat result \<times> vcache) option)
     \<Rightarrow> vpath \<Rightarrow> nat \<Rightarrow> nat option \<Rightarrow> vcache \<Rightarrow> (vpath \<times> nat result \<times> vcache) option" where
  "do_lookup env lookup_path component start_node root v = do {
     v \<leftarrow> vfs_cache_node_ref (Some start_node) v;
     do_lookup_loop (ve_fuel env) env lookup_path component start_node root v }"

text \<open>
  The body of \<^verbatim>\<open>lookup\<close> below the limit of the recursion.  A result node that is not set by \<^verbatim>\<open>do_lookup\<close>, as
  after every error, gives \<^verbatim>\<open>ENOENT\<close>.
\<close>

definition lookup_body ::
  "vfs_env \<Rightarrow> (vpath \<Rightarrow> nat option \<Rightarrow> nat option \<Rightarrow> vcache \<Rightarrow> (nat result \<times> vcache) option)
     \<Rightarrow> vpath \<Rightarrow> nat option \<Rightarrow> nat option \<Rightarrow> vcache \<Rightarrow> (nat result \<times> vcache) option" where
  "lookup_body env lookup_path path start root v =
     (case (start, root) of
        (Some start, Some _) \<Rightarrow> do {
          (start, v) \<leftarrow> vfs_cache_node_resolve_mounted_fs (ve_fuel env) start v;
          (component, st) \<leftarrow> vfs_path_first_component path (strings v);
          (component, r, v) \<leftarrow> do_lookup env lookup_path component start root (v\<lparr>strings := st\<rparr>);
          (r, v) \<leftarrow> (case r of
              Inl e \<Rightarrow> Some (Inl ENOENT, v)
            | Inr result_node \<Rightarrow> do {
                (r, v) \<leftarrow> resolve_link env lookup_path result_node root v;
                case r of
                  Inl e \<Rightarrow> do {
                    v \<leftarrow> vfs_cache_node_unref (ve_fuel env) (Some result_node) v;
                    Some (Inl e, v) }
                | Inr result_node \<Rightarrow> do {
                    v \<leftarrow> vfs_cache_node_ref (Some result_node) v;
                    v \<leftarrow> vfs_cache_node_unref (ve_fuel env) (Some result_node) v;
                    Some (Inr result_node, v) } });
          (_, st) \<leftarrow> vfs_path_component_reset component (strings v);
          v \<leftarrow> vfs_cache_node_unref (ve_fuel env) (Some start) (v\<lparr>strings := st\<rparr>);
          Some (r, v) }
      | _ \<Rightarrow> Some (Inl EINVAL, v))"

definition lookup_from ::
  "(vpath \<Rightarrow> nat option \<Rightarrow> nat option \<Rightarrow> vcache \<Rightarrow> (nat result \<times> vcache) option)
     \<Rightarrow> vpath \<Rightarrow> nat option \<Rightarrow> nat option \<Rightarrow> vcache \<Rightarrow> (nat result \<times> vcache) option" where
  "lookup_from lookup path root cwd v = do {
     absolute \<leftarrow> vfs_path_absolute (strings v) path;
     lookup path (if absolute then root else cwd) root v }"

text \<open>\<open>levels\<close> is the number of levels of recursion that are left.\<close>

primrec lookup_path ::
  "vfs_env \<Rightarrow> nat \<Rightarrow> vpath \<Rightarrow> nat option \<Rightarrow> nat option \<Rightarrow> vcache \<Rightarrow> (nat result \<times> vcache) option" where
  "lookup_path env 0 = lookup_from (\<lambda>path start root v. Some (Inl ELOOP, v))"
| "lookup_path env (Suc levels) = lookup_from (lookup_body env (lookup_path env levels))"

definition vfs_lookup ::
  "vfs_env \<Rightarrow> vpath \<Rightarrow> nat option \<Rightarrow> nat option \<Rightarrow> vcache \<Rightarrow> (nat result \<times> vcache) option" where
  "vfs_lookup env path root cwd v = lookup_path env VFS_LOOKUP_MAX_RECURSION_LEVEL path root cwd v"

subsection \<open>File systems and superblocks\<close>

text \<open>
  A registered file system is its name (with the terminating zero); \<^verbatim>\<open>ramfs\<close> is the only one of the sources.
  A superblock that is freed is no longer in the map.
\<close>

record vfs_superblock =
  sb_device :: "nat option"
  sb_root :: "nat option"
  sb_data :: "nat option"

record vmounts =
  mt_cache :: vcache
  superblocks :: "nat \<Rightarrow> vfs_superblock option"
  mounted_list :: "nat list"
  filesystem_list :: "byte list list"

abbreviation VFS_FILESYSTEM_NAME_MAX_LENGTH :: nat where
  "VFS_FILESYSTEM_NAME_MAX_LENGTH \<equiv> 16"

fun get_fs :: "byte list \<Rightarrow> byte list list \<Rightarrow> byte list option option" where
  "get_fs fs_name [] = Some None"
| "get_fs fs_name (registered # fss) = do {
     r \<leftarrow> strncmp fs_name registered VFS_FILESYSTEM_NAME_MAX_LENGTH;
     if r = 0 then Some (Some registered) else get_fs fs_name fss }"

definition vfs_filesystem_get_fs :: "byte list \<Rightarrow> vmounts \<Rightarrow> byte list option option" where
  "vfs_filesystem_get_fs fs_name s = get_fs fs_name (filesystem_list s)"

definition vfs_filesystem_register :: "byte list \<Rightarrow> vmounts \<Rightarrow> (unit result \<times> vmounts) option" where
  "vfs_filesystem_register fs s = do {
     r \<leftarrow> vfs_filesystem_get_fs fs s;
     Some (if r \<noteq> None then (Inl EEXIST, s) else (Inr (), s\<lparr>filesystem_list := filesystem_list s @ [fs]\<rparr>)) }"

definition vfs_superblock_init ::
  "nat \<Rightarrow> nat option \<Rightarrow> nat option \<Rightarrow> nat option \<Rightarrow> vmounts \<Rightarrow> vmounts option" where
  "vfs_superblock_init sb device root data s = do {
     v \<leftarrow> vfs_cache_node_ref device (mt_cache s);
     v \<leftarrow> vfs_cache_node_ref root v;
     Some (s\<lparr>mt_cache := v, superblocks := (superblocks s)(sb \<mapsto> \<lparr>sb_device = device, sb_root = root, sb_data = data\<rparr>)\<rparr>) }"

text \<open>
  The allocations of a mount: the superblock, the inode of its root, the string of the name of the root and
  the node of the root (\<open>None\<close> or \<open>False\<close> when they fail).
\<close>

record mount_env =
  me_fuel :: nat
  me_sb :: "nat option"
  me_inode :: "nat option"
  me_str :: nat
  me_m1 :: bool
  me_m2 :: bool
  me_node :: "nat option"

text \<open>The inode at address \<open>i\<close> with the structure of ramfs that encloses it, for the header \<open>h\<close>.\<close>

definition ramfs_inode_create :: "nat \<Rightarrow> header option \<Rightarrow> nat option \<Rightarrow> vcache \<Rightarrow> vcache" where
  "ramfs_inode_create i h sb = set_inode i
     \<lparr>i_type = DIRECTORY, i_sb = sb, i_op = True, i_private = None, i_header = h, i_cnodes = [], i_refcnt = refcount_init\<rparr>"

definition create_root_node :: "mount_env \<Rightarrow> nat \<Rightarrow> vcache \<Rightarrow> (nat result \<times> vcache) option" where
  "create_root_node env sb v =
     (case me_inode env of
        None \<Rightarrow> Some (Inl ENOMEM, v)
      | Some i \<Rightarrow> do {
          let v = ramfs_inode_create i None (Some sb) v;
          (r, st) \<leftarrow> vfs_path_init (me_str env) (me_m1 env) (me_m2 env) [46, 0] 1 (strings v);
          let v = v\<lparr>strings := st\<rparr>;
          case r of
            Inl e \<Rightarrow> Some (Inl e, v)
          | Inr root_path \<Rightarrow> do {
              (r, v) \<leftarrow> vfs_cache_node_create (me_node env \<noteq> None) (case me_node env of None \<Rightarrow> 0 | Some n \<Rightarrow> n)
                          (Some i) (Some root_path) v;
              v \<leftarrow> (case r of Inl e \<Rightarrow> Some v | Inr _ \<Rightarrow> vfs_inode_unref i v);
              (_, st) \<leftarrow> vfs_path_reset root_path (strings v);
              Some (r, v\<lparr>strings := st\<rparr>) } })"

definition ramfs_superblock_create ::
  "mount_env \<Rightarrow> nat option \<Rightarrow> nat option \<Rightarrow> vmounts \<Rightarrow> (nat result \<times> vmounts) option" where
  "ramfs_superblock_create env device data s =
     (if data = None then Some (Inl EINVAL, s)
      else case me_sb env of
        None \<Rightarrow> Some (Inl ENOMEM, s)
      | Some sb \<Rightarrow> do {
          (r, v) \<leftarrow> create_root_node env sb (mt_cache s);
          let s = s\<lparr>mt_cache := v\<rparr>;
          case r of
            Inl e \<Rightarrow> Some (Inl e, s)
          | Inr root \<Rightarrow> do {
              s \<leftarrow> vfs_superblock_init sb device (Some root) data s;
              v \<leftarrow> vfs_cache_node_unref (me_fuel env) (Some root) (mt_cache s);
              Some (Inr sb, s\<lparr>mt_cache := v\<rparr>) } })"

definition ramfs_superblock_destroy :: "nat \<Rightarrow> nat \<Rightarrow> vmounts \<Rightarrow> (unit result \<times> vmounts) option" where
  "ramfs_superblock_destroy fuel sb s = do {
     x \<leftarrow> superblocks s sb;
     root \<leftarrow> sb_root x;
     n \<leftarrow> vfs_cache_node_get_ref root (mt_cache s);
     if n > 1 then Some (Inl EBUSY, s)
     else do {
       v \<leftarrow> vfs_cache_node_unref fuel (Some root) (mt_cache s);
       Some (Inr (), s\<lparr>mt_cache := v, superblocks := (superblocks s)(sb := None)\<rparr>) } }"

subsection \<open>Mounting\<close>

definition get_superblock ::
  "mount_env \<Rightarrow> nat option \<Rightarrow> byte list \<Rightarrow> nat option \<Rightarrow> vmounts \<Rightarrow> (nat result \<times> vmounts) option" where
  "get_superblock env device filesystem data s = do {
     blk \<leftarrow> (case device of
         None \<Rightarrow> Some True
       | Some d \<Rightarrow> map_option (\<lambda>(_, y). i_type y = BLOCKDEV) (inode_of d (mt_cache s)));
     if \<not> blk then Some (Inl ENOTBLK, s)
     else do {
       fs \<leftarrow> vfs_filesystem_get_fs filesystem s;
       case fs of
         None \<Rightarrow> Some (Inl ENODEV, s)
       | Some fs \<Rightarrow> ramfs_superblock_create env device data s } }"

definition vfs_mount ::
  "mount_env \<Rightarrow> nat option \<Rightarrow> nat \<Rightarrow> nat option \<Rightarrow> byte list \<Rightarrow> vmounts \<Rightarrow> (unit result \<times> vmounts) option" where
  "vfs_mount env device mountpoint data filesystem s = do {
     (r, s) \<leftarrow> get_superblock env device filesystem data s;
     case r of
       Inl e \<Rightarrow> Some (Inl e, s)
     | Inr sb \<Rightarrow> do {
         x \<leftarrow> superblocks s sb;
         root \<leftarrow> sb_root x;
         y \<leftarrow> cnodes (mt_cache s) root;
         let v = set_cnode root (y\<lparr>c_mountpoint := Some mountpoint\<rparr>) (mt_cache s);
         z \<leftarrow> cnodes v mountpoint;
         let v = set_cnode mountpoint (z\<lparr>c_mounted := Some root\<rparr>) v;
         v \<leftarrow> vfs_cache_node_ref (Some root) v;
         Some (Inr (), s\<lparr>mt_cache := v, mounted_list := mounted_list s @ [sb]\<rparr>) } }"

definition vfs_umount :: "nat \<Rightarrow> nat \<Rightarrow> vmounts \<Rightarrow> (unit result \<times> vmounts) option" where
  "vfs_umount fuel mountpoint s = do {
     z \<leftarrow> cnodes (mt_cache s) mountpoint;
     case c_mounted z of
       None \<Rightarrow> Some (Inl EINVAL, s)
     | Some root \<Rightarrow> do {
         (_, i) \<leftarrow> inode_of root (mt_cache s);
         sb \<leftarrow> i_sb i;
         x \<leftarrow> cnodes (mt_cache s) root;
         let v = set_cnode root (x\<lparr>c_mountpoint := None\<rparr>) (mt_cache s);
         v \<leftarrow> vfs_cache_node_unref fuel (c_mounted x) v;
         z \<leftarrow> cnodes v mountpoint;
         let v = set_cnode mountpoint (z\<lparr>c_mounted := None\<rparr>) v;
         ramfs_superblock_destroy fuel sb (s\<lparr>mt_cache := v, mounted_list := remove1 sb (mounted_list s)\<rparr>) } }"

definition vfs_lookup_in_fs :: "vfs_env \<Rightarrow> vpath \<Rightarrow> nat \<Rightarrow> vmounts \<Rightarrow> (nat result \<times> vmounts) option" where
  "vfs_lookup_in_fs env path sb s = do {
     x \<leftarrow> superblocks s sb;
     (r, v) \<leftarrow> vfs_lookup env path (sb_root x) None (mt_cache s);
     Some (r, s\<lparr>mt_cache := v\<rparr>) }"

section \<open>Looking up a cached path\<close>

subsection \<open>Holding references\<close>

text \<open>The cache with \<open>e n\<close> more references on every node \<open>n\<close>.\<close>

definition held :: "(nat \<Rightarrow> nat) \<Rightarrow> vcache \<Rightarrow> vcache" where
  "held e v = v\<lparr>cnodes := \<lambda>n. map_option (\<lambda>x. x\<lparr>c_refcnt := c_refcnt x + of_nat (e n)\<rparr>) (cnodes v n)\<rparr>"

definition hold :: "nat \<Rightarrow> (nat \<Rightarrow> nat) \<Rightarrow> nat \<Rightarrow> nat" where
  "hold n e = e(n := Suc (e n))"

abbreviation no_holds :: "nat \<Rightarrow> nat" where
  "no_holds \<equiv> \<lambda>_. 0"

lemma held_none [simp]: "held no_holds v = v"
proof -
  have "(\<lambda>x. map_option (\<lambda>x. x) (cnodes v x)) = cnodes v"
    by (simp add: option.map_ident)
  then show ?thesis by (simp add: held_def)
qed

lemma held_fields [simp]:
  "strings (held e v) = strings v" "inodes (held e v) = inodes v" "inode_of n (held e v) = inode_of n v"
  "(held e v)\<lparr>strings := st\<rparr> = held e (v\<lparr>strings := st\<rparr>)" "mounted_root f n (held e v) = mounted_root f n v"
  "cnodes (held e v) n = None \<longleftrightarrow> cnodes v n = None"
proof -
  show "mounted_root f n (held e v) = mounted_root f n v"
    by (induction f arbitrary: n) (auto simp: held_def split: option.splits bind_splits)
  show "inode_of n (held e v) = inode_of n v"
    by (auto simp: inode_of_def held_def split: bind_splits)
qed (simp_all add: held_def)

lemma held_cnode: "cnodes v n = Some x \<Longrightarrow> cnodes (held e v) n = Some (x\<lparr>c_refcnt := c_refcnt x + of_nat (e n)\<rparr>)"
  by (simp add: held_def)

lemma held_ref:
  "cnodes v n \<noteq> None \<Longrightarrow> vfs_cache_node_ref (Some n) (held e v) = Some (held (hold n e) v)"
  by (auto simp: vfs_cache_node_ref_def held_def hold_def set_cnode_def refcount_inc_def fun_eq_iff add.assoc)

text \<open>
  Every node has a count with room for the three references that a lookup holds at most on one node, and
  its children have names of one component.
\<close>

definition node_ready :: "vcache \<Rightarrow> vfs_cache_node \<Rightarrow> bool" where
  "node_ready v x \<longleftrightarrow> (\<exists>k. counts (c_refcnt x) k \<and> k + 3 < 2 ^ 31) \<and> (\<forall>p. c_parent x = Some p \<longrightarrow> cnodes v p \<noteq> None)
     \<and> (\<forall>c\<in>set (c_children x). \<exists>y. cnodes v c = Some y \<and> is_component (strings v) (c_name y))"

definition cache_ready :: "vcache \<Rightarrow> bool" where
  "cache_ready v \<longleftrightarrow> live (strings v) \<and> (\<forall>n x. cnodes v n = Some x \<longrightarrow> node_ready v x)"

lemma counts_add: "\<lbrakk> counts r k; k + j < 2 ^ 31 \<rbrakk> \<Longrightarrow> counts (r + of_nat j) (k + j)"
  by (simp add: counts_def)

lemma held_unref:
  assumes v: "cache_ready v" "cnodes v n = Some x" and e: "0 < e n" "e n \<le> 3" and "0 < fuel"
  shows "vfs_cache_node_unref fuel (Some n) (held e v) = Some (held (e(n := e n - 1)) v)"
proof -
  obtain k where k: "counts (c_refcnt x) k" "k + 3 < 2 ^ 31"
    using v unfolding cache_ready_def node_ready_def by blast
  obtain j where j: "e n = Suc j" "k + Suc j < 2 ^ 31"
    using e k(2) by (cases "e n") auto
  have "counts (c_refcnt x + of_nat (e n)) (Suc (k + j))"
    using counts_add [OF k(1) j(2)] j(1) by simp
  note dec = counts_dec(1) [OF this]
  have "c_refcnt x = of_nat k" "0 < k"
    using k(1) by (simp_all add: counts_def)
  moreover obtain f where "fuel = Suc f"
    using assms(5) by (cases fuel) auto
  ultimately show ?thesis
    using v(2) dec j(1)
    by (auto simp: vfs_cache_node_unref_def held_cnode set_cnode_def) (auto simp: held_def fun_eq_iff)
qed

lemma hold_release [simp]: "(hold n e)(n := hold n e n - 1) = e" "(hold m (hold n e))(n := hold m (hold n e) n - 1) = hold m e"
  by (auto simp: hold_def fun_eq_iff)

lemma unref_held:
  assumes "cache_ready v" "cnodes v n \<noteq> None" "0 < fuel"
  shows "e n \<le> 2 \<Longrightarrow> vfs_cache_node_unref fuel (Some n) (held (hold n e) v) = Some (held e v)"
    and "e n \<le> 1 \<Longrightarrow> vfs_cache_node_unref fuel (Some n) (held (hold m (hold n e)) v) = Some (held (hold m e) v)"
proof -
  obtain x where x: "cnodes v n = Some x" using assms(2) by auto
  show "e n \<le> 2 \<Longrightarrow> vfs_cache_node_unref fuel (Some n) (held (hold n e) v) = Some (held e v)"
    using held_unref [OF assms(1) x, of "hold n e" fuel] assms(3) unfolding hold_release by (simp add: hold_def)
  show "e n \<le> 1 \<Longrightarrow> vfs_cache_node_unref fuel (Some n) (held (hold m (hold n e)) v) = Some (held (hold m e) v)"
  proof -
    assume "e n \<le> 1"
    then have "0 < hold m (hold n e) n" "hold m (hold n e) n \<le> 3"
      by (auto simp: hold_def)
    then show ?thesis
      using held_unref [OF assms(1) x, of "hold m (hold n e)" fuel] assms(3) unfolding hold_release by simp
  qed
qed

subsection \<open>One component\<close>

text \<open>What a name denotes in a directory of the cache, the two dots included.\<close>

definition entry_named :: "vcache \<Rightarrow> nat \<Rightarrow> byte list \<Rightarrow> nat option" where
  "entry_named v p b =
     (case cnodes v p of
        None \<Rightarrow> None
      | Some x \<Rightarrow> if b = dot then Some p else if b = dotdot then c_parent x else child_named v p b)"

lemma entry_live:
  assumes "cache_ready v" "entry_named v p b = Some c"
  shows "cnodes v c \<noteq> None"
proof -
  obtain x where x: "cnodes v p = Some x" "node_ready v x"
    using assms by (auto simp: entry_named_def cache_ready_def split: option.splits)
  then show ?thesis
    using assms(2)
    by (auto simp: entry_named_def child_named_def node_ready_def find_Some_iff split: if_splits)
qed

lemma held_named [simp]: "node_name (held e v) n = node_name v n" "child_named (held e v) p b = child_named v p b"
proof -
  show n: "node_name (held e v) n = node_name v n" for n
    by (auto simp: node_name_def held_def split: option.splits)
  show "child_named (held e v) p b = child_named v p b"
    by (auto simp: child_named_def n held_cnode split: option.splits) (simp_all add: held_def)
qed

lemma lookup_child_held:
  assumes v: "cache_ready v" "cnodes v p = Some x" and name: "is_component (strings v) name"
    and tmp: "strings v tmp = None" "tmp \<noteq> 0" and fuel: "0 < fuel"
    and c: "entry_named v p (path_bytes (strings v) name) = Some c"
  shows "vfs_cache_node_lookup_child fuel tmp True True (Some p) name (held e v) = Some (Some c, held (hold c e) v)"
proof -
  let ?b = "path_bytes (strings v) name"
  have live: "live (strings v)" using v(1) by (simp add: cache_ready_def)
  have same: "vfs_path_str_same fuel tmp True True name [46, 46, 0] 1 (strings v) = Some (?b = dot, strings v)"
    "vfs_path_str_same fuel tmp True True name [46, 46, 0] 2 (strings v) = Some (?b = dotdot, strings v)"
    using str_same_dots [OF name live tmp fuel, of 1 True True] str_same_dots [OF name live tmp fuel, of 2 True True]
    by (simp_all add: dot_def dotdot_def dots_eval)
  have ref: "vfs_cache_node_ref (Some c) (held e v) = Some (held (hold c e) v)"
    using held_ref entry_live [OF v(1) c] by simp
  have kids: "\<exists>z. cnodes (held e v) k = Some z \<and> is_component (strings (held e v)) (c_name z)" if "k \<in> set (c_children x)" for k
    using v that by (fastforce simp: cache_ready_def node_ready_def held_def)
  from lookup_children_spec [OF this, of "c_children x"] name live fuel
  have "lookup_children fuel name (c_children x) (held e v) =
    (case find (\<lambda>c. node_name v c = ?b) (c_children x) of
       None \<Rightarrow> Some (None, held e v) | Some c \<Rightarrow> map_option (Pair (Some c)) (vfs_cache_node_ref (Some c) (held e v)))"
    by simp
  then show ?thesis
    using same c ref v(2) held_cnode [OF v(2), of e]
    by (auto simp: vfs_cache_node_lookup_child_def entry_named_def child_named_def split: if_splits)
qed

subsection \<open>All the components\<close>

text \<open>
  The specification: follow the components from node \<open>n\<close> through the cache.  \<open>Inl ()\<close> is a component below
  something that is not a directory; \<open>None\<close> is a walk that meets a symbolic link or leaves the cache.
\<close>

fun walk :: "nat \<Rightarrow> vcache \<Rightarrow> nat \<Rightarrow> byte list list \<Rightarrow> (unit + nat) option" where
  "walk f v n bs =
     (case inode_of n v of
        None \<Rightarrow> None
      | Some (_, y) \<Rightarrow>
          if i_type y = SYMLINK then None
          else case bs of
            [] \<Rightarrow> Some (Inr n)
          | b # bs \<Rightarrow>
              if i_type y \<noteq> DIRECTORY then Some (Inl ())
              else do { m \<leftarrow> mounted_root f n v; c \<leftarrow> entry_named v m b; walk f v c bs })"

declare walk.simps [simp del]

lemma comps_slash_free_elems: "w \<in> set (comps s) \<Longrightarrow> 47 \<notin> set w \<and> w \<noteq> []"
proof (induction s rule: comps.induct)
  case (1 s)
  define t where "t = dropWhile is_slash s"
  show ?case
  proof (cases "t = []")
    case False
    have c: "comps s = takeWhile not_slash t # comps (dropWhile not_slash t)"
      using False by (subst comps.simps) (simp add: t_def Let_def)
    have "takeWhile not_slash t \<noteq> []"
      using False takeWhile_dropWhile_Nil [of s] by (simp add: t_def)
    then show ?thesis
      using 1 c False by (auto simp: t_def dest: set_takeWhileD)
  qed (use 1 in \<open>simp add: comps.simps [of s] t_def Let_def\<close>)
qed

definition env_ready :: "vfs_env \<Rightarrow> vcache \<Rightarrow> bool" where
  "env_ready env v \<longleftrightarrow> 0 < ve_fuel env \<and>
     (\<forall>v'. dom (strings v') = dom (strings v) \<longrightarrow>
        ve_m1 env v' \<and> ve_m2 env v' \<and> ve_tmp env v' \<noteq> 0 \<and> strings v' (ve_tmp env v') = None)"

lemma mounted_root_live: "mounted_root f n v = Some m \<Longrightarrow> cnodes v m \<noteq> None"
  by (induction f arbitrary: n) (auto split: bind_splits option.splits)

lemma component_lookup:
  assumes v: "cache_ready v" "env_ready env v" and name: "is_component (strings v) c"
    and m: "cnodes v m \<noteq> None" "entry_named v m (path_bytes (strings v) c) = Some k"
  shows "lookup_component env m c (held e v) = Some (Inr (Some k), held (hold k e) v)"
proof -
  have t: "strings v (ve_tmp env (held e v)) = None" "ve_tmp env (held e v) \<noteq> 0" "ve_m1 env (held e v)" "ve_m2 env (held e v)"
    "0 < ve_fuel env"
    using v(2) unfolding env_ready_def by (metis held_fields(1))+
  obtain x where "cnodes v m = Some x" using m(1) by auto
  from lookup_child_held [OF v(1) this name t(1,2,5) m(2)] show ?thesis
    using t(3,4) by (simp add: lookup_component_def)
qed

lemma do_lookup_loop_walk:
  assumes v: "cache_ready v" "env_ready env v" and e: "\<forall>k. e k \<le> 1"
    and c: "path_wf (strings v) c" "no_nul (strings v) c" "names_from (strings v) c = bs" "bs = comps s"
    and w: "walk (ve_fuel env) v n bs = Some r" and "length bs < fuel"
  shows "\<exists>c'. base_str c' = base_str c \<and> do_lookup_loop fuel env lp c n root (held (hold n e) v)
           = Some (c', case r of Inr m \<Rightarrow> (Inr m, held (hold m e) v) | Inl _ \<Rightarrow> (Inl ENOTDIR, held e v))"
  using c w assms(9)
proof (induction bs arbitrary: c s n fuel)
  case Nil
  obtain f where f: "fuel = Suc f" using Nil.prems(6) by (cases fuel) auto
  have empty: "vfs_path_empty c"
    using path_empty_iff [OF Nil.prems(1)] Nil.prems(3) by (simp add: names_from_def split: if_splits)
  obtain i y where n: "inode_of n v = Some (i, y)" "r = Inr n"
    using Nil.prems(5) by (auto simp: walk.simps split: option.splits if_splits)
  then have "cnodes v n \<noteq> None"
    by (auto simp: inode_of_def split: bind_splits)
  note lv = this v(2) e
  have "lookup_out env None n (held (hold n e) v) = Some (Inr n, held (hold n e) v)"
    using lv unref_held(1) [OF v(1), of n "ve_fuel env" "hold n e"]
    by (simp add: lookup_out_def held_ref env_ready_def) (simp add: hold_def)
  then show ?case
    using f empty n(2) by auto
next
  case (Cons b bs)
  obtain f where f: "fuel = Suc f" using Cons.prems(6) by (cases fuel) auto
  have b: "path_bytes (strings v) c = b" "b \<noteq> []" "comps (rest_bytes (strings v) c) = bs"
    using Cons.prems(3) by (auto simp: names_from_def split: if_splits)
  then have ne: "\<not> vfs_path_empty c"
    using path_empty_iff [OF Cons.prems(1)] by simp
  have "47 \<notin> set b"
    using comps_slash_free_elems [of b s] Cons.prems(4) by (metis list.set_intros(1))
  then have comp: "is_component (strings v) c"
    using b Cons.prems(1) no_nul_path_bytes [OF Cons.prems(2)] by (simp add: is_component_def)
  obtain i y where y: "inode_of n v = Some (i, y)" "i_type y \<noteq> SYMLINK"
    using Cons.prems(5) by (auto simp: walk.simps split: option.splits if_splits)
  then have n: "cnodes v n \<noteq> None"
    by (auto simp: inode_of_def split: bind_splits)
  have fuel: "0 < ve_fuel env" using v(2) by (simp add: env_ready_def)
  show ?case
  proof (cases "i_type y = DIRECTORY")
    case False
    then have "r = Inl ()" using Cons.prems(5) y by (simp add: walk.simps)
    moreover have "e n \<le> 2" using e [rule_format, of n] by simp
    ultimately show ?thesis
      using f ne y False unref_held(1) [OF v(1) n fuel, of e] by (auto simp: resolve_link_def lookup_out_def)
  next
    case True
    then obtain m k where mk: "mounted_root (ve_fuel env) n v = Some m" "entry_named v m b = Some k" "walk (ve_fuel env) v k bs = Some r"
      using Cons.prems(5) y by (subst (asm) walk.simps) (auto split: bind_splits)
    have m: "cnodes v m \<noteq> None" using mounted_root_live [OF mk(1)] .
    have en: "e n \<le> 1" "e m \<le> 1" using e by simp_all
    obtain c' where c': "vfs_path_component_next (strings v) c = Some c'" "path_wf (strings v) c'" "base_str c' = base_str c"
      "names_from (strings v) c' = bs"
      using component_next_spec [OF Cons.prems(1)] b(3) by metis
    have "no_nul (strings v) c'"
      using Cons.prems(2) c'(3) by (simp add: base_bytes_def)
    then obtain c'' where c'': "base_str c'' = base_str c'" "do_lookup_loop f env lp c' k root (held (hold k e) v)
        = Some (c'', case r of Inr m \<Rightarrow> (Inr m, held (hold m e) v) | Inl _ \<Rightarrow> (Inl ENOTDIR, held e v))"
      using Cons.IH [OF c'(2) _ c'(4) b(3) [symmetric] mk(3), of f] Cons.prems(6) f by auto
    have "lookup_component env m c (held (hold m e) v) = Some (Inr (Some k), held (hold k (hold m e)) v)"
      using component_lookup [OF v comp m] mk(2) b(1) by simp
    then show ?thesis
      using f ne y True mk(1) c'(1,3) c'' unref_held(2) [OF v(1) n fuel, of e] unref_held(2) [OF v(1) m fuel, of e] en held_ref [OF m]
      by (auto simp: resolve_link_def vfs_cache_node_resolve_mounted_fs_def)
  qed
qed

subsection \<open>The lookup of a path\<close>

lemma live_bump:
  assumes "strings_inv D str st sext"
  shows "live (bump b st)"
  unfolding live_def
proof (intro allI impI)
  fix i s
  assume s: "bump b st i = Some s"
  then obtain t where t: "st i = Some t" "ps_refcnt s = ps_refcnt t \<or> ps_refcnt s = ps_refcnt t + 1"
    by (auto simp: bump_def split: option.splits if_splits)
  obtain k where k: "counts (ps_refcnt t) k"
    using assms t(1) unfolding strings_inv_def by blast
  then have "unat (ps_refcnt t) = k" "k < 2 ^ 31" "0 < k"
    by (auto simp: counts_def unat_of_nat take_bit_nat_eq_self)
  then have u: "unat (ps_refcnt s) = k \<or> unat (ps_refcnt s) = Suc k"
    using t(2) by (auto simp: unat_word_ariths)
  moreover have "unat (- 1 :: refcount) = 2 ^ 32 - 1"
    by (simp add: unsigned_minus_1_eq_mask mask_eq_exp_minus_1)
  ultimately show "ps_refcnt s \<noteq> 0 \<and> ps_refcnt s \<noteq> - 1"
    using \<open>0 < k\<close> \<open>k < 2 ^ 31\<close> by auto
qed

definition lookup_room :: "vcache \<Rightarrow> (nat \<Rightarrow> nat) \<Rightarrow> bool" where
  "lookup_room v ext \<longleftrightarrow> (\<forall>n x. cnodes v n = Some x \<longrightarrow> length (c_children x) + ext n + 3 < 2 ^ 31)"

lemma cache_ready_inv:
  assumes inv: "cache_inv {} v ext iext sext" "names_ok v" "lookup_room v ext"
  shows "cache_ready v"
proof -
  have nodes: "nodes_inv {} (cnodes v) ext" and strs: "strings_inv {} (str_of (cnodes v)) (strings v) sext"
    using inv(1) by (simp_all add: cache_inv_def)
  have "node_ready v x" if x: "cnodes v n = Some x" for n x
  proof -
    note ok = nodesD [OF nodes x]
    have "length (c_children x) + ext n + 3 < 2 ^ 31"
      using inv(3) x unfolding lookup_room_def by blast
    then have "\<exists>k. counts (c_refcnt x) k \<and> k + 3 < 2 ^ 31"
      using ok(2) by blast
    moreover have "\<exists>y. cnodes v c = Some y \<and> is_component (strings v) (c_name y)" if "c \<in> set (c_children x)" for c
      using ok(1) inv(2) that by (fastforce simp: node_ok_def names_ok_def)
    ultimately show ?thesis
      using ok(1) by (auto simp: node_ready_def node_ok_def)
  qed
  then show ?thesis
    using strings_live [OF strs] by (simp add: cache_ready_def)
qed

lemma cache_ready_bump:
  assumes "cache_ready v" "live (bump b (strings v))"
  shows "cache_ready (v\<lparr>strings := bump b (strings v)\<rparr>)"
  using assms by (simp add: cache_ready_def node_ready_def is_component_def)

lemma dom_bump: "dom (bump b st) = dom st"
  by (auto simp: bump_def split: option.splits)

lemma strings_only [simp]:
  "inode_of n (v\<lparr>strings := st\<rparr>) = inode_of n v" "mounted_root f n (v\<lparr>strings := st\<rparr>) = mounted_root f n v"
proof -
  show "inode_of n (v\<lparr>strings := st\<rparr>) = inode_of n v"
    by (simp add: inode_of_def)
  show "mounted_root f n (v\<lparr>strings := st\<rparr>) = mounted_root f n v"
    by (induction f arbitrary: n) (auto split: option.splits bind_splits)
qed

lemma entry_bump [simp]: "entry_named (v\<lparr>strings := bump b (strings v)\<rparr>) p w = entry_named v p w"
proof -
  have "node_name (v\<lparr>strings := bump b (strings v)\<rparr>) n = node_name v n" for n
    by (simp add: node_name_def split: option.split)
  then show ?thesis
    by (simp add: entry_named_def child_named_def split: option.split)
qed

lemma walk_bump: "walk f (v\<lparr>strings := bump b (strings v)\<rparr>) n bs = walk f v n bs"
proof (induction bs arbitrary: n)
  case Nil
  show ?case by (simp add: walk.simps split: option.split)
next
  case (Cons w bs)
  show ?case by (subst (1 2) walk.simps) (simp add: Cons.IH split: option.split)
qed

lemma walk_end: "walk f v n bs = Some (Inr m) \<Longrightarrow> \<exists>i y. inode_of m v = Some (i, y) \<and> i_type y \<noteq> SYMLINK"
proof (induction bs arbitrary: n)
  case Nil
  then show ?case by (auto simp: walk.simps split: option.splits if_splits)
next
  case (Cons w bs)
  then show ?case by (subst (asm) (2) walk.simps) (auto split: option.splits if_splits bind_splits)
qed

lemma lookup_body_walk:
  assumes inv: "cache_inv {} v ext iext sext" "names_ok v" "lookup_room v ext" and env: "env_ready env v"
    and path: "whole_path (strings v) path" "length (comps (path_bytes (strings v) path)) < ve_fuel env"
    and start: "mounted_root (ve_fuel env) s0 v = Some s"
    and w: "walk (ve_fuel env) v s (comps (path_bytes (strings v) path)) = Some r"
  shows "lookup_body env lp path (Some s0) (Some root) v =
    Some (case r of Inr m \<Rightarrow> (Inr m, held (hold m no_holds) v) | Inl _ \<Rightarrow> (Inl ENOENT, v))"
proof -
  let ?b = "base_str path" and ?v = "v\<lparr>strings := bump (base_str path) (strings v)\<rparr>"
  let ?e = "hold s no_holds"
  have rdy0: "cache_ready v" by (rule cache_ready_inv [OF inv])
  have rdy: "cache_ready ?v"
    using inv(1) by (intro cache_ready_bump rdy0) (auto simp: cache_inv_def intro: live_bump)
  have env': "env_ready env ?v"
    using env by (simp add: env_ready_def dom_bump)
  have fuel: "0 < ve_fuel env" using env by (simp add: env_ready_def)
  have wf: "path_wf (strings v) path" "no_nul (strings v) path" "rest_bytes (strings v) path = []"
    using path(1) by (simp_all add: whole_path_def)
  obtain c where c: "vfs_path_first_component path (strings v) = Some (c, bump ?b (strings v))" "path_wf (strings v) c"
    "base_str c = ?b" "names_from (strings v) c = comps (path_bytes (strings v) path)"
    using first_component_spec [OF wf(1)] wf(3) by metis
  have s: "cnodes v s \<noteq> None" using mounted_root_live [OF start] .
  have "no_nul (strings v) c" using wf(2) c(3) by (simp add: base_bytes_def)
  moreover have "\<forall>k. ?e k \<le> 1" by (simp add: hold_def)
  ultimately obtain c' where c': "base_str c' = ?b" "do_lookup_loop (ve_fuel env) env lp c s (Some root) (held (hold s ?e) ?v)
      = Some (c', case r of Inr m \<Rightarrow> (Inr m, held (hold m ?e) ?v) | Inl _ \<Rightarrow> (Inl ENOTDIR, held ?e ?v))"
    using do_lookup_loop_walk [OF rdy env', of ?e c "comps (path_bytes (strings v) path)" "path_bytes (strings v) path" s r
        "ve_fuel env" lp "Some root"] c w path(2) by (auto simp: walk_bump)
  obtain t where t: "strings v ?b = Some t" "ps_refcnt t \<noteq> 0" "?b \<noteq> 0"
    using wf(1) inv(1) strings_live [of "{}"] by (auto simp: cache_inv_def live_def elim!: path_wfE)
  have reset: "vfs_path_component_reset c' (bump ?b (strings v)) = Some (null_path, strings v)"
    using reset_bump [of "strings v" ?b t c'] t c'(1) by (simp add: vfs_path_component_reset_def)
  have "do_lookup env lp c s (Some root) (held ?e ?v)
      = Some (c', case r of Inr m \<Rightarrow> (Inr m, held (hold m ?e) ?v) | Inl _ \<Rightarrow> (Inl ENOTDIR, held ?e ?v))"
    using c'(2) s by (simp add: do_lookup_def held_ref)
  note run = this start c(1) reset held_ref [of v s no_holds] s
  show ?thesis
  proof (cases r)
    case (Inl u)
    then show ?thesis
      using run unref_held(1) [OF rdy0 s fuel, of no_holds]
      by (simp add: lookup_body_def vfs_cache_node_resolve_mounted_fs_def)
  next
    case (Inr m)
    then obtain i y where m: "inode_of m v = Some (i, y)" "i_type y \<noteq> SYMLINK"
      using walk_end w by blast
    then have lm: "cnodes v m \<noteq> None"
      by (auto simp: inode_of_def split: bind_splits)
    have "hold m ?e m \<le> 2" by (simp add: hold_def)
    then show ?thesis
      using run Inr m lm unref_held(1) [OF rdy, of m "ve_fuel env" "hold m ?e"] unref_held(2) [OF rdy0 s fuel, of no_holds m] fuel
      by (simp add: lookup_body_def vfs_cache_node_resolve_mounted_fs_def resolve_link_def held_ref)
  qed
qed

definition path_start :: "pstore \<Rightarrow> vpath \<Rightarrow> nat option \<Rightarrow> nat option \<Rightarrow> nat option" where
  "path_start st path root cwd = (case path_bytes st path of [] \<Rightarrow> cwd | c # _ \<Rightarrow> if c = 47 then root else cwd)"

lemma path_absolute_eq:
  assumes "path_wf st path"
  shows "vfs_path_absolute st path = Some (\<exists>s. path_bytes st path = 47 # s)"
proof (cases "path_bytes st path")
  case Nil
  then have "p_size path = 0"
    using length_path_bytes [OF assms] by (simp add: unat_eq_0)
  then show ?thesis
    using Nil by (simp add: vfs_path_absolute_def)
next
  case (Cons c s)
  then have "0 < p_size path"
    using length_path_bytes [OF assms] by (auto simp: word_less_nat_alt)
  then show ?thesis
    using get_str_wf [OF assms] Cons by (auto simp: vfs_path_absolute_def)
qed

text \<open>
  C9: looking up a path whose nodes are in the cache.  \<^verbatim>\<open>vfs_lookup\<close> starts at the root or at the current
  directory, as the path is absolute or not, and follows the components through the cache: the two dots,
  the children and the file systems mounted on the way.  It ends, returns the node that the components
  lead to and changes nothing in the cache but one reference more on that node: all the references taken on
  the way, also those on the path, are given back.  When a component lies below something that is not a directory the result is
  ENOENT and the cache is as before.
\<close>

theorem vfs_lookup_walks_cache:
  assumes "cache_inv {} v ext iext sext" and "names_ok v" and "lookup_room v ext" and "env_ready env v"
    and "whole_path (strings v) path" and "length (comps (path_bytes (strings v) path)) < ve_fuel env"
    and "path_start (strings v) path (Some root) cwd = Some s0" and "mounted_root (ve_fuel env) s0 v = Some s"
    and "walk (ve_fuel env) v s (comps (path_bytes (strings v) path)) = Some r"
  shows "case r of
      Inl _ \<Rightarrow> vfs_lookup env path (Some root) cwd v = Some (Inl ENOENT, v)
    | Inr m \<Rightarrow> \<exists>v'. vfs_lookup env path (Some root) cwd v = Some (Inr m, v')
        \<and> vfs_cache_node_ref (Some m) v = Some v' \<and> cache_inv {} v' (ext(m := Suc (ext m))) iext sext"
proof -
  have "vfs_path_absolute (strings v) path = Some (\<exists>t. path_bytes (strings v) path = 47 # t)"
    using assms(5) by (intro path_absolute_eq) (simp add: whole_path_def)
  moreover have "(if \<exists>t. path_bytes (strings v) path = 47 # t then Some root else cwd) = Some s0"
    using assms(7) by (auto simp: path_start_def split: list.splits if_splits)
  ultimately have run: "vfs_lookup env path (Some root) cwd v =
      Some (case r of Inr m \<Rightarrow> (Inr m, held (hold m no_holds) v) | Inl _ \<Rightarrow> (Inl ENOENT, v))"
    using lookup_body_walk [OF assms(1-6,8,9), of "lookup_path env 15" root]
    by (simp add: vfs_lookup_def lookup_from_def numeral_eq_Suc)
  show ?thesis
  proof (cases r)
    case (Inr m)
    then have m: "cnodes v m \<noteq> None"
      using walk_end assms(9) by (fastforce simp: inode_of_def split: bind_splits)
    then obtain x where x: "cnodes v m = Some x" by auto
    then have "length (c_children x) + ext m + 3 < 2 ^ 31"
      using assms(3) unfolding lookup_room_def by blast
    then have "ref_room v ext m"
      using x by (simp add: ref_room_def)
    then obtain v' where "vfs_cache_node_ref (Some m) v = Some v'" "cache_inv {} v' (ext(m := Suc (ext m))) iext sext"
      using ref_spec [OF assms(1)] by metis
    then show ?thesis
      using run Inr held_ref [OF m, of no_holds] by simp
  qed (use run in simp)
qed

text \<open>The path \<^verbatim>\<open>/a/..//a\<close> in the cache of the witnesses of \<^verbatim>\<open>Fs_Cache\<close>, whose node 2 is made a directory.\<close>

definition sample_tree :: vcache where
  "sample_tree = sample_cache\<lparr>
     inodes := (inodes sample_cache)(11 \<mapsto> \<lparr>i_type = DIRECTORY, i_sb = Some 5, i_op = True, i_private = None, i_header = None, i_cnodes = [2], i_refcnt = 1\<rparr>),
     strings := (strings sample_cache)(22 \<mapsto> \<lparr>ps_str = [47, 97, 47, 46, 46, 47, 47, 97], ps_size = 8, ps_refcnt = 1\<rparr>)\<rparr>"

definition sample_vfs_env :: vfs_env where
  "sample_vfs_env = \<lparr>ve_fuel = 4, ve_tmp = \<lambda>_. 30, ve_m1 = \<lambda>_. True, ve_m2 = \<lambda>_. True, ve_node = \<lambda>_. None,
     ve_lookup = \<lambda>_ _ v. Some (Inl ENOENT, v), ve_readlink = \<lambda>_ v. Some (Inl EINVAL, v),
     ve_read_inode = \<lambda>_ v. Some (Inl EINVAL, v)\<rparr>"

lemma sample_tree_inv: "cache_inv {} sample_tree sample_ext sample_iext (sample_sext(22 := 1))"
  unfolding cache_inv_def
proof (intro conjI)
  have u: "users {} (str_of (cnodes sample_tree)) b = (if b = 20 then {1} else if b = 21 then {2} else {})" for b
    using sample_users by (simp add: sample_tree_def)
  show "nodes_inv {} (cnodes sample_tree) sample_ext"
    using sample_inv by (simp add: sample_tree_def cache_inv_def)
  show "inodes_inv {} (ino_of (cnodes sample_tree)) (inodes sample_tree) sample_iext"
    by (auto simp: inodes_inv_def inode_ok_def counts_def sample_tree_def sample_cache_def sample_iext_def ino_of_def split: if_splits)
  show "strings_inv {} (str_of (cnodes sample_tree)) (strings sample_tree) (sample_sext(22 := 1))"
    unfolding strings_inv_def u by (auto simp: counts_def sample_tree_def sample_cache_def sample_sext_def split: if_splits)
qed

theorem vfs_lookup_walks_cache_witness:
  "\<exists>v'. vfs_lookup sample_vfs_env \<lparr>base_str = 22, p_offset = 0, p_size = 8\<rparr> (Some 1) None sample_tree = Some (Inr 2, v')
     \<and> vfs_cache_node_ref (Some 2) sample_tree = Some v'
     \<and> cache_inv {} v' (sample_ext(2 := Suc (sample_ext 2))) sample_iext (sample_sext(22 := 1))"
proof -
  let ?p = "\<lparr>base_str = 22, p_offset = 0, p_size = 8\<rparr>"
  have b: "path_bytes (strings sample_tree) ?p = [47, 97, 47, 46, 46, 47, 47, 97]"
    by (simp add: path_bytes_def base_bytes_def sample_tree_def)
  have c: "comps [47, 97, 47, 46, 46, 47, 47, 97] = [[97], [46, 46], [97]]"
    by (simp add: comps.simps Let_def)
  have "names_ok sample_tree" "lookup_room sample_tree sample_ext" "whole_path (strings sample_tree) ?p"
    by (auto simp: names_ok_def is_component_def lookup_room_def whole_path_def path_wf_def path_bytes_def rest_bytes_def base_bytes_def
        sample_tree_def sample_cache_def sample_ext_def split: if_splits)
  moreover have "30 \<notin> dom (strings sample_tree)"
    by (simp add: sample_tree_def sample_cache_def)
  then have "env_ready sample_vfs_env sample_tree"
    by (auto simp: env_ready_def sample_vfs_env_def)
  moreover have "path_start (strings sample_tree) ?p (Some 1) None = Some 1" "mounted_root 4 1 sample_tree = Some 1"
    "walk 4 sample_tree 1 [[97], [46, 46], [97]] = Some (Inr 2)"
    by code_simp+
  ultimately show ?thesis
    using vfs_lookup_walks_cache [OF sample_tree_inv, of sample_vfs_env ?p 1 None 1 1 "Inr 2"] b c
    by (simp add: sample_vfs_env_def)
qed

section \<open>Mounting and unmounting\<close>

text \<open>The allocations of a mount give new addresses, and the file system is registered.\<close>

definition mount_ready :: "mount_env \<Rightarrow> nat \<Rightarrow> nat \<Rightarrow> nat \<Rightarrow> byte list \<Rightarrow> vmounts \<Rightarrow> bool" where
  "mount_ready env sb i n filesystem s \<longleftrightarrow>
     me_sb env = Some sb \<and> me_inode env = Some i \<and> me_node env = Some n \<and> me_m1 env \<and> me_m2 env \<and> 0 < me_fuel env
   \<and> me_str env \<noteq> 0 \<and> strings (mt_cache s) (me_str env) = None \<and> cnodes (mt_cache s) n = None
   \<and> (case vfs_filesystem_get_fs filesystem s of Some (Some _) \<Rightarrow> True | _ \<Rightarrow> False)"

definition root_node :: "nat \<Rightarrow> nat \<Rightarrow> vfs_cache_node" where
  "root_node b i = \<lparr>c_name = \<lparr>base_str = b, p_offset = 0, p_size = 1\<rparr>, c_inode = Some i, c_parent = None, c_children = [],
     c_mountpoint = None, c_mounted = None, c_refcnt = 1\<rparr>"

definition root_inode :: "nat \<Rightarrow> nat \<Rightarrow> vfs_inode" where
  "root_inode sb n = \<lparr>i_type = DIRECTORY, i_sb = Some sb, i_op = True, i_private = None, i_header = None, i_cnodes = [n], i_refcnt = 1\<rparr>"

lemma create_root_node_spec:
  assumes "mount_ready env sb i n filesystem s"
  shows "create_root_node env sb (mt_cache s) = Some (Inr n, (mt_cache s)
     \<lparr>inodes := (inodes (mt_cache s))(i \<mapsto> root_inode sb n),
      cnodes := (cnodes (mt_cache s))(n \<mapsto> root_node (me_str env) i),
      strings := (strings (mt_cache s))(me_str env \<mapsto> \<lparr>ps_str = [46], ps_size = 1, ps_refcnt = 1\<rparr>)\<rparr>)"
proof -
  have "strncpy [0] [46, 0] (Suc 0) = Some [46]" by simp
  then show ?thesis
    using assms
    by (simp add: create_root_node_def mount_ready_def ramfs_inode_create_def set_inode_def vfs_path_init_def vfs_path_string_create_def
        copy_path_str_def refcount_init_def vfs_cache_node_create_def vfs_cache_node_init_def vfs_path_copy_init_def
        refcount_inc_def vfs_inode_ref_def vfs_inode_add_cnode_def set_cnode_def vfs_inode_unref_def refcount_dec_def
        vfs_path_reset_def vfs_path_string_destroy_def root_inode_def root_node_def)
qed

lemma mount_spec:
  assumes rdy: "mount_ready env sb i n filesystem s" and mp: "cnodes (mt_cache s) mp = Some z"
  shows "\<exists>s'. vfs_mount env None mp (Some d) filesystem s = Some (Inr (), s')
    \<and> cnodes (mt_cache s') = (cnodes (mt_cache s))(n \<mapsto> (root_node (me_str env) i)\<lparr>c_mountpoint := Some mp, c_refcnt := 2\<rparr>,
         mp \<mapsto> z\<lparr>c_mounted := Some n\<rparr>)
    \<and> inodes (mt_cache s') i = Some (root_inode sb n) \<and> superblocks s' sb = Some \<lparr>sb_device = None, sb_root = Some n, sb_data = Some d\<rparr>
    \<and> mounted_list s' = mounted_list s @ [sb]"
proof -
  obtain f where f: "me_fuel env = Suc f"
    using rdy by (cases "me_fuel env") (auto simp: mount_ready_def)
  have ne: "n \<noteq> mp" using rdy mp by (auto simp: mount_ready_def)
  obtain fs where "vfs_filesystem_get_fs filesystem s = Some (Some fs)"
    using rdy by (auto simp: mount_ready_def split: option.splits)
  then show ?thesis
    using create_root_node_spec [OF rdy] rdy mp ne f
    by (auto simp: vfs_mount_def get_superblock_def ramfs_superblock_create_def mount_ready_def vfs_superblock_init_def
        vfs_cache_node_ref_def refcount_inc_def set_cnode_def vfs_cache_node_unref_def refcount_dec_def root_node_def fun_upd_twist)
qed


definition sample_mounts :: vmounts where
  "sample_mounts = \<lparr>mt_cache = sample_cache, superblocks = Map.empty, mounted_list = [],
     filesystem_list = [[114, 97, 109, 102, 115, 0]]\<rparr>"

definition sample_mount_env :: mount_env where
  "sample_mount_env = \<lparr>me_fuel = 1, me_sb = Some 5, me_inode = Some 12, me_str = 30, me_m1 = True, me_m2 = True, me_node = Some 3\<rparr>"


end
