(* ===== verification/Vfs_Ramfs.thy ===== *)
theory Vfs_Ramfs
  imports Fs_Vfs
begin

text \<open>
  The virtual file system over ramfs: the inode operations of \<^verbatim>\<open>fs/ramfs/ramfs.c\<close> as the operations that
  the lookup of \<^verbatim>\<open>fs/vfs.c\<close> calls, and what happens to a name that is not in the cache yet.

  The locale \<open>inode_operations\<close> is what the lookup expects of a file system.  It is interpreted on ramfs.
\<close>

section \<open>The operations of ramfs on the inodes of the cache\<close>

text \<open>
  A mounted archive: the bound on the number of headers, the archive, and the allocations of a lookup, which may depend
  on the state of the cache.
\<close>

record ramfs_mount =
  rm_fuel :: nat
  rm_archive :: archive
  rm_alloc :: "vcache \<Rightarrow> ramfs_env"
  rm_inode :: "vcache \<Rightarrow> nat"

text \<open>The structure that encloses an inode; the operations below use its header only.\<close>

definition get_ramfs_inode :: "header option \<Rightarrow> ramfs_inode_info" where
  "get_ramfs_inode h = \<lparr>ri_header = h, ri_data = 0, ri_data_size = 0, ri_type = DIRECTORY, ri_size = 0, ri_dev = (0, 0)\<rparr>"

definition ramfs_inode_lookup :: "ramfs_mount \<Rightarrow> nat \<Rightarrow> vpath \<Rightarrow> vcache \<Rightarrow> (nat result \<times> vcache) option" where
  "ramfs_inode_lookup rm i name v = do {
     x \<leftarrow> inodes v i;
     (r, st) \<leftarrow> ramfs_lookup (rm_fuel rm) (rm_alloc rm v) (rm_archive rm) (get_ramfs_inode (i_header x)) name (strings v);
     let v = v\<lparr>strings := st\<rparr>;
     case r of
       Inl e \<Rightarrow> Some (Inl e, v)
     | Inr y \<Rightarrow> Some (Inr (rm_inode rm v), ramfs_inode_create (rm_inode rm v) (ri_header y) (i_sb x) v) }"

definition ramfs_inode_read :: "ramfs_mount \<Rightarrow> nat \<Rightarrow> vcache \<Rightarrow> (unit result \<times> vcache) option" where
  "ramfs_inode_read rm i v = do {
     x \<leftarrow> inodes v i;
     (r, y) \<leftarrow> ramfs_read_inode (rm_archive rm) (get_ramfs_inode (i_header x));
     case r of
       Inl e \<Rightarrow> Some (Inl e, v)
     | Inr _ \<Rightarrow> Some (Inr (), vfs_inode_init i (ri_type y) (i_sb x) True v) }"

definition ramfs_inode_readlink :: "ramfs_mount \<Rightarrow> nat \<Rightarrow> vcache \<Rightarrow> (vpath result \<times> vcache) option" where
  "ramfs_inode_readlink rm i v = do {
     x \<leftarrow> inodes v i;
     let env = rm_alloc rm v;
     (r, st) \<leftarrow> ramfs_readlink (ra_str env 0) True (ra_m1 env 0) (ra_m2 env 0) (rm_archive rm) (get_ramfs_inode (i_header x)) (strings v);
     Some (r, v\<lparr>strings := st\<rparr>) }"

definition ramfs_vfs_env :: "ramfs_mount \<Rightarrow> vfs_env \<Rightarrow> vfs_env" where
  "ramfs_vfs_env rm env = env\<lparr>ve_lookup := ramfs_inode_lookup rm, ve_readlink := ramfs_inode_readlink rm, ve_read_inode := ramfs_inode_read rm\<rparr>"

section \<open>What the lookup expects of a file system\<close>

text \<open>An inode that only the file system refers to.\<close>

definition unused_inode :: "vfs_inode \<Rightarrow> bool" where
  "unused_inode z \<longleftrightarrow> i_cnodes z = [] \<and> i_refcnt z = 1 \<and> i_op z"

text \<open>
  \<open>entry i b v\<close> is the inode that the entry \<open>b\<close> of the directory \<open>i\<close> gets, \<open>None\<close> if there is no such entry; \<open>ready i name v\<close>
  says when the operations may be called.
\<close>

locale inode_operations =
  fixes env :: vfs_env
    and ready :: "nat \<Rightarrow> vpath \<Rightarrow> vcache \<Rightarrow> bool"
    and entry :: "nat \<Rightarrow> byte list \<Rightarrow> vcache \<Rightarrow> vfs_inode option"
  assumes lookup_missing:
      "\<lbrakk> ready i name v; entry i (path_bytes (strings v) name) v = None \<rbrakk> \<Longrightarrow> ve_lookup env i name v = Some (Inl ENOENT, v)"
    and lookup_found:
      "\<lbrakk> ready i name v; entry i (path_bytes (strings v) name) v = Some z \<rbrakk> \<Longrightarrow>
         \<exists>j y. inodes v j = None \<and> i_sb y \<noteq> None \<and> ve_lookup env i name v = Some (Inr j, set_inode j y v)
           \<and> ve_read_inode env j (set_inode j y v) = Some (Inr (), set_inode j z v)"
    and entry_unused:
      "\<lbrakk> ready i name v; entry i (path_bytes (strings v) name) v = Some z \<rbrakk> \<Longrightarrow> unused_inode z"

text \<open>A new inode, before it has a node in the cache.\<close>

lemma cache_inv_new_inode:
  assumes inv: "cache_inv {} v ext iext sext" and j: "inodes v j = None" and z: "unused_inode z"
  shows "cache_inv {} (set_inode j z v) ext (iext(j := 1)) sext"
proof -
  have ins: "inodes_inv {} (ino_of (cnodes v)) (inodes v) iext"
    using inv by (simp add: cache_inv_def)
  have "inodes_inv {} (ino_of (cnodes v)) ((inodes v)(j \<mapsto> z)) (iext(j := 1))"
    using ins j z inodesD [OF ins]
    unfolding inodes_inv_def by (auto simp: unused_inode_def inode_ok_def counts_def) (metis option.distinct(1))+
  then show ?thesis
    using inv by (simp add: cache_inv_def set_inode_def)
qed

lemma set_inode_fields [simp]:
  "cnodes (set_inode j z v) = cnodes v" "strings (set_inode j z v) = strings v" "inodes (set_inode j z v) j = Some z"
  by (simp_all add: set_inode_def)

lemma set_inode_names [simp]: "child_named (set_inode j z v) = child_named v" "names_ok (set_inode j z v) = names_ok v"
proof -
  have "node_name (set_inode j z v) n = node_name v n" for n
    by (simp add: node_name_def split: option.split)
  then show "child_named (set_inode j z v) = child_named v"
    by (intro ext) (simp add: child_named_def split: option.split)
  show "names_ok (set_inode j z v) = names_ok v"
    by (simp add: names_ok_def)
qed

lemma env_readyD:
  assumes "env_ready env v" "strings w = strings v"
  shows "ve_m1 env w" "ve_m2 env w" "ve_tmp env w \<noteq> 0" "strings w (ve_tmp env w) = None"
proof -
  have "dom (strings w) = dom (strings v)"
    using assms(2) by simp
  then show "ve_m1 env w" "ve_m2 env w" "ve_tmp env w \<noteq> 0" "strings w (ve_tmp env w) = None"
    using assms(1) unfolding env_ready_def by blast+
qed

definition cache_room :: "vfs_env \<Rightarrow> vcache \<Rightarrow> (nat \<Rightarrow> nat) \<Rightarrow> (nat \<Rightarrow> nat) \<Rightarrow> nat \<Rightarrow> vpath \<Rightarrow> nat \<Rightarrow> bool" where
  "cache_room env v ext sext p name new \<longleftrightarrow>
     ref_room v ext p \<and> Suc (card (users {} (str_of (cnodes v)) (base_str name)) + sext (base_str name)) < 2 ^ 31
   \<and> cnodes v new = None \<and> (\<forall>v'. cnodes v' = cnodes v \<longrightarrow> ve_node env v' = Some new)"

context inode_operations
begin

lemma uncached_component:
  assumes inv: "cache_inv {} v ext iext sext" "names_ok v" and name: "is_component (strings v) name" and env: "env_ready env v"
    and b: "b = path_bytes (strings v) name" "b \<noteq> dot" "b \<noteq> dotdot"
    and p: "inode_of p v = Some (i, x)" "i_op x" "child_named v p b = None" and rdy: "ready i name v"
    and room: "cache_room env v ext sext p name new"
  shows "case entry i b v of
      None \<Rightarrow> lookup_component env p name v = Some (Inl ENOENT, v)
    | Some z \<Rightarrow> \<exists>j v'. inodes v j = None \<and> lookup_component env p name v = Some (Inr (Some new), v')
        \<and> cache_inv {} v' (ext(new := 1)) (iext(j := 1)) sext \<and> names_ok v'
        \<and> child_named v' p = (child_named v p)(b \<mapsto> new) \<and> (\<forall>q. q \<noteq> p \<longrightarrow> child_named v' q = child_named v q)
        \<and> inode_of new v' = Some (j, z\<lparr>i_refcnt := 2, i_cnodes := [new]\<rparr>)"
proof -
  have t: "strings w (ve_tmp env w) = None" "ve_tmp env w \<noteq> 0" "ve_m1 env w" "ve_m2 env w" "0 < ve_fuel env"
    if "strings w = strings v" for w
    using env env_readyD [OF env, of w] that by (simp_all add: env_ready_def)
  have pn: "cnodes v p \<noteq> None"
    using p(1) by (auto simp: inode_of_def split: bind_splits)
  have miss: "vfs_cache_node_lookup_child (ve_fuel env) (ve_tmp env v) (ve_m1 env v) (ve_m2 env v) (Some p) name v = Some (None, v)"
    using insert_lookup_cases(1) [OF inv name t(1,2,5) pn b p(3)] by simp
  show ?thesis
  proof (cases "entry i b v")
    case None
    then show ?thesis
      using miss lookup_missing [OF rdy] p b(1) by (simp add: lookup_component_def lookup_read_and_cache_inode_def)
  next
    case (Some z)
    then obtain j y where j: "inodes v j = None" "i_sb y \<noteq> None" "ve_lookup env i name v = Some (Inr j, set_inode j y v)"
      "ve_read_inode env j (set_inode j y v) = Some (Inr (), set_inode j z v)" and z: "unused_inode z"
      using lookup_found [OF rdy] entry_unused [OF rdy] b(1) by blast
    let ?w = "set_inode j z v"
    have inv': "cache_inv {} ?w ext (iext(j := 1)) sext" "names_ok ?w"
      using cache_inv_new_inode [OF inv(1) j(1) z] inv(2) by simp_all
    have new: "cnodes v new = None" "ve_node env ?w = Some new"
      using room by (simp_all add: cache_room_def)
    have "insert_room ?w ext (iext(j := 1)) sext p j name"
      using room z by (simp add: cache_room_def insert_room_def ref_room_def unused_inode_def)
    then obtain v' y' z' where v': "vfs_cache_node_insert_child (ve_fuel env) (ve_tmp env ?w) (ve_m1 env ?w) (ve_m2 env ?w) True new
          (Some p) (Some j) name True ?w = Some (Inr (Some new), v')"
      "cache_inv {} v' (ext(new := 1)) (iext(j := 1)) sext" "names_ok v'"
      "child_named v' p = (child_named v p)(b \<mapsto> new)" "\<forall>q. q \<noteq> p \<longrightarrow> child_named v' q = child_named v q"
      "cnodes v' new = Some y'" "c_inode y' = Some j" "inodes ?w j = Some z'"
      "inodes v' = (inodes ?w)(j \<mapsto> z'\<lparr>i_refcnt := i_refcnt z' + 1, i_cnodes := i_cnodes z' @ [new]\<rparr>)"
      using insert_lookup_cases(3) [OF inv', of name "ve_tmp env ?w" "ve_fuel env" p b new j "ve_m1 env ?w" "ve_m2 env ?w"]
        name t [of ?w] pn b p(3) new by auto
    have "inode_of new v' = Some (j, z\<lparr>i_refcnt := 2, i_cnodes := [new]\<rparr>)"
      using v'(6-9) z by (simp add: inode_of_def unused_inode_def)
    moreover obtain sb where "i_sb y = Some sb"
      using j(2) by auto
    ultimately show ?thesis
      using Some miss j v'(1-5) p new
      by (auto simp: lookup_component_def lookup_read_and_cache_inode_def vfs_read_and_cache_inode_def)
  qed
qed

end
section \<open>Ramfs\<close>

text \<open>The headers from \<open>fh\<close> on.\<close>

fun headers_from :: "nat \<Rightarrow> archive \<Rightarrow> header \<Rightarrow> header list" where
  "headers_from 0 ar fh = []"
| "headers_from (Suc fuel) ar fh =
     (if ustar_header_valid ar fh = Some True
      then fh # (case ustar_header_get_next_header ar fh of None \<Rightarrow> [] | Some fh \<Rightarrow> headers_from fuel ar fh)
      else [])"

definition headers_below :: "ramfs_mount \<Rightarrow> header option \<Rightarrow> header list" where
  "headers_below rm h =
     (case h of
        None \<Rightarrow> headers_from (rm_fuel rm) (rm_archive rm) 0
      | Some h \<Rightarrow> (case ustar_header_get_next_header (rm_archive rm) h of
                    None \<Rightarrow> [] | Some fh \<Rightarrow> headers_from (rm_fuel rm) (rm_archive rm) fh))"

text \<open>The archive is well formed below the directory, its types are supported, and the allocations of the lookup succeed.\<close>

definition ramfs_ready :: "ramfs_mount \<Rightarrow> nat \<Rightarrow> vpath \<Rightarrow> vcache \<Rightarrow> bool" where
  "ramfs_ready rm i name v \<longleftrightarrow>
     (case inodes v i of
        None \<Rightarrow> False
      | Some x \<Rightarrow>
          i_sb x \<noteq> None \<and> headers_after (rm_archive rm) (i_header x) (headers_below rm (i_header x))
        \<and> length (headers_below rm (i_header x)) < rm_fuel rm
        \<and> (\<forall>h\<in>set (headers_below rm (i_header x)).
             map_option fst (ramfs_read_inode (rm_archive rm) (get_ramfs_inode (Some h))) = Some (Inr ()))
        \<and> length (dir_name (rm_archive rm) (i_header x)) + Suc (length (path_bytes (strings v) name)) \<le> VFS_PATH_MAX_LEN)
   \<and> lookup_ready (rm_alloc rm v) (strings v) \<and> is_component (strings v) name \<and> inodes v (rm_inode rm v) = None"

text \<open>The header of an entry: the first one with the name of the directory and the name of the entry.\<close>

definition header_for :: "ramfs_mount \<Rightarrow> header option \<Rightarrow> byte list \<Rightarrow> header option" where
  "header_for rm dir b =
     find (\<lambda>h. comps (header_fullname (rm_archive rm) h) = comps (dir_name (rm_archive rm) dir) @ comps b) (headers_below rm dir)"

definition entry_inode :: "vfs_node_type \<Rightarrow> nat option \<Rightarrow> header \<Rightarrow> vfs_inode" where
  "entry_inode ty sb h = \<lparr>i_type = ty, i_sb = sb, i_op = True, i_private = None, i_header = Some h, i_cnodes = [], i_refcnt = 1\<rparr>"

definition ramfs_entry :: "ramfs_mount \<Rightarrow> nat \<Rightarrow> byte list \<Rightarrow> vcache \<Rightarrow> vfs_inode option" where
  "ramfs_entry rm i b v = do {
     x \<leftarrow> inodes v i;
     h \<leftarrow> header_for rm (i_header x) b;
     (_, y) \<leftarrow> ramfs_read_inode (rm_archive rm) (get_ramfs_inode (Some h));
     Some (entry_inode (ri_type y) (i_sb x) h) }"

lemma ramfs_lookup_cases:
  assumes rdy: "ramfs_ready rm i name v" and x: "inodes v i = Some x"
  shows "\<exists>r. ramfs_lookup (rm_fuel rm) (rm_alloc rm v) (rm_archive rm) (get_ramfs_inode (i_header x)) name (strings v) = Some (r, strings v)
    \<and> (case header_for rm (i_header x) (path_bytes (strings v) name) of
          None \<Rightarrow> r = Inl ENOENT
        | Some h \<Rightarrow> \<exists>n. field_number (rm_archive rm) h F_size = Some n \<and> r = Inr (new_inode (rm_archive rm) h n))"
  using lookup_spec [of "rm_archive rm" "get_ramfs_inode (i_header x)" "headers_below rm (i_header x)" "rm_fuel rm" "rm_alloc rm v"
      "strings v" name] rdy x
  by (simp add: ramfs_ready_def header_for_def get_ramfs_inode_def is_component_def)

lemma header_for_readable:
  assumes rdy: "ramfs_ready rm i name v" and x: "inodes v i = Some x" and h: "header_for rm (i_header x) b = Some h"
  shows "\<exists>y. ramfs_read_inode (rm_archive rm) (get_ramfs_inode (Some h)) = Some (Inr (), y)"
proof -
  have "h \<in> set (headers_below rm (i_header x))"
    using h by (auto simp: header_for_def find_Some_iff)
  then show ?thesis
    using rdy x by (auto simp: ramfs_ready_def)
qed

lemma ramfs_readyD:
  assumes "ramfs_ready rm i name v"
  shows "\<exists>x. inodes v i = Some x \<and> i_sb x \<noteq> None" and "inodes v (rm_inode rm v) = None"
  using assms by (auto simp: ramfs_ready_def split: option.splits)

lemma ramfs_entry_Some:
  assumes "ramfs_ready rm i name v" and "ramfs_entry rm i b v = Some z"
  shows "\<exists>x h y. inodes v i = Some x \<and> header_for rm (i_header x) b = Some h \<and> z = entry_inode (ri_type y) (i_sb x) h
    \<and> ramfs_read_inode (rm_archive rm) (get_ramfs_inode (Some h)) = Some (Inr (), y)"
  using assms(2) header_for_readable [OF assms(1)] by (fastforce simp: ramfs_entry_def split: bind_splits)

interpretation rf: inode_operations "ramfs_vfs_env rm env" "ramfs_ready rm" "ramfs_entry rm" for rm env
proof
  fix i name v
  assume rdy: "ramfs_ready rm i name v" and none: "ramfs_entry rm i (path_bytes (strings v) name) v = None"
  obtain x where x: "inodes v i = Some x"
    using ramfs_readyD(1) [OF rdy] by blast
  then have "header_for rm (i_header x) (path_bytes (strings v) name) = None"
    using none header_for_readable [OF rdy x] by (fastforce simp: ramfs_entry_def split: bind_splits)
  then show "ve_lookup (ramfs_vfs_env rm env) i name v = Some (Inl ENOENT, v)"
    using ramfs_lookup_cases [OF rdy x] x by (auto simp: ramfs_vfs_env_def ramfs_inode_lookup_def)
next
  fix i name v z
  assume rdy: "ramfs_ready rm i name v" and some: "ramfs_entry rm i (path_bytes (strings v) name) v = Some z"
  obtain x h y where x: "inodes v i = Some x" and h: "header_for rm (i_header x) (path_bytes (strings v) name) = Some h"
    "ramfs_read_inode (rm_archive rm) (get_ramfs_inode (Some h)) = Some (Inr (), y)" and z: "z = entry_inode (ri_type y) (i_sb x) h"
    using ramfs_entry_Some [OF rdy some] by blast
  show "unused_inode z"
    by (simp add: z entry_inode_def unused_inode_def)
  let ?j = "rm_inode rm v" and ?y = "entry_inode DIRECTORY (i_sb x) h"
  have "ve_lookup (ramfs_vfs_env rm env) i name v = Some (Inr ?j, set_inode ?j ?y v)"
    using ramfs_lookup_cases [OF rdy x] x h(1)
    by (auto simp: ramfs_vfs_env_def ramfs_inode_lookup_def new_inode_def ramfs_inode_create_def entry_inode_def refcount_init_def)
  moreover have "ve_read_inode (ramfs_vfs_env rm env) ?j (set_inode ?j ?y v) = Some (Inr (), set_inode ?j z v)"
    using h(2)
    by (simp add: ramfs_vfs_env_def ramfs_inode_read_def vfs_inode_init_def z entry_inode_def refcount_init_def) (simp add: set_inode_def)
  moreover have "i_sb ?y \<noteq> None" "inodes v ?j = None"
    using ramfs_readyD [OF rdy] x by (auto simp: entry_inode_def)
  ultimately show "\<exists>j y. inodes v j = None \<and> i_sb y \<noteq> None \<and> ve_lookup (ramfs_vfs_env rm env) i name v = Some (Inr j, set_inode j y v)
      \<and> ve_read_inode (ramfs_vfs_env rm env) j (set_inode j y v) = Some (Inr (), set_inode j z v)"
    by blast
qed


text \<open>
  The directory \<^verbatim>\<open>d/\<close> of the archive of \<^verbatim>\<open>Fs_Ramfs\<close>, which is node 2 of the cache, and its entry \<^verbatim>\<open>f\<close>.
\<close>

definition sample_ramfs_cache :: vcache where
  "sample_ramfs_cache = sample_cache\<lparr>
     inodes := (inodes sample_cache)(11 \<mapsto> \<lparr>i_type = DIRECTORY, i_sb = Some 5, i_op = True, i_private = None, i_header = Some 0,
       i_cnodes = [2], i_refcnt = 1\<rparr>),
     strings := (strings sample_cache)(22 \<mapsto> \<lparr>ps_str = [102], ps_size = 1, ps_refcnt = 1\<rparr>)\<rparr>"

definition sample_rm :: ramfs_mount where
  "sample_rm = \<lparr>rm_fuel = 2, rm_archive = sample_archive, rm_alloc = \<lambda>_. sample_env, rm_inode = \<lambda>_. 12\<rparr>"

definition sample_base_env :: vfs_env where
  "sample_base_env = sample_vfs_env\<lparr>ve_node := \<lambda>_. Some 3\<rparr>"

lemma sample_ramfs_inv: "cache_inv {} sample_ramfs_cache sample_ext sample_iext (sample_sext(22 := 1))"
  unfolding cache_inv_def
proof (intro conjI)
  have u: "users {} (str_of (cnodes sample_ramfs_cache)) b = (if b = 20 then {1} else if b = 21 then {2} else {})" for b
    using sample_users by (simp add: sample_ramfs_cache_def)
  show "nodes_inv {} (cnodes sample_ramfs_cache) sample_ext"
    using sample_inv by (simp add: sample_ramfs_cache_def cache_inv_def)
  show "inodes_inv {} (ino_of (cnodes sample_ramfs_cache)) (inodes sample_ramfs_cache) sample_iext"
    by (auto simp: inodes_inv_def inode_ok_def counts_def sample_ramfs_cache_def sample_cache_def sample_iext_def ino_of_def split: if_splits)
  show "strings_inv {} (str_of (cnodes sample_ramfs_cache)) (strings sample_ramfs_cache) (sample_sext(22 := 1))"
    unfolding strings_inv_def u by (auto simp: counts_def sample_ramfs_cache_def sample_cache_def sample_sext_def split: if_splits)
qed

lemma sample_strings:
  "path_bytes (strings sample_ramfs_cache) \<lparr>base_str = 22, p_offset = 0, p_size = 1\<rparr> = [102]"
  "is_component (strings sample_ramfs_cache) \<lparr>base_str = 22, p_offset = 0, p_size = 1\<rparr>"
  "names_ok sample_ramfs_cache" "child_named sample_ramfs_cache 2 [102] = None"
  by (auto simp: path_bytes_def is_component_def names_ok_def path_wf_def base_bytes_def child_named_def sample_ramfs_cache_def
      sample_cache_def split: if_splits)

lemma sample_read_inode:
  "\<exists>y. ramfs_read_inode sample_archive (get_ramfs_inode (Some 512)) = Some (Inr (), y) \<and> ri_type y = REGULAR"
proof -
  have "ustar_header sample_archive 512 F_size = 51 # 0 # drop (512 + 126) sample_archive"
    "ustar_header sample_archive 512 F_typeflag = 48 # drop (512 + 157) sample_archive"
    by (simp_all add: sample_archive_defs)
  then show ?thesis
    using octal_digit [of 51 "drop (512 + 126) sample_archive" 10]
    by (simp add: ramfs_read_inode_def get_ramfs_inode_def ustar2vfs_type_def ustar_header_is_device_def)
qed

lemma sample_below: "headers_below sample_rm (Some 0) = [512]"
  by (simp add: headers_below_def sample_rm_def sample_next sample_valid numeral_2_eq_2)

lemma sample_entry: "ramfs_entry sample_rm 11 [102] sample_ramfs_cache = Some (entry_inode REGULAR (Some 5) 512)"
proof -
  have "comps [100, 47, 102] = [[100], [102]]" "comps [100, 47] = [[100]]" "comps [102] = [[102]]"
    by (simp_all add: comps.simps Let_def)
  then have "header_for sample_rm (Some 0) [102] = Some 512"
    using sample_below sample_headers by (simp add: header_for_def) (simp add: sample_rm_def)
  then show ?thesis
    using sample_read_inode by (auto simp: ramfs_entry_def sample_ramfs_cache_def sample_rm_def)
qed

lemma sample_ramfs_ready: "ramfs_ready sample_rm 11 \<lparr>base_str = 22, p_offset = 0, p_size = 1\<rparr> sample_ramfs_cache"
proof -
  have "lookup_ready sample_env (strings sample_ramfs_cache)"
    by (auto simp: lookup_ready_def fresh_env_def live_def sample_env_def sample_ramfs_cache_def sample_cache_def split: if_splits)
  moreover have "rm_archive sample_rm = sample_archive" "rm_alloc sample_rm v = sample_env" "rm_fuel sample_rm = 2" "rm_inode sample_rm v = 12"
    "inodes sample_ramfs_cache 12 = None" for v
    by (simp_all add: sample_rm_def sample_ramfs_cache_def sample_cache_def)
  moreover have "\<exists>x. inodes sample_ramfs_cache 11 = Some x \<and> i_header x = Some 0 \<and> i_sb x = Some 5"
    by (simp add: sample_ramfs_cache_def)
  ultimately show ?thesis
    using sample_below sample_headers(1,2) sample_read_inode sample_strings(1,2) by (auto simp: ramfs_ready_def)
qed


end
