(* ===== verification/Spec2Isabelle.thy ===== *)
theory Spec2Isabelle
  imports Prelude Libk_List Libk_Deque Libk_String Mm_Memory Fs_Path Kernel_Time Kernel_Sched Sched_Inv Sched_Ops Sched_Props Fs_Pipe Fs_Tty Kernel_Kmalloc
    X86_Paging X86_Space Mm_Vmm Vmm_Props Mm_Uaccess Fs_Cache Fs_File Fs_Desc X86_Context Kernel_Signal Kernel_Process Process_Props Signal_Delivery Fs_Ramfs Fs_Vfs Vfs_Ramfs
begin

text \<open>
  A verification development for dummyOS, a small Unix-like kernel in C (x86 and ARM).  All paths are relative to \<^verbatim>\<open>src/\<close>.


  \<^bold>\<open>The program.\<close>  At the bottom, \<^verbatim>\<open>libk\<close> and \<^verbatim>\<open>include/libk\<close> give the kernel lists, a ring buffer, strings and
  reference counts.  Physical memory is a list of page frames (\<^verbatim>\<open>kernel/mm/memory.c\<close>), from which the
  kernel heap (\<^verbatim>\<open>kernel/kheap.c\<close>, \<^verbatim>\<open>kernel/kmalloc.c\<close>), the page tables (\<^verbatim>\<open>arch/x86/mm\<close>) and the regions of virtual
  memory (\<^verbatim>\<open>kernel/mm\<close>) take their pages.  Threads are run by a priority scheduler with wait queues, semaphores, timers and a
  reaper (\<^verbatim>\<open>kernel/thread.c\<close>, \<^verbatim>\<open>kernel/sched\<close>, \<^verbatim>\<open>kernel/locking\<close>, \<^verbatim>\<open>kernel/time\<close>).  Processes own threads, an address space, a
  table of open files and a signal manager (\<^verbatim>\<open>kernel/process.c\<close>, \<^verbatim>\<open>fork.c\<close>, \<^verbatim>\<open>exit.c\<close>, \<^verbatim>\<open>sys.c\<close>, \<^verbatim>\<open>signal.c\<close>).  The file
  system layer (\<^verbatim>\<open>fs\<close>) has paths, a cache of nodes and inodes, lookup and mounts, open files, pipes, terminals and the
  read-only ramfs.

  \<^bold>\<open>Conventions.\<close>
  \<^item> A C function that returns 0 or a negated error code has the result type \<open>'a result = errno + 'a\<close>.
  \<^item> \<open>None\<close> is what the code must not do: a failed \<^verbatim>\<open>kassert\<close>, a null or freed object, an access outside an object,
    undefined arithmetic, or an exhausted fuel.  A theorem that an operation yields \<open>Some\<close> therefore says that none of these happens.
  \<^item> Objects that are allocated and freed live in maps from addresses; the outcome of \<^verbatim>\<open>kmalloc\<close>, the address or the failure, is an
    argument, so that each theorem covers every outcome it does not exclude.
  \<^item> Machine integers are words or integers with the reduction to their width written out.
  \<^item> An operation that has to wait returns \<open>Block\<close> with its state, and a \<open>_resume\<close> function continues it.  Kernel code is not
    preempted, so the code between two such points is one step; the masking of interrupts, the mutexes and the log output in such a
    step are left out.

  \<^bold>\<open>Library.\<close>
  \<^item> \<^verbatim>\<open>Prelude\<close>: error numbers (\<^verbatim>\<open>include/dummyos/errno.h\<close>), word types, the alignment macros of \<^verbatim>\<open>include/libk/utils.h\<close>
    and \<^verbatim>\<open>include/kernel/mm/memory.h\<close> with their arithmetic.
  \<^item> \<^verbatim>\<open>Libk_List\<close>: \<^verbatim>\<open>include/libk/list.h\<close> on a heap of nodes.  Every operation refines the one on HOL lists and leaves other lists
    alone.  The locale \<open>node_lists\<close> is the contract that the users of lists rely on, interpreted on these operations.
  \<^item> \<^verbatim>\<open>Libk_Deque\<close>: \<^verbatim>\<open>include/libk/deque.h\<close>; the operations refine a bounded byte sequence.  The locale \<open>byte_queue\<close> is the contract
    used by pipes and terminals, interpreted on the ring buffer.
  \<^item> \<^verbatim>\<open>Libk_String\<close>: \<^verbatim>\<open>libk/*.c\<close>: memory and string functions, \<^verbatim>\<open>strtol\<close>, \<^verbatim>\<open>vsnprintf\<close>, \<^verbatim>\<open>refcount.c\<close>.  What each returns,
    that \<^verbatim>\<open>vsnprintf\<close> stays inside its buffer, and that printed numbers are parsed back.

  \<^bold>\<open>Memory.\<close>
  \<^item> \<^verbatim>\<open>Mm_Memory\<close>: \<^verbatim>\<open>kernel/mm/memory.c\<close>, \<^verbatim>\<open>kernel/kernel_image.c\<close>.  Initialisation builds two disjoint frame lists that avoid
    everything reserved; allocation and release are correct.  The locale \<open>frame_allocator\<close> is the contract of the page frames that heap and
    paging use, interpreted on \<^verbatim>\<open>memory_page_frame_alloc\<close> and \<^verbatim>\<open>memory_page_frame_free\<close>.
  \<^item> \<^verbatim>\<open>Kernel_Kmalloc\<close>: the heap as a list of blocks; \<^verbatim>\<open>kmalloc\<close> and \<^verbatim>\<open>kfree\<close> keep it well formed and return what they promise.
  \<^item> \<^verbatim>\<open>X86_Paging\<close> and \<^verbatim>\<open>X86_Space\<close>: \<^verbatim>\<open>arch/x86/mm/paging.c\<close>, \<^verbatim>\<open>vmm.c\<close>, with every access to a table translated as the
    processor does; mapping, creation and copy-on-write cloning of address spaces, specified by the entry found for each address.
  \<^item> \<^verbatim>\<open>Mm_Vmm\<close> and \<^verbatim>\<open>Vmm_Props\<close>: \<^verbatim>\<open>kernel/mm/region.c\<close>, \<^verbatim>\<open>mapping.c\<close>, \<^verbatim>\<open>vmm.c\<close>; user mappings are created completely or not at all.
  \<^item> \<^verbatim>\<open>Mm_Uaccess\<close>: \<^verbatim>\<open>kernel/mm/uaccess.c\<close>; copies from and to user memory stop exactly at the first byte that is not mapped.

  \<^bold>\<open>Threads and time.\<close>
  \<^item> \<^verbatim>\<open>Kernel_Time\<close>: \<^verbatim>\<open>include/kernel/time/time.h\<close>, \<^verbatim>\<open>kernel/time/time.c\<close>; when the arithmetic is exact.
  \<^item> \<^verbatim>\<open>Kernel_Sched\<close> has the record \<open>sched\<close> and the operations of \<^verbatim>\<open>kernel/thread.c\<close>, \<^verbatim>\<open>kernel/sched/*.c\<close>, \<^verbatim>\<open>kernel/locking/semaphore.c\<close>
    and \<^verbatim>\<open>kernel/time/*.c\<close>; \<^verbatim>\<open>Sched_Inv\<close> and \<^verbatim>\<open>Sched_Ops\<close> show that they keep the invariant (one place per thread, reference counts equal to
    owners), with \<open>sched_step\<close> as the step relation; \<^verbatim>\<open>Sched_Props\<close> has reachability, progress, round robin, sleeping and semaphores.

  \<^bold>\<open>Processes and signals.\<close>
  \<^item> \<^verbatim>\<open>X86_Context\<close>: \<^verbatim>\<open>arch/x86/cpu_context.c\<close> on the words of a kernel stack.
  \<^item> \<^verbatim>\<open>Kernel_Signal\<close>: the signal manager of \<^verbatim>\<open>kernel/signal.c\<close>; \<^verbatim>\<open>SIGKILL\<close> and \<^verbatim>\<open>SIGSTOP\<close> keep their default action.
  \<^item> \<^verbatim>\<open>Signal_Delivery\<close>: running a handler and returning from it restores the interrupted context, mask and stack.
  \<^item> \<^verbatim>\<open>Kernel_Process\<close> and \<^verbatim>\<open>Process_Props\<close>: \<^verbatim>\<open>kernel/process.c\<close>, \<^verbatim>\<open>fork.c\<close>, \<^verbatim>\<open>exit.c\<close>, \<^verbatim>\<open>sys.c\<close>.  The record \<open>kernel\<close>
    extends \<open>sched\<close> with processes, files and virtual memory.  Process numbers, groups and sessions in all reachable states, and
    what a waiting parent gets.

  \<^bold>\<open>Files.\<close>
  \<^item> \<^verbatim>\<open>Fs_Path\<close>: \<^verbatim>\<open>fs/path.c\<close>; comparison, iteration, base and directory name against the list of components.
  \<^item> \<^verbatim>\<open>Fs_Pipe\<close>: \<^verbatim>\<open>fs/pipe.c\<close>; a bounded byte stream with all outcomes of reads and writes.
  \<^item> \<^verbatim>\<open>Fs_Tty\<close>: \<^verbatim>\<open>fs/tty.c\<close>; line editing and reading.
  \<^item> \<^verbatim>\<open>Fs_Cache\<close>: \<^verbatim>\<open>fs/inode.c\<close>, \<^verbatim>\<open>fs/cache_node.c\<close>; reference counts stay in balance, insertion and lookup agree.
  \<^item> \<^verbatim>\<open>Fs_File\<close> and \<^verbatim>\<open>Fs_Desc\<close>: \<^verbatim>\<open>fs/file.c\<close>, descriptors of \<^verbatim>\<open>kernel/process.c\<close> and \<^verbatim>\<open>fs/io.c\<close>, \<^verbatim>\<open>sys_pipe\<close>; the counts of open files,
    pipe ends and nodes under close, dup and pipe.
  \<^item> \<^verbatim>\<open>Fs_Ramfs\<close>: \<^verbatim>\<open>fs/ramfs/ramfs.c\<close> on the bytes of a UStar archive; a lookup finds the first matching header, reads return the contents.
  \<^item> \<^verbatim>\<open>Fs_Vfs\<close>: \<^verbatim>\<open>fs/vfs.c\<close>, \<^verbatim>\<open>fs/filesystem.c\<close>, \<^verbatim>\<open>fs/superblock.c\<close>; a lookup of a cached path follows its components, through mounts, and leaves
    one reference; mounting, and what unmounting does.
  \<^item> \<^verbatim>\<open>Vfs_Ramfs\<close>: the locale \<open>inode_operations\<close> is what the lookup expects of the operations of a file system, interpreted on those of ramfs; a name that
    is not cached is found in the archive and cached.

  \<^bold>\<open>Bounds and fuel.\<close>  Loops over data that may not end carry fuel, and the theorems state how much is enough: as
  many steps as there are nodes for the destruction of cache nodes, one more than the components of a path for the comparison
  and the lookup of paths, one more than the headers for a lookup in ramfs, as many as blocks for the heap, as pages for ranges of
  pages.  The recursion of \<^verbatim>\<open>vfs_lookup\<close> has the 16 levels of the code.  The only loop shown not to end is that
  of \<^verbatim>\<open>init_frames\<close> for a page at the end of an area.  Reference counts are 32-bit; theorems on them assume less than \<open>2 ^ 31\<close> references.

  \<^bold>\<open>Not modelled.\<close>
  \<^item> Loading programs (\<^verbatim>\<open>kernel/exec.c\<close>, \<^verbatim>\<open>fs/binfmt_elf.c\<close>, \<^verbatim>\<open>kernel/init.c\<close>): \<^verbatim>\<open>process_exec\<close> is modelled from the loaded image on; the loader
    interprets ELF headers that it reads through open files.
  \<^item> \<^verbatim>\<open>vfs_open\<close> and \<^verbatim>\<open>vfs_cache_node_open\<close>, \<^verbatim>\<open>ramfs_readdir\<close> and the calls of \<^verbatim>\<open>fs/io.c\<close> that only pass a descriptor on to the operation of its
    file (read, write, lseek, getdents, ioctl); devices and file status (\<^verbatim>\<open>fs/device.c\<close>, \<^verbatim>\<open>fs/chardev.c\<close>, \<^verbatim>\<open>fs/stat.c\<close>): tables that drivers fill in.
  \<^item> The ARM port (\<^verbatim>\<open>arch/arm\<close>): a second implementation of the interfaces that the x86 port implements.
  \<^item> Interrupt controllers, descriptor tables, exceptions, timers and consoles of the machine (\<^verbatim>\<open>arch/x86\<close> outside of \<^verbatim>\<open>mm\<close> and the contexts),
    the assembly of the system call entry and its table, the log, and the order of initialisation (\<^verbatim>\<open>kernel/kernel.c\<close>): accesses to devices and
    registers without a state of their own.
  \<^item> Caches of the processor: translations are not cached in the model.
\<close>

end
